(* ===== verification/Hiactor_Prelude.thy ===== *)
theory Hiactor_Prelude
  imports Main "HOL-Library.Word"
begin

text \<open>
  Shared vocabulary of the development: machine integers, the faults a C++ statement can
  run into, the result type of fallible code with its sequencing operator, raw memory
  (a list of cells) with bounds-checked block copies, and the list facts that the component
  theories use.
\<close>

section \<open>Machine integers\<close>

type_synonym byte = "8 word"
type_synonym u16 = "16 word"
type_synonym u32 = "32 word"
type_synonym u64 = "64 word"

section \<open>Faults and fallible results\<close>

text \<open>
  What a statement of the program can do instead of returning: fail an \<open>assert\<close>, touch
  memory outside the object, follow a pointer that is null or whose object is gone, use storage
  whose object was never constructed, take an object for one of another type, divide by zero, leave the
  range of a signed integer, or throw.
\<close>

datatype fault =
    Assert_failed
  | Out_of_bounds
  | Null_deref
  | Uninitialised
  | Bad_cast
  | Division_by_zero
  | Signed_overflow
  | Thrown string

type_synonym 'a res = "fault + 'a"

definition bind_res :: "'a res \<Rightarrow> ('a \<Rightarrow> 'b res) \<Rightarrow> 'b res" where
  "bind_res m f = (case m of Inl e \<Rightarrow> Inl e | Inr x \<Rightarrow> f x)"

definition assert_res :: "bool \<Rightarrow> 'a res \<Rightarrow> 'a res" where
  "assert_res b m = (if b then m else Inl Assert_failed)"

lemma bind_res_simps [simp]:
  "bind_res (Inl e) f = Inl e"
  "bind_res (Inr x) f = f x"
  by (simp_all add: bind_res_def)

lemma bind_res_Inr_iff: "bind_res m f = Inr y \<longleftrightarrow> (\<exists>x. m = Inr x \<and> f x = Inr y)"
  by (cases m) auto

lemma bind_res_Inl_iff:
  "bind_res m f = Inl e \<longleftrightarrow> m = Inl e \<or> (\<exists>x. m = Inr x \<and> f x = Inl e)"
  by (cases m) auto

lemma assert_res_simps [simp]:
  "assert_res True m = m"
  "assert_res False m = Inl Assert_failed"
  by (simp_all add: assert_res_def)

lemma assert_res_Inr_iff: "assert_res b m = Inr y \<longleftrightarrow> b \<and> m = Inr y"
  by (cases b) auto

text \<open>Code that can fail and can also fail to return: \<open>None\<close> is a run that never ends.\<close>

definition bind_run :: "'a res option \<Rightarrow> ('a \<Rightarrow> 'b res option) \<Rightarrow> 'b res option" where
  "bind_run m f = (case m of None \<Rightarrow> None | Some (Inl e) \<Rightarrow> Some (Inl e) | Some (Inr x) \<Rightarrow> f x)"

lemma bind_run_simps [simp]:
  "bind_run None f = None"
  "bind_run (Some (Inl e)) f = Some (Inl e)"
  "bind_run (Some (Inr x)) f = f x"
  by (simp_all add: bind_run_def)

lemma bind_resE: "bind_res m f = Inr y \<Longrightarrow> (\<And>x. m = Inr x \<Longrightarrow> f x = Inr y \<Longrightarrow> R) \<Longrightarrow> R"
  by (auto simp: bind_res_Inr_iff)

lemma bind_runE: "bind_run m f = Some (Inr y) \<Longrightarrow> (\<And>x. m = Some (Inr x) \<Longrightarrow> f x = Some (Inr y) \<Longrightarrow> R) \<Longrightarrow> R"
  by (auto simp: bind_run_def split: option.split_asm sum.split_asm)

lemma bind_run_mono [partial_function_mono]:
  assumes "mono_option B" and "\<And>y. mono_option (\<lambda>f. C y f)"
  shows "mono_option (\<lambda>f. bind_run (B f) (\<lambda>y. C y f))"
proof -
  have "bind_run m k = Option.bind m (\<lambda>r. case r of Inl e \<Rightarrow> Some (Inl e) | Inr x \<Rightarrow> k x)"
    for m :: "'c res option" and k :: "'c \<Rightarrow> 'd res option"
    by (simp add: bind_run_def split: option.splits sum.splits)
  moreover have "mono_option (\<lambda>f. Option.bind (B f)
      (\<lambda>r. case r of Inl e \<Rightarrow> Some (Inl e) | Inr x \<Rightarrow> C x f))"
  proof (rule bind_mono [OF assms(1)])
    show "mono_option (\<lambda>f. case r of Inl e \<Rightarrow> Some (Inl e) | Inr x \<Rightarrow> C x f)" for r
      using assms(2) by (cases r) (simp_all add: option.const_mono)
  qed
  ultimately show ?thesis by simp
qed

text \<open>A loop over a list whose body can fail stops at the first fault.\<close>

fun fold_res :: "('a \<Rightarrow> 's \<Rightarrow> 's res) \<Rightarrow> 'a list \<Rightarrow> 's \<Rightarrow> 's res" where
  "fold_res f [] s = Inr s"
| "fold_res f (x # xs) s = bind_res (f x s) (fold_res f xs)"

lemma fold_res_append: "fold_res f (xs @ ys) s = bind_res (fold_res f xs s) (fold_res f ys)"
  by (induction xs arbitrary: s) (auto simp: bind_res_def split: sum.splits)

section \<open>Raw memory\<close>

text \<open>
  A block of memory is the list of its cells. \<open>mem_store\<close> is \<open>memcpy\<close> into the block at an
  offset, \<open>mem_load\<close> is a read of a range; both fault when the range leaves the block.
\<close>

definition mem_store :: "nat \<Rightarrow> 'a list \<Rightarrow> 'a list \<Rightarrow> 'a list res" where
  "mem_store off bs mem =
     (if off + length bs \<le> length mem
      then Inr (take off mem @ bs @ drop (off + length bs) mem)
      else Inl Out_of_bounds)"

definition mem_load :: "nat \<Rightarrow> nat \<Rightarrow> 'a list \<Rightarrow> 'a list res" where
  "mem_load off n mem =
     (if off + n \<le> length mem then Inr (take n (drop off mem)) else Inl Out_of_bounds)"

named_theorems mem_simps \<open>facts about block reads and writes\<close>

lemma mem_store_ok: "off + length bs \<le> length mem \<Longrightarrow>
    mem_store off bs mem = Inr (take off mem @ bs @ drop (off + length bs) mem)"
  by (simp add: mem_store_def)

lemma mem_load_ok [mem_simps]: "off + n \<le> length mem \<Longrightarrow>
    mem_load off n mem = Inr (take n (drop off mem))"
  by (simp add: mem_load_def)

lemma mem_store_length: "mem_store off bs mem = Inr mem' \<Longrightarrow> length mem' = length mem"
  by (auto simp: mem_store_def split: if_splits)

lemma mem_store_Inr_iff:
  "mem_store off bs mem = Inr mem' \<longleftrightarrow>
     off + length bs \<le> length mem \<and> mem' = take off mem @ bs @ drop (off + length bs) mem"
  by (auto simp: mem_store_def)

lemma mem_load_Inr_iff:
  "mem_load off n mem = Inr bs \<longleftrightarrow> off + n \<le> length mem \<and> bs = take n (drop off mem)"
  by (auto simp: mem_load_def)

lemma mem_load_store_same:
  assumes "mem_store off bs mem = Inr mem'"
  shows "mem_load off (length bs) mem' = Inr bs"
  using assms by (auto simp: mem_store_Inr_iff mem_load_Inr_iff)

lemma mem_load_store_below:
  assumes "mem_store off bs mem = Inr mem'" and "p + n \<le> off"
  shows "mem_load p n mem' = mem_load p n mem"
proof -
  have "length mem' = length mem" using assms(1) by (rule mem_store_length)
  moreover have "take n (drop p mem') = take n (drop p mem)"
    using assms by (auto simp: mem_store_Inr_iff drop_take min_def)
  ultimately show ?thesis by (simp add: mem_load_def)
qed

lemma mem_load_store_above:
  assumes "mem_store off bs mem = Inr mem'" and "off + length bs \<le> p"
  shows "mem_load p n mem' = mem_load p n mem"
proof -
  have "length mem' = length mem" using assms(1) by (rule mem_store_length)
  moreover have "drop p mem' = drop p mem"
    using assms by (auto simp: mem_store_Inr_iff)
  ultimately show ?thesis by (simp add: mem_load_def)
qed

lemma take_mem_store_below:
  "mem_store off bs mem = Inr mem' \<Longrightarrow> n \<le> off \<Longrightarrow> take n mem' = take n mem"
  by (auto simp: mem_store_Inr_iff min_def)

lemma take_mem_store_end:
  "mem_store off bs mem = Inr mem' \<Longrightarrow> take (off + length bs) mem' = take off mem @ bs"
  by (auto simp: mem_store_Inr_iff)

lemma mem_store_extend:
  assumes "mem_store (off + length pre) bs mem = Inr mem'" and "take (length pre) (drop off mem) = pre"
  shows "take (length pre + length bs) (drop off mem') = pre @ bs"
proof -
  from assms(1) have m: "mem' = take (off + length pre) mem @ bs @ drop (off + length pre + length bs) mem"
    and l: "off + length pre + length bs \<le> length mem" by (auto simp: mem_store_Inr_iff)
  have "drop off (take (off + length pre) mem) = pre" using assms(2) by (simp add: drop_take)
  with l show ?thesis by (simp add: m)
qed

section \<open>Generic list and word facts\<close>

lemma take_drop_shift: "take n (drop (a + b) xs) = take n (drop b (drop a xs))"
  by (simp add: add.commute)

lemma concat_split_nth:
  "i < length xss \<Longrightarrow> concat xss = concat (take i xss) @ xss ! i @ concat (drop (Suc i) xss)"
  by (metis concat.simps(2) concat_append id_take_nth_drop)

lemma nth_update_any: "j < length xs \<Longrightarrow> xs[i := x] ! j = (if j = i then x else xs ! j)"
  by (auto simp: nth_list_update)

lemma update_append_length [simp]: "(xs @ y # ys)[length xs := z] = xs @ z # ys"
  by (induction xs) auto

lemma unat_Suc_word:
  assumes "unat (w :: 'a::len word) < 2 ^ LENGTH('a) - 1"
  shows "unat (w + 1) = unat w + 1"
  using assms by (simp add: unat_word_ariths)

lemma unat_of_nat_u32 [simp]: "n < 4294967296 \<Longrightarrow> unat (word_of_nat n :: u32) = n"
  by (simp add: unat_of_nat)

lemma unat_u32_less [simp]: "unat (w :: u32) < 4294967296"
  using unsigned_less [of w] by simp

lemma unat_u8_less [simp]: "unat (w :: byte) < 256"
  using unsigned_less [of w] by simp

end
