(* ===== verification/Unaligned_Int.thy ===== *)
theory Unaligned_Int
  imports Hiactor_Prelude
begin

text \<open>
  Integers in raw memory (\<open>util/unaligned_int.hh\<close>). An integer of \<open>sizeof(T)\<close> bytes is copied
  to and from memory in the byte order of the machine, which is little-endian on the
  platforms the framework supports. \<open>nat_to_le\<close> and \<open>le_to_nat\<close> are that byte order;
  the three access functions of the header follow, with reads and writes outside the block as
  faults. The locale \<open>byte_codec\<close> is the contract of a fixed-width value representation, the
  interface the address, message and column-batch theories use.
\<close>

section \<open>Byte order\<close>

primrec nat_to_le :: "nat \<Rightarrow> nat \<Rightarrow> byte list" where
  "nat_to_le 0 v = []"
| "nat_to_le (Suc n) v = word_of_nat v # nat_to_le n (v div 256)"

fun le_to_nat :: "byte list \<Rightarrow> nat" where
  "le_to_nat [] = 0"
| "le_to_nat (b # bs) = unat b + 256 * le_to_nat bs"

lemma nat_to_le_numeral:
  "nat_to_le (numeral k) v = word_of_nat v # nat_to_le (pred_numeral k) (v div 256)"
  by (simp only: numeral_eq_Suc nat_to_le.simps)

lemma length_nat_to_le [simp]: "length (nat_to_le n v) = n"
  by (induction n arbitrary: v) auto

lemma unat_byte_of_nat [simp]: "unat (word_of_nat v :: byte) = v mod 256"
  by (simp add: unat_of_nat)

lemma le_to_nat_nat_to_le: "le_to_nat (nat_to_le n v) = v mod 256 ^ n"
proof (induction n arbitrary: v)
  case 0
  then show ?case by simp
next
  case (Suc n)
  have "v mod (256 * 256 ^ n) = v mod 256 + 256 * ((v div 256) mod 256 ^ n)"
    by (simp add: mod_mult2_eq)
  then show ?case by (simp add: Suc.IH)
qed

lemma le_to_nat_bound: "le_to_nat bs < 256 ^ length bs"
proof (induction bs)
  case Nil
  then show ?case by simp
next
  case (Cons b bs)
  have "unat b < 256" by simp
  moreover have "Suc (le_to_nat bs) \<le> 256 ^ length bs" using Cons.IH by simp
  then have "256 * Suc (le_to_nat bs) \<le> 256 * 256 ^ length bs"
    by (rule mult_le_mono2)
  then have "256 + 256 * le_to_nat bs \<le> 256 * 256 ^ length bs" by simp
  ultimately have "unat b + 256 * le_to_nat bs < 256 * 256 ^ length bs" by linarith
  then show ?case by simp
qed

lemma nat_to_le_le_to_nat: "nat_to_le (length bs) (le_to_nat bs) = bs"
proof (induction bs)
  case Nil
  then show ?case by simp
next
  case (Cons b bs)
  have "(unat b + 256 * le_to_nat bs) div 256 = le_to_nat bs"
    by (simp add: div_add1_eq)
  moreover have "(word_of_nat (unat b + 256 * le_to_nat bs) :: byte) = b"
    by (simp only: word_unat_eq_iff unat_of_nat) simp
  ultimately show ?case by (simp add: Cons.IH)
qed

lemma le_to_nat_inj: "length xs = length ys \<Longrightarrow> le_to_nat xs = le_to_nat ys \<Longrightarrow> xs = ys"
  by (metis nat_to_le_le_to_nat)

lemma nat_to_le_inj: "nat_to_le n v = nat_to_le n w \<Longrightarrow> v < 256 ^ n \<Longrightarrow> w < 256 ^ n \<Longrightarrow> v = w"
  by (metis le_to_nat_nat_to_le mod_less)

section \<open>The access functions\<close>

definition sizeof_int :: "'a::len word itself \<Rightarrow> nat" where
  "sizeof_int _ = LENGTH('a) div 8"

definition int_bytes :: "'a::len word \<Rightarrow> byte list" where
  "int_bytes v = nat_to_le (sizeof_int TYPE('a word)) (unat v)"

definition load_unaligned_int :: "nat \<Rightarrow> byte list \<Rightarrow> 'a::len word res" where
  "load_unaligned_int off mem =
     bind_res (mem_load off (sizeof_int TYPE('a word)) mem) (\<lambda>bs. Inr (word_of_nat (le_to_nat bs)))"

definition load_unaligned_int_partial :: "nat \<Rightarrow> nat \<Rightarrow> byte list \<Rightarrow> 'a::len word res" where
  "load_unaligned_int_partial off len mem =
     (if len \<le> sizeof_int TYPE('a word)
      then bind_res (mem_load off len mem) (\<lambda>bs. Inr (word_of_nat (le_to_nat bs)))
      else Inl Out_of_bounds)"

definition store_unaligned_int :: "nat \<Rightarrow> 'a::len word \<Rightarrow> byte list \<Rightarrow> byte list res" where
  "store_unaligned_int off v mem = mem_store off (int_bytes v) mem"

lemma sizeof_int_simps [simp]:
  "sizeof_int TYPE(8 word) = 1"
  "sizeof_int TYPE(16 word) = 2"
  "sizeof_int TYPE(32 word) = 4"
  "sizeof_int TYPE(64 word) = 8"
  by (simp_all add: sizeof_int_def)

lemma length_int_bytes [simp]: "length (int_bytes (v :: 'a::len word)) = sizeof_int TYPE('a word)"
  by (simp add: int_bytes_def)

lemma int_bytes_decode:
  assumes "8 dvd LENGTH('a::len)"
  shows "word_of_nat (le_to_nat (int_bytes (v :: 'a word))) = v"
proof -
  have "(256::nat) ^ (LENGTH('a) div 8) = 2 ^ (8 * (LENGTH('a) div 8))"
    by (simp add: power_mult)
  also have "\<dots> = 2 ^ LENGTH('a)" using assms by simp
  finally have "unat v mod 256 ^ (LENGTH('a) div 8) = unat v"
    by simp
  then show ?thesis
    by (simp add: int_bytes_def sizeof_int_def le_to_nat_nat_to_le)
qed

lemma int_bytes_inj:
  assumes "8 dvd LENGTH('a::len)" and "int_bytes (v :: 'a word) = int_bytes w"
  shows "v = w"
  using assms int_bytes_decode by metis

section \<open>Fixed-width codecs\<close>

locale byte_codec =
  fixes enc :: "'a \<Rightarrow> byte list" and dec :: "byte list \<Rightarrow> 'a" and width :: nat
  assumes enc_length: "length (enc x) = width"
    and dec_enc: "dec (enc x) = x"
begin

lemma enc_inject: "enc x = enc y \<longleftrightarrow> x = y"
  using dec_enc by metis

lemma store_then_load:
  assumes "mem_store off (enc x) mem = Inr mem'"
  shows "bind_res (mem_load off width mem') (\<lambda>bs. Inr (dec bs)) = Inr x"
  using mem_load_store_same [OF assms] by (simp add: enc_length dec_enc)

lemma nth_chunk:
  assumes "i < length xs"
  shows "take width (drop (i * width) (concat (map enc xs) @ ys)) = enc (xs ! i)"
  using assms
proof (induction xs arbitrary: i)
  case Nil
  then show ?case by simp
next
  case (Cons x xs)
  show ?case
  proof (cases i)
    case 0
    then show ?thesis by (simp add: enc_length)
  next
    case (Suc j)
    with Cons.IH [of j] Cons.prems show ?thesis by (simp add: enc_length)
  qed
qed

lemma length_concat_enc [simp]: "length (concat (map enc xs)) = width * length xs"
  by (induction xs) (auto simp: enc_length)

end

definition int_of_bytes :: "byte list \<Rightarrow> 'a::len word" where
  "int_of_bytes bs = word_of_nat (le_to_nat bs)"

interpretation codec8: byte_codec "int_bytes :: 8 word \<Rightarrow> byte list" int_of_bytes 1
  by unfold_locales (simp_all add: int_bytes_decode int_of_bytes_def)

interpretation codec16: byte_codec "int_bytes :: 16 word \<Rightarrow> byte list" int_of_bytes 2
  by unfold_locales (simp_all add: int_bytes_decode int_of_bytes_def)

interpretation codec32: byte_codec "int_bytes :: 32 word \<Rightarrow> byte list" int_of_bytes 4
  by unfold_locales (simp_all add: int_bytes_decode int_of_bytes_def)

interpretation codec64: byte_codec "int_bytes :: 64 word \<Rightarrow> byte list" int_of_bytes 8
  by unfold_locales (simp_all add: int_bytes_decode int_of_bytes_def)

lemma load_store_int:
  assumes "8 dvd LENGTH('a::len)" and "store_unaligned_int off (v :: 'a word) mem = Inr mem'"
  shows "load_unaligned_int off mem' = Inr v"
  using mem_load_store_same [of off "int_bytes v" mem mem'] assms
  by (simp add: store_unaligned_int_def load_unaligned_int_def int_bytes_decode)

lemma load_partial_inject:
  assumes "load_unaligned_int_partial off n m = Inr (w :: 'a::len word)"
    and "load_unaligned_int_partial off n m' = Inr w"
    and "8 dvd LENGTH('a)"
  shows "mem_load off n m = mem_load off n m'"
proof -
  let ?b = "take n (drop off m)" and ?b' = "take n (drop off m')"
  from assms(1,2) have n: "n \<le> LENGTH('a) div 8"
    and l: "off + n \<le> length m" "off + n \<le> length m'"
    and eq: "(word_of_nat (le_to_nat ?b) :: 'a word) = word_of_nat (le_to_nat ?b')"
    by (auto simp: load_unaligned_int_partial_def sizeof_int_def mem_load_def split: if_splits)
  have len: "length ?b = n" "length ?b' = n" using l by auto
  have "(256::nat) ^ n = 2 ^ (8 * n)" by (simp add: power_mult)
  also have "\<dots> \<le> 2 ^ LENGTH('a)" using n assms(3) by (intro power_increasing) auto
  finally have "le_to_nat ?b < 2 ^ LENGTH('a)" "le_to_nat ?b' < 2 ^ LENGTH('a)"
    using le_to_nat_bound [of ?b] le_to_nat_bound [of ?b'] len by auto
  with eq have "le_to_nat ?b = le_to_nat ?b'"
    by (metis mod_less unat_of_nat)
  then have "?b = ?b'" using len by (intro le_to_nat_inj) auto
  with l show ?thesis by (simp add: mem_load_def)
qed

end
