(* ===== verification/Serializable_Queue.thy ===== *)
theory Serializable_Queue
  imports Hiactor_Prelude
begin

text \<open>
  The queue of byte buffers that carries a message payload (\<open>net/serializable_queue.hh\<close>): a
  fixed array of four buffers, and behind it a linked list of further four-buffer arrays. The
  list nodes live in an explicit heap, because \<open>head\<close>, \<open>tail\<close> and the \<open>next\<close> fields alias
  them. A \<open>seastar::temporary_buffer<char>\<close> is represented by its contents; a default
  constructed and a moved-from buffer are empty.

  The locale \<open>buffer_fifo\<close> is what the serialisation code relies on. The interpretation \<open>sq\<close>
  shows that the array-and-list structure implements it; \<open>sq_rep\<close> is the representation
  relation to the abstract list of buffers.
\<close>

section \<open>The fixed array\<close>

type_synonym tmpbuf = "byte list"

definition ARRAY_BUFFER_SIZE :: u32 where
  "ARRAY_BUFFER_SIZE = 4"

record tmpbuf_array =
  arr_size :: u32
  arr_cap :: u32
  arr_buffers :: "tmpbuf list"
  arr_cur_idx :: u32

definition tmpbuf_array_init :: tmpbuf_array where
  "tmpbuf_array_init =
     \<lparr>arr_size = 0, arr_cap = ARRAY_BUFFER_SIZE,
      arr_buffers = replicate (unat ARRAY_BUFFER_SIZE) [], arr_cur_idx = 0\<rparr>"

text \<open>The move constructor copies size and capacity and moves the buffers; \<open>cur_idx\<close> of the
  new array keeps its default 0, and the source keeps its own counters.\<close>

definition tmpbuf_array_move :: "tmpbuf_array \<Rightarrow> tmpbuf_array \<times> tmpbuf_array" where
  "tmpbuf_array_move other =
     (\<lparr>arr_size = arr_size other, arr_cap = arr_cap other,
       arr_buffers = arr_buffers other, arr_cur_idx = 0\<rparr>,
      other\<lparr>arr_buffers := map (\<lambda>_. []) (arr_buffers other)\<rparr>)"

definition arr_is_full :: "tmpbuf_array \<Rightarrow> bool" where
  "arr_is_full a \<longleftrightarrow> arr_size a = arr_cap a"

definition arr_empty :: "tmpbuf_array \<Rightarrow> bool" where
  "arr_empty a \<longleftrightarrow> arr_cur_idx a = arr_size a"

definition arr_push :: "tmpbuf \<Rightarrow> tmpbuf_array \<Rightarrow> tmpbuf_array res" where
  "arr_push buf a =
     (if unat (arr_size a) < length (arr_buffers a)
      then Inr (a\<lparr>arr_buffers := (arr_buffers a)[unat (arr_size a) := buf],
                  arr_size := arr_size a + 1\<rparr>)
      else Inl Out_of_bounds)"

definition arr_pop :: "tmpbuf_array \<Rightarrow> (tmpbuf \<times> tmpbuf_array) res" where
  "arr_pop a =
     (let tmp_idx = unat (arr_cur_idx a)
      in if tmp_idx < length (arr_buffers a)
         then Inr (arr_buffers a ! tmp_idx,
                   a\<lparr>arr_cur_idx := arr_cur_idx a + 1,
                     arr_buffers := (arr_buffers a)[tmp_idx := []]\<rparr>)
         else Inl Out_of_bounds)"

definition arr_peek :: "tmpbuf_array \<Rightarrow> tmpbuf res" where
  "arr_peek a =
     (if unat (arr_cur_idx a) < length (arr_buffers a)
      then Inr (arr_buffers a ! unat (arr_cur_idx a))
      else Inl Out_of_bounds)"

definition arr_get_buffer_size :: "tmpbuf_array \<Rightarrow> u32 res" where
  "arr_get_buffer_size a =
     fold_res
       (\<lambda>i total. if i < length (arr_buffers a)
                  then Inr (total + word_of_nat (length (arr_buffers a ! i)))
                  else Inl Out_of_bounds)
       [unat (arr_cur_idx a)..<unat (arr_size a)] 0"

section \<open>The linked list\<close>

type_synonym ptr = nat

record tmpbuf_list_node =
  buffer_array :: tmpbuf_array
  next_node :: "ptr option"

record node_heap =
  cells :: "ptr \<Rightarrow> tmpbuf_list_node option"
  heap_top :: ptr

definition empty_heap :: node_heap where
  "empty_heap = \<lparr>cells = Map.empty, heap_top = 0\<rparr>"

definition new_node :: "tmpbuf_list_node \<Rightarrow> node_heap \<Rightarrow> ptr \<times> node_heap" where
  "new_node n h =
     (heap_top h, h\<lparr>cells := (cells h)(heap_top h \<mapsto> n), heap_top := Suc (heap_top h)\<rparr>)"

definition deref :: "node_heap \<Rightarrow> ptr option \<Rightarrow> (ptr \<times> tmpbuf_list_node) res" where
  "deref h p =
     (case p of None \<Rightarrow> Inl Null_deref
      | Some a \<Rightarrow> (case cells h a of None \<Rightarrow> Inl Null_deref | Some n \<Rightarrow> Inr (a, n)))"

definition write_node :: "ptr \<Rightarrow> tmpbuf_list_node \<Rightarrow> node_heap \<Rightarrow> node_heap" where
  "write_node a n h = h\<lparr>cells := (cells h)(a \<mapsto> n)\<rparr>"

record tmpbuf_linked_list =
  node_count :: u32
  list_head :: "ptr option"
  list_tail :: "ptr option"

definition linked_list_init :: tmpbuf_linked_list where
  "linked_list_init = \<lparr>node_count = 0, list_head = None, list_tail = None\<rparr>"

text \<open>The move constructor takes over \<open>head\<close> and \<open>tail\<close>; \<open>node_count\<close> of the new list keeps
  its default 0.\<close>

definition linked_list_move :: "tmpbuf_linked_list \<Rightarrow> tmpbuf_linked_list \<times> tmpbuf_linked_list" where
  "linked_list_move other =
     (\<lparr>node_count = 0, list_head = list_head other, list_tail = list_tail other\<rparr>,
      other\<lparr>list_head := None, list_tail := None\<rparr>)"

definition list_push ::
    "tmpbuf \<Rightarrow> node_heap \<times> tmpbuf_linked_list \<Rightarrow> (node_heap \<times> tmpbuf_linked_list) res" where
  "list_push buf = (\<lambda>(h, l).
     bind_res
       (if node_count l = 0 then Inr True
        else bind_res (deref h (list_tail l)) (\<lambda>(_, t). Inr (arr_is_full (buffer_array t))))
       (\<lambda>need_node.
          if need_node then
            bind_res (arr_push buf tmpbuf_array_init) (\<lambda>arr.
              let (p, h1) = new_node \<lparr>buffer_array = arr, next_node = None\<rparr> h
              in if node_count l = 0
                 then Inr (h1, l\<lparr>list_head := Some p, list_tail := Some p,
                                 node_count := node_count l + 1\<rparr>)
                 else bind_res (deref h1 (list_tail l)) (\<lambda>(a, t).
                        Inr (write_node a (t\<lparr>next_node := Some p\<rparr>) h1,
                             l\<lparr>list_tail := Some p, node_count := node_count l + 1\<rparr>)))
          else
            bind_res (deref h (list_tail l)) (\<lambda>(a, t).
              bind_res (arr_push buf (buffer_array t)) (\<lambda>arr.
                Inr (write_node a (t\<lparr>buffer_array := arr\<rparr>) h, l)))))"

text \<open>The loops that walk the list end only when the list does: \<open>None\<close> is a loop that never
  returns.\<close>

partial_function (option) list_pop ::
    "node_heap \<Rightarrow> tmpbuf_linked_list \<Rightarrow> (tmpbuf \<times> node_heap \<times> tmpbuf_linked_list) res option" where
  "list_pop h l =
     (case list_head l of
        None \<Rightarrow> Some (Inr ([], h, l))
      | Some a \<Rightarrow>
          (case cells h a of
             None \<Rightarrow> Some (Inl Null_deref)
           | Some n \<Rightarrow>
               if \<not> arr_empty (buffer_array n)
               then Some (bind_res (arr_pop (buffer_array n)) (\<lambda>(b, arr).
                            Inr (b, write_node a (n\<lparr>buffer_array := arr\<rparr>) h, l)))
               else list_pop h (l\<lparr>node_count := node_count l - 1, list_head := next_node n\<rparr>)))"

declare list_pop.simps [code]

definition list_peek :: "node_heap \<Rightarrow> tmpbuf_linked_list \<Rightarrow> tmpbuf res" where
  "list_peek h l = bind_res (deref h (list_head l)) (\<lambda>(_, n). arr_peek (buffer_array n))"

partial_function (option) list_size_loop ::
    "node_heap \<Rightarrow> ptr option \<Rightarrow> u32 \<Rightarrow> u32 res option" where
  "list_size_loop h tmp total_size =
     (case tmp of
        None \<Rightarrow> Some (Inr total_size)
      | Some a \<Rightarrow>
          (case cells h a of
             None \<Rightarrow> Some (Inl Null_deref)
           | Some n \<Rightarrow>
               (case arr_get_buffer_size (buffer_array n) of
                  Inl e \<Rightarrow> Some (Inl e)
                | Inr s \<Rightarrow> list_size_loop h (next_node n) (total_size + s))))"

declare list_size_loop.simps [code]

definition list_get_buffer_size :: "node_heap \<Rightarrow> tmpbuf_linked_list \<Rightarrow> u32 res option" where
  "list_get_buffer_size h l = list_size_loop h (list_head l) 0"

text \<open>The destructor frees the nodes reachable from \<open>head\<close>.\<close>

partial_function (option) list_destroy_loop :: "node_heap \<Rightarrow> ptr option \<Rightarrow> node_heap res option" where
  "list_destroy_loop h cur =
     (case cur of
        None \<Rightarrow> Some (Inr h)
      | Some a \<Rightarrow>
          (case cells h a of
             None \<Rightarrow> Some (Inl Null_deref)
           | Some n \<Rightarrow> list_destroy_loop (h\<lparr>cells := (cells h)(a := None)\<rparr>) (next_node n)))"

declare list_destroy_loop.simps [code]

definition linked_list_destroy :: "node_heap \<Rightarrow> tmpbuf_linked_list \<Rightarrow> node_heap res option" where
  "linked_list_destroy h l = list_destroy_loop h (list_head l)"

section \<open>The queue\<close>

record serializable_queue =
  q_array :: tmpbuf_array
  q_list :: tmpbuf_linked_list
  q_size :: u32

type_synonym sq_state = "node_heap \<times> serializable_queue"

definition sq_init :: "node_heap \<Rightarrow> sq_state" where
  "sq_init h = (h, \<lparr>q_array = tmpbuf_array_init, q_list = linked_list_init, q_size = 0\<rparr>)"

definition sq_push :: "tmpbuf \<Rightarrow> sq_state \<Rightarrow> sq_state res" where
  "sq_push buf = (\<lambda>(h, q).
     let q1 = q\<lparr>q_size := q_size q + 1\<rparr>
     in if arr_is_full (q_array q1)
        then bind_res (list_push buf (h, q_list q1)) (\<lambda>(h', l). Inr (h', q1\<lparr>q_list := l\<rparr>))
        else bind_res (arr_push buf (q_array q1)) (\<lambda>a. Inr (h, q1\<lparr>q_array := a\<rparr>)))"

definition sq_peek :: "sq_state \<Rightarrow> tmpbuf res" where
  "sq_peek = (\<lambda>(h, q). if arr_empty (q_array q) then list_peek h (q_list q) else arr_peek (q_array q))"

definition sq_pop :: "sq_state \<Rightarrow> (tmpbuf \<times> sq_state) res option" where
  "sq_pop = (\<lambda>(h, q).
     let q1 = q\<lparr>q_size := q_size q - 1\<rparr>
     in if arr_empty (q_array q1)
        then map_option
               (\<lambda>r. bind_res r (\<lambda>(b, h', l). Inr (b, h', q1\<lparr>q_list := l\<rparr>)))
               (list_pop h (q_list q1))
        else Some (bind_res (arr_pop (q_array q1)) (\<lambda>(b, a). Inr (b, h, q1\<lparr>q_array := a\<rparr>))))"

definition sq_empty :: "sq_state \<Rightarrow> bool" where
  "sq_empty = (\<lambda>(h, q). q_size q = 0)"

definition sq_size :: "sq_state \<Rightarrow> u32" where
  "sq_size = (\<lambda>(h, q). q_size q)"

definition sq_get_buffer_size :: "sq_state \<Rightarrow> u32 res option" where
  "sq_get_buffer_size = (\<lambda>(h, q).
     map_option
       (\<lambda>r. bind_res (arr_get_buffer_size (q_array q)) (\<lambda>s. bind_res r (\<lambda>t. Inr (s + t))))
       (list_get_buffer_size h (q_list q)))"

text \<open>The implicitly declared move constructor moves member by member.\<close>

definition sq_move :: "sq_state \<Rightarrow> serializable_queue \<times> sq_state" where
  "sq_move = (\<lambda>(h, q).
     let (a, a') = tmpbuf_array_move (q_array q); (l, l') = linked_list_move (q_list q)
     in (\<lparr>q_array = a, q_list = l, q_size = q_size q\<rparr>, (h, q\<lparr>q_array := a', q_list := l'\<rparr>)))"

section \<open>Array facts\<close>

definition arr_contents :: "tmpbuf_array \<Rightarrow> tmpbuf list" where
  "arr_contents a = take (unat (arr_size a) - unat (arr_cur_idx a))
                      (drop (unat (arr_cur_idx a)) (arr_buffers a))"

definition arr_wf :: "tmpbuf_array \<Rightarrow> bool" where
  "arr_wf a \<longleftrightarrow> arr_cap a = 4 \<and> length (arr_buffers a) = 4 \<and>
     unat (arr_cur_idx a) \<le> unat (arr_size a) \<and> unat (arr_size a) \<le> 4"

lemma arr_wf_init [simp]: "arr_wf tmpbuf_array_init"
  by (simp add: arr_wf_def tmpbuf_array_init_def ARRAY_BUFFER_SIZE_def)

lemma arr_contents_init [simp]: "arr_contents tmpbuf_array_init = []"
  by (simp add: arr_contents_def tmpbuf_array_init_def)

lemma arr_init_not_full [simp]: "\<not> arr_is_full tmpbuf_array_init"
  by (simp add: arr_is_full_def tmpbuf_array_init_def ARRAY_BUFFER_SIZE_def)

lemma arr_empty_iff: "arr_wf a \<Longrightarrow> arr_empty a \<longleftrightarrow> arr_contents a = []"
  by (auto simp: arr_wf_def arr_empty_def arr_contents_def word_unat_eq_iff)

lemma arr_is_full_iff: "arr_wf a \<Longrightarrow> arr_is_full a \<longleftrightarrow> unat (arr_size a) = 4"
  by (auto simp: arr_wf_def arr_is_full_def word_unat_eq_iff)

lemma length_arr_contents: "arr_wf a \<Longrightarrow> length (arr_contents a) \<le> 4"
  by (auto simp: arr_contents_def arr_wf_def)

lemma unat_succ_small: "unat (w :: u32) \<le> 4 \<Longrightarrow> unat (w + 1) = Suc (unat w)"
  using unat_Suc_word [of w] by simp

lemma take_drop_update_snoc:
  assumes "c \<le> s" and "s < length xs"
  shows "take (Suc s - c) (drop c (xs[s := b])) = take (s - c) (drop c xs) @ [b]"
proof -
  have "take (Suc s - c) (drop c (xs[s := b])) = drop c (take (Suc s) (xs[s := b]))"
    by (simp add: drop_take)
  also have "take (Suc s) (xs[s := b]) = take s xs @ [b]"
    using assms(2) by (simp add: take_Suc_conv_app_nth)
  also have "drop c (take s xs @ [b]) = take (s - c) (drop c xs) @ [b]"
    using assms by (simp add: drop_take)
  finally show ?thesis .
qed

lemma arr_push_ok:
  assumes "arr_wf a" and "\<not> arr_is_full a"
  shows "\<exists>a'. arr_push b a = Inr a' \<and> arr_wf a' \<and> arr_contents a' = arr_contents a @ [b]"
proof -
  let ?a = "a\<lparr>arr_buffers := (arr_buffers a)[unat (arr_size a) := b], arr_size := arr_size a + 1\<rparr>"
  have s: "unat (arr_size a) < 4" "unat (arr_size a + 1) = Suc (unat (arr_size a))"
    using assms by (auto simp: arr_is_full_iff arr_wf_def unat_succ_small)
  have "arr_push b a = Inr ?a" using assms s by (simp add: arr_push_def arr_wf_def)
  moreover have "arr_wf ?a" using assms(1) s by (simp add: arr_wf_def)
  moreover have "arr_contents ?a = arr_contents a @ [b]"
    using assms(1) s take_drop_update_snoc [of "unat (arr_cur_idx a)" "unat (arr_size a)" "arr_buffers a" b]
    by (simp add: arr_contents_def arr_wf_def)
  ultimately show ?thesis by blast
qed

lemma arr_pop_ok:
  assumes "arr_wf a" and "arr_contents a = b # bs"
  shows "\<exists>a'. arr_pop a = Inr (b, a') \<and> arr_wf a' \<and> arr_contents a' = bs"
proof -
  let ?c = "unat (arr_cur_idx a)"
  let ?a = "a\<lparr>arr_cur_idx := arr_cur_idx a + 1, arr_buffers := (arr_buffers a)[?c := []]\<rparr>"
  have c: "?c < unat (arr_size a)" "unat (arr_size a) \<le> 4" "length (arr_buffers a) = 4"
    using assms by (auto simp: arr_wf_def arr_contents_def intro: ccontr)
  then have sc: "unat (arr_cur_idx a + 1) = Suc ?c" by (simp add: unat_succ_small)
  have split: "drop ?c (arr_buffers a) = arr_buffers a ! ?c # drop (Suc ?c) (arr_buffers a)"
    using c by (simp add: Cons_nth_drop_Suc)
  have diff: "unat (arr_size a) - ?c = Suc (unat (arr_size a) - Suc ?c)" using c by simp
  from assms(2) have b: "arr_buffers a ! ?c = b"
    and bs: "take (unat (arr_size a) - Suc ?c) (drop (Suc ?c) (arr_buffers a)) = bs"
    unfolding arr_contents_def split diff by simp_all
  have "arr_pop a = Inr (b, ?a)" using c b by (simp add: arr_pop_def Let_def)
  moreover have "arr_wf ?a" using assms(1) c sc by (simp add: arr_wf_def)
  moreover have "arr_contents ?a = bs" using bs sc by (simp add: arr_contents_def)
  ultimately show ?thesis by blast
qed

lemma arr_peek_ok: "arr_wf a \<Longrightarrow> arr_contents a = b # bs \<Longrightarrow> arr_peek a = Inr b"
  using arr_pop_ok [of a b bs] by (auto simp: arr_peek_def arr_pop_def Let_def split: if_splits)

lemma fold_res_sum:
  assumes "\<And>i. i \<in> set is \<Longrightarrow> i < length bufs"
  shows "fold_res (\<lambda>i acc. if i < length bufs then Inr (acc + word_of_nat (length (bufs ! i)))
                            else Inl Out_of_bounds) is (w :: u32) =
         Inr (w + word_of_nat (sum_list (map (\<lambda>i. length (bufs ! i)) is)))"
  using assms by (induction "is" arbitrary: w) (auto simp: algebra_simps)

lemma arr_get_buffer_size_ok:
  assumes "arr_wf a"
  shows "arr_get_buffer_size a = Inr (word_of_nat (sum_list (map length (arr_contents a))))"
proof -
  let ?is = "[unat (arr_cur_idx a)..<unat (arr_size a)]"
  have "arr_contents a = map (\<lambda>i. arr_buffers a ! i) ?is"
    using assms by (intro nth_equalityI) (auto simp: arr_contents_def arr_wf_def)
  then have "map length (arr_contents a) = map (\<lambda>i. length (arr_buffers a ! i)) ?is"
    by simp
  moreover have "\<And>i. i \<in> set ?is \<Longrightarrow> i < length (arr_buffers a)"
    using assms by (auto simp: arr_wf_def)
  ultimately show ?thesis
    unfolding arr_get_buffer_size_def by (simp add: fold_res_sum del: set_upt)
qed

section \<open>List facts\<close>

text \<open>\<open>lseg c p r ns\<close>: following \<open>next\<close> from \<open>p\<close> leads through the nodes \<open>ns\<close> to \<open>r\<close>.\<close>

fun lseg :: "(ptr \<Rightarrow> tmpbuf_list_node option) \<Rightarrow> ptr option \<Rightarrow> ptr option \<Rightarrow>
    (ptr \<times> tmpbuf_array) list \<Rightarrow> bool" where
  "lseg c p r [] = (p = r)"
| "lseg c p r ((a, arr) # ns) =
     (p = Some a \<and> (\<exists>nx. c a = Some \<lparr>buffer_array = arr, next_node = nx\<rparr> \<and> lseg c nx r ns))"

definition nodes_contents :: "(ptr \<times> tmpbuf_array) list \<Rightarrow> tmpbuf list" where
  "nodes_contents ns = concat (map (\<lambda>n. arr_contents (snd n)) ns)"

lemma nodes_contents_simps [simp]:
  "nodes_contents [] = []"
  "nodes_contents (n # ns) = arr_contents (snd n) @ nodes_contents ns"
  "nodes_contents (ns @ ms) = nodes_contents ns @ nodes_contents ms"
  by (simp_all add: nodes_contents_def)

lemma lseg_append: "lseg c p r (ns @ ms) \<longleftrightarrow> (\<exists>x. lseg c p x ns \<and> lseg c x r ms)"
  by (induction ns arbitrary: p) (auto, blast+)

lemma lseg_upd_other: "a \<notin> fst ` set ns \<Longrightarrow> lseg (c(a := v)) p r ns = lseg c p r ns"
  by (induction ns arbitrary: p) auto

lemma lseg_defined: "lseg c p r ns \<Longrightarrow> n \<in> set ns \<Longrightarrow> c (fst n) \<noteq> None"
  by (induction ns arbitrary: p) auto

text \<open>\<open>list_shape\<close> is what the reading operations need; \<open>list_inv\<close> adds the node counter, which
  \<open>push\<close> also consults.\<close>

definition list_shape :: "node_heap \<Rightarrow> tmpbuf_linked_list \<Rightarrow> (ptr \<times> tmpbuf_array) list \<Rightarrow> bool" where
  "list_shape h l ns \<longleftrightarrow>
     lseg (cells h) (list_head l) None ns \<and> distinct (map fst ns) \<and>
     (\<forall>p \<ge> heap_top h. cells h p = None) \<and> (\<forall>n \<in> set ns. arr_wf (snd n)) \<and>
     (ns \<noteq> [] \<longrightarrow> list_tail l = Some (fst (last ns))) \<and>
     (\<forall>n \<in> set (tl ns). arr_contents (snd n) \<noteq> [])"

definition list_inv :: "node_heap \<Rightarrow> tmpbuf_linked_list \<Rightarrow> (ptr \<times> tmpbuf_array) list \<Rightarrow> bool" where
  "list_inv h l ns \<longleftrightarrow> list_shape h l ns \<and> node_count l = word_of_nat (length ns)"

lemmas list_inv_defs = list_inv_def list_shape_def

lemma nodes_bound:
  assumes "\<forall>n \<in> set (tl ns). arr_contents (snd n) \<noteq> []"
  shows "length ns \<le> length (nodes_contents ns) + 1"
proof -
  have "(\<forall>n \<in> set ms. arr_contents (snd n) \<noteq> []) \<Longrightarrow> length ms \<le> length (nodes_contents ms)" for ms
  proof (induction ms)
    case (Cons m ms)
    then have "length (arr_contents (snd m)) \<ge> 1" by (cases "arr_contents (snd m)") auto
    with Cons show ?case by simp
  qed simp
  from this [of "tl ns"] assms show ?thesis by (cases ns) auto
qed

lemma word_of_nat_u32_eq_0: "n < 4294967296 \<Longrightarrow> (word_of_nat n :: u32) = 0 \<longleftrightarrow> n = 0"
  by (metis unat_of_nat_u32 unat_0 semiring_1_class.of_nat_0)

lemma list_inv_fresh:
  assumes "list_inv h l ns" shows "heap_top h \<notin> fst ` set ns"
proof
  assume "heap_top h \<in> fst ` set ns"
  then obtain n where "n \<in> set ns" "heap_top h = fst n" by blast
  moreover have "lseg (cells h) (list_head l) None ns" "cells h (heap_top h) = None"
    using assms by (simp_all add: list_inv_defs)
  ultimately show False using lseg_defined by metis
qed

lemma list_push_empty:
  assumes "list_inv h l []"
  shows "\<exists>h' l' ns'. list_push b (h, l) = Inr (h', l') \<and> list_inv h' l' ns' \<and>
           nodes_contents ns' = [b]"
proof -
  obtain arr where a: "arr_push b tmpbuf_array_init = Inr arr" "arr_wf arr" "arr_contents arr = [b]"
    using arr_push_ok [OF arr_wf_init arr_init_not_full, of b] by auto
  let ?h = "h\<lparr>cells := (cells h)(heap_top h \<mapsto> \<lparr>buffer_array = arr, next_node = None\<rparr>),
             heap_top := Suc (heap_top h)\<rparr>"
  let ?l = "l\<lparr>list_head := Some (heap_top h), list_tail := Some (heap_top h), node_count := 1\<rparr>"
  have "list_push b (h, l) = Inr (?h, ?l)"
    using assms a by (simp add: list_push_def list_inv_defs new_node_def)
  moreover have "list_inv ?h ?l [(heap_top h, arr)]"
    using assms a by (auto simp: list_inv_defs)
  ultimately show ?thesis using a by (metis append_Nil2 nodes_contents_simps(1,2) snd_conv)
qed

lemma list_push_nonempty:
  assumes inv: "list_inv h l (ms @ [(a, arr)])" and len: "length ms + 2 < 4294967296"
  shows "\<exists>h' l' ns'. list_push b (h, l) = Inr (h', l') \<and> list_inv h' l' ns' \<and>
           nodes_contents ns' = nodes_contents (ms @ [(a, arr)]) @ [b]"
proof -
  from inv have seg: "lseg (cells h) (list_head l) (Some a) ms"
    and ca: "cells h a = Some \<lparr>buffer_array = arr, next_node = None\<rparr>"
    and dist: "distinct (map fst ms @ [a])" and wf: "arr_wf arr"
    and tl: "list_tail l = Some a" and cnt: "node_count l = word_of_nat (length ms + 1)"
    by (auto simp: list_inv_defs lseg_append)
  have nz: "node_count l \<noteq> 0" unfolding cnt using len by (subst word_of_nat_u32_eq_0) auto
  have top: "heap_top h \<notin> fst ` set ms" "heap_top h \<noteq> a"
    using list_inv_fresh [OF inv] by auto
  show ?thesis
  proof (cases "arr_is_full arr")
    case False
    then obtain arr' where a: "arr_push b arr = Inr arr'" "arr_wf arr'"
        "arr_contents arr' = arr_contents arr @ [b]"
      using arr_push_ok wf by blast
    let ?h = "write_node a \<lparr>buffer_array = arr', next_node = None\<rparr> h"
    have "list_push b (h, l) = Inr (?h, l)"
      using nz tl ca a False by (simp add: list_push_def deref_def)
    moreover have "\<forall>n \<in> set (tl (ms @ [(a, arr')])). arr_contents (snd n) \<noteq> []"
      using inv a by (cases ms) (auto simp: list_inv_defs)
    then have "list_inv ?h l (ms @ [(a, arr')])"
      using inv a dist seg by (auto simp: list_inv_defs write_node_def lseg_append lseg_upd_other)
    ultimately show ?thesis using a by (metis append_Nil2 append_assoc nodes_contents_simps snd_conv)
  next
    case True
    obtain arr' where a: "arr_push b tmpbuf_array_init = Inr arr'" "arr_wf arr'" "arr_contents arr' = [b]"
      using arr_push_ok [OF arr_wf_init arr_init_not_full, of b] by auto
    let ?p = "heap_top h"
    let ?h = "h\<lparr>cells := (cells h)(?p \<mapsto> \<lparr>buffer_array = arr', next_node = None\<rparr>,
                  a \<mapsto> \<lparr>buffer_array = arr, next_node = Some ?p\<rparr>), heap_top := Suc ?p\<rparr>"
    let ?l = "l\<lparr>list_tail := Some ?p, node_count := node_count l + 1\<rparr>"
    have "list_push b (h, l) = Inr (?h, ?l)"
      using nz tl ca a True top by (simp add: list_push_def deref_def new_node_def write_node_def)
    moreover have "\<forall>n \<in> set (tl ((ms @ [(a, arr)]) @ [(?p, arr')])). arr_contents (snd n) \<noteq> []"
      using inv a by (cases ms) (auto simp: list_inv_defs)
    then have "list_inv ?h ?l ((ms @ [(a, arr)]) @ [(?p, arr')])"
      using inv a dist seg top
      by (auto simp: list_inv_defs lseg_append lseg_upd_other cnt algebra_simps)
    ultimately show ?thesis using a by (metis append_Nil2 nodes_contents_simps snd_conv)
  qed
qed

lemma list_push_ok:
  assumes "list_inv h l ns" and "length (nodes_contents ns) + 3 < 4294967296"
  shows "\<exists>h' l' ns'. list_push b (h, l) = Inr (h', l') \<and> list_inv h' l' ns' \<and> ns' \<noteq> [] \<and>
           nodes_contents ns' = nodes_contents ns @ [b]"
proof (cases ns rule: rev_exhaust)
  case Nil
  with assms(1) list_push_empty [of h l b] show ?thesis by fastforce
next
  case (snoc ms n)
  have "length ns \<le> length (nodes_contents ns) + 1"
    using assms(1) by (intro nodes_bound) (simp add: list_inv_defs)
  with assms(2) snoc have "length ms + 2 < 4294967296" by simp
  with assms(1) snoc list_push_nonempty [of h l ms "fst n" "snd n" b] show ?thesis
    by fastforce
qed

lemma list_shape_tl:
  assumes "list_shape h l ((a, arr) # ns)" and "cells h a = Some n"
  shows "list_shape h (l\<lparr>node_count := c, list_head := next_node n\<rparr>) ns"
  using assms by (cases ns) (auto simp: list_shape_def)

lemma list_shape_pop_head:
  assumes "list_shape h l ((a, arr) # ns)" and "cells h a = Some n" and "arr_wf arr'"
  shows "list_shape (write_node a (n\<lparr>buffer_array := arr'\<rparr>) h) l ((a, arr') # ns)"
  using assms by (auto simp: list_shape_def write_node_def lseg_upd_other)

lemma list_pop_shape:
  assumes "list_shape h l ns" and "nodes_contents ns = b # bs"
  shows "\<exists>h' l' ns'. list_pop h l = Some (Inr (b, h', l')) \<and> list_shape h' l' ns' \<and>
           nodes_contents ns' = bs \<and> node_count l - word_of_nat (length ns) =
             node_count l' - word_of_nat (length ns')"
  using assms
proof (induction ns arbitrary: l)
  case Nil
  then show ?case by simp
next
  case (Cons m ns)
  obtain a arr where m: "m = (a, arr)" by (cases m)
  with Cons.prems obtain n where hd: "list_head l = Some a" and n: "cells h a = Some n"
    and na: "buffer_array n = arr" and wf: "arr_wf arr"
    by (auto simp: list_shape_def)
  show ?case
  proof (cases "arr_contents arr")
    case Nil
    let ?l = "l\<lparr>node_count := node_count l - 1, list_head := next_node n\<rparr>"
    have "list_pop h l = list_pop h ?l"
      using hd n na wf Nil by (subst list_pop.simps) (simp add: arr_empty_iff)
    moreover have "list_shape h ?l ns" using Cons.prems(1) m n by (blast intro: list_shape_tl)
    ultimately show ?thesis using Cons.IH [of ?l] Cons.prems(2) m Nil by (simp add: algebra_simps)
  next
    case (Cons b' bs')
    with Cons.prems(2) m have b': "b' = b" and bs: "bs = bs' @ nodes_contents ns" by auto
    obtain arr' where a': "arr_pop arr = Inr (b, arr')" "arr_wf arr'" "arr_contents arr' = bs'"
      using arr_pop_ok wf Cons b' by blast
    have "list_pop h l = Some (Inr (b, write_node a (n\<lparr>buffer_array := arr'\<rparr>) h, l))"
      using hd n na wf Cons a' by (subst list_pop.simps) (simp add: arr_empty_iff)
    moreover have "list_shape (write_node a (n\<lparr>buffer_array := arr'\<rparr>) h) l ((a, arr') # ns)"
      using list_shape_pop_head Cons.prems(1) m n a'(2) by blast
    moreover have "nodes_contents ((a, arr') # ns) = bs" using bs a'(3) by simp
    ultimately show ?thesis by (metis length_Cons)
  qed
qed

lemma list_pop_ok:
  assumes "list_inv h l ns" and "nodes_contents ns = b # bs"
  shows "\<exists>h' l' ns'. list_pop h l = Some (Inr (b, h', l')) \<and> list_inv h' l' ns' \<and>
           nodes_contents ns' = bs"
  using list_pop_shape [of h l ns b bs] assms by (auto simp: list_inv_def)

lemma list_size_loop_ok:
  assumes "lseg (cells h) p None ns" and "\<forall>n \<in> set ns. arr_wf (snd n)"
  shows "list_size_loop h p w =
           Some (Inr (w + word_of_nat (sum_list (map length (nodes_contents ns)))))"
  using assms
proof (induction ns arbitrary: p w)
  case Nil
  then show ?case by (subst list_size_loop.simps) simp
next
  case (Cons m ns)
  obtain a arr where m: "m = (a, arr)" by (cases m)
  with Cons.prems obtain nx where "p = Some a"
    and "cells h a = Some \<lparr>buffer_array = arr, next_node = nx\<rparr>"
    and "lseg (cells h) nx None ns" "arr_wf arr" by auto
  with Cons.IH Cons.prems(2) m show ?case
    by (subst list_size_loop.simps) (simp add: arr_get_buffer_size_ok algebra_simps)
qed

section \<open>Clients of a queue\<close>

datatype 'b fifo_op = Push 'b | Pop

text \<open>A client that pushes and pops in any order, collecting what it popped, and the same client
  on the specification, a list; the specification refuses a pop from the empty queue and a push
  beyond the limit.\<close>

fun fifo_run :: "('b \<Rightarrow> 'q \<Rightarrow> 'q res) \<Rightarrow> ('q \<Rightarrow> ('b \<times> 'q) res option) \<Rightarrow>
    'b fifo_op list \<Rightarrow> 'q \<Rightarrow> ('b list \<times> 'q) res option" where
  "fifo_run psh pp [] q = Some (Inr ([], q))"
| "fifo_run psh pp (Push b # ops) q =
     (case psh b q of Inl e \<Rightarrow> Some (Inl e) | Inr q' \<Rightarrow> fifo_run psh pp ops q')"
| "fifo_run psh pp (Pop # ops) q =
     (case pp q of
        None \<Rightarrow> None
      | Some (Inl e) \<Rightarrow> Some (Inl e)
      | Some (Inr (b, q')) \<Rightarrow>
          map_option (\<lambda>r. bind_res r (\<lambda>(bs, q'). Inr (b # bs, q'))) (fifo_run psh pp ops q'))"

fun fifo_spec :: "nat \<Rightarrow> 'b fifo_op list \<Rightarrow> 'b list \<Rightarrow> ('b list \<times> 'b list) option" where
  "fifo_spec lim [] xs = Some ([], xs)"
| "fifo_spec lim (Push b # ops) xs =
     (if length xs < lim then fifo_spec lim ops (xs @ [b]) else None)"
| "fifo_spec lim (Pop # ops) [] = None"
| "fifo_spec lim (Pop # ops) (x # xs) = map_option (\<lambda>(bs, ys). (x # bs, ys)) (fifo_spec lim ops xs)"

section \<open>The queue implements a FIFO of buffers\<close>

text \<open>The counters are 32-bit: the contract holds for queues of fewer than this many buffers.\<close>

definition sq_limit :: nat where
  "sq_limit = 4294967292"

definition sq_rep :: "sq_state \<Rightarrow> tmpbuf list \<Rightarrow> bool" where
  "sq_rep s xs \<longleftrightarrow>
     (\<exists>ns. arr_wf (q_array (snd s)) \<and> list_inv (fst s) (q_list (snd s)) ns \<and>
        (ns \<noteq> [] \<longrightarrow> arr_is_full (q_array (snd s))) \<and>
        xs = arr_contents (q_array (snd s)) @ nodes_contents ns \<and>
        q_size (snd s) = word_of_nat (length xs) \<and> length xs \<le> sq_limit)"

text \<open>\<open>sq_shape\<close> leaves out the counters, which no reading operation consults.\<close>

definition sq_shape :: "sq_state \<Rightarrow> tmpbuf list \<Rightarrow> (ptr \<times> tmpbuf_array) list \<Rightarrow> bool" where
  "sq_shape s xs ns \<longleftrightarrow>
     arr_wf (q_array (snd s)) \<and> list_shape (fst s) (q_list (snd s)) ns \<and>
     (ns \<noteq> [] \<longrightarrow> arr_is_full (q_array (snd s))) \<and>
     xs = arr_contents (q_array (snd s)) @ nodes_contents ns"

lemma sq_repE:
  assumes "sq_rep (h, q) xs"
  obtains ns where "arr_wf (q_array q)" "list_inv h (q_list q) ns"
    "ns \<noteq> [] \<longrightarrow> arr_is_full (q_array q)" "xs = arr_contents (q_array q) @ nodes_contents ns"
    "q_size q = word_of_nat (length xs)" "length xs \<le> sq_limit"
  using assms unfolding sq_rep_def fst_conv snd_conv by (elim exE conjE)

lemma sq_rep_shapeE:
  assumes "sq_rep (h, q) xs"
  obtains ns where "sq_shape (h, q) xs ns" "node_count (q_list q) = word_of_nat (length ns)"
    "q_size q = word_of_nat (length xs)" "length xs \<le> sq_limit"
proof -
  from assms obtain ns where "arr_wf (q_array q)" "list_inv h (q_list q) ns"
    "ns \<noteq> [] \<longrightarrow> arr_is_full (q_array q)" "xs = arr_contents (q_array q) @ nodes_contents ns"
    "q_size q = word_of_nat (length xs)" "length xs \<le> sq_limit" by (rule sq_repE)
  then show thesis by (intro that [of ns]) (simp_all add: sq_shape_def list_inv_def)
qed

definition heap_wf :: "node_heap \<Rightarrow> bool" where
  "heap_wf h \<longleftrightarrow> (\<forall>p \<ge> heap_top h. cells h p = None)"

lemma sq_rep_init: "heap_wf h \<Longrightarrow> sq_rep (sq_init h) []"
  by (auto simp: sq_rep_def sq_init_def list_inv_defs linked_list_init_def heap_wf_def
      intro: exI [of _ "[]"])

lemma sq_rep_push:
  assumes "sq_rep s xs" and "length xs < sq_limit"
  shows "\<exists>s'. sq_push b s = Inr s' \<and> sq_rep s' (xs @ [b])"
proof -
  obtain h q where s: "s = (h, q)" by (cases s)
  from assms(1) [unfolded s] obtain ns where wf: "arr_wf (q_array q)" and inv: "list_inv h (q_list q) ns"
    and full: "ns \<noteq> [] \<longrightarrow> arr_is_full (q_array q)"
    and xs: "xs = arr_contents (q_array q) @ nodes_contents ns"
    and sz: "q_size q = word_of_nat (length xs)"
    by (rule sq_repE)
  have sz': "q_size q + 1 = word_of_nat (length (xs @ [b]))" using sz by simp
  show ?thesis
  proof (cases "arr_is_full (q_array q)")
    case True
    have "length (nodes_contents ns) + 3 < 4294967296"
      using assms(2) xs by (simp add: sq_limit_def)
    with list_push_ok [OF inv, of b] obtain h' l' ns' where
      p: "list_push b (h, q_list q) = Inr (h', l')" "list_inv h' l' ns'"
         "nodes_contents ns' = nodes_contents ns @ [b]" by blast
    let ?s = "(h', q\<lparr>q_size := q_size q + 1, q_list := l'\<rparr>)"
    have "sq_push b s = Inr ?s" using True p s by (simp add: sq_push_def Let_def)
    moreover have "sq_rep ?s (xs @ [b])"
      using wf p xs sz' assms(2) True by (auto simp: sq_rep_def intro!: exI [of _ ns'])
    ultimately show ?thesis by blast
  next
    case False
    with full have ns: "ns = []" by blast
    obtain a where a: "arr_push b (q_array q) = Inr a" "arr_wf a"
        "arr_contents a = arr_contents (q_array q) @ [b]"
      using arr_push_ok [OF wf False] by blast
    let ?s = "(h, q\<lparr>q_size := q_size q + 1, q_array := a\<rparr>)"
    have "sq_push b s = Inr ?s" using False a s by (simp add: sq_push_def Let_def)
    moreover have "sq_rep ?s (xs @ [b])"
      using a inv ns xs sz' assms(2) by (auto simp: sq_rep_def intro!: exI [of _ "[]"])
    ultimately show ?thesis by blast
  qed
qed

lemma sq_pop_shape:
  assumes "sq_shape (h, q) (b # xs) ns"
  shows "\<exists>h' q' ns'. sq_pop (h, q) = Some (Inr (b, h', q')) \<and> sq_shape (h', q') xs ns' \<and>
           q_size q' = q_size q - 1 \<and>
           node_count (q_list q) - word_of_nat (length ns) =
             node_count (q_list q') - word_of_nat (length ns')"
proof (cases "arr_contents (q_array q)")
  case Nil
  from assms have wf: "arr_wf (q_array q)" and inv: "list_shape h (q_list q) ns"
    and full: "ns \<noteq> [] \<longrightarrow> arr_is_full (q_array q)"
    and xs: "b # xs = arr_contents (q_array q) @ nodes_contents ns" by (simp_all add: sq_shape_def)
  with Nil have "nodes_contents ns = b # xs" by simp
  with list_pop_shape [OF inv] obtain h' l' ns' where
    p: "list_pop h (q_list q) = Some (Inr (b, h', l'))" "list_shape h' l' ns'" "nodes_contents ns' = xs"
       "node_count (q_list q) - word_of_nat (length ns) = node_count l' - word_of_nat (length ns')"
    by blast
  let ?q = "q\<lparr>q_size := q_size q - 1, q_list := l'\<rparr>"
  have "ns \<noteq> []" using Nil xs by auto
  with full p wf Nil have "sq_shape (h', ?q) xs ns'" by (simp add: sq_shape_def)
  moreover have "sq_pop (h, q) = Some (Inr (b, h', ?q))"
    using Nil p wf by (simp add: sq_pop_def Let_def arr_empty_iff)
  ultimately show ?thesis using p(4) by (intro exI [of _ h'] exI [of _ ?q] exI [of _ ns']) simp
next
  case (Cons b' bs)
  from assms have wf: "arr_wf (q_array q)" and inv: "list_shape h (q_list q) ns"
    and full: "ns \<noteq> [] \<longrightarrow> arr_is_full (q_array q)"
    and xs: "b # xs = arr_contents (q_array q) @ nodes_contents ns" by (simp_all add: sq_shape_def)
  with Cons have b': "b' = b" and xs': "xs = bs @ nodes_contents ns" by auto
  obtain a where a: "arr_pop (q_array q) = Inr (b, a)" "arr_wf a" "arr_contents a = bs"
    using arr_pop_ok wf Cons b' by blast
  let ?q = "q\<lparr>q_size := q_size q - 1, q_array := a\<rparr>"
  have "arr_is_full a = arr_is_full (q_array q)"
    using a(1) by (auto simp: arr_pop_def arr_is_full_def Let_def split: if_splits)
  with a inv full xs' have "sq_shape (h, ?q) xs ns" by (simp add: sq_shape_def)
  moreover have "sq_pop (h, q) = Some (Inr (b, h, ?q))"
    using Cons a wf by (simp add: sq_pop_def Let_def arr_empty_iff)
  ultimately show ?thesis by (intro exI [of _ h] exI [of _ ?q] exI [of _ ns]) simp
qed

lemma sq_rep_pop:
  assumes "sq_rep s (b # xs)"
  shows "\<exists>s'. sq_pop s = Some (Inr (b, s')) \<and> sq_rep s' xs"
proof -
  obtain h q where s: "s = (h, q)" by (cases s)
  from assms [unfolded s] obtain ns where "sq_shape (h, q) (b # xs) ns"
    and cnt: "node_count (q_list q) = word_of_nat (length ns)"
    and sz: "q_size q = word_of_nat (length (b # xs))" and lim: "length (b # xs) \<le> sq_limit"
    by (rule sq_rep_shapeE)
  from sq_pop_shape [OF this(1)] obtain h' q' ns' where
    p: "sq_pop (h, q) = Some (Inr (b, h', q'))" "sq_shape (h', q') xs ns'" "q_size q' = q_size q - 1"
       "node_count (q_list q) - word_of_nat (length ns) = node_count (q_list q') - word_of_nat (length ns')"
    by blast
  then have "sq_rep (h', q') xs"
    using cnt sz lim by (auto simp: sq_rep_def sq_shape_def list_inv_def intro!: exI [of _ ns'])
  with p(1) s show ?thesis by blast
qed

lemma sq_drain_shape:
  assumes "sq_shape s xs ns"
  shows "\<exists>s' ns'. fifo_run psh sq_pop (replicate (length xs) Pop) s = Some (Inr (xs, s')) \<and>
           sq_shape s' [] ns'"
  using assms
proof (induction xs arbitrary: s ns)
  case Nil
  then show ?case by auto
next
  case (Cons b xs)
  obtain h q where s: "s = (h, q)" by (cases s)
  from sq_pop_shape [OF Cons.prems [unfolded s]] obtain s' ns' where
    p: "sq_pop s = Some (Inr (b, s'))" "sq_shape s' xs ns'" unfolding s by blast
  from Cons.IH [OF p(2)] p(1) show ?case by auto
qed

text \<open>The interface of the serialisation code: buffers come out in the order they went in, the
  size counts them, and an operation on a represented queue neither faults nor diverges.\<close>

locale buffer_fifo =
  fixes push :: "'b \<Rightarrow> 'q \<Rightarrow> 'q res" and pop :: "'q \<Rightarrow> ('b \<times> 'q) res option"
    and qsize :: "'q \<Rightarrow> u32" and rep :: "'q \<Rightarrow> 'b list \<Rightarrow> bool" and limit :: nat
  assumes rep_push: "rep q xs \<Longrightarrow> length xs < limit \<Longrightarrow> \<exists>q'. push b q = Inr q' \<and> rep q' (xs @ [b])"
    and rep_pop: "rep q (b # xs) \<Longrightarrow> \<exists>q'. pop q = Some (Inr (b, q')) \<and> rep q' xs"
    and rep_size: "rep q xs \<Longrightarrow> qsize q = word_of_nat (length xs) \<and> length xs \<le> limit"
    and limit_u32: "limit < 4294967296"
begin

lemma push_all:
  assumes "rep q xs" and "length xs + length bs \<le> limit"
  shows "\<exists>q'. fold_res push bs q = Inr q' \<and> rep q' (xs @ bs)"
  using assms
proof (induction bs arbitrary: q xs)
  case Nil
  then show ?case by simp
next
  case (Cons b bs)
  from Cons.prems obtain q' where q': "push b q = Inr q'" "rep q' (xs @ [b])"
    using rep_push [of q xs b] by auto
  with Cons.IH [of q' "xs @ [b]"] Cons.prems(2) show ?case by simp
qed

lemma run_refines:
  assumes "rep q xs" and "fifo_spec limit ops xs = Some (outs, ys)"
  shows "\<exists>q'. fifo_run push pop ops q = Some (Inr (outs, q')) \<and> rep q' ys"
  using assms
proof (induction ops arbitrary: q xs outs)
  case Nil
  then show ?case by auto
next
  case (Cons op ops)
  show ?case
  proof (cases op)
    case (Push b)
    with Cons.prems have l: "length xs < limit" "fifo_spec limit ops (xs @ [b]) = Some (outs, ys)"
      by (auto split: if_splits)
    with rep_push Cons.prems(1) obtain q' where "push b q = Inr q'" "rep q' (xs @ [b])" by blast
    with Cons.IH l(2) Push show ?thesis by auto
  next
    case Pop
    with Cons.prems(2) obtain x zs outs' where xs: "xs = x # zs"
      and o: "fifo_spec limit ops zs = Some (outs', ys)" "outs = x # outs'"
      by (cases xs) auto
    with rep_pop Cons.prems(1) obtain q' where q': "pop q = Some (Inr (x, q'))" "rep q' zs" by blast
    with Cons.IH o(1) obtain q'' where "fifo_run push pop ops q' = Some (Inr (outs', q''))" "rep q'' ys"
      by blast
    with q' o Pop show ?thesis by auto
  qed
qed

lemma size_zero_iff: "rep q xs \<Longrightarrow> qsize q = 0 \<longleftrightarrow> xs = []"
  using rep_size [of q xs] limit_u32 by (auto simp: word_of_nat_u32_eq_0)

lemma rep_unique:
  assumes "rep q xs" and "rep q ys"
  shows "xs = ys"
  using assms
proof (induction xs arbitrary: q ys)
  case Nil
  then show ?case using size_zero_iff by blast
next
  case (Cons b xs)
  obtain q' where q': "pop q = Some (Inr (b, q'))" "rep q' xs" using rep_pop Cons.prems(1) by blast
  have "ys \<noteq> []" using Cons.prems size_zero_iff by blast
  then obtain c zs where ys: "ys = c # zs" by (cases ys) auto
  with rep_pop Cons.prems(2) obtain q'' where "pop q = Some (Inr (c, q''))" "rep q'' zs" by blast
  with q' Cons.IH ys show ?case by auto
qed

end

interpretation sq: buffer_fifo sq_push sq_pop sq_size sq_rep sq_limit
proof
  fix s :: sq_state and xs
  assume "sq_rep s xs"
  then show "sq_size s = word_of_nat (length xs) \<and> length xs \<le> sq_limit"
    by (auto simp: sq_rep_def sq_size_def split: prod.splits)
qed (simp_all only: sq_rep_push sq_rep_pop, simp add: sq_limit_def)

lemma sq_empty_iff: "sq_rep s xs \<Longrightarrow> sq_empty s \<longleftrightarrow> xs = []"
  using sq.size_zero_iff [of s xs] by (simp add: sq_empty_def sq_size_def split: prod.splits)

lemma sq_get_buffer_size_ok:
  assumes "sq_rep s xs"
  shows "sq_get_buffer_size s = Some (Inr (word_of_nat (sum_list (map length xs))))"
proof -
  obtain h q where s: "s = (h, q)" by (cases s)
  from assms [unfolded s] obtain ns where wf: "arr_wf (q_array q)" and inv: "list_inv h (q_list q) ns"
    and xs: "xs = arr_contents (q_array q) @ nodes_contents ns"
    by (rule sq_repE)
  then show ?thesis
    using list_size_loop_ok [of h "list_head (q_list q)" ns 0] s
    by (simp add: sq_get_buffer_size_def list_get_buffer_size_def arr_get_buffer_size_ok list_inv_defs)
qed

text \<open>A queue that can be read: the view of the code that only pops, for which the counters do not
  matter.\<close>

definition sq_readable :: "sq_state \<Rightarrow> tmpbuf list \<Rightarrow> bool" where
  "sq_readable s xs \<longleftrightarrow> (\<exists>ns. sq_shape s xs ns)"

lemma sq_rep_readable: "sq_rep s xs \<Longrightarrow> sq_readable s xs"
  by (cases s) (auto simp: sq_readable_def elim!: sq_rep_shapeE)

lemma sq_readable_pop:
  assumes "sq_readable s (b # xs)"
  shows "\<exists>s'. sq_pop s = Some (Inr (b, s')) \<and> sq_readable s' xs"
proof -
  obtain h q where s: "s = (h, q)" by (cases s)
  with assms obtain ns where "sq_shape (h, q) (b # xs) ns" by (auto simp: sq_readable_def)
  from sq_pop_shape [OF this] show ?thesis unfolding sq_readable_def s by blast
qed

lemmas sq_eval_simps = sq_init_def sq_push_def sq_pop_def sq_peek_def sq_empty_def
  tmpbuf_array_init_def ARRAY_BUFFER_SIZE_def linked_list_init_def empty_heap_def
  arr_is_full_def arr_empty_def arr_push_def arr_pop_def arr_peek_def
  list_push_def list_peek_def deref_def new_node_def write_node_def Let_def

section \<open>Properties\<close>

text \<open>C12: The array-and-list queue refines a FIFO list: for every sequence of pushes and pops that
  the specification accepts, the code performs it from an empty queue without a fault and without
  diverging, hands out the buffers the specification hands out, and ends with the contents and the
  size the specification has.\<close>

theorem sq_refines_fifo:
  assumes "heap_wf h" and "fifo_spec sq_limit ops [] = Some (outs, left)"
  shows "\<exists>s. fifo_run sq_push sq_pop ops (sq_init h) = Some (Inr (outs, s)) \<and> sq_rep s left \<and>
           sq_size s = word_of_nat (length left)"
proof -
  obtain s where s: "fifo_run sq_push sq_pop ops (sq_init h) = Some (Inr (outs, s))" "sq_rep s left"
    using sq.run_refines [OF sq_rep_init [OF assms(1)] assms(2)] by blast
  moreover have "sq_size s = word_of_nat (length left)" using sq.rep_size s(2) by blast
  ultimately show ?thesis by blast
qed

theorem sq_refines_fifo_witness:
  "\<exists>s. fifo_run sq_push sq_pop [Push [1], Push [2], Push [3], Push [4], Push [5], Pop, Pop, Push [6],
           Pop, Pop, Pop] (sq_init empty_heap) = Some (Inr ([[1], [2], [3], [4], [5]], s)) \<and>
       sq_rep s [[6]] \<and> sq_size s = 1"
proof -
  have "heap_wf empty_heap" by (simp add: heap_wf_def empty_heap_def)
  moreover have "fifo_spec sq_limit [Push [1], Push [2], Push [3], Push [4], Push [5], Pop, Pop,
      Push [6], Pop, Pop, Pop] [] = Some ([[1], [2], [3], [4], [5 :: byte]], [[6]])"
    by (simp add: sq_limit_def)
  ultimately show ?thesis using sq_refines_fifo by fastforce
qed

text \<open>The byte count of a queue that the serialiser writes into the message length is the
  number of payload bytes still queued, modulo 2 to the power 32.\<close>

theorem sq_buffer_size_counts_bytes:
  assumes "heap_wf h" and "length bufs \<le> sq_limit"
  shows "\<exists>s. fold_res sq_push bufs (sq_init h) = Inr s \<and>
           sq_get_buffer_size s = Some (Inr (word_of_nat (length (concat bufs))))"
proof -
  obtain s where "fold_res sq_push bufs (sq_init h) = Inr s" "sq_rep s bufs"
    using sq.push_all [OF sq_rep_init [OF assms(1)], of bufs] assms(2) by auto
  then show ?thesis using sq_get_buffer_size_ok by (auto simp: length_concat)
qed

theorem sq_buffer_size_counts_bytes_witness:
  "\<exists>s. fold_res sq_push [[1, 2], [], [3], [4], [5, 6, 7]] (sq_init empty_heap) = Inr s \<and>
       sq_get_buffer_size s = Some (Inr 7)"
  using sq_buffer_size_counts_bytes [of empty_heap "[[1, 2], [], [3], [4], [5, 6, 7 :: byte]]"]
  by (simp add: heap_wf_def empty_heap_def sq_limit_def)

text \<open>\<open>peek\<close> does not skip an exhausted list node as \<open>pop\<close> does: with nine buffers queued and
  eight popped, one buffer is left, but \<open>peek\<close> reads past the end of the exhausted node's array.\<close>

theorem sq_peek_past_exhausted_node:
  "\<exists>s. fifo_run sq_push sq_pop
          (map Push [b1, b2, b3, b4, b5, b6, b7, b8, b9] @ [Pop, Pop, Pop, Pop, Pop, Pop, Pop, Pop])
          (sq_init empty_heap) =
        Some (Inr ([b1, b2, b3, b4, b5, b6, b7, b8], s)) \<and>
       \<not> sq_empty s \<and> sq_peek s = Inl Out_of_bounds"
  by (simp add: sq_eval_simps list_pop.simps)

lemma sq_push_unread:
  assumes "fold_res sq_push bufs s = Inr s'" and "arr_cur_idx (q_array (snd s)) = 0"
  shows "arr_cur_idx (q_array (snd s')) = 0"
  using assms
proof (induction bufs arbitrary: s)
  case (Cons b bufs)
  from Cons.prems obtain s1 where s1: "sq_push b s = Inr s1" "fold_res sq_push bufs s1 = Inr s'"
    by (auto simp: bind_res_Inr_iff)
  have "arr_cur_idx (q_array (snd s1)) = 0"
    using s1(1) Cons.prems(2)
    by (auto simp: sq_push_def Let_def arr_push_def bind_res_Inr_iff split: if_splits prod.splits)
  with Cons.IH s1(2) show ?case by blast
qed simp

lemma sq_move_shape:
  assumes "sq_rep s xs" and "arr_cur_idx (q_array (snd s)) = 0"
  shows "\<exists>ns. sq_shape (fst s, fst (sq_move s)) xs ns"
proof -
  obtain h q where s: "s = (h, q)" by (cases s)
  from assms(1) [unfolded s] obtain ns where "sq_shape (h, q) xs ns"
    by (rule sq_rep_shapeE)
  then show ?thesis
    using assms(2) s
    by (auto simp: sq_shape_def sq_move_def tmpbuf_array_move_def linked_list_move_def
        arr_wf_def arr_is_full_def arr_contents_def list_shape_def intro!: exI [of _ ns])
qed

text \<open>A queue that was only filled can be moved (as the deserialiser moves it into the message):
  the new queue hands out the same buffers in the same order, although the list's node counter is
  not moved with it.\<close>

theorem sq_move_unread_queue:
  assumes "heap_wf h" and "length bufs \<le> sq_limit"
  shows "\<exists>s. fold_res sq_push bufs (sq_init h) = Inr s \<and>
           (\<exists>s'. fifo_run sq_push sq_pop (replicate (length bufs) Pop) (fst s, fst (sq_move s)) =
                  Some (Inr (bufs, s')))"
proof -
  obtain s where s: "fold_res sq_push bufs (sq_init h) = Inr s" "sq_rep s bufs"
    using sq.push_all [OF sq_rep_init [OF assms(1)], of bufs] assms(2) by auto
  have "arr_cur_idx (q_array (snd s)) = 0"
    by (rule sq_push_unread [OF s(1)]) (simp add: sq_init_def tmpbuf_array_init_def)
  with sq_move_shape s(2) sq_drain_shape s(1) show ?thesis by blast
qed

theorem sq_move_unread_queue_witness:
  "\<exists>s. fold_res sq_push [[1], [2], [3], [4], [5]] (sq_init empty_heap) = Inr s \<and>
       (\<exists>s'. fifo_run sq_push sq_pop [Pop, Pop, Pop, Pop, Pop] (fst s, fst (sq_move s)) =
              Some (Inr ([[1], [2], [3], [4], [5]], s')))"
  using sq_move_unread_queue [of empty_heap "[[1], [2], [3], [4], [5 :: byte]]"]
  by (simp add: heap_wf_def empty_heap_def sq_limit_def)

text \<open>A moved queue must not be pushed to: the moved list has node counter 0, so the next push
  takes the list for empty and overwrites its head, and the buffers in the list are lost. Here the
  fifth buffer disappears.\<close>

theorem sq_push_after_move_loses_buffers:
  "\<exists>s s'. fold_res sq_push [b1, b2, b3, b4, b5] (sq_init empty_heap) = Inr s \<and>
       sq_rep s [b1, b2, b3, b4, b5] \<and>
       fifo_run sq_push sq_pop [Push b6, Pop, Pop, Pop, Pop, Pop] (fst s, fst (sq_move s)) =
         Some (Inr ([b1, b2, b3, b4, b6], s'))"
proof -
  obtain s where s: "fold_res sq_push [b1, b2, b3, b4, b5] (sq_init empty_heap) = Inr s"
      "sq_rep s [b1, b2, b3, b4, b5]"
    using sq.push_all [OF sq_rep_init, of empty_heap "[b1, b2, b3, b4, b5]"]
    by (auto simp: heap_wf_def empty_heap_def sq_limit_def)
  have "\<exists>s s'. fold_res sq_push [b1, b2, b3, b4, b5] (sq_init empty_heap) = Inr s \<and>
        fifo_run sq_push sq_pop [Push b6, Pop, Pop, Pop, Pop, Pop] (fst s, fst (sq_move s)) =
          Some (Inr ([b1, b2, b3, b4, b6], s'))"
    by (simp add: sq_eval_simps sq_move_def tmpbuf_array_move_def linked_list_move_def list_pop.simps)
  with s show ?thesis by auto
qed

end
