(* ===== verification/Column_Batch.thy ===== *)
theory Column_Batch
  imports Unaligned_Int Serializable_Queue
begin

text \<open>
  Column batches (\<open>core/column_batch.hh\<close>, \<open>core/cb_table.hh\<close>), the bulk payload type. A fixed batch
  is one buffer, a 32-bit count followed by the values; a dynamic batch is two, a count followed by
  (offset, length) entries, and the elements of all rows. The element type is a parameter: its bytes
  are given by a \<open>byte_codec\<close> of width \<open>w\<close> and alignment \<open>al\<close>. Fresh buffers have indeterminate
  contents, an argument. The locale \<open>row_store\<close> is the contract both batches share (rows are read
  back by index as they were pushed); the properties are the round trips through \<open>dump_to\<close> and the
  loading constructors, and where the code leaves its buffers or does not return.
\<close>

section \<open>Fixed-width batches\<close>

text \<open>The values start at the first offset after the 32-bit count that is aligned for them.\<close>

definition offset_of_data :: "nat \<Rightarrow> nat" where
  "offset_of_data al = (3 + al) div al * al"

record fixed_column_batch =
  fb_buf :: tmpbuf
  fb_size :: u32
  fb_capacity :: u32

definition fixed_buf_size :: "nat \<Rightarrow> nat \<Rightarrow> u32 \<Rightarrow> nat" where
  "fixed_buf_size al w capacity = offset_of_data al + w * unat capacity"

definition fixed_new :: "nat \<Rightarrow> nat \<Rightarrow> (nat \<Rightarrow> tmpbuf) \<Rightarrow> u32 \<Rightarrow> fixed_column_batch" where
  "fixed_new al w fresh capacity =
     \<lparr>fb_buf = fresh (fixed_buf_size al w capacity), fb_size = 0, fb_capacity = capacity\<rparr>"

definition fixed_used :: "tmpbuf \<Rightarrow> u32 res" where
  "fixed_used buf = load_unaligned_int 0 buf"

definition fixed_of_buf :: "tmpbuf \<Rightarrow> fixed_column_batch res" where
  "fixed_of_buf tb =
     bind_res (fixed_used tb) (\<lambda>n. Inr \<lparr>fb_buf = tb, fb_size = n, fb_capacity = n\<rparr>)"

definition fixed_move :: "fixed_column_batch \<Rightarrow> fixed_column_batch \<times> fixed_column_batch" where
  "fixed_move x = (x, \<lparr>fb_buf = [], fb_size = 0, fb_capacity = 0\<rparr>)"

definition fixed_get :: "nat \<Rightarrow> nat \<Rightarrow> (byte list \<Rightarrow> 'a) \<Rightarrow> nat \<Rightarrow> fixed_column_batch \<Rightarrow> 'a res" where
  "fixed_get al w dec idx b =
     bind_res (mem_load (offset_of_data al + w * idx) w (fb_buf b)) (\<lambda>bs. Inr (dec bs))"

definition fixed_push_back ::
    "nat \<Rightarrow> nat \<Rightarrow> ('a \<Rightarrow> byte list) \<Rightarrow> 'a \<Rightarrow> fixed_column_batch \<Rightarrow> fixed_column_batch res" where
  "fixed_push_back al w enc x b =
     bind_res (mem_store (offset_of_data al + w * unat (fb_size b)) (enc x) (fb_buf b)) (\<lambda>buf.
       Inr (b\<lparr>fb_buf := buf, fb_size := fb_size b + 1\<rparr>))"

text \<open>The length of the dumped buffer is a 32-bit number.\<close>

definition fixed_get_length :: "nat \<Rightarrow> nat \<Rightarrow> tmpbuf \<Rightarrow> u32 res" where
  "fixed_get_length al w buf =
     bind_res (fixed_used buf) (\<lambda>n. Inr (word_of_nat (unat n * w + offset_of_data al)))"

definition fixed_dump_to ::
    "nat \<Rightarrow> nat \<Rightarrow> tmpbuf \<Rightarrow> fixed_column_batch \<Rightarrow> (tmpbuf \<times> fixed_column_batch) res" where
  "fixed_dump_to al w tmp_buf b =
     (if fb_buf b \<noteq> [] then
        bind_res (store_unaligned_int 0 (fb_size b) (fb_buf b)) (\<lambda>buf.
        bind_res (fixed_get_length al w buf) (\<lambda>len.
        bind_res (mem_load 0 (unat len) buf) (\<lambda>out.
          Inr (out, \<lparr>fb_buf = [], fb_size = 0, fb_capacity = 0\<rparr>))))
      else Inr (tmp_buf, b))"

definition fixed_dump_to_queue ::
    "nat \<Rightarrow> nat \<Rightarrow> fixed_column_batch \<Rightarrow> sq_state \<Rightarrow> (fixed_column_batch \<times> sq_state) res" where
  "fixed_dump_to_queue al w b sq =
     bind_res (fixed_dump_to al w [] b) (\<lambda>(buf, b').
     bind_res (sq_push buf sq) (\<lambda>sq'. Inr (b', sq')))"

section \<open>Batches of rows of varying length\<close>

record dynamic_column_batch =
  db_meta_buf :: tmpbuf
  db_data_buf :: tmpbuf
  db_occupied :: u32
  db_reserved :: u32
  db_size :: u32
  db_capacity :: u32

type_synonym metadata = "u32 \<times> u32"

definition metadata_bytes :: "metadata \<Rightarrow> byte list" where
  "metadata_bytes = (\<lambda>(off, len). int_bytes off @ int_bytes len)"

definition metadata_of_bytes :: "byte list \<Rightarrow> metadata" where
  "metadata_of_bytes bs = (int_of_bytes (take 4 bs), int_of_bytes (drop 4 bs))"

definition sizeof_metadata :: nat where "sizeof_metadata = 8"
definition offset_of_meta :: nat where "offset_of_meta = 4"

definition metabuf_size :: "u32 \<Rightarrow> nat" where
  "metabuf_size capacity = offset_of_meta + sizeof_metadata * unat capacity"

definition databuf_size :: "nat \<Rightarrow> u32 \<Rightarrow> nat" where
  "databuf_size w n = w * unat n"

definition load_meta :: "nat \<Rightarrow> tmpbuf \<Rightarrow> metadata res" where
  "load_meta i meta_buf =
     bind_res (mem_load (offset_of_meta + sizeof_metadata * i) sizeof_metadata meta_buf)
       (\<lambda>bs. Inr (metadata_of_bytes bs))"

definition store_meta :: "nat \<Rightarrow> metadata \<Rightarrow> tmpbuf \<Rightarrow> tmpbuf res" where
  "store_meta i m meta_buf =
     mem_store (offset_of_meta + sizeof_metadata * i) (metadata_bytes m) meta_buf"

definition dynamic_new :: "nat \<Rightarrow> (nat \<Rightarrow> tmpbuf) \<Rightarrow> u32 \<Rightarrow> u32 \<Rightarrow> dynamic_column_batch" where
  "dynamic_new w fresh capacity init_reserved =
     \<lparr>db_meta_buf = fresh (metabuf_size capacity), db_data_buf = fresh (databuf_size w init_reserved),
      db_occupied = 0, db_reserved = init_reserved, db_size = 0, db_capacity = capacity\<rparr>"

definition get_occupied :: "u32 \<Rightarrow> tmpbuf \<Rightarrow> u32 res" where
  "get_occupied used meta_buf = bind_res (load_meta (unat (used - 1)) meta_buf) (\<lambda>(off, len). Inr (len + off))"

definition dynamic_of_bufs :: "tmpbuf \<Rightarrow> tmpbuf \<Rightarrow> dynamic_column_batch res" where
  "dynamic_of_bufs tb1 tb2 =
     bind_res (load_unaligned_int 0 tb1) (\<lambda>used.
     bind_res (get_occupied used tb1) (\<lambda>occ.
       Inr \<lparr>db_meta_buf = tb1, db_data_buf = tb2, db_occupied = occ, db_reserved = occ,
            db_size = used, db_capacity = used\<rparr>))"

definition dynamic_moved_from :: dynamic_column_batch where
  "dynamic_moved_from = \<lparr>db_meta_buf = [], db_data_buf = [], db_occupied = 0, db_reserved = 0,
     db_size = 0, db_capacity = 0\<rparr>"

definition dynamic_move :: "dynamic_column_batch \<Rightarrow> dynamic_column_batch \<times> dynamic_column_batch" where
  "dynamic_move x = (x, dynamic_moved_from)"

text \<open>A row is a view of the data buffer; reading it decodes its elements.\<close>

definition decode_row :: "nat \<Rightarrow> (byte list \<Rightarrow> 'e) \<Rightarrow> nat \<Rightarrow> byte list \<Rightarrow> 'e list" where
  "decode_row w dec len bs = map (\<lambda>i. dec (take w (drop (i * w) bs))) [0..<len]"

definition dynamic_get ::
    "nat \<Rightarrow> (byte list \<Rightarrow> 'e) \<Rightarrow> nat \<Rightarrow> dynamic_column_batch \<Rightarrow> 'e list res" where
  "dynamic_get w dec idx b =
     bind_res (load_meta idx (db_meta_buf b)) (\<lambda>(off, len).
     bind_res (mem_load (w * unat off) (w * unat len) (db_data_buf b)) (\<lambda>bs.
       Inr (decode_row w dec (unat len) bs)))"

partial_function (option) double_reserved :: "u32 \<Rightarrow> u32 \<Rightarrow> u32 option" where
  "double_reserved reserved required =
     (let reserved' = reserved * 2
      in if reserved' < required then double_reserved reserved' required else Some reserved')"

declare double_reserved.simps [code]

definition ensure_space ::
    "nat \<Rightarrow> (nat \<Rightarrow> tmpbuf) \<Rightarrow> u32 \<Rightarrow> dynamic_column_batch \<Rightarrow> dynamic_column_batch res option" where
  "ensure_space w fresh len b =
     (let required = db_occupied b + len
      in if db_reserved b < required then
           bind_run (map_option Inr (double_reserved (db_reserved b) required)) (\<lambda>reserved.
           bind_run (Some (mem_load 0 (databuf_size w (db_occupied b)) (db_data_buf b))) (\<lambda>old.
           bind_run (Some (mem_store 0 old (fresh (databuf_size w reserved)))) (\<lambda>new_databuf.
             Some (Inr (b\<lparr>db_reserved := reserved, db_data_buf := new_databuf\<rparr>)))))
         else Some (Inr b))"

definition push_back_helper ::
    "nat \<Rightarrow> ('e \<Rightarrow> byte list) \<Rightarrow> (nat \<Rightarrow> tmpbuf) \<Rightarrow> 'e list \<Rightarrow> dynamic_column_batch \<Rightarrow>
     dynamic_column_batch res option" where
  "push_back_helper w enc fresh src b =
     (let len = word_of_nat (length src)
      in bind_run (ensure_space w fresh len b) (\<lambda>b1.
         bind_run (Some (store_meta (unat (db_size b1)) (db_occupied b1, len) (db_meta_buf b1))) (\<lambda>meta_buf.
         bind_run (Some (mem_store (w * unat (db_occupied b1)) (concat (map enc src)) (db_data_buf b1)))
           (\<lambda>data_buf.
             Some (Inr (b1\<lparr>db_meta_buf := meta_buf, db_data_buf := data_buf, db_size := db_size b1 + 1,
                          db_occupied := db_occupied b1 + len\<rparr>))))))"

definition push_back_helper_val ::
    "nat \<Rightarrow> ('e \<Rightarrow> byte list) \<Rightarrow> (nat \<Rightarrow> tmpbuf) \<Rightarrow> 'e list \<Rightarrow> 'e \<Rightarrow> dynamic_column_batch \<Rightarrow>
     dynamic_column_batch res option" where
  "push_back_helper_val w enc fresh src val b =
     (let total_len = word_of_nat (length src) + 1
      in bind_run (ensure_space w fresh total_len b) (\<lambda>b1.
         bind_run (Some (store_meta (unat (db_size b1)) (db_occupied b1, total_len) (db_meta_buf b1))) (\<lambda>meta_buf.
         bind_run (Some (mem_store (w * unat (db_occupied b1)) (concat (map enc src)) (db_data_buf b1)))
           (\<lambda>data_buf.
         let occ = db_occupied b1 + total_len
         in bind_run (Some (mem_store (w * unat (occ - 1)) (enc val) data_buf)) (\<lambda>data_buf'.
              Some (Inr (b1\<lparr>db_meta_buf := meta_buf, db_data_buf := data_buf', db_size := db_size b1 + 1,
                          db_occupied := occ\<rparr>)))))))"

definition dynamic_dump_to ::
    "nat \<Rightarrow> tmpbuf \<Rightarrow> tmpbuf \<Rightarrow> dynamic_column_batch \<Rightarrow> (tmpbuf \<times> tmpbuf \<times> dynamic_column_batch) res" where
  "dynamic_dump_to w tb1 tb2 b =
     (if \<not> (db_meta_buf b = [] \<and> db_data_buf b = []) then
        bind_res (store_unaligned_int 0 (db_size b) (db_meta_buf b)) (\<lambda>meta_buf.
        bind_res (load_unaligned_int 0 meta_buf) (\<lambda>used :: u32.
          let meta_length = word_of_nat (unat used * sizeof_metadata + offset_of_meta) :: u32;
              data_length = word_of_nat (unat (db_occupied b) * w) :: u32
          in bind_res (mem_load 0 (unat meta_length) meta_buf) (\<lambda>out1.
             bind_res (mem_load 0 (unat data_length) (db_data_buf b)) (\<lambda>out2.
               Inr (out1, out2, dynamic_moved_from)))))
      else Inr (tb1, tb2, b))"

definition dynamic_dump_to_queue ::
    "nat \<Rightarrow> dynamic_column_batch \<Rightarrow> sq_state \<Rightarrow> (dynamic_column_batch \<times> sq_state) res" where
  "dynamic_dump_to_queue w b sq =
     bind_res (dynamic_dump_to w [] [] b) (\<lambda>(buf_1, buf_2, b').
     bind_res (sq_push buf_1 sq) (\<lambda>sq1.
     bind_res (sq_push buf_2 sq1) (\<lambda>sq2. Inr (b', sq2))))"

section \<open>Tables\<close>

text \<open>A table dumps its columns one after the other.\<close>

datatype column = Fixed_col nat nat fixed_column_batch | Dynamic_col nat dynamic_column_batch

fun column_dump_to :: "column \<Rightarrow> sq_state \<Rightarrow> (column \<times> sq_state) res" where
  "column_dump_to (Fixed_col al w b) qu =
     bind_res (fixed_dump_to_queue al w b qu) (\<lambda>(b', qu'). Inr (Fixed_col al w b', qu'))"
| "column_dump_to (Dynamic_col w b) qu =
     bind_res (dynamic_dump_to_queue w b qu) (\<lambda>(b', qu'). Inr (Dynamic_col w b', qu'))"

fun table_dump_to :: "column list \<Rightarrow> sq_state \<Rightarrow> (column list \<times> sq_state) res" where
  "table_dump_to [] qu = Inr ([], qu)"
| "table_dump_to (c # cols) qu =
     bind_res (column_dump_to c qu) (\<lambda>(c', qu1).
     bind_res (table_dump_to cols qu1) (\<lambda>(cols', qu2). Inr (c' # cols', qu2)))"

section \<open>The contract of a batch\<close>

fun push_rows :: "('r \<Rightarrow> 'b \<Rightarrow> 'b res option) \<Rightarrow> 'r list \<Rightarrow> 'b \<Rightarrow> 'b res option" where
  "push_rows psh [] b = Some (Inr b)"
| "push_rows psh (r # rs) b = bind_run (psh r b) (push_rows psh rs)"

locale row_store =
  fixes push :: "'r \<Rightarrow> 'b \<Rightarrow> 'b res option" and get :: "nat \<Rightarrow> 'b \<Rightarrow> 'r res"
    and rep :: "'b \<Rightarrow> 'r list \<Rightarrow> bool" and fits :: "'r list \<Rightarrow> bool"
  assumes push_law: "rep b rs \<Longrightarrow> fits (rs @ [r]) \<Longrightarrow> \<exists>b'. push r b = Some (Inr b') \<and> rep b' (rs @ [r])"
    and get_law: "rep b rs \<Longrightarrow> i < length rs \<Longrightarrow> get i b = Inr (rs ! i)"
    and fits_prefix: "fits (rs @ ss) \<Longrightarrow> fits rs"
begin

lemma push_all:
  assumes "rep b rs" and "fits (rs @ ss)"
  shows "\<exists>b'. push_rows push ss b = Some (Inr b') \<and> rep b' (rs @ ss)"
  using assms
proof (induction ss arbitrary: b rs)
  case Nil
  then show ?case by simp
next
  case (Cons r ss)
  have "fits (rs @ [r])" using Cons.prems(2) fits_prefix [of "rs @ [r]" ss] by simp
  with push_law Cons.prems(1) obtain b1 where "push r b = Some (Inr b1)" "rep b1 (rs @ [r])" by blast
  with Cons.IH [of b1 "rs @ [r]"] Cons.prems(2) show ?case by simp
qed

lemma get_all: "rep b rs \<Longrightarrow> map (\<lambda>i. get i b) [0..<length rs] = map Inr rs"
  by (intro nth_equalityI) (simp_all add: get_law)

end

section \<open>Fixed-width batches store rows\<close>

lemma offset_of_data_ge: "0 < al \<Longrightarrow> 4 \<le> offset_of_data al"
proof -
  assume "0 < al"
  have "(3 + al) div al * al + (3 + al) mod al = 3 + al" by (rule div_mult_mod_eq)
  moreover have "(3 + al) mod al < al" using \<open>0 < al\<close> by (rule mod_less_divisor)
  ultimately show ?thesis unfolding offset_of_data_def by linarith
qed

locale fixed_column = byte_codec enc dec w for enc :: "'a \<Rightarrow> byte list" and dec and w +
  fixes al :: nat and cap :: nat
  assumes al_pos: "0 < al"
begin

definition fixed_rep :: "fixed_column_batch \<Rightarrow> 'a list \<Rightarrow> bool" where
  "fixed_rep b xs \<longleftrightarrow> length (fb_buf b) = offset_of_data al + w * cap \<and>
     unat (fb_size b) = length xs \<and> length xs \<le> cap \<and>
     take (w * length xs) (drop (offset_of_data al) (fb_buf b)) = concat (map enc xs)"

definition fixed_fits :: "'a list \<Rightarrow> bool" where
  "fixed_fits xs \<longleftrightarrow> length xs \<le> cap \<and> length xs < 4294967296"

lemma fixed_push_ok:
  assumes "fixed_rep b xs" and "fixed_fits (xs @ [x])"
  shows "\<exists>b'. fixed_push_back al w enc x b = Inr b' \<and> fixed_rep b' (xs @ [x])"
proof -
  let ?o = "offset_of_data al" and ?n = "length xs"
  from assms have len: "length (fb_buf b) = ?o + w * cap" and sz: "unat (fb_size b) = ?n"
    and n: "?n < cap" "Suc ?n < 4294967296"
    and xs: "take (w * ?n) (drop ?o (fb_buf b)) = concat (map enc xs)"
    by (auto simp: fixed_rep_def fixed_fits_def)
  have "w * Suc ?n \<le> w * cap" using n(1) by (intro mult_le_mono2) simp
  then have fit: "?o + w * ?n + w \<le> length (fb_buf b)" using len by simp
  let ?buf = "take (?o + w * ?n) (fb_buf b) @ enc x @ drop (?o + w * ?n + w) (fb_buf b)"
  have st: "mem_store (?o + w * ?n) (enc x) (fb_buf b) = Inr ?buf"
    using fit by (simp add: mem_store_def enc_length)
  have sz': "unat (fb_size b + 1) = Suc ?n"
    using n(2) sz by (simp add: unat_word_ariths)
  have "drop ?o ?buf = take (w * ?n) (drop ?o (fb_buf b)) @ enc x @ drop (?o + w * ?n + w) (fb_buf b)"
    using fit by (simp add: take_drop add.commute)
  then have "take (w * Suc ?n) (drop ?o ?buf) = concat (map enc (xs @ [x]))"
    using fit by (simp add: xs enc_length)
  then have "fixed_rep (b\<lparr>fb_buf := ?buf, fb_size := fb_size b + 1\<rparr>) (xs @ [x])"
    using len fit n(1) sz' by (simp add: fixed_rep_def enc_length)
  with st sz show ?thesis by (simp add: fixed_push_back_def)
qed

definition fixed_view :: "fixed_column_batch \<Rightarrow> 'a list \<Rightarrow> bool" where
  "fixed_view b xs \<longleftrightarrow> offset_of_data al + w * length xs \<le> length (fb_buf b) \<and>
     take (w * length xs) (drop (offset_of_data al) (fb_buf b)) = concat (map enc xs)"

lemma fixed_rep_view: "fixed_rep b xs \<Longrightarrow> fixed_view b xs"
  by (simp add: fixed_rep_def fixed_view_def)

lemma fixed_get_ok:
  assumes "fixed_view b xs" and "i < length xs"
  shows "fixed_get al w dec i b = Inr (xs ! i)"
proof -
  let ?o = "offset_of_data al" and ?n = "length xs"
  from assms(1) have len: "?o + w * ?n \<le> length (fb_buf b)"
    and xs: "take (w * ?n) (drop ?o (fb_buf b)) = concat (map enc xs)"
    by (auto simp: fixed_view_def)
  have "w * Suc i \<le> w * ?n" using assms(2) by (intro mult_le_mono2) simp
  then have fit: "?o + w * i + w \<le> length (fb_buf b)" and m: "min w (w * ?n - w * i) = w"
    using len by simp_all
  have "take w (drop (i * w) (take (w * ?n) (drop ?o (fb_buf b)))) = take w (drop (?o + w * i) (fb_buf b))"
    using m by (simp add: drop_take mult.commute add.commute)
  then have "take w (drop (?o + w * i) (fb_buf b)) = enc (xs ! i)"
    using nth_chunk [OF assms(2), of "[]"] by (simp add: xs)
  then show ?thesis using fit by (simp add: fixed_get_def mem_load_def dec_enc)
qed

lemma fixed_dump_ok:
  assumes "fixed_rep b xs" and "offset_of_data al + w * length xs < 4294967296"
  shows "\<exists>out b'. fixed_dump_to al w tb b = Inr (out, \<lparr>fb_buf = [], fb_size = 0, fb_capacity = 0\<rparr>) \<and>
    length out = offset_of_data al + w * length xs \<and>
    fixed_of_buf out = Inr b' \<and> unat (fb_size b') = length xs \<and> fixed_view b' xs"
proof -
  let ?o = "offset_of_data al" and ?n = "length xs" and ?sz = "fb_size b"
  have o4: "4 \<le> ?o" using al_pos by (rule offset_of_data_ge)
  from assms(1) have len: "length (fb_buf b) = ?o + w * cap" and sz: "unat ?sz = ?n" and n: "?n \<le> cap"
    and xs: "take (w * ?n) (drop ?o (fb_buf b)) = concat (map enc xs)" by (auto simp: fixed_rep_def)
  have wn: "w * ?n \<le> w * cap" using n by (rule mult_le_mono2)
  let ?buf = "int_bytes ?sz @ drop 4 (fb_buf b)"
  let ?out = "take (?o + w * ?n) ?buf"
  have lb: "length ?buf = ?o + w * cap" using len o4 by simp
  have lo: "length ?out = ?o + w * ?n"
    by (simp only: length_take lb min_absorb2 [OF add_left_mono [OF wn]])
  have st: "store_unaligned_int 0 ?sz (fb_buf b) = Inr ?buf"
    using len o4 by (simp add: store_unaligned_int_def mem_store_def)
  have us: "fixed_used (int_bytes ?sz @ r) = Inr ?sz" for r
    by (simp add: fixed_used_def load_unaligned_int_def mem_load_def int_bytes_decode)
  have ul: "unat (word_of_nat (?n * w + ?o) :: u32) = ?o + w * ?n"
    using assms(2) unat_of_nat_u32 [of "?n * w + ?o"] by (simp only: mult.commute add.commute)
  have "fb_buf b \<noteq> []" using len o4 by auto
  then have d: "fixed_dump_to al w tb b = Inr (?out, \<lparr>fb_buf = [], fb_size = 0, fb_capacity = 0\<rparr>)"
    using lo len o4 wn
    by (simp add: fixed_dump_to_def st fixed_get_length_def us sz mem_load_def ul del: of_nat_add of_nat_mult)
  have out: "?out = int_bytes ?sz @ take (?o + w * ?n - 4) (drop 4 (fb_buf b))"
    using o4 by simp
  have f: "fixed_of_buf ?out = Inr \<lparr>fb_buf = ?out, fb_size = ?sz, fb_capacity = ?sz\<rparr>"
    unfolding fixed_of_buf_def by (subst out) (simp add: us)
  have "drop ?o ?buf = drop ?o (fb_buf b)" using o4 by simp
  then have "take (w * ?n) (drop ?o ?out) = take (w * ?n) (drop ?o (fb_buf b))"
    by (simp only: drop_take take_take diff_add_inverse min.idem)
  then have "fixed_view \<lparr>fb_buf = ?out, fb_size = ?sz, fb_capacity = ?sz\<rparr> xs"
    unfolding fixed_view_def using lo xs by simp
  with d f lo sz show ?thesis by auto
qed

end

sublocale fixed_column \<subseteq> rows: row_store "\<lambda>x b. Some (fixed_push_back al w enc x b)" "fixed_get al w dec"
    fixed_rep fixed_fits
  by unfold_locales (use fixed_push_ok fixed_get_ok fixed_rep_view in \<open>auto simp: fixed_fits_def\<close>)

section \<open>Dynamic batches store rows\<close>

interpretation meta_codec: byte_codec metadata_bytes metadata_of_bytes 8
  by unfold_locales
    (auto simp: metadata_bytes_def metadata_of_bytes_def codec32.dec_enc split: prod.splits)

fun metas_from :: "nat \<Rightarrow> 'e list list \<Rightarrow> metadata list" where
  "metas_from off [] = []"
| "metas_from off (r # rs) = (word_of_nat off, word_of_nat (length r)) # metas_from (off + length r) rs"

lemma length_metas_from [simp]: "length (metas_from off rs) = length rs"
  by (induction off rs rule: metas_from.induct) auto

lemma metas_from_snoc:
  "metas_from off (rs @ [r]) =
     metas_from off rs @ [(word_of_nat (off + length (concat rs)), word_of_nat (length r))]"
  by (induction off rs rule: metas_from.induct) (auto simp: add.assoc)

lemma metas_from_nth:
  "i < length rs \<Longrightarrow> metas_from off rs ! i =
     (word_of_nat (off + length (concat (take i rs))), word_of_nat (length (rs ! i)))"
proof (induction off rs arbitrary: i rule: metas_from.induct)
  case (2 off r rs)
  then show ?case by (cases i) (auto simp: add.assoc)
qed simp

lemma double_reserved_ok:
  assumes "0 < r" and "r < req" and "unat req \<le> 2147483648"
  shows "\<exists>r'. double_reserved r req = Some r' \<and> req \<le> r'"
  using assms
proof (induction "unat req - unat r" arbitrary: r rule: less_induct)
  case less
  have r: "0 < unat r" "unat r < unat req"
    using less.prems by (simp_all add: word_less_nat_alt)
  then have u: "unat (r * 2) = 2 * unat r" using less.prems(3) by (simp add: unat_word_ariths)
  show ?case
  proof (cases "r * 2 < req")
    case True
    moreover have "unat req - unat (r * 2) < unat req - unat r"
      using True r u by (simp add: word_less_nat_alt)
    moreover have "0 < r * 2" using r u by (simp add: word_less_nat_alt)
    ultimately show ?thesis
      using less.hyps [of "r * 2"] less.prems(3) by (subst double_reserved.simps) (simp add: Let_def)
  next
    case False
    then show ?thesis by (subst double_reserved.simps) (simp add: Let_def)
  qed
qed

locale dynamic_column = byte_codec enc dec w for enc :: "'e \<Rightarrow> byte list" and dec and w +
  fixes fresh :: "nat \<Rightarrow> tmpbuf" and cap :: nat
  assumes fresh_length: "length (fresh n) = n"
begin

definition dyn_view :: "dynamic_column_batch \<Rightarrow> 'e list list \<Rightarrow> bool" where
  "dyn_view b rows \<longleftrightarrow>
     4 + 8 * length rows \<le> length (db_meta_buf b) \<and>
     take (8 * length rows) (drop 4 (db_meta_buf b)) = concat (map metadata_bytes (metas_from 0 rows)) \<and>
     w * length (concat rows) \<le> length (db_data_buf b) \<and>
     take (w * length (concat rows)) (db_data_buf b) = concat (map enc (concat rows)) \<and>
     length (concat rows) \<le> 2147483648"

definition dyn_rep :: "dynamic_column_batch \<Rightarrow> 'e list list \<Rightarrow> bool" where
  "dyn_rep b rows \<longleftrightarrow> dyn_view b rows \<and> length (db_meta_buf b) = 4 + 8 * cap \<and>
     length (db_data_buf b) = w * unat (db_reserved b) \<and> unat (db_occupied b) = length (concat rows) \<and>
     unat (db_size b) = length rows \<and> 0 < db_reserved b \<and>
     length (concat rows) \<le> unat (db_reserved b)"

definition dyn_fits :: "'e list list \<Rightarrow> bool" where
  "dyn_fits rows \<longleftrightarrow> length rows \<le> cap \<and> length rows < 4294967296 \<and> length (concat rows) \<le> 2147483648"

lemma ensure_space_ok:
  assumes "dyn_rep b rows" and "length (concat rows) + unat len \<le> 2147483648"
  shows "\<exists>b'. ensure_space w fresh len b = Some (Inr b') \<and> dyn_rep b' rows \<and>
    length (concat rows) + unat len \<le> unat (db_reserved b') \<and> db_size b' = db_size b \<and>
    db_occupied b' = db_occupied b"
proof -
  let ?t = "length (concat rows)" and ?req = "db_occupied b + len"
  from assms(1) have occ: "unat (db_occupied b) = ?t" and ld: "length (db_data_buf b) = w * unat (db_reserved b)"
    and tr: "?t \<le> unat (db_reserved b)" and pos: "0 < db_reserved b"
    and tk: "take (w * ?t) (db_data_buf b) = concat (map enc (concat rows))"
    by (auto simp: dyn_rep_def dyn_view_def)
  have req: "unat ?req = ?t + unat len" using assms(2) occ by (simp add: unat_word_ariths)
  show ?thesis
  proof (cases "db_reserved b < ?req")
    case False
    then have "?t + unat len \<le> unat (db_reserved b)" using req by (simp add: word_less_nat_alt)
    with False assms(1) show ?thesis by (simp add: ensure_space_def Let_def)
  next
    case True
    from double_reserved_ok [OF pos True] assms(2) req obtain r' where
      r': "double_reserved (db_reserved b) ?req = Some r'" "?req \<le> r'" by auto
    have le: "?t + unat len \<le> unat r'" using r'(2) req by (simp add: word_le_nat_alt)
    have m: "w * ?t \<le> w * unat r'" "w * ?t \<le> w * unat (db_reserved b)"
      using le tr by (simp_all add: mult_le_mono2)
    let ?old = "take (w * ?t) (db_data_buf b)"
    let ?new = "?old @ drop (w * ?t) (fresh (w * unat r'))"
    let ?b = "b\<lparr>db_reserved := r', db_data_buf := ?new\<rparr>"
    have lo: "length ?old = w * ?t" using ld m(2) by (simp del: mult_le_cancel1)
    have "mem_load 0 (w * ?t) (db_data_buf b) = Inr ?old"
      unfolding mem_load_def using ld m(2) by (simp del: mult_le_cancel1)
    moreover have "mem_store 0 ?old (fresh (w * unat r')) = Inr ?new"
      unfolding mem_store_def using m(1) lo by (simp add: fresh_length del: mult_le_cancel1 length_take)
    ultimately have e: "ensure_space w fresh len b = Some (Inr ?b)"
      using True r'(1) occ by (simp add: ensure_space_def Let_def databuf_size_def)
    have ln: "length ?new = w * unat r'"
      using lo m(1) by (simp only: length_append length_drop fresh_length)
    have "0 < r'" using r'(2) True by (simp add: word_less_nat_alt word_le_nat_alt)
    moreover have "take (w * ?t) ?new = concat (map enc (concat rows))"
      using lo tk by simp
    ultimately have "dyn_rep ?b rows"
      using assms(1) ln le m(1) unfolding dyn_rep_def dyn_view_def by simp
    with e le show ?thesis by simp
  qed
qed

lemma dyn_push_stores:
  assumes "dyn_rep b rows" and "length (concat rows) + length r \<le> unat (db_reserved b)"
    and "dyn_fits (rows @ [r])"
  shows "\<exists>mb db. store_meta (length rows) (db_occupied b, word_of_nat (length r)) (db_meta_buf b) = Inr mb \<and>
    mem_store (w * length (concat rows)) (concat (map enc r)) (db_data_buf b) = Inr db \<and>
    dyn_rep (b\<lparr>db_meta_buf := mb, db_data_buf := db, db_size := db_size b + 1,
               db_occupied := db_occupied b + word_of_nat (length r)\<rparr>) (rows @ [r])"
proof -
  let ?t = "length (concat rows)" and ?n = "length rows" and ?l = "length r"
  from assms(1) have occ: "unat (db_occupied b) = ?t" and sz: "unat (db_size b) = ?n"
    and ld: "length (db_data_buf b) = w * unat (db_reserved b)" and lm: "length (db_meta_buf b) = 4 + 8 * cap"
    and mt: "take (8 * ?n) (drop 4 (db_meta_buf b)) = concat (map metadata_bytes (metas_from 0 rows))"
    and dt: "take (w * ?t) (db_data_buf b) = concat (map enc (concat rows))" and pos: "0 < db_reserved b"
    by (auto simp: dyn_rep_def dyn_view_def)
  from assms(3) have n: "Suc ?n \<le> cap" "Suc ?n < 4294967296" and tl: "?t + ?l \<le> 2147483648"
    by (simp_all add: dyn_fits_def)
  let ?m = "(db_occupied b, word_of_nat ?l) :: metadata"
  have m: "?m = (word_of_nat ?t, word_of_nat ?l)" by (simp flip: occ)
  have "4 + 8 * ?n + length (metadata_bytes ?m) \<le> length (db_meta_buf b)"
    using n(1) lm by (simp add: meta_codec.enc_length)
  then obtain mb where mb: "store_meta ?n ?m (db_meta_buf b) = Inr mb"
    by (simp add: store_meta_def mem_store_def offset_of_meta_def sizeof_metadata_def)
  have wl: "w * ?t + w * ?l \<le> w * unat (db_reserved b)"
    using mult_le_mono2 [OF assms(2), of w] by (simp only: distrib_left)
  then have "w * ?t + length (concat (map enc r)) \<le> length (db_data_buf b)" using ld by simp
  then obtain db where db: "mem_store (w * ?t) (concat (map enc r)) (db_data_buf b) = Inr db"
    by (simp add: mem_store_def)
  have lens: "length mb = length (db_meta_buf b)" "length db = length (db_data_buf b)"
    using mb db mem_store_length by (auto simp: store_meta_def)
  let ?pre = "concat (map metadata_bytes (metas_from 0 rows))"
  have lp: "length ?pre = 8 * ?n" by simp
  have "take (length ?pre + 8) (drop 4 mb) = ?pre @ metadata_bytes ?m"
    using mem_store_extend [of 4 ?pre "metadata_bytes ?m" "db_meta_buf b" mb] mb mt
    unfolding store_meta_def offset_of_meta_def sizeof_metadata_def lp meta_codec.enc_length by blast
  then have mb': "take (8 * length (rows @ [r])) (drop 4 mb) =
      concat (map metadata_bytes (metas_from 0 (rows @ [r])))"
    using m by (simp add: metas_from_snoc lp add.commute)
  let ?dp = "concat (map enc (concat rows))"
  have ldp: "length ?dp = w * ?t" by simp
  have "take (length ?dp + length (concat (map enc r))) (drop 0 db) = ?dp @ concat (map enc r)"
    by (rule mem_store_extend [of _ _ _ "db_data_buf b"]) (use db dt ldp in \<open>simp_all only: add_0 drop_0\<close>)
  then have db': "take (w * length (concat (rows @ [r]))) db = concat (map enc (concat (rows @ [r])))"
    by (simp add: distrib_left)
  have u: "unat (db_occupied b + word_of_nat ?l) = ?t + ?l" "unat (db_size b + 1) = Suc ?n"
    using occ sz tl n(2) by (simp_all add: unat_word_ariths)
  have "w * length (concat (rows @ [r])) \<le> length db"
    using wl ld lens by (simp add: distrib_left)
  then have "dyn_rep (b\<lparr>db_meta_buf := mb, db_data_buf := db, db_size := db_size b + 1,
      db_occupied := db_occupied b + word_of_nat ?l\<rparr>) (rows @ [r])"
    using mb' db' u lens lm ld pos n(1) tl assms(2) unfolding dyn_rep_def dyn_view_def by simp
  with mb db show ?thesis by blast
qed

lemma dyn_push_ok:
  assumes "dyn_rep b rows" and "dyn_fits (rows @ [r])"
  shows "\<exists>b'. push_back_helper w enc fresh r b = Some (Inr b') \<and> dyn_rep b' (rows @ [r])"
proof -
  have l: "unat (word_of_nat (length r) :: u32) = length r"
    using assms(2) by (simp add: dyn_fits_def)
  have "length (concat rows) + unat (word_of_nat (length r) :: u32) \<le> 2147483648"
    using assms(2) by (simp add: l) (simp add: dyn_fits_def)
  from ensure_space_ok [OF assms(1) this] obtain b1 where
    b1: "ensure_space w fresh (word_of_nat (length r)) b = Some (Inr b1)" "dyn_rep b1 rows"
      "length (concat rows) + length r \<le> unat (db_reserved b1)" by (auto simp: l)
  from dyn_push_stores [OF b1(2,3) assms(2)] obtain mb db where
    "store_meta (length rows) (db_occupied b1, word_of_nat (length r)) (db_meta_buf b1) = Inr mb"
    "mem_store (w * length (concat rows)) (concat (map enc r)) (db_data_buf b1) = Inr db"
    "dyn_rep (b1\<lparr>db_meta_buf := mb, db_data_buf := db, db_size := db_size b1 + 1,
               db_occupied := db_occupied b1 + word_of_nat (length r)\<rparr>) (rows @ [r])" by blast
  moreover have "unat (db_occupied b1) = length (concat rows)" "unat (db_size b1) = length rows"
    using b1(2) by (simp_all add: dyn_rep_def)
  ultimately show ?thesis using b1(1) by (simp add: push_back_helper_def Let_def)
qed

lemma decode_row_enc: "decode_row w dec (length r) (concat (map enc r)) = r"
  using nth_chunk [of _ r "[]"] by (intro nth_equalityI) (simp_all add: decode_row_def dec_enc)

lemma load_meta_ok:
  assumes "4 + 8 * length rows \<le> length mb"
    and "take (8 * length rows) (drop 4 mb) = concat (map metadata_bytes (metas_from 0 rows))"
    and "i < length rows"
  shows "load_meta i mb = Inr (word_of_nat (length (concat (take i rows))), word_of_nat (length (rows ! i)))"
proof -
  let ?n = "length rows"
  have "take 8 (drop (i * 8) (take (8 * ?n) (drop 4 mb))) = metadata_bytes (metas_from 0 rows ! i)"
    using meta_codec.nth_chunk [of i "metas_from 0 rows" "[]"] assms(3) by (simp add: assms(2))
  moreover have "take 8 (drop (i * 8) (take (8 * ?n) (drop 4 mb))) = take 8 (drop (4 + 8 * i) mb)"
    using assms(3) by (simp add: drop_take min_def mult.commute add.commute)
  ultimately show ?thesis
    using assms(1,3)
    by (simp add: load_meta_def mem_load_def offset_of_meta_def sizeof_metadata_def meta_codec.dec_enc
        metas_from_nth)
qed

lemma dyn_get_ok:
  assumes "dyn_view b rows" and "i < length rows"
  shows "dynamic_get w dec i b = Inr (rows ! i)"
proof -
  let ?o = "length (concat (take i rows))" and ?l = "length (rows ! i)"
  from assms(1) have ml: "4 + 8 * length rows \<le> length (db_meta_buf b)"
    and mt: "take (8 * length rows) (drop 4 (db_meta_buf b)) = concat (map metadata_bytes (metas_from 0 rows))"
    and dl: "w * length (concat rows) \<le> length (db_data_buf b)"
    and dt: "take (w * length (concat rows)) (db_data_buf b) = concat (map enc (concat rows))"
    and t: "length (concat rows) \<le> 2147483648"
    by (auto simp: dyn_view_def)
  note sp = concat_split_nth [OF assms(2)]
  have le: "?o + ?l \<le> length (concat rows)" by (subst sp) simp
  have u: "unat (word_of_nat ?o :: u32) = ?o" "unat (word_of_nat ?l :: u32) = ?l"
    using le t by simp_all
  have wl: "w * ?o + w * ?l \<le> w * length (concat rows)"
    using mult_le_mono2 [OF le, of w] by (simp only: distrib_left)
  have "take (w * ?l) (drop (w * ?o) (take (w * length (concat rows)) (db_data_buf b))) =
      take (w * ?l) (drop (w * ?o) (concat (map enc (concat rows))))"
    by (simp only: dt)
  moreover have "concat (map enc (concat rows)) = concat (map enc (concat (take i rows))) @
      concat (map enc (rows ! i)) @ concat (map enc (concat (drop (Suc i) rows)))"
    by (subst sp) simp
  then have "take (w * ?l) (drop (w * ?o) (concat (map enc (concat rows)))) = concat (map enc (rows ! i))"
    by simp
  moreover have "take (w * ?l) (drop (w * ?o) (take (w * length (concat rows)) (db_data_buf b))) =
      take (w * ?l) (drop (w * ?o) (db_data_buf b))"
    using wl by (simp add: drop_take min_def)
  ultimately have "mem_load (w * ?o) (w * ?l) (db_data_buf b) = Inr (concat (map enc (rows ! i)))"
    using wl dl by (simp add: mem_load_def)
  then show ?thesis
    using load_meta_ok [OF ml mt assms(2)] by (simp add: dynamic_get_def u decode_row_enc)
qed

lemma dyn_dump_ok:
  assumes "dyn_rep b rows" and "rows \<noteq> []" and "4 + 8 * length rows < 4294967296"
    and "w * length (concat rows) < 4294967296"
  shows "\<exists>o1 o2 b'. dynamic_dump_to w tb1 tb2 b = Inr (o1, o2, dynamic_moved_from) \<and>
    dynamic_of_bufs o1 o2 = Inr b' \<and> unat (db_size b') = length rows \<and> dyn_view b' rows"
proof -
  let ?t = "length (concat rows)" and ?n = "length rows"
  from assms(1) have ml: "4 + 8 * ?n \<le> length (db_meta_buf b)"
    and mt: "take (8 * ?n) (drop 4 (db_meta_buf b)) = concat (map metadata_bytes (metas_from 0 rows))"
    and dl: "w * ?t \<le> length (db_data_buf b)"
    and dt: "take (w * ?t) (db_data_buf b) = concat (map enc (concat rows))"
    and t: "?t \<le> 2147483648" and sz: "unat (db_size b) = ?n" and occ: "unat (db_occupied b) = ?t"
    by (auto simp: dyn_rep_def dyn_view_def)
  let ?mb = "int_bytes (db_size b) @ drop 4 (db_meta_buf b)"
  let ?o1 = "int_bytes (db_size b) @ take (8 * ?n) (drop 4 (db_meta_buf b))"
  let ?o2 = "take (w * ?t) (db_data_buf b)"
  have st: "store_unaligned_int 0 (db_size b) (db_meta_buf b) = Inr ?mb"
    using ml by (simp add: store_unaligned_int_def mem_store_def)
  have us: "load_unaligned_int 0 (int_bytes (db_size b) @ r) = Inr (db_size b)" for r
    by (simp add: load_unaligned_int_def mem_load_def int_bytes_decode)
  have u1: "unat (word_of_nat (?n * 8 + 4) :: u32) = 4 + 8 * ?n"
    using assms(3) unat_of_nat_u32 [of "?n * 8 + 4"] by (simp only: mult.commute add.commute)
  have u2: "unat (word_of_nat (?t * w) :: u32) = w * ?t"
    using assms(4) unat_of_nat_u32 [of "?t * w"] by (simp only: mult.commute)
  have l1: "mem_load 0 (4 + 8 * ?n) ?mb = Inr ?o1" using ml by (simp add: mem_load_def)
  have l2: "mem_load 0 (w * ?t) (db_data_buf b) = Inr ?o2" using dl by (simp add: mem_load_def)
  have "db_meta_buf b \<noteq> []" using ml by auto
  then have d: "dynamic_dump_to w tb1 tb2 b = Inr (?o1, ?o2, dynamic_moved_from)"
    by (simp add: dynamic_dump_to_def st us sz occ sizeof_metadata_def offset_of_meta_def Let_def u1 u2 l1 l2
        del: of_nat_add of_nat_mult)
  have lo1: "4 + 8 * ?n \<le> length ?o1" and to1: "take (8 * ?n) (drop 4 ?o1) = concat (map metadata_bytes (metas_from 0 rows))"
    using ml mt by simp_all
  have "1 \<le> db_size b" using sz assms(2) by (cases rows) (auto simp: word_le_nat_alt)
  then have "unat (db_size b - 1) = ?n - 1" using unat_sub [of 1 "db_size b"] sz by simp
  then obtain x y where g: "get_occupied (db_size b) ?o1 = Inr (x + y)"
    using load_meta_ok [OF lo1 to1, of "?n - 1"] assms(2) by (auto simp: get_occupied_def)
  let ?b = "\<lparr>db_meta_buf = ?o1, db_data_buf = ?o2, db_occupied = x + y, db_reserved = x + y,
            db_size = db_size b, db_capacity = db_size b\<rparr>"
  have "dynamic_of_bufs ?o1 ?o2 = Inr ?b" by (simp add: dynamic_of_bufs_def us g)
  moreover have "dyn_view ?b rows"
    unfolding dyn_view_def using lo1 to1 dl dt t by simp
  ultimately show ?thesis using d sz by fastforce
qed

end

sublocale dynamic_column \<subseteq> rows: row_store "push_back_helper w enc fresh" "dynamic_get w dec" dyn_rep dyn_fits
  by unfold_locales (use dyn_push_ok dyn_get_ok in \<open>auto simp: dyn_fits_def dyn_rep_def\<close>)

section \<open>Round trips\<close>

context fixed_column
begin

lemma fixed_round_trip:
  assumes "\<And>n. length (fresh n) = n" and "unat capacity = cap" and "length xs \<le> cap"
    and "offset_of_data al + w * length xs < 4294967296"
  shows "\<exists>b out b'.
    push_rows (\<lambda>x b. Some (fixed_push_back al w enc x b)) xs (fixed_new al w fresh capacity) = Some (Inr b) \<and>
    fixed_dump_to al w tb b = Inr (out, snd (fixed_move b)) \<and> fixed_of_buf out = Inr b' \<and>
    unat (fb_size b') = length xs \<and> map (\<lambda>i. fixed_get al w dec i b') [0..<length xs] = map Inr xs"
proof -
  have lt: "length xs < 4294967296" using assms(2,3) unat_u32_less [of capacity] by linarith
  have "fixed_rep (fixed_new al w fresh capacity) []"
    using assms(1,2) by (simp add: fixed_rep_def fixed_new_def fixed_buf_size_def)
  from rows.push_all [OF this, of xs] assms(3) lt obtain b where
    b: "push_rows (\<lambda>x b. Some (fixed_push_back al w enc x b)) xs (fixed_new al w fresh capacity) = Some (Inr b)"
      "fixed_rep b xs" by (auto simp: fixed_fits_def)
  from fixed_dump_ok [OF b(2) assms(4), of tb] obtain out b' where
    o: "fixed_dump_to al w tb b = Inr (out, \<lparr>fb_buf = [], fb_size = 0, fb_capacity = 0\<rparr>)"
      "fixed_of_buf out = Inr b'" "unat (fb_size b') = length xs" "fixed_view b' xs" by blast
  have "map (\<lambda>i. fixed_get al w dec i b') [0..<length xs] = map Inr xs"
    using fixed_get_ok [OF o(4)] by (intro nth_equalityI) simp_all
  with b o show ?thesis unfolding fixed_move_def snd_conv by blast
qed

lemma fixed_overflow:
  assumes "\<And>n. length (fresh n) = n" and "unat capacity = cap" and "length xs = cap" and "0 < w"
  shows "\<exists>b. push_rows (\<lambda>x b. Some (fixed_push_back al w enc x b)) xs (fixed_new al w fresh capacity) =
      Some (Inr b) \<and> fixed_push_back al w enc x b = Inl Out_of_bounds"
proof -
  have "fixed_rep (fixed_new al w fresh capacity) []"
    using assms(1,2) by (simp add: fixed_rep_def fixed_new_def fixed_buf_size_def)
  from rows.push_all [OF this, of xs] assms(2,3) obtain b where
    b: "push_rows (\<lambda>x b. Some (fixed_push_back al w enc x b)) xs (fixed_new al w fresh capacity) = Some (Inr b)"
      "fixed_rep b xs" by (auto simp: fixed_fits_def)
  from b(2) have "length (fb_buf b) = offset_of_data al + w * cap" "unat (fb_size b) = cap"
    using assms(3) by (simp_all add: fixed_rep_def)
  with assms(4) b(1) show ?thesis by (simp add: fixed_push_back_def mem_store_def enc_length)
qed

end

context dynamic_column
begin

lemma dyn_rep_new:
  "unat capacity = cap \<Longrightarrow> 0 < reserved \<Longrightarrow> dyn_rep (dynamic_new w fresh capacity reserved) []"
  by (simp add: dyn_rep_def dyn_view_def dynamic_new_def fresh_length metabuf_size_def databuf_size_def
      offset_of_meta_def sizeof_metadata_def)

lemma dyn_round_trip:
  assumes "unat capacity = cap" and "0 < reserved" and "rows \<noteq> []" and "length rows \<le> cap"
    and "4 + 8 * length rows < 4294967296" and "length (concat rows) \<le> 2147483648"
    and "w * length (concat rows) < 4294967296"
  shows "\<exists>b o1 o2 b'.
    push_rows (push_back_helper w enc fresh) rows (dynamic_new w fresh capacity reserved) = Some (Inr b) \<and>
    dynamic_dump_to w tb1 tb2 b = Inr (o1, o2, snd (dynamic_move b)) \<and>
    dynamic_of_bufs o1 o2 = Inr b' \<and> unat (db_size b') = length rows \<and>
    map (\<lambda>i. dynamic_get w dec i b') [0..<length rows] = map Inr rows"
proof -
  have "dyn_fits ([] @ rows)" using assms by (simp add: dyn_fits_def)
  from rows.push_all [OF dyn_rep_new [OF assms(1,2)] this] obtain b where
    b: "push_rows (push_back_helper w enc fresh) rows (dynamic_new w fresh capacity reserved) = Some (Inr b)"
      "dyn_rep b rows" by auto
  from dyn_dump_ok [OF b(2) assms(3,5,7), of tb1 tb2] obtain o1 o2 b' where
    o: "dynamic_dump_to w tb1 tb2 b = Inr (o1, o2, dynamic_moved_from)"
      "dynamic_of_bufs o1 o2 = Inr b'" "unat (db_size b') = length rows" "dyn_view b' rows" by blast
  have "map (\<lambda>i. dynamic_get w dec i b') [0..<length rows] = map Inr rows"
    using dyn_get_ok [OF o(4)] by (intro nth_equalityI) simp_all
  with b o show ?thesis unfolding dynamic_move_def snd_conv by blast
qed

end

lemma double_reserved_zero: "0 < req \<Longrightarrow> double_reserved 0 req = None"
proof (rule ccontr)
  assume "0 < req" and "double_reserved 0 req \<noteq> None"
  then obtain y where "double_reserved 0 req = Some y" by auto
  then have "(0 :: u32) = 0 \<longrightarrow> \<not> 0 < req"
    by (rule double_reserved.raw_induct [where P = "\<lambda>r q y. r = 0 \<longrightarrow> \<not> 0 < q", rotated])
      (auto simp: Let_def split: if_splits)
  with \<open>0 < req\<close> show False by simp
qed

section \<open>Properties\<close>

text \<open>A fixed-width batch survives the trip through a buffer: values pushed into a new batch,
  up to its capacity, are dumped, and the batch constructed from the dumped buffer has the same
  number of values and returns each of them, for every value type of fixed width and alignment.\<close>

theorem fixed_batch_round_trip:
  assumes "byte_codec enc dec w" and "0 < al" and "\<forall>n. length (fresh n) = n"
    and "length xs \<le> unat capacity" and "offset_of_data al + w * length xs < 4294967296"
  shows "\<exists>b out b'.
    push_rows (\<lambda>x b. Some (fixed_push_back al w enc x b)) xs (fixed_new al w fresh capacity) = Some (Inr b) \<and>
    fixed_dump_to al w tb b = Inr (out, snd (fixed_move b)) \<and> fixed_of_buf out = Inr b' \<and>
    unat (fb_size b') = length xs \<and> map (\<lambda>i. fixed_get al w dec i b') [0..<length xs] = map Inr xs"
  by (rule fixed_column.fixed_round_trip [OF _ _ refl])
    (use assms in \<open>simp_all add: fixed_column_def fixed_column_axioms_def\<close>)

theorem fixed_batch_round_trip_witness:
  "\<exists>b out b'.
    push_rows (\<lambda>x b. Some (fixed_push_back 8 8 int_bytes x b)) [5102, 5103, 5104 :: u64]
      (fixed_new 8 8 (\<lambda>n. replicate n 255) 10) = Some (Inr b) \<and>
    fixed_dump_to 8 8 [] b = Inr (out, snd (fixed_move b)) \<and> fixed_of_buf out = Inr b' \<and>
    unat (fb_size b') = length [5102, 5103, 5104 :: u64] \<and>
    map (\<lambda>i. fixed_get 8 8 int_of_bytes i b') [0..<length [5102, 5103, 5104 :: u64]] =
      map Inr [5102, 5103, 5104 :: u64]"
  by (rule fixed_batch_round_trip [OF codec64.byte_codec_axioms]) (simp_all add: offset_of_data_def)

text \<open>\<open>push_back\<close> does not compare the size with the capacity: one more value than the capacity
  is written past the end of the buffer.\<close>

theorem fixed_batch_push_past_capacity:
  assumes "byte_codec enc dec w" and "0 < w" and "0 < al" and "\<forall>n. length (fresh n) = n"
    and "length xs = unat capacity"
  shows "\<exists>b. push_rows (\<lambda>x b. Some (fixed_push_back al w enc x b)) xs (fixed_new al w fresh capacity) =
      Some (Inr b) \<and> fixed_push_back al w enc x b = Inl Out_of_bounds"
  by (rule fixed_column.fixed_overflow [OF _ _ refl])
    (use assms in \<open>simp_all add: fixed_column_def fixed_column_axioms_def\<close>)

theorem fixed_batch_push_past_capacity_witness:
  "\<exists>b. push_rows (\<lambda>x b. Some (fixed_push_back 4 4 int_bytes x b)) [1, 2 :: u32]
      (fixed_new 4 4 (\<lambda>n. replicate n 0) 2) = Some (Inr b) \<and>
    fixed_push_back 4 4 int_bytes (3 :: u32) b = Inl Out_of_bounds"
  using fixed_batch_push_past_capacity [OF codec32.byte_codec_axioms, of 4 "\<lambda>n. replicate n 0" "[1, 2]" 2 3]
  by simp

text \<open>C20: A batch of rows survives the trip through its two buffers: rows pushed into a new batch
  with some space reserved (the data buffer growing as needed), at least one and no more than the
  capacity, are dumped, and the batch constructed from the two buffers has the same number of rows
  and returns each of them.\<close>

theorem dynamic_batch_round_trip:
  assumes "byte_codec enc dec w" and "\<forall>n. length (fresh n) = n" and "0 < reserved" and "rows \<noteq> []"
    and "length rows \<le> unat capacity" and "4 + 8 * length rows < 4294967296"
    and "length (concat rows) \<le> 2147483648" and "w * length (concat rows) < 4294967296"
  shows "\<exists>b o1 o2 b'.
    push_rows (push_back_helper w enc fresh) rows (dynamic_new w fresh capacity reserved) = Some (Inr b) \<and>
    dynamic_dump_to w tb1 tb2 b = Inr (o1, o2, snd (dynamic_move b)) \<and>
    dynamic_of_bufs o1 o2 = Inr b' \<and> unat (db_size b') = length rows \<and>
    map (\<lambda>i. dynamic_get w dec i b') [0..<length rows] = map Inr rows"
  by (rule dynamic_column.dyn_round_trip [OF _ refl])
    (use assms in \<open>simp_all add: dynamic_column_def dynamic_column_axioms_def\<close>)

theorem dynamic_batch_round_trip_witness:
  "\<exists>b o1 o2 b'.
    push_rows (push_back_helper 8 int_bytes (\<lambda>n. replicate n 255)) [[1, 2, 3], [], [4 :: u64]]
      (dynamic_new 8 (\<lambda>n. replicate n 255) 10 1) = Some (Inr b) \<and>
    dynamic_dump_to 8 [] [] b = Inr (o1, o2, snd (dynamic_move b)) \<and>
    dynamic_of_bufs o1 o2 = Inr b' \<and> unat (db_size b') = length [[1, 2, 3], [], [4 :: u64]] \<and>
    map (\<lambda>i. dynamic_get 8 int_of_bytes i b') [0..<length [[1, 2, 3], [], [4 :: u64]]] =
      map Inr [[1, 2, 3], [], [4 :: u64]]"
  by (rule dynamic_batch_round_trip [OF codec64.byte_codec_axioms]) simp_all

text \<open>C26: A dynamic batch constructed with nothing reserved cannot take a row: the loop that doubles
  the reservation stays at zero and \<open>push_back\<close> does not return.\<close>

theorem dynamic_batch_zero_reserve_diverges:
  assumes "row \<noteq> []" and "length row < 4294967296"
  shows "push_back_helper w enc fresh row (dynamic_new w fresh capacity 0) = None"
proof -
  have "unat (word_of_nat (length row) :: u32) \<noteq> 0" using assms by simp
  then have "0 < (word_of_nat (length row) :: u32)" by (metis unat_0 word_gt_0)
  then show ?thesis
    using double_reserved_zero
    by (simp add: push_back_helper_def ensure_space_def dynamic_new_def Let_def)
qed

theorem dynamic_batch_zero_reserve_diverges_witness:
  "push_back_helper 1 int_bytes (\<lambda>n. replicate n 0) [104, 105 :: byte]
     (dynamic_new 1 (\<lambda>n. replicate n 0) 8 0) = None"
  by (rule dynamic_batch_zero_reserve_diverges) simp_all

text \<open>An empty dynamic batch can be dumped but not loaded: the loading constructor looks at the
  entry before the first one, at index 2 to the power 32 minus 1, outside the buffer.\<close>

theorem dynamic_batch_empty_reload:
  assumes "\<forall>n. length (fresh n) = n"
  shows "\<exists>o1 o2. dynamic_dump_to w tb1 tb2 (dynamic_new w fresh capacity reserved) =
      Inr (o1, o2, dynamic_moved_from) \<and> dynamic_of_bufs o1 o2 = Inl Out_of_bounds"
proof -
  let ?mb = "fresh (4 + 8 * unat capacity)"
  have l: "length ?mb = 4 + 8 * unat capacity" using assms by simp
  then have ne: "?mb \<noteq> []" by auto
  have st: "store_unaligned_int 0 (0 :: u32) ?mb = Inr (int_bytes (0 :: u32) @ drop 4 ?mb)"
    using l by (simp add: store_unaligned_int_def mem_store_def)
  have us: "load_unaligned_int 0 (int_bytes (0 :: u32) @ r) = Inr (0 :: u32)" for r
    by (simp add: load_unaligned_int_def mem_load_def int_bytes_decode)
  have d: "dynamic_dump_to w tb1 tb2 (dynamic_new w fresh capacity reserved) =
      Inr (int_bytes (0 :: u32), [], dynamic_moved_from)"
    using l ne by (simp add: dynamic_dump_to_def dynamic_new_def metabuf_size_def offset_of_meta_def
        sizeof_metadata_def st us Let_def mem_load_def)
  have "unat (- 1 :: u32) = 4294967295" by (simp add: unsigned_minus_1_eq_mask mask_eq_exp_minus_1)
  then have "dynamic_of_bufs (int_bytes (0 :: u32)) [] = Inl Out_of_bounds"
    using us [of "[]"] by (simp add: dynamic_of_bufs_def get_occupied_def load_meta_def mem_load_def sizeof_metadata_def)
  with d show ?thesis by blast
qed

theorem dynamic_batch_empty_reload_witness:
  "\<exists>o1 o2. dynamic_dump_to 8 [] [] (dynamic_new 8 (\<lambda>n. replicate n 0) 10 10) =
      Inr (o1, o2, dynamic_moved_from) \<and> dynamic_of_bufs o1 o2 = Inl Out_of_bounds"
  by (rule dynamic_batch_empty_reload) simp

end
