(* ===== verification/Batch_Sharing.thy ===== *)
theory Batch_Sharing
  imports Column_Batch
begin

text \<open>
  Sharing of column batches (\<open>share\<close> in \<open>core/column_batch.hh\<close>). A batch holds a seastar temporary buffer, and
  \<open>share\<close> gives a second batch on the same memory with its own size. The buffers live on a heap here, a
  batch is a handle with their addresses, and the operations of \<open>Column_Batch\<close> act on the buffers the
  handle names, so that a write through one handle is seen by all. A dumped batch is a slice of
  its buffer, not a copy. The properties say what handles on the same memory see of each other.
\<close>

section \<open>Handles\<close>

type_synonym buf_heap = "tmpbuf list"

text \<open>A handle has no buffer after a move.\<close>

definition buf_at :: "nat option \<Rightarrow> buf_heap \<Rightarrow> tmpbuf" where
  "buf_at a hp = (case a of None \<Rightarrow> [] | Some k \<Rightarrow> hp ! k)"

definition buf_put :: "nat option \<Rightarrow> tmpbuf \<Rightarrow> buf_heap \<Rightarrow> buf_heap" where
  "buf_put a buf hp = (case a of None \<Rightarrow> hp | Some k \<Rightarrow> hp[k := buf])"

record fixed_handle =
  fh_buf :: "nat option"
  fh_size :: u32
  fh_capacity :: u32

definition fixed_at :: "fixed_handle \<Rightarrow> buf_heap \<Rightarrow> fixed_column_batch" where
  "fixed_at h hp = \<lparr>fb_buf = buf_at (fh_buf h) hp, fb_size = fh_size h, fb_capacity = fh_capacity h\<rparr>"

definition fixed_alloc :: "nat \<Rightarrow> nat \<Rightarrow> (nat \<Rightarrow> tmpbuf) \<Rightarrow> u32 \<Rightarrow> buf_heap \<Rightarrow> fixed_handle \<times> buf_heap" where
  "fixed_alloc al w fresh capacity hp =
     (let b = fixed_new al w fresh capacity
      in (\<lparr>fh_buf = Some (length hp), fh_size = fb_size b, fh_capacity = fb_capacity b\<rparr>, hp @ [fb_buf b]))"

text \<open>\<open>share\<close>: the same buffer, the size and capacity copied.\<close>

definition fixed_share :: "fixed_handle \<Rightarrow> fixed_handle" where
  "fixed_share h = \<lparr>fh_buf = fh_buf h, fh_size = fh_size h, fh_capacity = fh_capacity h\<rparr>"

definition fixed_size :: "fixed_handle \<Rightarrow> nat" where
  "fixed_size h = unat (fh_size h)"

definition shared_push_back ::
    "nat \<Rightarrow> nat \<Rightarrow> ('a \<Rightarrow> byte list) \<Rightarrow> 'a \<Rightarrow> fixed_handle \<Rightarrow> buf_heap \<Rightarrow> (fixed_handle \<times> buf_heap) res" where
  "shared_push_back al w enc x h hp =
     bind_res (fixed_push_back al w enc x (fixed_at h hp)) (\<lambda>b.
       Inr (h\<lparr>fh_size := fb_size b\<rparr>, buf_put (fh_buf h) (fb_buf b) hp))"

definition shared_get :: "nat \<Rightarrow> nat \<Rightarrow> (byte list \<Rightarrow> 'a) \<Rightarrow> nat \<Rightarrow> fixed_handle \<Rightarrow> buf_heap \<Rightarrow> 'a res" where
  "shared_get al w dec idx h hp = fixed_get al w dec idx (fixed_at h hp)"

text \<open>\<open>dump_to\<close> writes the count into the buffer and hands out a slice of it.\<close>

definition shared_dump_to ::
    "nat \<Rightarrow> nat \<Rightarrow> fixed_handle \<Rightarrow> buf_heap \<Rightarrow> ((nat \<times> nat) option \<times> fixed_handle \<times> buf_heap) res" where
  "shared_dump_to al w h hp =
     (case fh_buf h of
        None \<Rightarrow> Inr (None, h, hp)
      | Some k \<Rightarrow>
          bind_res (store_unaligned_int 0 (fh_size h) (hp ! k)) (\<lambda>buf.
          bind_res (fixed_get_length al w buf) (\<lambda>len.
            Inr (Some (k, unat len), \<lparr>fh_buf = None, fh_size = 0, fh_capacity = 0\<rparr>, hp[k := buf]))))"

definition slice_bytes :: "nat \<times> nat \<Rightarrow> buf_heap \<Rightarrow> tmpbuf res" where
  "slice_bytes s hp = mem_load 0 (snd s) (hp ! fst s)"

text \<open>Any number of handles on a batch, each made from another by \<open>share\<close>.\<close>

datatype 'a share_op = Push nat 'a | Share nat

fun share_step ::
    "nat \<Rightarrow> nat \<Rightarrow> ('a \<Rightarrow> byte list) \<Rightarrow> 'a share_op \<Rightarrow> fixed_handle list \<times> buf_heap \<Rightarrow> (fixed_handle list \<times> buf_heap) res" where
  "share_step al w enc (Push i x) (hs, hp) =
     (if i < length hs then bind_res (shared_push_back al w enc x (hs ! i) hp) (\<lambda>(h, hp'). Inr (hs[i := h], hp'))
      else Inl Out_of_bounds)"
| "share_step al w enc (Share i) (hs, hp) =
     (if i < length hs then Inr (hs @ [fixed_share (hs ! i)], hp) else Inl Out_of_bounds)"

section \<open>Handles on one array\<close>

text \<open>What handles on the same memory are: one array, and for every handle the end of its part.\<close>

definition put_cell :: "nat \<Rightarrow> 'a \<Rightarrow> 'a list \<Rightarrow> 'a list" where
  "put_cell n x arr = (if n < length arr then arr[n := x] else arr @ [x])"

fun share_spec :: "'a share_op \<Rightarrow> nat list \<times> 'a list \<Rightarrow> nat list \<times> 'a list" where
  "share_spec (Push i x) (ns, arr) = (ns[i := Suc (ns ! i)], put_cell (ns ! i) x arr)"
| "share_spec (Share i) (ns, arr) = (ns @ [ns ! i], arr)"

fun ops_ok :: "nat \<Rightarrow> 'a share_op list \<Rightarrow> bool" where
  "ops_ok n [] = True"
| "ops_ok n (Push i x # ops) = (i < n \<and> ops_ok n ops)"
| "ops_ok n (Share i # ops) = (i < n \<and> ops_ok (Suc n) ops)"

lemma put_cell_length: "length arr \<le> length (put_cell n x arr)"
  by (simp add: put_cell_def)

lemma spec_grows: "length (snd st) \<le> length (snd (fold share_spec ops st))"
proof (induction ops arbitrary: st)
  case (Cons oper ops)
  obtain ns arr where st: "st = (ns, arr)" by (cases st)
  have "length arr \<le> length (snd (share_spec oper st))" unfolding st by (cases oper) (simp_all add: put_cell_length)
  then show ?case using Cons.IH [of "share_spec oper st"] unfolding st by simp
qed simp

context fixed_column
begin

definition cells_at :: "tmpbuf \<Rightarrow> 'a list \<Rightarrow> bool" where
  "cells_at buf arr \<longleftrightarrow> length buf = offset_of_data al + w * cap \<and> length arr \<le> cap \<and>
     (\<forall>j<length arr. mem_load (offset_of_data al + w * j) w buf = Inr (enc (arr ! j)))"

definition share_rep :: "nat \<Rightarrow> fixed_handle list \<times> buf_heap \<Rightarrow> nat list \<times> 'a list \<Rightarrow> bool" where
  "share_rep k st sp \<longleftrightarrow> k < length (snd st) \<and> cells_at (snd st ! k) (snd sp) \<and>
     map fixed_size (fst st) = fst sp \<and> (\<forall>h \<in> set (fst st). fh_buf h = Some k \<and> fixed_size h \<le> length (snd sp))"

lemma cells_put:
  assumes "cells_at buf arr" and "n \<le> length arr" and "length (put_cell n x arr) \<le> cap"
  shows "\<exists>buf'. mem_store (offset_of_data al + w * n) (enc x) buf = Inr buf' \<and> cells_at buf' (put_cell n x arr)"
proof -
  let ?o = "offset_of_data al"
  have l: "length buf = ?o + w * cap" using assms(1) by (simp add: cells_at_def)
  have n: "n < cap" using assms(2,3) by (auto simp: put_cell_def split: if_splits)
  then have "w * Suc n \<le> w * cap" by (intro mult_le_mono2) simp
  then have "?o + w * n + length (enc x) \<le> length buf" using l by (simp add: enc_length)
  then obtain buf' where st: "mem_store (?o + w * n) (enc x) buf = Inr buf'" by (auto simp: mem_store_def)
  have "mem_load (?o + w * j) w buf' = Inr (enc (put_cell n x arr ! j))" if j: "j < length (put_cell n x arr)" for j
  proof -
    consider "j < n" | "j = n" | "n < j" by linarith
    then show ?thesis
    proof cases
      case 1
      then have "w * Suc j \<le> w * n" by (intro mult_le_mono2) simp
      then have "mem_load (?o + w * j) w buf' = mem_load (?o + w * j) w buf" by (intro mem_load_store_below [OF st]) simp
      then show ?thesis using 1 assms(1,2) by (auto simp: cells_at_def put_cell_def nth_append)
    next
      case 2
      have "put_cell n x arr ! n = x" using assms(2) by (auto simp: put_cell_def nth_append)
      then show ?thesis using mem_load_store_same [OF st] 2 by (simp add: enc_length)
    next
      case 3
      then have "w * Suc n \<le> w * j" by (intro mult_le_mono2) simp
      then have "mem_load (?o + w * j) w buf' = mem_load (?o + w * j) w buf"
        by (intro mem_load_store_above [OF st]) (simp add: enc_length)
      moreover have "j < length arr" "put_cell n x arr ! j = arr ! j"
        using 3 j assms(2) by (auto simp: put_cell_def split: if_splits)
      ultimately show ?thesis using assms(1) by (simp add: cells_at_def)
    qed
  qed
  then show ?thesis using st assms(3) mem_store_length [OF st] l by (auto simp: cells_at_def)
qed

lemma share_push_sim:
  assumes "share_rep k (hs, hp) (ns, arr)" and "i < length hs" and "length (put_cell (ns ! i) x arr) \<le> cap" and "cap < 4294967296"
  shows "\<exists>h hp'. shared_push_back al w enc x (hs ! i) hp = Inr (h, hp') \<and>
    share_rep k (hs[i := h], hp') (ns[i := Suc (ns ! i)], put_cell (ns ! i) x arr)"
proof -
  let ?h = "hs ! i" and ?c = "put_cell (ns ! i) x arr"
  have r: "k < length hp" "cells_at (hp ! k) arr" "map fixed_size hs = ns" "fh_buf ?h = Some k"
    "fixed_size ?h \<le> length arr" "\<And>g. g \<in> set hs \<Longrightarrow> fh_buf g = Some k \<and> fixed_size g \<le> length arr"
    using assms(1,2) by (auto simp: share_rep_def)
  have n: "fixed_size ?h = ns ! i" using r(3) assms(2) by auto
  from cells_put [OF r(2), of "ns ! i" x] r(5) n assms(3) obtain buf' where
    b: "mem_store (offset_of_data al + w * (ns ! i)) (enc x) (hp ! k) = Inr buf'" "cells_at buf' ?c" by auto
  have lt: "ns ! i < length ?c" using r(5) n by (auto simp: put_cell_def)
  then have sz: "unat (fh_size ?h + 1) = Suc (ns ! i)"
    using unat_Suc_word [of "fh_size ?h"] n assms(3,4) by (simp add: fixed_size_def)
  let ?g = "?h\<lparr>fh_size := fh_size ?h + 1\<rparr>" and ?hp = "hp[k := buf']"
  have "shared_push_back al w enc x ?h hp = Inr (?g, ?hp)"
    using b(1) n r(4) by (simp add: shared_push_back_def fixed_push_back_def fixed_at_def buf_at_def buf_put_def fixed_size_def)
  moreover have "share_rep k (hs[i := ?g], ?hp) (ns[i := Suc (ns ! i)], ?c)"
  proof -
    have "map fixed_size (hs[i := ?g]) = ns[i := Suc (ns ! i)]" using r(3) sz by (simp add: map_update fixed_size_def)
    moreover have "fh_buf g = Some k \<and> fixed_size g \<le> length ?c" if "g \<in> set (hs[i := ?g])" for g
    proof -
      from that consider "g = ?g" | "g \<in> set hs" using set_update_subset_insert [of hs i ?g] by blast
      then show ?thesis
      proof cases
        case 1
        then show ?thesis using r(4) sz lt by (simp add: fixed_size_def)
      next
        case 2
        then show ?thesis using r(6) [of g] put_cell_length [of arr "ns ! i" x] by auto
      qed
    qed
    ultimately show ?thesis using r(1) b(2) by (simp add: share_rep_def)
  qed
  ultimately show ?thesis by blast
qed

lemma share_run_sim:
  assumes "share_rep k st sp" and "ops_ok (length (fst st)) ops" and "length (snd (fold share_spec ops sp)) \<le> cap"
    and "cap < 4294967296"
  shows "\<exists>st'. fold_res (share_step al w enc) ops st = Inr st' \<and> share_rep k st' (fold share_spec ops sp)"
  using assms(1-3)
proof (induction ops arbitrary: st sp)
  case (Cons oper ops)
  obtain hs hp ns arr where st: "st = (hs, hp)" "sp = (ns, arr)" by (cases st; cases sp) auto
  have bound: "length (snd (share_spec oper sp)) \<le> cap"
    using spec_grows [of "share_spec oper sp" ops] Cons.prems(3) by simp
  show ?case
  proof (cases oper)
    case (Push i x)
    have i: "i < length hs" "ops_ok (length hs) ops" using Cons.prems(2) by (simp_all add: Push st)
    from share_push_sim [OF Cons.prems(1) [unfolded st] i(1), of x] bound assms(4) obtain h hp' where
      p: "shared_push_back al w enc x (hs ! i) hp = Inr (h, hp')"
        "share_rep k (hs[i := h], hp') (share_spec oper sp)" by (auto simp: Push st)
    have "ops_ok (length (fst (hs[i := h], hp'))) ops" using i(2) by simp
    from Cons.IH [OF p(2) this] Cons.prems(3) show ?thesis using p(1) i(1) by (simp add: Push st)
  next
    case (Share i)
    have i: "i < length hs" "ops_ok (Suc (length hs)) ops" using Cons.prems(2) by (simp_all add: Share st)
    have "share_rep k (hs @ [fixed_share (hs ! i)], hp) (share_spec oper sp)"
      using Cons.prems(1) i(1) by (auto simp: share_rep_def Share st fixed_share_def fixed_size_def)
    from Cons.IH [OF this] i Cons.prems(3) show ?thesis by (simp add: Share st)
  qed
qed simp

lemma share_rep_get:
  assumes "share_rep k (hs, hp) (ns, arr)" and "h \<in> set hs" and "j < length arr"
  shows "shared_get al w dec j h hp = Inr (arr ! j)"
  using assms by (auto simp: share_rep_def cells_at_def shared_get_def fixed_get_def fixed_at_def buf_at_def dec_enc)

lemma share_rep_new:
  assumes "length (fresh (offset_of_data al + w * cap)) = offset_of_data al + w * cap" and "unat capacity = cap"
    and "fixed_alloc al w fresh capacity [] = (h, hp)"
  shows "share_rep 0 ([h], hp) ([0], [])"
  using assms by (auto simp: share_rep_def cells_at_def fixed_alloc_def fixed_new_def fixed_buf_size_def fixed_size_def Let_def)

lemma dump_shared:
  assumes "fh_buf h = Some k" and "cells_at (hp ! k) arr" and "k < length hp" and "fixed_size h \<le> cap"
    and "offset_of_data al + w * cap < 4294967296"
  shows "\<exists>buf. shared_dump_to al w h hp =
      Inr (Some (k, offset_of_data al + w * fixed_size h), \<lparr>fh_buf = None, fh_size = 0, fh_capacity = 0\<rparr>, hp[k := buf]) \<and>
    length buf = length (hp ! k) \<and> load_unaligned_int 0 buf = Inr (fh_size h) \<and> cells_at buf arr"
proof -
  let ?o = "offset_of_data al" and ?n = "fixed_size h"
  have l: "length (hp ! k) = ?o + w * cap" using assms(2) by (simp add: cells_at_def)
  have o: "4 \<le> ?o" using offset_of_data_ge [OF al_pos] .
  have "0 + length (int_bytes (fh_size h)) \<le> length (hp ! k)" using l o by simp
  then obtain buf where st: "mem_store 0 (int_bytes (fh_size h)) (hp ! k) = Inr buf" by (auto simp: mem_store_def)
  have lb: "length buf = length (hp ! k)" using mem_store_length [OF st] .
  have used: "load_unaligned_int 0 buf = Inr (fh_size h)"
    using codec32.store_then_load [OF st] by (simp add: load_unaligned_int_def int_of_bytes_def)
  have "w * ?n \<le> w * cap" using assms(4) by (rule mult_le_mono2)
  then have "?n * w + ?o < 4294967296" using assms(5) unfolding mult.commute [of ?n w] by linarith
  from unat_of_nat_u32 [OF this] have len: "fixed_get_length al w buf = Inr (word_of_nat (?n * w + ?o))"
    "unat (word_of_nat (?n * w + ?o) :: u32) = ?o + w * ?n"
    using used by (simp_all only: fixed_get_length_def fixed_used_def fixed_size_def bind_res_simps mult.commute add.commute)
  have "mem_load (?o + w * j) w buf = mem_load (?o + w * j) w (hp ! k)" for j
    using o by (intro mem_load_store_above [OF st]) simp
  then have "cells_at buf arr" using assms(2) lb by (simp add: cells_at_def)
  then show ?thesis
    using st len used lb assms(1) by (auto simp: shared_dump_to_def store_unaligned_int_def)
qed

lemma spec_push_new:
  assumes "i < length ns" and "ns ! i = length arr"
  shows "fold share_spec (map (Push i) xs) (ns, arr) = (ns[i := length arr + length xs], arr @ xs)"
  using assms
proof (induction xs arbitrary: ns arr)
  case Nil
  then have "ns[i := length arr] = ns" by (metis list_update_id)
  then show ?case by simp
next
  case (Cons x xs)
  then show ?case by (simp add: put_cell_def)
qed

lemma ops_ok_pushes: "ops_ok n (map (Push i) xs) \<longleftrightarrow> xs = [] \<or> i < n"
  by (induction xs) auto

lemma ops_ok_append_pushes: "ops_ok n (map (Push i) xs @ ops) \<longleftrightarrow> (xs = [] \<or> i < n) \<and> ops_ok n ops"
  by (induction xs) auto

lemma dumps_disagree:
  assumes cap: "unat capacity = cap" and "length (fresh (offset_of_data al + w * cap)) = offset_of_data al + w * cap"
    and new: "fixed_alloc al w fresh capacity [] = (h, hp)" and "0 < w"
    and fit: "length xs + length ys \<le> cap" "ys \<noteq> []" "offset_of_data al + w * cap < 4294967296"
  shows "\<exists>h0 h1 hp1 s0 s1 m0 m1 hp2 hp3 bs b.
    fold_res (share_step al w enc) (map (Push 0) xs @ Share 0 # map (Push 1) ys) ([h], hp) = Inr ([h0, h1], hp1) \<and>
    shared_dump_to al w h0 hp1 = Inr (Some s0, m0, hp2) \<and> shared_dump_to al w h1 hp2 = Inr (Some s1, m1, hp3) \<and>
    slice_bytes s0 hp3 = Inr bs \<and> fixed_of_buf bs = Inr b \<and>
    unat (fb_size b) = length xs + length ys \<and> fixed_get al w dec (length xs) b = Inl Out_of_bounds"
proof -
  let ?ops = "map (Push 0) xs @ Share 0 # map (Push 1) ys" and ?o = "offset_of_data al" and ?n = "length xs"
  have spec: "fold share_spec ?ops ([0], []) = ([?n, ?n + length ys], xs @ ys)"
    using spec_push_new [of 0 "[0]" "[]" xs] spec_push_new [of 1 "[?n, ?n]" xs ys] by simp
  have "ops_ok 1 ?ops" by (simp add: ops_ok_append_pushes ops_ok_pushes)
  from share_run_sim [OF share_rep_new [OF assms(2) cap new], of ?ops] this spec fit(1) cap obtain st where
    run: "fold_res (share_step al w enc) ?ops ([h], hp) = Inr st" "share_rep 0 st ([?n, ?n + length ys], xs @ ys)" by force
  obtain h0 h1 hp1 where st: "st = ([h0, h1], hp1)" "fixed_size h0 = ?n" "fixed_size h1 = ?n + length ys"
    using run(2) by (cases st) (auto simp: share_rep_def map_eq_Cons_conv)
  have r: "0 < length hp1" "cells_at (hp1 ! 0) (xs @ ys)" "fh_buf h0 = Some 0" "fh_buf h1 = Some 0"
    using run(2) by (auto simp: share_rep_def st(1))
  have "fixed_size h0 \<le> cap" using st(2) fit(1) by simp
  from dump_shared [OF r(3,2,1) this fit(3)] obtain buf where
    d0: "shared_dump_to al w h0 hp1 = Inr (Some (0, ?o + w * ?n), \<lparr>fh_buf = None, fh_size = 0, fh_capacity = 0\<rparr>, hp1[0 := buf])"
      "cells_at buf (xs @ ys)" unfolding st(2) by blast
  have r1: "0 < length (hp1[0 := buf])" "cells_at (hp1[0 := buf] ! 0) (xs @ ys)" "fixed_size h1 \<le> cap"
    using r(1) d0(2) st(3) fit(1) by simp_all
  from dump_shared [OF r(4) r1(2,1,3) fit(3)] obtain buf1 where
    d1: "shared_dump_to al w h1 (hp1[0 := buf]) =
        Inr (Some (0, ?o + w * fixed_size h1), \<lparr>fh_buf = None, fh_size = 0, fh_capacity = 0\<rparr>, hp1[0 := buf1])"
      "load_unaligned_int 0 buf1 = Inr (fh_size h1)" "cells_at buf1 (xs @ ys)" using r(1) by auto
  have lb: "length buf1 = ?o + w * cap" using d1(3) by (simp add: cells_at_def)
  have "w * ?n \<le> w * cap" using fit(1) by (intro mult_le_mono2) simp
  then have le: "?o + w * ?n \<le> length buf1" using lb by simp
  let ?bs = "take (?o + w * ?n) buf1"
  have sl: "slice_bytes (0, ?o + w * ?n) (hp1[0 := buf1]) = Inr ?bs"
    using r(1) le by (simp add: slice_bytes_def mem_load_def)
  have o: "4 \<le> ?o" using offset_of_data_ge [OF al_pos] .
  have "load_unaligned_int 0 ?bs = (load_unaligned_int 0 buf1 :: u32 res)"
    using le o by (simp add: load_unaligned_int_def mem_load_def min_def)
  then have ld: "fixed_of_buf ?bs = Inr \<lparr>fb_buf = ?bs, fb_size = fh_size h1, fb_capacity = fh_size h1\<rparr>"
    using d1(2) by (simp add: fixed_of_buf_def fixed_used_def)
  have "fixed_get al w dec ?n \<lparr>fb_buf = ?bs, fb_size = fh_size h1, fb_capacity = fh_size h1\<rparr> = Inl Out_of_bounds"
    using le \<open>0 < w\<close> by (simp add: fixed_get_def mem_load_def)
  moreover have "unat (fb_size \<lparr>fb_buf = ?bs, fb_size = fh_size h1, fb_capacity = fh_size h1\<rparr>) = ?n + length ys"
    using st(3) by (simp add: fixed_size_def)
  ultimately show ?thesis using run(1) d0(1) d1(1) sl ld unfolding st(1) by blast
qed

end

section \<open>Handles on rows of varying length\<close>

record dynamic_handle =
  dh_meta :: "nat option"
  dh_data :: "nat option"
  dh_occupied :: u32
  dh_reserved :: u32
  dh_size :: u32
  dh_capacity :: u32

definition dynamic_at :: "dynamic_handle \<Rightarrow> buf_heap \<Rightarrow> dynamic_column_batch" where
  "dynamic_at h hp =
     \<lparr>db_meta_buf = buf_at (dh_meta h) hp, db_data_buf = buf_at (dh_data h) hp, db_occupied = dh_occupied h,
      db_reserved = dh_reserved h, db_size = dh_size h, db_capacity = dh_capacity h\<rparr>"

definition dynamic_alloc :: "nat \<Rightarrow> (nat \<Rightarrow> tmpbuf) \<Rightarrow> u32 \<Rightarrow> u32 \<Rightarrow> dynamic_handle \<times> buf_heap" where
  "dynamic_alloc w fresh capacity init_reserved =
     (let b = dynamic_new w fresh capacity init_reserved
      in (\<lparr>dh_meta = Some 0, dh_data = Some 1, dh_occupied = db_occupied b, dh_reserved = db_reserved b,
           dh_size = db_size b, dh_capacity = db_capacity b\<rparr>, [db_meta_buf b, db_data_buf b]))"

definition dynamic_share :: "dynamic_handle \<Rightarrow> dynamic_handle" where
  "dynamic_share h = \<lparr>dh_meta = dh_meta h, dh_data = dh_data h, dh_occupied = dh_occupied h, dh_reserved = dh_reserved h,
     dh_size = dh_size h, dh_capacity = dh_capacity h\<rparr>"

text \<open>\<open>push_back_helper\<close> through a handle: \<open>ensure_space\<close> gives this handle a data buffer of its own when it has to
  grow, the buffer with the (offset, length) entries stays shared.\<close>

definition shared_push_row ::
    "nat \<Rightarrow> ('e \<Rightarrow> byte list) \<Rightarrow> (nat \<Rightarrow> tmpbuf) \<Rightarrow> 'e list \<Rightarrow> dynamic_handle \<Rightarrow> buf_heap \<Rightarrow>
     (dynamic_handle \<times> buf_heap) res option" where
  "shared_push_row w enc fresh src h hp =
     bind_run (push_back_helper w enc fresh src (dynamic_at h hp)) (\<lambda>b.
       let hp1 = buf_put (dh_meta h) (db_meta_buf b) hp;
           grow = dh_reserved h < dh_occupied h + word_of_nat (length src);
           data = (if grow then Some (length hp1) else dh_data h);
           hp2 = (if grow then hp1 @ [db_data_buf b] else buf_put (dh_data h) (db_data_buf b) hp1)
       in Some (Inr (\<lparr>dh_meta = dh_meta h, dh_data = data, dh_occupied = db_occupied b, dh_reserved = db_reserved b,
                     dh_size = db_size b, dh_capacity = db_capacity b\<rparr>, hp2)))"

definition shared_get_row :: "nat \<Rightarrow> (byte list \<Rightarrow> 'e) \<Rightarrow> nat \<Rightarrow> dynamic_handle \<Rightarrow> buf_heap \<Rightarrow> 'e list res" where
  "shared_get_row w dec idx h hp = dynamic_get w dec idx (dynamic_at h hp)"

fun row_share_step ::
    "nat \<Rightarrow> ('e \<Rightarrow> byte list) \<Rightarrow> (nat \<Rightarrow> tmpbuf) \<Rightarrow> 'e list share_op \<Rightarrow> dynamic_handle list \<times> buf_heap \<Rightarrow>
     (dynamic_handle list \<times> buf_heap) res option" where
  "row_share_step w enc fresh (Push i r) (hs, hp) =
     (if i < length hs
      then bind_run (shared_push_row w enc fresh r (hs ! i) hp) (\<lambda>(h, hp'). Some (Inr (hs[i := h], hp')))
      else Some (Inl Out_of_bounds))"
| "row_share_step w enc fresh (Share i) (hs, hp) =
     (if i < length hs then Some (Inr (hs @ [dynamic_share (hs ! i)], hp)) else Some (Inl Out_of_bounds))"

context dynamic_column
begin

text \<open>A push leaves everything before its own end as it was.\<close>

lemma ensure_space_frame:
  assumes "length (db_data_buf b) = w * unat (db_reserved b)" and "unat (db_occupied b) \<le> unat (db_reserved b)"
    and "0 < db_reserved b" and "unat (db_occupied b) + unat len \<le> 2147483648"
  shows "\<exists>r db. ensure_space w fresh len b = Some (Inr (b\<lparr>db_reserved := r, db_data_buf := db\<rparr>)) \<and>
    length db = w * unat r \<and> unat (db_occupied b) + unat len \<le> unat r \<and> 0 < r \<and>
    take (w * unat (db_occupied b)) db = take (w * unat (db_occupied b)) (db_data_buf b) \<and>
    (\<not> db_reserved b < db_occupied b + len \<longrightarrow> r = db_reserved b)"
proof -
  let ?t = "unat (db_occupied b)" and ?req = "db_occupied b + len"
  have req: "unat ?req = ?t + unat len" using assms(4) by (simp add: unat_word_ariths)
  show ?thesis
  proof (cases "db_reserved b < ?req")
    case False
    then have "?t + unat len \<le> unat (db_reserved b)" using req by (simp add: word_less_nat_alt)
    moreover have "ensure_space w fresh len b = Some (Inr (b\<lparr>db_reserved := db_reserved b, db_data_buf := db_data_buf b\<rparr>))"
      using False by (simp add: ensure_space_def Let_def)
    ultimately show ?thesis using assms(1,3) by blast
  next
    case True
    from double_reserved_ok [OF assms(3) True] assms(4) req obtain r where
      r: "double_reserved (db_reserved b) ?req = Some r" "?req \<le> r" by auto
    have le: "?t + unat len \<le> unat r" using r(2) req by (simp add: word_le_nat_alt)
    have m: "w * ?t \<le> w * unat r" "w * ?t \<le> w * unat (db_reserved b)" using le assms(2) by (simp_all add: mult_le_mono2)
    let ?old = "take (w * ?t) (db_data_buf b)"
    let ?new = "?old @ drop (w * ?t) (fresh (w * unat r))"
    have lo: "length ?old = w * ?t" using assms(1) m(2) by (simp del: mult_le_cancel1)
    have "mem_load 0 (w * ?t) (db_data_buf b) = Inr ?old"
      unfolding mem_load_def using assms(1) m(2) by (simp del: mult_le_cancel1)
    moreover have "mem_store 0 ?old (fresh (w * unat r)) = Inr ?new"
      unfolding mem_store_def using m(1) lo by (simp add: fresh_length del: mult_le_cancel1 length_take)
    ultimately have e: "ensure_space w fresh len b = Some (Inr (b\<lparr>db_reserved := r, db_data_buf := ?new\<rparr>))"
      using True r(1) by (simp add: ensure_space_def Let_def databuf_size_def)
    have "length ?new = w * unat r" using lo m(1) by (simp only: length_append length_drop fresh_length)
    moreover have "0 < r" using r(2) True by (simp add: word_less_nat_alt word_le_nat_alt)
    moreover have "take (w * ?t) ?new = ?old" using lo by simp
    ultimately show ?thesis using e le True by blast
  qed
qed

definition roomy :: "dynamic_column_batch \<Rightarrow> bool" where
  "roomy b \<longleftrightarrow> length (db_meta_buf b) = 4 + 8 * cap \<and> length (db_data_buf b) = w * unat (db_reserved b) \<and>
     unat (db_occupied b) \<le> unat (db_reserved b) \<and> 0 < db_reserved b"

lemma push_row_frame:
  assumes room: "roomy b" and occ: "unat (db_occupied b) + length src \<le> 2147483648"
    and sz: "unat (db_size b) < cap" "cap < 4294967296"
  shows "\<exists>b'. push_back_helper w enc fresh src b = Some (Inr b') \<and> roomy b' \<and>
    unat (db_size b') = Suc (unat (db_size b)) \<and> unat (db_occupied b') = unat (db_occupied b) + length src \<and>
    take (4 + 8 * unat (db_size b)) (db_meta_buf b') = take (4 + 8 * unat (db_size b)) (db_meta_buf b) \<and>
    take (w * unat (db_occupied b)) (db_data_buf b') = take (w * unat (db_occupied b)) (db_data_buf b) \<and>
    (\<not> db_reserved b < db_occupied b + word_of_nat (length src) \<longrightarrow> db_reserved b' = db_reserved b)"
proof -
  let ?len = "word_of_nat (length src) :: u32" and ?t = "unat (db_occupied b)" and ?n = "unat (db_size b)"
  have l: "unat ?len = length src" using occ by simp
  note ro = room [unfolded roomy_def]
  from ensure_space_frame [of b ?len] ro occ l obtain r db where
    e: "ensure_space w fresh ?len b = Some (Inr (b\<lparr>db_reserved := r, db_data_buf := db\<rparr>))"
      "length db = w * unat r" "?t + length src \<le> unat r" "0 < r" "take (w * ?t) db = take (w * ?t) (db_data_buf b)"
      "\<not> db_reserved b < db_occupied b + ?len \<longrightarrow> r = db_reserved b" by auto
  have "offset_of_meta + sizeof_metadata * ?n + length (metadata_bytes (db_occupied b, ?len)) \<le> length (db_meta_buf b)"
    using ro sz(1) by (simp add: offset_of_meta_def sizeof_metadata_def metadata_bytes_def)
  then obtain mb where m: "mem_store (offset_of_meta + sizeof_metadata * ?n) (metadata_bytes (db_occupied b, ?len)) (db_meta_buf b) = Inr mb"
    by (auto simp: mem_store_def)
  have lc: "length (concat (map enc src)) = w * length src" by (induction src) (simp_all add: enc_length)
  have "w * (?t + length src) \<le> w * unat r" using e(3) by (rule mult_le_mono2)
  then have "w * ?t + length (concat (map enc src)) \<le> length db" using e(2) lc by (simp only: distrib_left)
  then obtain db' where d: "mem_store (w * ?t) (concat (map enc src)) db = Inr db'" by (auto simp: mem_store_def)
  let ?b = "b\<lparr>db_reserved := r, db_meta_buf := mb, db_data_buf := db', db_size := db_size b + 1, db_occupied := db_occupied b + ?len\<rparr>"
  have p: "push_back_helper w enc fresh src b = Some (Inr ?b)"
    using e(1) m d by (simp add: push_back_helper_def Let_def store_meta_def)
  have u: "unat (db_occupied b + ?len) = ?t + length src" using occ l by (simp add: unat_word_ariths)
  have s: "unat (db_size b + 1) = Suc ?n" using unat_Suc_word [of "db_size b"] sz by simp
  have "take (4 + 8 * ?n) mb = take (4 + 8 * ?n) (db_meta_buf b)"
    using take_mem_store_below [OF m, of "4 + 8 * ?n"] by (simp add: offset_of_meta_def sizeof_metadata_def)
  moreover have "take (w * ?t) db' = take (w * ?t) (db_data_buf b)" using take_mem_store_below [OF d order_refl] e(5) by simp
  moreover have "roomy ?b" using ro e(2,3,4) u mem_store_length [OF m] mem_store_length [OF d] by (simp add: roomy_def)
  ultimately show ?thesis using p u s e(6) by (intro exI [of _ ?b]) simp
qed

lemma dyn_view_cong:
  assumes "dyn_view b rows" and "length rows \<le> k" and "length (concat rows) \<le> t"
    and "take (4 + 8 * k) (db_meta_buf b') = take (4 + 8 * k) (db_meta_buf b)" and "length (db_meta_buf b') = length (db_meta_buf b)"
    and "take (w * t) (db_data_buf b') = take (w * t) (db_data_buf b)" and "w * length (concat rows) \<le> length (db_data_buf b')"
  shows "dyn_view b' rows"
proof -
  let ?n = "length rows" and ?l = "length (concat rows)"
  have "take (4 + 8 * ?n) (db_meta_buf b') = take (4 + 8 * ?n) (db_meta_buf b)"
    using arg_cong [OF assms(4), of "take (4 + 8 * ?n)"] assms(2) by (simp add: min_def)
  from arg_cong [OF this, of "drop 4"] have 1: "take (8 * ?n) (drop 4 (db_meta_buf b')) = take (8 * ?n) (drop 4 (db_meta_buf b))"
    by (simp add: drop_take)
  have "w * ?l \<le> w * t" using assms(3) by (rule mult_le_mono2)
  then have 2: "take (w * ?l) (db_data_buf b') = take (w * ?l) (db_data_buf b)"
    using arg_cong [OF assms(6), of "take (w * ?l)"] by (simp only: take_take min_absorb1)
  show ?thesis using assms(1,5,7) 1 2 unfolding dyn_view_def by simp
qed

text \<open>A handle whose first rows are \<open>rows\<close>, with the entries at address \<open>m\<close>.\<close>

definition holds_rows :: "nat \<Rightarrow> dynamic_handle \<Rightarrow> buf_heap \<Rightarrow> 'e list list \<Rightarrow> bool" where
  "holds_rows m h hp rows \<longleftrightarrow> dh_meta h = Some m \<and> m < length hp \<and>
     (\<exists>d. dh_data h = Some d \<and> d < length hp \<and> d \<noteq> m) \<and> roomy (dynamic_at h hp) \<and> dyn_view (dynamic_at h hp) rows \<and>
     length rows \<le> unat (dh_size h) \<and> length (concat rows) \<le> unat (dh_occupied h)"

lemma holds_rows_cong:
  assumes h: "holds_rows m g hp rows" and len: "length hp \<le> length hp'"
    and meta: "take (4 + 8 * k) (hp' ! m) = take (4 + 8 * k) (hp ! m)" "length (hp' ! m) = length (hp ! m)" "length rows \<le> k"
    and data: "\<And>d. d < length hp \<Longrightarrow> d \<noteq> m \<Longrightarrow> length (hp' ! d) = length (hp ! d) \<and> take (w * t) (hp' ! d) = take (w * t) (hp ! d)"
      "length (concat rows) \<le> t"
  shows "holds_rows m g hp' rows"
proof -
  obtain d where d: "dh_meta g = Some m" "dh_data g = Some d" "d < length hp" "d \<noteq> m" "m < length hp"
    using h by (auto simp: holds_rows_def)
  have r: "roomy (dynamic_at g hp)" "dyn_view (dynamic_at g hp) rows" using h by (simp_all add: holds_rows_def)
  have b: "db_meta_buf (dynamic_at g x) = x ! m" "db_data_buf (dynamic_at g x) = x ! d" for x
    using d(1,2) by (simp_all add: dynamic_at_def buf_at_def)
  have room: "roomy (dynamic_at g hp')"
    using r(1) meta(2) data(1) [OF d(3,4)] unfolding roomy_def b by (simp add: dynamic_at_def)
  have "w * length (concat rows) \<le> length (hp' ! d)" using r(2) data(1) [OF d(3,4)] unfolding dyn_view_def b by simp
  then have "dyn_view (dynamic_at g hp') rows"
    using dyn_view_cong [OF r(2) meta(3) data(2), of "dynamic_at g hp'"] meta(1,2) data(1) [OF d(3,4)] unfolding b by simp
  then show ?thesis using h room d len by (auto simp: holds_rows_def)
qed

lemma shared_push_row_ok:
  assumes h: "holds_rows m h hp rows" and occ: "unat (dh_occupied h) + length src \<le> 2147483648"
    and sz: "unat (dh_size h) < cap" "cap < 4294967296"
  shows "\<exists>h' hp'. shared_push_row w enc fresh src h hp = Some (Inr (h', hp')) \<and> holds_rows m h' hp' rows \<and>
    unat (dh_size h') = Suc (unat (dh_size h)) \<and> unat (dh_occupied h') = unat (dh_occupied h) + length src \<and>
    push_back_helper w enc fresh src (dynamic_at h hp) = Some (Inr (dynamic_at h' hp')) \<and>
    (\<forall>g. holds_rows m g hp rows \<longrightarrow> holds_rows m g hp' rows)"
proof -
  let ?b = "dynamic_at h hp"
  obtain d where d: "dh_meta h = Some m" "dh_data h = Some d" "d < length hp" "d \<noteq> m" "m < length hp"
    and lb: "length rows \<le> unat (dh_size h)" "length (concat rows) \<le> unat (dh_occupied h)"
    using h by (auto simp: holds_rows_def)
  have r: "roomy ?b" "dyn_view ?b rows" using h by (simp_all add: holds_rows_def)
  have f: "db_size ?b = dh_size h" "db_occupied ?b = dh_occupied h" "db_reserved ?b = dh_reserved h"
    "db_meta_buf ?b = hp ! m" "db_data_buf ?b = hp ! d" using d by (simp_all add: dynamic_at_def buf_at_def)
  from push_row_frame [OF r(1), of src, unfolded f, OF occ sz] obtain b' where
    p: "push_back_helper w enc fresh src ?b = Some (Inr b')" "roomy b'" "unat (db_size b') = Suc (unat (dh_size h))"
      "unat (db_occupied b') = unat (dh_occupied h) + length src"
      "take (4 + 8 * unat (dh_size h)) (db_meta_buf b') = take (4 + 8 * unat (dh_size h)) (hp ! m)"
      "take (w * unat (dh_occupied h)) (db_data_buf b') = take (w * unat (dh_occupied h)) (hp ! d)"
      "\<not> dh_reserved h < dh_occupied h + word_of_nat (length src) \<longrightarrow> db_reserved b' = dh_reserved h" by blast
  let ?grow = "dh_reserved h < dh_occupied h + word_of_nat (length src)"
  let ?hp1 = "hp[m := db_meta_buf b']"
  let ?hp = "if ?grow then ?hp1 @ [db_data_buf b'] else ?hp1[d := db_data_buf b']"
  let ?d = "if ?grow then length hp else d"
  let ?h = "\<lparr>dh_meta = Some m, dh_data = Some ?d, dh_occupied = db_occupied b', dh_reserved = db_reserved b',
     dh_size = db_size b', dh_capacity = db_capacity b'\<rparr>"
  have run: "shared_push_row w enc fresh src h hp = Some (Inr (?h, ?hp))"
    using p(1) d by (simp add: shared_push_row_def Let_def buf_put_def)
  have lm: "length (db_meta_buf b') = length (hp ! m)" using p(2) r(1) by (simp add: roomy_def f)
  have at_m: "?hp ! m = db_meta_buf b'" using d by (simp add: nth_append)
  have others: "holds_rows m g ?hp rows" if g: "holds_rows m g hp rows" for g
  proof (rule holds_rows_cong [OF g, of _ "unat (dh_size h)" "unat (dh_occupied h)"])
    show "length hp \<le> length ?hp" by simp
    show "take (4 + 8 * unat (dh_size h)) (?hp ! m) = take (4 + 8 * unat (dh_size h)) (hp ! m)" unfolding at_m by (rule p(5))
    show "length (?hp ! m) = length (hp ! m)" unfolding at_m by (rule lm)
    show "length (?hp ! e) = length (hp ! e) \<and> take (w * unat (dh_occupied h)) (?hp ! e) = take (w * unat (dh_occupied h)) (hp ! e)"
      if e: "e < length hp" "e \<noteq> m" for e
    proof (cases "\<not> ?grow \<and> e = d")
      case True
      then have "length (db_data_buf b') = length (hp ! d)" using p(2,7) r(1) by (simp add: roomy_def f)
      then show ?thesis using True p(6) d by simp
    next
      case False
      then have "?hp ! e = hp ! e" using e by (auto simp: nth_append)
      then show ?thesis by simp
    qed
  qed (rule lb)+
  have at: "dynamic_at ?h ?hp = b'"
    using d at_m by (simp add: dynamic_at_def buf_at_def nth_append)
  have "w * length (concat rows) \<le> w * unat (db_reserved b')"
    using lb(2) p(2,4) by (intro mult_le_mono2) (simp add: roomy_def)
  then have "w * length (concat rows) \<le> length (db_data_buf b')" using p(2) by (simp only: roomy_def)
  then have "dyn_view b' rows"
    using dyn_view_cong [OF r(2) lb, of b'] p(5,6) lm unfolding f by simp
  then have "holds_rows m ?h ?hp rows" using p(2-4) lb d at by (auto simp: holds_rows_def)
  then show ?thesis using run others p(1,3,4) at by (intro exI [of _ ?h] exI [of _ ?hp]) simp
qed

lemma holds_of_rep:
  assumes "dyn_rep (dynamic_at h hp) rows" and "dh_meta h = Some m" and "dh_data h = Some d"
    and "d < length hp" and "d \<noteq> m" and "m < length hp"
  shows "holds_rows m h hp rows"
  using assms by (auto simp: holds_rows_def roomy_def dyn_rep_def dynamic_at_def)

lemma push_first_rows:
  assumes "dyn_rep (dynamic_at h hp) rs" and "holds_rows m h hp rs" and "dyn_fits (rs @ ss)" and "cap < 4294967296"
  shows "\<exists>h' hp'. push_rows (row_share_step w enc fresh) (map (Push 0) ss) ([h], hp) = Some (Inr ([h'], hp')) \<and>
    dyn_rep (dynamic_at h' hp') (rs @ ss) \<and> holds_rows m h' hp' (rs @ ss)"
  using assms(1-3)
proof (induction ss arbitrary: h hp rs)
  case (Cons r ss)
  have fit: "dyn_fits (rs @ [r])" using Cons.prems(3) by (auto simp: dyn_fits_def)
  have e: "unat (dh_occupied h) = length (concat rs)" "unat (dh_size h) = length rs"
    using Cons.prems(1) by (simp_all add: dyn_rep_def dynamic_at_def)
  have b: "unat (dh_occupied h) + length r \<le> 2147483648" "unat (dh_size h) < cap" using fit e by (simp_all add: dyn_fits_def)
  from shared_push_row_ok [OF Cons.prems(2) b assms(4)] obtain h' hp' where
    p: "shared_push_row w enc fresh r h hp = Some (Inr (h', hp'))" "holds_rows m h' hp' rs"
      "push_back_helper w enc fresh r (dynamic_at h hp) = Some (Inr (dynamic_at h' hp'))" by blast
  from dyn_push_ok [OF Cons.prems(1) fit] p(3) have rep: "dyn_rep (dynamic_at h' hp') (rs @ [r])" by simp
  obtain d where "dh_meta h' = Some m" "dh_data h' = Some d" "d < length hp'" "d \<noteq> m" "m < length hp'"
    using p(2) by (auto simp: holds_rows_def)
  from holds_of_rep [OF rep this] Cons.IH [OF rep] Cons.prems(3) show ?case using p(1) by simp
qed simp

end

fun rows_of :: "'a share_op list \<Rightarrow> 'a list" where
  "rows_of [] = []"
| "rows_of (Push i r # ops) = r # rows_of ops"
| "rows_of (Share i # ops) = rows_of ops"

context dynamic_column
begin

lemma shared_run_holds:
  assumes "\<forall>h \<in> set hs. holds_rows m h hp rows \<and> unat (dh_size h) \<le> a \<and> unat (dh_occupied h) \<le> c"
    and "ops_ok (length hs) ops" and "a + length (rows_of ops) \<le> cap" and "c + length (concat (rows_of ops)) \<le> 2147483648"
    and "cap < 4294967296"
  shows "\<exists>hs' hp'. push_rows (row_share_step w enc fresh) ops (hs, hp) = Some (Inr (hs', hp')) \<and>
    (\<forall>h \<in> set hs'. holds_rows m h hp' rows)"
  using assms(1-4)
proof (induction ops arbitrary: hs hp a c)
  case (Cons oper ops)
  show ?case
  proof (cases oper)
    case (Push i r)
    have i: "i < length hs" "ops_ok (length hs) ops" using Cons.prems(2) by (simp_all add: Push)
    have h: "holds_rows m (hs ! i) hp rows" "unat (dh_size (hs ! i)) \<le> a" "unat (dh_occupied (hs ! i)) \<le> c"
      using Cons.prems(1) nth_mem [OF i(1)] by blast+
    have "unat (dh_occupied (hs ! i)) + length r \<le> 2147483648" "unat (dh_size (hs ! i)) < cap"
      using h(2,3) Cons.prems(3,4) by (simp_all add: Push)
    from shared_push_row_ok [OF h(1) this assms(5)] obtain h' hp' where
      p: "shared_push_row w enc fresh r (hs ! i) hp = Some (Inr (h', hp'))" "holds_rows m h' hp' rows"
        "unat (dh_size h') = Suc (unat (dh_size (hs ! i)))" "unat (dh_occupied h') = unat (dh_occupied (hs ! i)) + length r"
        "\<forall>g. holds_rows m g hp rows \<longrightarrow> holds_rows m g hp' rows" by blast
    have "\<forall>g \<in> set (hs[i := h']). holds_rows m g hp' rows \<and> unat (dh_size g) \<le> Suc a \<and> unat (dh_occupied g) \<le> c + length r"
    proof
      fix g assume "g \<in> set (hs[i := h'])"
      then consider "g = h'" | "g \<in> set hs" using set_update_subset_insert [of hs i h'] by blast
      then show "holds_rows m g hp' rows \<and> unat (dh_size g) \<le> Suc a \<and> unat (dh_occupied g) \<le> c + length r"
        by cases (use p h Cons.prems(1) in auto)
    qed
    from Cons.IH [OF this] i Cons.prems(3,4) show ?thesis using p(1) by (simp add: Push)
  next
    case (Share i)
    have i: "i < length hs" "ops_ok (Suc (length hs)) ops" using Cons.prems(2) by (simp_all add: Share)
    have same: "dynamic_share g = g" for g :: dynamic_handle by (simp add: dynamic_share_def)
    have "\<forall>g \<in> set (hs @ [dynamic_share (hs ! i)]). holds_rows m g hp rows \<and> unat (dh_size g) \<le> a \<and> unat (dh_occupied g) \<le> c"
      using Cons.prems(1) nth_mem [OF i(1)] by (auto simp: same)
    from Cons.IH [OF this] i Cons.prems(3,4) show ?thesis by (simp add: Share)
  qed
qed simp

lemma shared_rows_kept:
  assumes "unat capacity = cap" and "0 < reserved" and alloc: "dynamic_alloc w fresh capacity reserved = (h0, hp0)"
    and "length rows + length (rows_of ops) \<le> cap" and "length (concat rows) + length (concat (rows_of ops)) \<le> 2147483648"
    and "ops_ok 1 ops"
  shows "\<exists>h hp hs hp'. push_rows (row_share_step w enc fresh) (map (Push 0) rows) ([h0], hp0) = Some (Inr ([h], hp)) \<and>
    push_rows (row_share_step w enc fresh) ops ([h], hp) = Some (Inr (hs, hp')) \<and>
    (\<forall>g \<in> set hs. map (\<lambda>i. shared_get_row w dec i g hp') [0..<length rows] = map Inr rows)"
proof -
  have cap: "cap < 4294967296" using assms(1) unat_u32_less [of capacity] by simp
  have h0: "dynamic_at h0 hp0 = dynamic_new w fresh capacity reserved" "dh_meta h0 = Some 0" "dh_data h0 = Some 1"
    "length hp0 = 2"
    using alloc by (auto simp: dynamic_alloc_def dynamic_at_def buf_at_def dynamic_new_def Let_def)
  have rep: "dyn_rep (dynamic_at h0 hp0) []" unfolding h0(1) using assms(1,2) by (intro dyn_rep_new) simp_all
  have "dyn_fits ([] @ rows)" using assms(4,5) cap by (simp add: dyn_fits_def)
  from push_first_rows [OF rep holds_of_rep [OF rep h0(2,3)] this cap] h0(4) obtain h hp where
    p: "push_rows (row_share_step w enc fresh) (map (Push 0) rows) ([h0], hp0) = Some (Inr ([h], hp))"
      "dyn_rep (dynamic_at h hp) rows" "holds_rows 0 h hp rows" by auto
  have "\<forall>g \<in> set [h]. holds_rows 0 g hp rows \<and> unat (dh_size g) \<le> length rows \<and> unat (dh_occupied g) \<le> length (concat rows)"
    using p(2,3) by (simp add: dyn_rep_def dynamic_at_def)
  from shared_run_holds [OF this _ assms(4,5) cap] assms(6) obtain hs hp' where
    q: "push_rows (row_share_step w enc fresh) ops ([h], hp) = Some (Inr (hs, hp'))" "\<forall>g \<in> set hs. holds_rows 0 g hp' rows" by auto
  have "map (\<lambda>i. shared_get_row w dec i g hp') [0..<length rows] = map Inr rows" if "g \<in> set hs" for g
    using q(2) that by (intro nth_equalityI) (auto simp: shared_get_row_def holds_rows_def dyn_get_ok)
  then show ?thesis using p(1) q(1) by blast
qed

end

section \<open>Columns of strings and of paths\<close>

text \<open>\<open>column_batch<string>\<close> has rows of bytes, \<open>column_batch<path>\<close> rows of 64-bit integers.\<close>

definition string_push_back :: "(nat \<Rightarrow> tmpbuf) \<Rightarrow> byte list \<Rightarrow> dynamic_column_batch \<Rightarrow> dynamic_column_batch res option" where
  "string_push_back fresh str = push_back_helper 1 (\<lambda>c. [c]) fresh str"

definition string_push_back_val :: "(nat \<Rightarrow> tmpbuf) \<Rightarrow> byte list \<Rightarrow> byte \<Rightarrow> dynamic_column_batch \<Rightarrow> dynamic_column_batch res option" where
  "string_push_back_val fresh str element = push_back_helper_val 1 (\<lambda>c. [c]) fresh str element"

definition path_push_back :: "(nat \<Rightarrow> tmpbuf) \<Rightarrow> u64 list \<Rightarrow> dynamic_column_batch \<Rightarrow> dynamic_column_batch res option" where
  "path_push_back fresh pth = push_back_helper 8 int_bytes fresh pth"

definition path_push_back_val :: "(nat \<Rightarrow> tmpbuf) \<Rightarrow> u64 list \<Rightarrow> u64 \<Rightarrow> dynamic_column_batch \<Rightarrow> dynamic_column_batch res option" where
  "path_push_back_val fresh pth element = push_back_helper_val 8 int_bytes fresh pth element"

section \<open>Properties\<close>

text \<open>C21: Batches that share memory are one array with several ends. For any sequence of pushes and \<open>share\<close> calls on
  a new fixed batch and the handles made from it, in which the array stays within the capacity: every
  operation succeeds, the size of every handle is the number of values pushed through it and the handles
  it was made from, and every handle reads the same array, in which a value pushed through a handle is at
  the end of that handle's part, even if another handle had put a value there.\<close>

theorem shared_batch_refines_array:
  assumes "byte_codec enc dec w" and "0 < al" and "\<forall>n. length (fresh n) = n"
    and "fixed_alloc al w fresh capacity [] = (h, hp)" and "ops_ok 1 ops"
    and "fold share_spec ops ([0], []) = (ns, arr)" and "length arr \<le> unat capacity"
  shows "\<exists>hs hp'. fold_res (share_step al w enc) ops ([h], hp) = Inr (hs, hp') \<and> map fixed_size hs = ns \<and>
    (\<forall>g \<in> set hs. map (\<lambda>j. shared_get al w dec j g hp') [0..<length arr] = map Inr arr)"
proof -
  have loc: "fixed_column enc dec w al" using assms(1,2) by (simp add: fixed_column_def fixed_column_axioms_def)
  have cap: "unat capacity < 4294967296" by simp
  have "fixed_column.share_rep enc w al (unat capacity) 0 ([h], hp) ([0], [])"
    using assms(3,4) by (intro fixed_column.share_rep_new [OF loc, of fresh _ capacity]) simp_all
  from fixed_column.share_run_sim [OF loc this] assms(5-7) cap obtain hs hp' where
    r: "fold_res (share_step al w enc) ops ([h], hp) = Inr (hs, hp')"
      "fixed_column.share_rep enc w al (unat capacity) 0 (hs, hp') (ns, arr)" by fastforce
  have "map (\<lambda>j. shared_get al w dec j g hp') [0..<length arr] = map Inr arr" if "g \<in> set hs" for g
    by (intro nth_equalityI) (simp_all add: fixed_column.share_rep_get [OF loc r(2) that])
  moreover have "map fixed_size hs = ns" using r(2) unfolding fixed_column.share_rep_def [OF loc] by simp
  ultimately show ?thesis using r(1) by blast
qed

theorem shared_batch_refines_array_witness:
  "\<exists>hs hp. fold_res (share_step 4 4 int_bytes) [Push 0 (5 :: u32), Share 0, Push 0 6, Push 1 7]
      ([\<lparr>fh_buf = Some 0, fh_size = 0, fh_capacity = 4\<rparr>], [replicate 20 0]) = Inr (hs, hp) \<and> map fixed_size hs = [2, 2] \<and>
    (\<forall>g \<in> set hs. shared_get 4 4 int_of_bytes 0 g hp = Inr (5 :: u32) \<and> shared_get 4 4 int_of_bytes 1 g hp = Inr (7 :: u32))"
proof -
  have "fixed_alloc 4 4 (\<lambda>n. replicate n 0) 4 [] = (\<lparr>fh_buf = Some 0, fh_size = 0, fh_capacity = 4\<rparr>, [replicate 20 0])"
    by (simp add: fixed_alloc_def fixed_new_def fixed_buf_size_def offset_of_data_def Let_def)
  from shared_batch_refines_array [OF codec32.byte_codec_axioms _ _ this, of "[Push 0 5, Share 0, Push 0 6, Push 1 7]" "[2, 2]" "[5, 7]"]
  show ?thesis by (auto simp: put_cell_def upt_rec)
qed

text \<open>Dumping handles on the same memory makes the first dump wrong. Push values into a new batch, share it,
  push more through the share, and dump both: the count at the beginning of the first dumped buffer is
  then that of the second, so a batch loaded from it claims more values than it has, and reading the
  first one it does not have leaves the buffer.\<close>

theorem shared_dumps_disagree:
  assumes "byte_codec enc dec w" and "0 < al" and "0 < w" and "\<forall>n. length (fresh n) = n"
    and "fixed_alloc al w fresh capacity [] = (h, hp)"
    and "length xs + length ys \<le> unat capacity" and "ys \<noteq> []" and "offset_of_data al + w * unat capacity < 4294967296"
  shows "\<exists>h0 h1 hp1 s0 s1 m0 m1 hp2 hp3 bs b.
    fold_res (share_step al w enc) (map (Push 0) xs @ Share 0 # map (Push 1) ys) ([h], hp) = Inr ([h0, h1], hp1) \<and>
    shared_dump_to al w h0 hp1 = Inr (Some s0, m0, hp2) \<and> shared_dump_to al w h1 hp2 = Inr (Some s1, m1, hp3) \<and>
    slice_bytes s0 hp3 = Inr bs \<and> fixed_of_buf bs = Inr b \<and>
    unat (fb_size b) = length xs + length ys \<and> fixed_get al w dec (length xs) b = Inl Out_of_bounds"
  by (rule fixed_column.dumps_disagree [OF _ refl _ assms(5,3,6,7,8)])
    (use assms in \<open>simp_all add: fixed_column_def fixed_column_axioms_def\<close>)

theorem shared_dumps_disagree_witness:
  "\<exists>h0 h1 hp1 s0 s1 m0 m1 hp2 hp3 bs b.
    fold_res (share_step 4 4 int_bytes) ([Push 0 (5 :: u32), Share 0, Push 1 6])
      ([\<lparr>fh_buf = Some 0, fh_size = 0, fh_capacity = 4\<rparr>], [replicate 20 0]) = Inr ([h0, h1], hp1) \<and>
    shared_dump_to 4 4 h0 hp1 = Inr (Some s0, m0, hp2) \<and> shared_dump_to 4 4 h1 hp2 = Inr (Some s1, m1, hp3) \<and>
    slice_bytes s0 hp3 = Inr bs \<and> fixed_of_buf bs = Inr b \<and>
    unat (fb_size b) = Suc (Suc 0) \<and> fixed_get 4 4 (int_of_bytes :: byte list \<Rightarrow> u32) 1 b = Inl Out_of_bounds"
proof -
  have "fixed_alloc 4 4 (\<lambda>n. replicate n 0) 4 [] = (\<lparr>fh_buf = Some 0, fh_size = 0, fh_capacity = 4\<rparr>, [replicate 20 0])"
    by (simp add: fixed_alloc_def fixed_new_def fixed_buf_size_def offset_of_data_def Let_def)
  moreover have "offset_of_data 4 + 4 * unat (4 :: u32) < 4294967296" by (simp add: offset_of_data_def)
  moreover have "(0 :: nat) < 4" "\<forall>n. length (replicate n (0 :: byte)) = n" "length [5 :: u32] + length [6 :: u32] \<le> unat (4 :: u32)"
    "[6 :: u32] \<noteq> []" by simp_all
  ultimately show ?thesis
    using shared_dumps_disagree [OF codec32.byte_codec_axioms, of 4 "\<lambda>n. replicate n 0" 4 _ _ "[5]" "[6]"] by auto
qed

text \<open>Sharing never disturbs the rows that were there before. Push rows into a new dynamic batch, then share it
  any number of times and push further rows through any of the handles in any order, within the capacity
  and 2^31 elements: every operation returns, although a handle that outgrows its data buffer moves to
  one of its own, and every handle still reads exactly the first rows.\<close>

theorem shared_rows_stay_readable:
  assumes "byte_codec enc dec w" and "\<forall>n. length (fresh n) = n" and "0 < reserved"
    and "dynamic_alloc w fresh capacity reserved = (h0, hp0)" and "ops_ok 1 ops"
    and "length rows + length (rows_of ops) \<le> unat capacity"
    and "length (concat rows) + length (concat (rows_of ops)) \<le> 2147483648"
  shows "\<exists>h hp hs hp'. push_rows (row_share_step w enc fresh) (map (Push 0) rows) ([h0], hp0) = Some (Inr ([h], hp)) \<and>
    push_rows (row_share_step w enc fresh) ops ([h], hp) = Some (Inr (hs, hp')) \<and>
    (\<forall>g \<in> set hs. map (\<lambda>i. shared_get_row w dec i g hp') [0..<length rows] = map Inr rows)"
  by (rule dynamic_column.shared_rows_kept [OF _ refl assms(3,4,6,7,5)])
    (use assms in \<open>simp_all add: dynamic_column_def dynamic_column_axioms_def\<close>)

theorem shared_rows_stay_readable_witness:
  "\<exists>h hp hs hp'. push_rows (row_share_step 8 int_bytes (\<lambda>n. replicate n 0)) [Push 0 [1, 2 :: u64]]
      ([fst (dynamic_alloc 8 (\<lambda>n. replicate n 0) 4 1)], snd (dynamic_alloc 8 (\<lambda>n. replicate n 0) 4 1)) = Some (Inr ([h], hp)) \<and>
    push_rows (row_share_step 8 int_bytes (\<lambda>n. replicate n 0)) [Share 0, Push 0 [3, 4, 5 :: u64], Push 1 [6]] ([h], hp) = Some (Inr (hs, hp')) \<and>
    (\<forall>g \<in> set hs. shared_get_row 8 int_of_bytes 0 g hp' = Inr [1, 2 :: u64])"
  using shared_rows_stay_readable [OF codec64.byte_codec_axioms, of "\<lambda>n. replicate n 0" 1 4
      "fst (dynamic_alloc 8 (\<lambda>n. replicate n 0) 4 1)" "snd (dynamic_alloc 8 (\<lambda>n. replicate n 0) 4 1)"
      "[Share 0, Push 0 [3, 4, 5], Push 1 [6]]" "[[1, 2]]"]
  by simp

end
