(* ===== verification/Actor_Address.thy ===== *)
theory Actor_Address
  imports Unaligned_Int
begin

text \<open>
  Actor addresses and the scope builder (\<open>core/actor_message.hh\<close>, \<open>core/reference_base.hh\<close>). An
  address is an array of 52 bytes and the number of bytes in use: a 4-byte shard id followed by
  6-byte layers (2 bytes of type id, 4 bytes of instance id), the actor groups from the outermost
  inwards and the actor last. \<open>addr_rep\<close> relates the bytes to the abstract path; the builder
  operations are shown to implement the obvious operations on paths, including where they assert.
\<close>

section \<open>Layout constants\<close>

definition GActorTypeInBytes :: nat where "GActorTypeInBytes = 2"
definition GShardIdInBytes :: nat where "GShardIdInBytes = 4"
definition GActorIdInBytes :: nat where "GActorIdInBytes = 4"
definition GMaxAddrLayer :: nat where "GMaxAddrLayer = 8"
definition GLocalActorAddrLength :: nat where
  "GLocalActorAddrLength = GActorTypeInBytes + GActorIdInBytes"
definition GMaxAddrLength :: nat where
  "GMaxAddrLength = GShardIdInBytes + GMaxAddrLayer * GLocalActorAddrLength"

lemmas addr_consts = GActorTypeInBytes_def GShardIdInBytes_def GActorIdInBytes_def
  GMaxAddrLayer_def GLocalActorAddrLength_def GMaxAddrLength_def

section \<open>Addresses\<close>

record address =
  addr_length :: byte
  addr_data :: "byte list"

text \<open>The default constructor leaves the data bytes indeterminate: they are the argument \<open>junk\<close>.\<close>

definition address_default :: "byte list \<Rightarrow> address" where
  "address_default junk = \<lparr>addr_length = 0, addr_data = junk\<rparr>"

definition set_data :: "nat \<Rightarrow> byte list \<Rightarrow> address \<Rightarrow> address res" where
  "set_data off bs a = bind_res (mem_store off bs (addr_data a)) (\<lambda>d. Inr (a\<lparr>addr_data := d\<rparr>))"

definition address_of_shard :: "byte list \<Rightarrow> u32 \<Rightarrow> address res" where
  "address_of_shard junk sid =
     bind_res (set_data 0 (int_bytes sid) (address_default junk))
       (\<lambda>a. Inr (a\<lparr>addr_length := word_of_nat GShardIdInBytes\<rparr>))"

definition get_shard_id :: "address \<Rightarrow> u32 res" where
  "get_shard_id a = load_unaligned_int 0 (addr_data a)"

definition set_method_actor_tid :: "u16 \<Rightarrow> address \<Rightarrow> address res" where
  "set_method_actor_tid tid a = set_data (GMaxAddrLength - GActorTypeInBytes) (int_bytes tid) a"

definition get_method_actor_tid :: "address \<Rightarrow> u16 res" where
  "get_method_actor_tid a = load_unaligned_int (GMaxAddrLength - GActorTypeInBytes) (addr_data a)"

section \<open>Scopes and references\<close>

record scope =
  scope_type :: u16
  scope_id :: u32

definition make_address :: "u16 \<Rightarrow> address \<Rightarrow> u32 \<Rightarrow> address \<Rightarrow> address res" where
  "make_address actor_type src actor_id ref =
     bind_res (mem_load 0 (unat (addr_length src)) (addr_data src)) (\<lambda>bs.
     bind_res (set_data 0 bs ref) (\<lambda>r1.
       let r2 = r1\<lparr>addr_length := addr_length src\<rparr>; off = unat (addr_length r2)
       in bind_res (set_data off (int_bytes actor_type) r2) (\<lambda>r3.
          bind_res (set_data (off + GActorTypeInBytes) (int_bytes actor_id) r3) (\<lambda>r4.
            Inr (r4\<lparr>addr_length := addr_length r4 + word_of_nat GLocalActorAddrLength\<rparr>)))))"

definition set_shard :: "u32 \<Rightarrow> address \<Rightarrow> address res" where
  "set_shard sid a = set_data 0 (int_bytes sid) a"

definition shard_of :: "address \<Rightarrow> u32 res" where
  "shard_of a = load_unaligned_int 0 (addr_data a)"

definition scope_builder_new :: "byte list \<Rightarrow> u32 \<Rightarrow> address res" where
  "scope_builder_new junk sid =
     bind_res (set_shard sid (address_default junk))
       (\<lambda>a. Inr (a\<lparr>addr_length := word_of_nat GShardIdInBytes\<rparr>))"

fun foreach_init_scope :: "scope list \<Rightarrow> address \<Rightarrow> address res" where
  "foreach_init_scope [] a = Inr a"
| "foreach_init_scope (s # ss) a =
     (let off = unat (addr_length a)
      in bind_res (set_data off (int_bytes (scope_type s)) a) (\<lambda>a1.
         bind_res (set_data (off + GActorTypeInBytes) (int_bytes (scope_id s)) a1) (\<lambda>a2.
           foreach_init_scope ss
             (a2\<lparr>addr_length := addr_length a2 + word_of_nat GLocalActorAddrLength\<rparr>))))"

definition scope_builder_scopes :: "byte list \<Rightarrow> u32 \<Rightarrow> scope list \<Rightarrow> address res" where
  "scope_builder_scopes junk sid scopes =
     assert_res (length scopes < GMaxAddrLayer)
       (bind_res (scope_builder_new junk sid) (foreach_init_scope scopes))"

definition enter_sub_scope :: "scope \<Rightarrow> address \<Rightarrow> address res" where
  "enter_sub_scope sub a =
     assert_res (unat (addr_length a) + GLocalActorAddrLength < GMaxAddrLength)
       (bind_res (set_data (unat (addr_length a)) (int_bytes (scope_type sub)) a) (\<lambda>a1.
        bind_res (set_data (unat (addr_length a1) + GActorTypeInBytes) (int_bytes (scope_id sub)) a1) (\<lambda>a2.
          Inr (a2\<lparr>addr_length := addr_length a2 + word_of_nat GLocalActorAddrLength\<rparr>))))"

definition back_to_parent_scope :: "address \<Rightarrow> address res" where
  "back_to_parent_scope a =
     assert_res (unat (addr_length a) \<ge> GShardIdInBytes + GLocalActorAddrLength)
       (Inr (a\<lparr>addr_length := addr_length a - word_of_nat GLocalActorAddrLength\<rparr>))"

definition current_scope_id :: "address \<Rightarrow> u32 res" where
  "current_scope_id a =
     assert_res (unat (addr_length a) \<ge> GShardIdInBytes + GLocalActorAddrLength)
       (load_unaligned_int (unat (addr_length a) - GActorIdInBytes) (addr_data a))"

text \<open>The subtraction is at \<open>size_t\<close>, 64 bits wide.\<close>

definition scope_layer_number :: "address \<Rightarrow> u64" where
  "scope_layer_number a =
     (word_of_nat (unat (addr_length a)) - word_of_nat GShardIdInBytes) div
       word_of_nat GLocalActorAddrLength"

definition build_ref :: "byte list \<Rightarrow> u16 \<Rightarrow> u32 \<Rightarrow> address \<Rightarrow> address res" where
  "build_ref junk actor_type actor_id a = make_address actor_type a actor_id (address_default junk)"

text \<open>How a group finds the child for a message: six bytes at its own address length, read as
  one integer.\<close>

definition child_id_at :: "nat \<Rightarrow> address \<Rightarrow> u64 res" where
  "child_id_at off a = load_unaligned_int_partial off GLocalActorAddrLength (addr_data a)"

definition child_type_at :: "nat \<Rightarrow> address \<Rightarrow> u16 res" where
  "child_type_at off a = load_unaligned_int off (addr_data a)"

section \<open>Paths\<close>

definition scope_bytes :: "scope \<Rightarrow> byte list" where
  "scope_bytes s = int_bytes (scope_type s) @ int_bytes (scope_id s)"

definition path_bytes :: "u32 \<Rightarrow> scope list \<Rightarrow> byte list" where
  "path_bytes sid scopes = int_bytes sid @ concat (map scope_bytes scopes)"

definition addr_rep :: "address \<Rightarrow> u32 \<Rightarrow> scope list \<Rightarrow> bool" where
  "addr_rep a sid scopes \<longleftrightarrow>
     length (addr_data a) = GMaxAddrLength \<and> unat (addr_length a) = 4 + 6 * length scopes \<and>
     length scopes \<le> GMaxAddrLayer \<and> take (4 + 6 * length scopes) (addr_data a) = path_bytes sid scopes"

lemma length_scope_bytes [simp]: "length (scope_bytes s) = 6"
  by (simp add: scope_bytes_def)

lemma scope_bytes_inj: "scope_bytes s = scope_bytes t \<Longrightarrow> s = t"
  by (auto simp: scope_bytes_def codec16.enc_inject codec32.enc_inject)

definition scope_of_bytes :: "byte list \<Rightarrow> scope" where
  "scope_of_bytes bs = \<lparr>scope_type = int_of_bytes (take 2 bs), scope_id = int_of_bytes (drop 2 bs)\<rparr>"

interpretation scope_codec: byte_codec scope_bytes scope_of_bytes 6
  by unfold_locales (simp_all add: scope_bytes_def scope_of_bytes_def codec16.dec_enc codec32.dec_enc)

lemma length_path_bytes [simp]: "length (path_bytes sid scopes) = 4 + 6 * length scopes"
  by (simp add: path_bytes_def)

lemma path_bytes_snoc: "path_bytes sid (scopes @ [s]) = path_bytes sid scopes @ scope_bytes s"
  by (simp add: path_bytes_def)

lemma path_bytes_inj:
  assumes "path_bytes sid ss = path_bytes sid' ss'"
  shows "sid = sid' \<and> ss = ss'"
proof -
  have len: "length ss = length ss'"
    using arg_cong [OF assms, of length] by simp
  from assms have "sid = sid'" and c: "concat (map scope_bytes ss) = concat (map scope_bytes ss')"
    by (auto simp: path_bytes_def codec32.enc_inject)
  moreover have "ss = ss'"
  proof (rule nth_equalityI [OF len])
    fix i assume "i < length ss"
    then have "scope_bytes (ss ! i) = scope_bytes (ss' ! i)"
      using scope_codec.nth_chunk [of i ss "[]"] scope_codec.nth_chunk [of i ss' "[]"] len c by simp
    then show "ss ! i = ss' ! i" by (rule scope_bytes_inj)
  qed
  ultimately show ?thesis by simp
qed

section \<open>The operations on paths\<close>

lemma addr_rep_off: "addr_rep a sid ss \<Longrightarrow> unat (addr_length a) = 4 + 6 * length ss"
  by (simp add: addr_rep_def)

lemma set_scope_at:
  assumes "off + 6 \<le> length (addr_data a)"
  shows "bind_res (set_data off (int_bytes (scope_type s)) a) (\<lambda>a1.
           bind_res (set_data (off + 2) (int_bytes (scope_id s)) a1) (f a1)) =
         f (a\<lparr>addr_data := take off (addr_data a) @ int_bytes (scope_type s) @ drop (off + 2) (addr_data a)\<rparr>)
           (a\<lparr>addr_data := take off (addr_data a) @ scope_bytes s @ drop (off + 6) (addr_data a)\<rparr>)"
proof -
  have "min (length (addr_data a)) off = off" "off + 4 \<le> length (addr_data a) - 2" using assms by auto
  with assms show ?thesis by (simp add: set_data_def mem_store_def scope_bytes_def add.commute min_def)
qed

lemma addr_rep_extend:
  assumes "addr_rep a sid ss" and "length ss < 8"
    and "off = 4 + 6 * length ss"
  shows "addr_rep (a\<lparr>addr_data := take off (addr_data a) @ scope_bytes s @ drop (off + 6) (addr_data a),
                    addr_length := addr_length a + 6\<rparr>) sid (ss @ [s])"
proof -
  have l: "unat (addr_length a) = off" "off + 6 \<le> 52" "length (addr_data a) = 52"
    using assms by (auto simp: addr_rep_def addr_consts)
  then have "unat (addr_length a + 6) = off + 6" by (simp add: unat_word_ariths)
  moreover have "take off (addr_data a) = path_bytes sid ss" using assms by (simp add: addr_rep_def)
  ultimately show ?thesis using assms l by (simp add: addr_rep_def addr_consts path_bytes_snoc)
qed

lemma scope_builder_new_rep:
  assumes "length junk = GMaxAddrLength"
  shows "\<exists>a. scope_builder_new junk sid = Inr a \<and> addr_rep a sid []"
  using assms
  by (simp add: scope_builder_new_def set_shard_def set_data_def address_default_def mem_store_def
      addr_rep_def addr_consts path_bytes_def)

lemma address_of_shard_rep:
  assumes "length junk = GMaxAddrLength"
  shows "\<exists>a. address_of_shard junk sid = Inr a \<and> addr_rep a sid []"
  using scope_builder_new_rep [OF assms, of sid]
  by (simp add: address_of_shard_def scope_builder_new_def set_shard_def)

lemma enter_sub_scope_rep:
  assumes "addr_rep a sid ss"
  shows "if length ss < 7 then \<exists>a'. enter_sub_scope s a = Inr a' \<and> addr_rep a' sid (ss @ [s])
         else enter_sub_scope s a = Inl Assert_failed"
proof (cases "length ss < 7")
  case True
  let ?off = "4 + 6 * length ss"
  let ?a = "a\<lparr>addr_data := take ?off (addr_data a) @ scope_bytes s @ drop (?off + 6) (addr_data a),
             addr_length := addr_length a + 6\<rparr>"
  have "set_data n bs a = Inr a1 \<Longrightarrow> addr_length a1 = addr_length a" for n bs a1
    by (auto simp: set_data_def bind_res_Inr_iff)
  then have "enter_sub_scope s a =
      bind_res (set_data ?off (int_bytes (scope_type s)) a) (\<lambda>a1.
        bind_res (set_data (?off + 2) (int_bytes (scope_id s)) a1) (\<lambda>a2.
          Inr (a2\<lparr>addr_length := addr_length a2 + 6\<rparr>)))"
    using True addr_rep_off [OF assms]
    by (auto simp: enter_sub_scope_def addr_consts bind_res_def split: sum.splits)
  also have "\<dots> = Inr ?a"
    using True assms set_scope_at [of ?off a s "\<lambda>_ a2. Inr (a2\<lparr>addr_length := addr_length a2 + 6\<rparr>)"]
    by (simp add: addr_rep_def addr_consts)
  finally have "enter_sub_scope s a = Inr ?a" .
  moreover have "addr_rep ?a sid (ss @ [s])" using addr_rep_extend [OF assms] True by simp
  ultimately show ?thesis using True by auto
next
  case False
  then show ?thesis
    using addr_rep_off [OF assms] by (simp add: enter_sub_scope_def addr_consts)
qed

lemma foreach_init_scope_rep:
  assumes "addr_rep a sid ss" and "length ss + length ts \<le> 8"
  shows "\<exists>a'. foreach_init_scope ts a = Inr a' \<and> addr_rep a' sid (ss @ ts)"
  using assms
proof (induction ts arbitrary: a ss)
  case Nil
  then show ?case by simp
next
  case (Cons t ts)
  let ?off = "4 + 6 * length ss"
  let ?a = "a\<lparr>addr_data := take ?off (addr_data a) @ scope_bytes t @ drop (?off + 6) (addr_data a),
             addr_length := addr_length a + 6\<rparr>"
  have "foreach_init_scope (t # ts) a = foreach_init_scope ts ?a"
    using Cons.prems set_scope_at [of ?off a t
        "\<lambda>_ a2. foreach_init_scope ts (a2\<lparr>addr_length := addr_length a2 + 6\<rparr>)"]
    by (simp add: addr_rep_def addr_consts Let_def)
  moreover have "addr_rep ?a sid (ss @ [t])" using addr_rep_extend [OF Cons.prems(1)] Cons.prems(2) by simp
  ultimately show ?case using Cons.IH [of ?a "ss @ [t]"] Cons.prems(2) by simp
qed

lemma back_to_parent_scope_rep:
  assumes "addr_rep a sid ss"
  shows "if ss = [] then back_to_parent_scope a = Inl Assert_failed
         else \<exists>a'. back_to_parent_scope a = Inr a' \<and> addr_rep a' sid (butlast ss)"
proof (cases ss rule: rev_exhaust)
  case Nil
  then show ?thesis using addr_rep_off [OF assms] by (simp add: back_to_parent_scope_def addr_consts)
next
  case (snoc ts t)
  let ?a = "a\<lparr>addr_length := addr_length a - 6\<rparr>"
  have off: "unat (addr_length a) = 10 + 6 * length ts" using addr_rep_off [OF assms] snoc by simp
  then have "(6 :: byte) \<le> addr_length a" by (simp add: word_le_nat_alt)
  then have "unat (addr_length a - 6) = 4 + 6 * length ts"
    using off by (simp add: unat_sub)
  moreover have "take (4 + 6 * length ts) (addr_data a) = path_bytes sid ts"
  proof -
    have "take (4 + 6 * length ts) (addr_data a) =
            take (4 + 6 * length ts) (take (4 + 6 * length ss) (addr_data a))"
      using snoc by simp
    also have "\<dots> = path_bytes sid ts" using assms snoc by (simp add: addr_rep_def path_bytes_snoc)
    finally show ?thesis .
  qed
  ultimately have "addr_rep ?a sid ts" using assms snoc by (simp add: addr_rep_def)
  moreover have "back_to_parent_scope a = Inr ?a"
    using off by (simp add: back_to_parent_scope_def addr_consts)
  ultimately show ?thesis using snoc by simp
qed

lemma set_shard_rep:
  assumes "addr_rep a sid ss"
  shows "\<exists>a'. set_shard sid' a = Inr a' \<and> addr_rep a' sid' ss"
proof -
  have "take (6 * length ss) (drop 4 (addr_data a)) = drop 4 (take (4 + 6 * length ss) (addr_data a))"
    by (simp add: drop_take)
  also have "\<dots> = concat (map scope_bytes ss)" using assms by (simp add: addr_rep_def path_bytes_def)
  finally show ?thesis
    using assms by (simp add: set_shard_def set_data_def mem_store_def addr_rep_def addr_consts path_bytes_def)
qed

lemma get_shard_id_rep: "addr_rep a sid ss \<Longrightarrow> get_shard_id a = Inr sid"
proof -
  assume r: "addr_rep a sid ss"
  have "take 4 (addr_data a) = take 4 (take (4 + 6 * length ss) (addr_data a))" by simp
  also have "\<dots> = int_bytes sid" using r by (simp add: addr_rep_def path_bytes_def)
  finally show ?thesis
    using r codec32.dec_enc [of sid]
    by (simp add: get_shard_id_def load_unaligned_int_def mem_load_def addr_rep_def addr_consts
        int_of_bytes_def)
qed

lemma addr_rep_layer:
  assumes "addr_rep a sid ss" and "i < length ss"
  shows "take 6 (drop (4 + 6 * i) (addr_data a)) = scope_bytes (ss ! i)"
proof -
  have "drop (4 + 6 * i) (take (4 + 6 * length ss) (addr_data a)) =
        drop (i * 6) (concat (map scope_bytes ss))"
    using assms by (simp add: addr_rep_def path_bytes_def mult.commute)
  then have "take 6 (drop (4 + 6 * i) (take (4 + 6 * length ss) (addr_data a))) = scope_bytes (ss ! i)"
    using scope_codec.nth_chunk [of i ss "[]"] assms(2) by simp
  moreover have "6 \<le> 6 * length ss - 6 * i" using assms(2) by simp
  ultimately show ?thesis by (simp add: drop_take min_def)
qed

lemma current_scope_id_rep:
  assumes "addr_rep a sid (ss @ [s])"
  shows "current_scope_id a = Inr (scope_id s)"
proof -
  have layer: "take 6 (drop (4 + 6 * length ss) (addr_data a)) = scope_bytes s"
    using addr_rep_layer [OF assms, of "length ss"] by simp
  have "take 4 (drop (6 + 6 * length ss) (addr_data a)) =
        drop 2 (take 6 (drop (4 + 6 * length ss) (addr_data a)))"
    by (simp add: drop_take add.commute)
  also have "\<dots> = int_bytes (scope_id s)" unfolding layer by (simp add: scope_bytes_def)
  finally show ?thesis
    using assms addr_rep_off [OF assms] codec32.dec_enc [of "scope_id s"]
    by (simp add: current_scope_id_def load_unaligned_int_def mem_load_def addr_rep_def addr_consts
        int_of_bytes_def)
qed

lemma build_ref_rep:
  assumes "addr_rep a sid ss" and "length ss < 8" and "length junk = GMaxAddrLength"
  shows "\<exists>r. build_ref junk ty i a = Inr r \<and> addr_rep r sid (ss @ [\<lparr>scope_type = ty, scope_id = i\<rparr>])"
proof -
  let ?off = "4 + 6 * length ss" and ?s = "\<lparr>scope_type = ty, scope_id = i\<rparr>"
  let ?r1 = "\<lparr>addr_length = addr_length a, addr_data = path_bytes sid ss @ drop ?off junk\<rparr>"
  have r1: "addr_rep ?r1 sid ss" using assms by (simp add: addr_rep_def addr_consts)
  let ?r = "?r1\<lparr>addr_data := take ?off (addr_data ?r1) @ scope_bytes ?s @ drop (?off + 6) (addr_data ?r1),
              addr_length := addr_length ?r1 + 6\<rparr>"
  have "build_ref junk ty i a = Inr ?r"
    using assms r1 set_scope_at [of ?off ?r1 ?s "\<lambda>_ r4. Inr (r4\<lparr>addr_length := addr_length r4 + 6\<rparr>)"]
    by (simp add: build_ref_def make_address_def address_default_def set_data_def [of 0]
        mem_store_def [of 0] mem_load_def addr_rep_def addr_consts Let_def)
  moreover have "addr_rep ?r sid (ss @ [?s])" using addr_rep_extend [OF r1, of ?off ?s] assms(2) by simp
  ultimately show ?thesis by blast
qed

lemma child_id_at_rep:
  assumes "addr_rep a sid ss" and "i < length ss"
  shows "child_id_at (4 + 6 * i) a = Inr (int_of_bytes (scope_bytes (ss ! i)))"
proof -
  have "4 + 6 * i + 6 \<le> 52" using assms by (auto simp: addr_rep_def addr_consts)
  then show ?thesis
    using addr_rep_layer [OF assms] assms(1)
    by (simp add: child_id_at_def load_unaligned_int_partial_def mem_load_def addr_rep_def addr_consts
        int_of_bytes_def)
qed

lemma child_id_inj:
  "(int_of_bytes (scope_bytes s) :: u64) = int_of_bytes (scope_bytes t) \<longleftrightarrow> s = t"
proof
  assume eq: "(int_of_bytes (scope_bytes s) :: u64) = int_of_bytes (scope_bytes t)"
  have b: "le_to_nat (scope_bytes x) < 18446744073709551616" for x
    using le_to_nat_bound [of "scope_bytes x"] by simp
  from eq have "unat (word_of_nat (le_to_nat (scope_bytes s)) :: u64) =
                unat (word_of_nat (le_to_nat (scope_bytes t)) :: u64)"
    by (simp add: int_of_bytes_def)
  then have "le_to_nat (scope_bytes s) = le_to_nat (scope_bytes t)"
    using b by (simp add: unat_of_nat)
  then have "scope_bytes s = scope_bytes t" by (intro le_to_nat_inj) simp_all
  then show "s = t" by (rule scope_bytes_inj)
qed simp

section \<open>Builder sessions\<close>

datatype scope_op = Enter scope | Back | SetShard u32

fun builder_step :: "scope_op \<Rightarrow> address \<Rightarrow> address res" where
  "builder_step (Enter s) a = enter_sub_scope s a"
| "builder_step Back a = back_to_parent_scope a"
| "builder_step (SetShard sid) a = set_shard sid a"

text \<open>The specification: a shard and a stack of at most seven scopes.\<close>

fun path_step :: "scope_op \<Rightarrow> u32 \<times> scope list \<Rightarrow> (u32 \<times> scope list) res" where
  "path_step (Enter s) (sid, ss) = assert_res (length ss < 7) (Inr (sid, ss @ [s]))"
| "path_step Back (sid, ss) = assert_res (ss \<noteq> []) (Inr (sid, butlast ss))"
| "path_step (SetShard sid') (sid, ss) = Inr (sid', ss)"

lemma builder_step_rep:
  assumes "addr_rep a sid ss"
  shows "case path_step op (sid, ss) of
           Inl e \<Rightarrow> builder_step op a = Inl e
         | Inr (sid', ss') \<Rightarrow> (\<exists>a'. builder_step op a = Inr a' \<and> addr_rep a' sid' ss')"
proof (cases op)
  case (Enter s)
  then show ?thesis using enter_sub_scope_rep [OF assms, of s] by (simp add: assert_res_def split: if_splits)
next
  case Back
  then show ?thesis using back_to_parent_scope_rep [OF assms] by (simp add: assert_res_def split: if_splits)
next
  case (SetShard sid')
  then show ?thesis using set_shard_rep [OF assms, of sid'] by simp
qed

lemma builder_run_rep:
  assumes "addr_rep a sid ss"
  shows "case fold_res path_step ops (sid, ss) of
           Inl e \<Rightarrow> fold_res builder_step ops a = Inl e
         | Inr (sid', ss') \<Rightarrow> (\<exists>a'. fold_res builder_step ops a = Inr a' \<and> addr_rep a' sid' ss')"
  using assms
proof (induction ops arbitrary: a sid ss)
  case Nil
  then show ?case by simp
next
  case (Cons op ops)
  show ?case
  proof (cases "path_step op (sid, ss)")
    case (Inl e)
    then show ?thesis using builder_step_rep [OF Cons.prems, of op] by simp
  next
    case (Inr p)
    obtain sid' ss' where p: "p = (sid', ss')" by (cases p)
    with Inr builder_step_rep [OF Cons.prems, of op] obtain a'
      where "builder_step op a = Inr a'" "addr_rep a' sid' ss'" by auto
    with Cons.IH [of a' sid' ss'] Inr p show ?thesis by (simp split: sum.splits prod.splits)
  qed
qed

section \<open>Properties\<close>

text \<open>C17: Every session with the scope builder behaves like the session on a shard and a stack of
  scopes: the same calls fail their assertion (an eighth nested scope, leaving the outermost
  scope), and otherwise the bytes of the built address are exactly the shard id and the layers,
  never past the end of the 52-byte array.\<close>

theorem scope_builder_refines_paths:
  assumes "length junk = GMaxAddrLength"
  shows "case fold_res path_step ops (sid, []) of
           Inl e \<Rightarrow> bind_res (scope_builder_new junk sid) (fold_res builder_step ops) = Inl e
         | Inr (sid', ss) \<Rightarrow>
             \<exists>a. bind_res (scope_builder_new junk sid) (fold_res builder_step ops) = Inr a \<and>
                 addr_rep a sid' ss"
proof -
  obtain a where "scope_builder_new junk sid = Inr a" "addr_rep a sid []"
    using scope_builder_new_rep [OF assms] by blast
  with builder_run_rep [OF this(2), of ops] show ?thesis by (simp split: sum.splits prod.splits)
qed

theorem scope_builder_refines_paths_witness:
  "\<exists>a. bind_res (scope_builder_new (replicate 52 0) 3)
         (fold_res builder_step [Enter \<lparr>scope_type = 61440, scope_id = 1\<rparr>, SetShard 2]) = Inr a \<and>
       addr_rep a 2 [\<lparr>scope_type = 61440, scope_id = 1\<rparr>]"
  using scope_builder_refines_paths
    [of "replicate 52 0" 3 "[Enter \<lparr>scope_type = 61440, scope_id = 1\<rparr>, SetShard 2]"]
  by (simp add: addr_consts)

text \<open>C18: The address of an actor reference identifies it: the bytes of two references built from
  any two scopes are equal exactly when the shard, the scopes, the actor type and the actor id
  are.\<close>

theorem ref_address_unique:
  assumes "addr_rep a sid ss" and "addr_rep b sid' ss'" and "length ss < 8" and "length ss' < 8"
    and "length junk = GMaxAddrLength" and "length junk' = GMaxAddrLength"
  shows "\<exists>r r'. build_ref junk ty i a = Inr r \<and> build_ref junk' ty' i' b = Inr r' \<and>
           (take (unat (addr_length r)) (addr_data r) = take (unat (addr_length r')) (addr_data r') \<longleftrightarrow>
              sid = sid' \<and> ss = ss' \<and> ty = ty' \<and> i = i')"
proof -
  obtain r where r: "build_ref junk ty i a = Inr r" "addr_rep r sid (ss @ [\<lparr>scope_type = ty, scope_id = i\<rparr>])"
    using build_ref_rep assms by blast
  obtain r' where r': "build_ref junk' ty' i' b = Inr r'"
      "addr_rep r' sid' (ss' @ [\<lparr>scope_type = ty', scope_id = i'\<rparr>])"
    using build_ref_rep assms by blast
  have "take (unat (addr_length r)) (addr_data r) = path_bytes sid (ss @ [\<lparr>scope_type = ty, scope_id = i\<rparr>])"
    "take (unat (addr_length r')) (addr_data r') = path_bytes sid' (ss' @ [\<lparr>scope_type = ty', scope_id = i'\<rparr>])"
    using r(2) r'(2) by (simp_all add: addr_rep_def)
  then have "(take (unat (addr_length r)) (addr_data r) = take (unat (addr_length r')) (addr_data r')) =
      (sid = sid' \<and> ss = ss' \<and> ty = ty' \<and> i = i')"
    using path_bytes_inj by fastforce
  with r r' show ?thesis by blast
qed

theorem ref_address_unique_witness:
  "\<exists>a. scope_builder_new (replicate 52 0) 1 = Inr a \<and>
     (\<exists>r r'. build_ref (replicate 52 0) 7 9 a = Inr r \<and> build_ref (replicate 52 0) 7 8 a = Inr r' \<and>
       take (unat (addr_length r)) (addr_data r) \<noteq> take (unat (addr_length r')) (addr_data r'))"
proof -
  obtain a where a: "scope_builder_new (replicate 52 0) 1 = Inr a" "addr_rep a 1 []"
    using scope_builder_new_rep [of "replicate 52 0" 1] by (auto simp: addr_consts)
  from ref_address_unique [OF a(2) a(2), of "replicate 52 0" "replicate 52 0" 7 9 7 8] a(1)
  show ?thesis by (auto simp: addr_consts)
qed

text \<open>A group that looks at its layer of a message address finds the same child for two
  messages exactly when that layer names the same type and instance: the 48-bit child id loses
  nothing.\<close>

theorem child_lookup_by_layer:
  assumes "addr_rep a sid ss" and "addr_rep b sid' ts" and "n < length ss" and "n < length ts"
  shows "\<exists>c d. child_id_at (4 + 6 * n) a = Inr c \<and> child_id_at (4 + 6 * n) b = Inr d \<and>
           (c = d \<longleftrightarrow> ss ! n = ts ! n)"
  using child_id_at_rep [OF assms(1,3)] child_id_at_rep [OF assms(2,4)] child_id_inj by auto

theorem child_lookup_by_layer_witness:
  "\<exists>a b c d. scope_builder_scopes (replicate 52 0) 1 [\<lparr>scope_type = 61440, scope_id = 5\<rparr>] = Inr a \<and>
     scope_builder_scopes (replicate 52 0) 1 [\<lparr>scope_type = 61440, scope_id = 6\<rparr>] = Inr b \<and>
     child_id_at 4 a = Inr c \<and> child_id_at 4 b = Inr d \<and> c \<noteq> d"
proof -
  have *: "\<exists>a. scope_builder_scopes (replicate 52 0) 1 [s] = Inr a \<and> addr_rep a 1 [s]" for s
  proof -
    obtain a where a: "scope_builder_new (replicate 52 0) 1 = Inr a" "addr_rep a 1 []"
      using scope_builder_new_rep [of "replicate 52 0" 1] by (auto simp: addr_consts)
    then show ?thesis
      using foreach_init_scope_rep [OF a(2), of "[s]"]
      by (simp add: scope_builder_scopes_def addr_consts)
  qed
  obtain a where a: "scope_builder_scopes (replicate 52 0) 1 [\<lparr>scope_type = 61440, scope_id = 5\<rparr>] = Inr a"
    "addr_rep a 1 [\<lparr>scope_type = 61440, scope_id = 5\<rparr>]" using * by blast
  obtain b where b: "scope_builder_scopes (replicate 52 0) 1 [\<lparr>scope_type = 61440, scope_id = 6\<rparr>] = Inr b"
    "addr_rep b 1 [\<lparr>scope_type = 61440, scope_id = 6\<rparr>]" using * by blast
  from child_lookup_by_layer [OF a(2) b(2), of 0] a(1) b(1) show ?thesis by auto
qed

lemma set_method_tid_short:
  assumes "addr_rep r sid ss" and "length ss \<le> 7"
  shows "\<exists>r'. set_method_actor_tid tid r = Inr r' \<and> addr_rep r' sid ss \<and> get_method_actor_tid r' = Inr tid"
proof -
  let ?d = "take 50 (addr_data r) @ int_bytes tid"
  have len: "length (addr_data r) = 52" using assms by (simp add: addr_rep_def addr_consts)
  then have s: "set_method_actor_tid tid r = Inr (r\<lparr>addr_data := ?d\<rparr>)"
    by (simp add: set_method_actor_tid_def set_data_def mem_store_def addr_consts)
  moreover have "addr_rep (r\<lparr>addr_data := ?d\<rparr>) sid ss"
    using assms len by (simp add: addr_rep_def addr_consts min_def)
  moreover have "get_method_actor_tid (r\<lparr>addr_data := ?d\<rparr>) = Inr tid"
    using len codec16.dec_enc [of tid]
    by (simp add: get_method_actor_tid_def load_unaligned_int_def mem_load_def addr_consts int_of_bytes_def)
  ultimately show ?thesis by blast
qed

lemma nat_to_le_small:
  "nat_to_le 2 v = [word_of_nat v, word_of_nat (v div 256)]"
  "nat_to_le 4 v = [word_of_nat v, word_of_nat (v div 256), word_of_nat (v div 256 div 256),
                    word_of_nat (v div 256 div 256 div 256)]"
proof -
  have four: "(4 :: nat) = Suc (Suc (Suc (Suc 0)))" and two: "(2 :: nat) = Suc (Suc 0)" by simp_all
  show "nat_to_le 2 v = [word_of_nat v, word_of_nat (v div 256)]"
    by (simp only: two nat_to_le.simps)
  show "nat_to_le 4 v = [word_of_nat v, word_of_nat (v div 256), word_of_nat (v div 256 div 256),
                    word_of_nat (v div 256 div 256 div 256)]"
    by (simp only: four nat_to_le.simps)
qed

lemma byte_of_nat_eq: "(word_of_nat x :: byte) = word_of_nat y \<longleftrightarrow> x mod 256 = y mod 256"
  by (simp only: word_unat_eq_iff unat_byte_of_nat)

lemma int_bytes_u32_split:
  "take 2 (int_bytes (w :: u32)) @ int_bytes (t :: u16) =
     int_bytes (word_of_nat (unat w mod 65536 + 65536 * unat t) :: u32)"
proof -
  define x y where "x = unat w" and "y = unat t"
  have "y < 65536" using unsigned_less [of t] by (simp add: y_def)
  moreover have "x mod 65536 < 65536" by simp
  ultimately have "x mod 65536 + 65536 * y < 4294967296" by linarith
  then have "unat (word_of_nat (x mod 65536 + 65536 * y) :: u32) = x mod 65536 + 65536 * y"
    by (rule unat_of_nat_u32)
  moreover have split: "x mod 65536 + 65536 * y = x mod 256 + 256 * (x div 256 mod 256 + 256 * y)"
    using mod_mult2_eq [of x 256 256] by simp
  have "(x mod 65536 + 65536 * y) div 256 = x div 256 mod 256 + 256 * y"
    unfolding split by simp
  moreover have "(x mod 65536 + 65536 * y) mod 256 = x mod 256"
    unfolding split by (simp only: mod_mult_self2 mod_mod_trivial)
  moreover have "(x div 256 mod 256 + 256 * y) mod 256 = x div 256 mod 256"
    "(x div 256 mod 256 + 256 * y) div 256 = y"
    by simp_all
  ultimately show ?thesis
    unfolding x_def [symmetric] y_def [symmetric] int_bytes_def
    by (simp only: sizeof_int_simps nat_to_le_small take_Suc_Cons numeral_2_eq_2 take_0 append.simps
        list.inject byte_of_nat_eq) simp
qed

text \<open>The method type id shares the tail of the address array with the eighth layer. For up to
  seven layers the two do not disturb each other; for an actor below seven nested scopes, which
  the builder accepts, setting the method type id replaces the upper half of the actor id, so the
  message is addressed to another actor.\<close>

theorem method_tid_overwrites_eighth_layer:
  assumes "addr_rep r sid (ss @ [s])"
  shows "\<exists>r'. set_method_actor_tid tid r = Inr r' \<and>
           addr_rep r' sid
             (ss @ [if length ss < 7 then s
                    else s\<lparr>scope_id := word_of_nat (unat (scope_id s) mod 65536 + 65536 * unat tid)\<rparr>])"
proof (cases "length ss < 7")
  case True
  then show ?thesis using set_method_tid_short [OF assms, of tid] by auto
next
  case False
  let ?s = "s\<lparr>scope_id := word_of_nat (unat (scope_id s) mod 65536 + 65536 * unat tid)\<rparr>"
  let ?d = "take 50 (addr_data r) @ int_bytes tid"
  have l7: "length ss = 7" and len: "length (addr_data r) = 52"
    and d: "addr_data r = path_bytes sid ss @ scope_bytes s"
    using assms False by (auto simp: addr_rep_def addr_consts path_bytes_snoc)
  have "set_method_actor_tid tid r = Inr (r\<lparr>addr_data := ?d\<rparr>)"
    using len by (simp add: set_method_actor_tid_def set_data_def mem_store_def addr_consts)
  moreover have "?d = path_bytes sid (ss @ [?s])"
    using l7 int_bytes_u32_split [of "scope_id s" tid]
    by (simp add: d path_bytes_snoc scope_bytes_def)
  then have "addr_rep (r\<lparr>addr_data := ?d\<rparr>) sid (ss @ [?s])"
    using assms len l7 by (simp add: addr_rep_def addr_consts)
  ultimately show ?thesis using l7 by auto
qed

theorem method_tid_overwrites_eighth_layer_witness:
  "\<exists>a r r'. scope_builder_scopes (replicate 52 0) 0 (replicate 7 \<lparr>scope_type = 61440, scope_id = 1\<rparr>) = Inr a \<and>
     build_ref (replicate 52 0) 5 10 a = Inr r \<and> set_method_actor_tid 3 r = Inr r' \<and>
     addr_rep r' 0 (replicate 7 \<lparr>scope_type = 61440, scope_id = 1\<rparr> @ [\<lparr>scope_type = 5, scope_id = 196618\<rparr>])"
proof -
  let ?ss = "replicate 7 \<lparr>scope_type = 61440, scope_id = 1\<rparr>"
  obtain a0 where a0: "scope_builder_new (replicate 52 0) 0 = Inr a0" "addr_rep a0 0 []"
    using scope_builder_new_rep [of "replicate 52 0" 0] by (auto simp: addr_consts)
  obtain a where a: "scope_builder_scopes (replicate 52 0) 0 ?ss = Inr a" "addr_rep a 0 ?ss"
    using foreach_init_scope_rep [OF a0(2), of ?ss] a0(1)
    by (auto simp: scope_builder_scopes_def addr_consts)
  obtain r where r: "build_ref (replicate 52 0) 5 10 a = Inr r"
      "addr_rep r 0 (?ss @ [\<lparr>scope_type = 5, scope_id = 10\<rparr>])"
    using build_ref_rep [OF a(2), of "replicate 52 0" 5 10] by (auto simp: addr_consts)
  from method_tid_overwrites_eighth_layer [OF r(2), of 3] a(1) r(1) show ?thesis by auto
qed

end
