(* ===== verification/Data_Types.thy ===== *)
theory Data_Types
  imports Unaligned_Int Serializable_Queue
begin

text \<open>
  Payload types (\<open>util/data_type.hh\<close>). A payload type writes itself into a serialisable queue
  (\<open>dump_to\<close>) and is read back from one (\<open>load_from\<close>). The locale \<open>payload_type\<close> states that
  contract; it is the interface between the message code and every type that travels in a message.
  The primitive types \<open>SerializablePrimitive<T>\<close> (integers, \<open>bool\<close>, \<open>void\<close>) are interpretations;
  \<open>simple_string\<close> is not one, because its \<open>dump_to\<close> copies the pointer and not the characters.
\<close>

section \<open>The contract of a payload type\<close>

locale payload_type =
  fixes dump_to :: "'a \<Rightarrow> sq_state \<Rightarrow> sq_state res"
    and load_from :: "sq_state \<Rightarrow> ('a \<times> sq_state) res option"
    and bufs :: "'a \<Rightarrow> tmpbuf list"
  assumes dump_law: "sq_rep s xs \<Longrightarrow> length xs + length (bufs d) \<le> sq_limit \<Longrightarrow>
      \<exists>s'. dump_to d s = Inr s' \<and> sq_rep s' (xs @ bufs d)"
    and load_law: "sq_readable s (bufs d @ xs) \<Longrightarrow>
      \<exists>s'. load_from s = Some (Inr (d, s')) \<and> sq_readable s' xs"
begin

lemma dump_then_load:
  assumes "heap_wf h" and "length (bufs d) \<le> sq_limit"
  shows "\<exists>s. dump_to d (sq_init h) = Inr s \<and> (\<exists>s'. load_from s = Some (Inr (d, s')))"
proof -
  from dump_law [OF sq_rep_init [OF assms(1)], of d] assms(2) obtain s where
    s: "dump_to d (sq_init h) = Inr s" "sq_rep s (bufs d)" by auto
  with load_law [of s d "[]"] sq_rep_readable show ?thesis by auto
qed

end

section \<open>Primitive types\<close>

definition prim_dump :: "'a::len word \<Rightarrow> sq_state \<Rightarrow> sq_state res" where
  "prim_dump v qu = sq_push (int_bytes v) qu"

definition prim_load :: "sq_state \<Rightarrow> ('a::len word \<times> sq_state) res option" where
  "prim_load qu =
     bind_run (sq_pop qu) (\<lambda>(buf, qu').
       Some (bind_res (load_unaligned_int 0 buf) (\<lambda>new_val. Inr (new_val, qu'))))"

definition bool_byte :: "bool \<Rightarrow> byte" where
  "bool_byte b = (if b then 1 else 0)"

definition bool_dump :: "bool \<Rightarrow> sq_state \<Rightarrow> sq_state res" where
  "bool_dump v qu = sq_push [bool_byte v] qu"

definition bool_load :: "sq_state \<Rightarrow> (bool \<times> sq_state) res option" where
  "bool_load qu =
     bind_run (sq_pop qu) (\<lambda>(buf, qu').
       Some (bind_res (mem_load 0 1 buf) (\<lambda>bs. Inr (hd bs \<noteq> 0, qu'))))"

definition void_dump :: "unit \<Rightarrow> sq_state \<Rightarrow> sq_state res" where
  "void_dump v qu = Inr qu"

definition void_load :: "sq_state \<Rightarrow> (unit \<times> sq_state) res option" where
  "void_load qu = Some (Inr ((), qu))"

lemma prim_dump_law:
  "sq_rep s xs \<Longrightarrow> length xs + length [int_bytes v] \<le> sq_limit \<Longrightarrow>
   \<exists>s'. prim_dump v s = Inr s' \<and> sq_rep s' (xs @ [int_bytes v])"
  using sq.rep_push [of s xs "int_bytes v"] by (simp add: prim_dump_def)

lemma prim_load_law:
  assumes "8 dvd LENGTH('a::len)" and "sq_readable s ([int_bytes (v :: 'a word)] @ xs)"
  shows "\<exists>s'. prim_load s = Some (Inr (v, s')) \<and> sq_readable s' xs"
proof -
  from assms(2) sq_readable_pop [of s "int_bytes v" xs] obtain s' where
    "sq_pop s = Some (Inr (int_bytes v, s'))" "sq_readable s' xs" by auto
  moreover have "load_unaligned_int 0 (int_bytes v) = Inr v"
    using assms(1) by (simp add: load_unaligned_int_def mem_load_def int_bytes_decode)
  ultimately show ?thesis by (simp add: prim_load_def)
qed

interpretation prim8: payload_type "prim_dump :: 8 word \<Rightarrow> _" prim_load "\<lambda>v. [int_bytes v]"
  by unfold_locales (rule prim_dump_law, assumption+, rule prim_load_law, simp_all)

interpretation prim32: payload_type "prim_dump :: 32 word \<Rightarrow> _" prim_load "\<lambda>v. [int_bytes v]"
  by unfold_locales (rule prim_dump_law, assumption+, rule prim_load_law, simp_all)

interpretation prim64: payload_type "prim_dump :: 64 word \<Rightarrow> _" prim_load "\<lambda>v. [int_bytes v]"
  by unfold_locales (rule prim_dump_law, assumption+, rule prim_load_law, simp_all)

interpretation prim_bool: payload_type bool_dump bool_load "\<lambda>v. [[bool_byte v]]"
proof
  fix s xs and d :: bool
  assume "sq_rep s xs" and "length xs + length [[bool_byte d]] \<le> sq_limit"
  then show "\<exists>s'. bool_dump d s = Inr s' \<and> sq_rep s' (xs @ [[bool_byte d]])"
    using sq.rep_push [of s xs "[bool_byte d]"] by (simp add: bool_dump_def)
next
  fix s xs and d :: bool
  assume "sq_readable s ([[bool_byte d]] @ xs)"
  with sq_readable_pop [of s "[bool_byte d]" xs] obtain s' where
    "sq_pop s = Some (Inr ([bool_byte d], s'))" "sq_readable s' xs" by auto
  then show "\<exists>s'. bool_load s = Some (Inr (d, s')) \<and> sq_readable s' xs"
    by (auto simp: bool_load_def mem_load_def bool_byte_def)
qed

interpretation prim_void: payload_type void_dump void_load "\<lambda>v. []"
  by unfold_locales (simp_all add: void_dump_def void_load_def)

section \<open>Strings\<close>

text \<open>
  A \<open>simple_string\<close> object: the pointer, the characters it points to (meaningful when the pointer
  is not null) and the length. The address an allocation returns is an argument.
\<close>

record simple_string =
  str :: u64
  str_chars :: "byte list"
  str_len :: u64

definition simple_string_null :: simple_string where
  "simple_string_null = \<lparr>str = 0, str_chars = [], str_len = 0\<rparr>"

definition simple_string_copy :: "u64 \<Rightarrow> byte list \<Rightarrow> simple_string" where
  "simple_string_copy addr data = \<lparr>str = addr, str_chars = data, str_len = word_of_nat (length data)\<rparr>"

fun c_string :: "byte list \<Rightarrow> byte list res" where
  "c_string [] = Inl Out_of_bounds"
| "c_string (c # cs) = (if c = 0 then Inr [] else bind_res (c_string cs) (\<lambda>r. Inr (c # r)))"

definition simple_string_of_c_str :: "u64 \<Rightarrow> byte list \<Rightarrow> simple_string res" where
  "simple_string_of_c_str addr mem = bind_res (c_string mem) (\<lambda>cs. Inr (simple_string_copy addr cs))"

definition simple_string_move :: "simple_string \<Rightarrow> simple_string \<times> simple_string" where
  "simple_string_move x = (x, x\<lparr>str := 0, str_len := 0\<rparr>)"

datatype thrown = Std_exception "byte list" | Std_string "byte list" | C_str "byte list" | Other_object

definition from_exception :: "u64 \<Rightarrow> thrown option \<Rightarrow> simple_string res" where
  "from_exception addr ep =
     (case ep of
        None \<Rightarrow> Inl (Thrown ''bad_exception'')
      | Some (Std_exception what) \<Rightarrow> simple_string_of_c_str addr what
      | Some (Std_string s) \<Rightarrow> Inr (simple_string_copy addr s)
      | Some (C_str s) \<Rightarrow> simple_string_of_c_str addr s
      | Some Other_object \<Rightarrow>
          Inr (simple_string_copy addr (map (\<lambda>c. word_of_nat (of_char c)) ''unknown exception!'')))"

text \<open>\<open>memcpy(buf.get_write(), &str, len)\<close> reads \<open>len\<close> bytes of the pointer object, which has eight.
  The bytes of a fresh buffer are the argument \<open>junk\<close>.\<close>

definition string_dump :: "byte list \<Rightarrow> simple_string \<Rightarrow> sq_state \<Rightarrow> sq_state res" where
  "string_dump junk x qu =
     (let buf = take (unat (str_len x)) junk
      in bind_res
           (if str x \<noteq> 0 \<and> 0 < str_len x
            then bind_res (mem_load 0 (unat (str_len x)) (int_bytes (str x))) (\<lambda>bs. mem_store 0 bs buf)
            else Inr buf)
           (\<lambda>buf'. sq_push buf' qu))"

definition string_load :: "u64 \<Rightarrow> sq_state \<Rightarrow> (simple_string \<times> sq_state) res option" where
  "string_load addr qu =
     bind_run (sq_pop qu) (\<lambda>(q, qu'). Some (Inr (simple_string_copy addr q, qu')))"

section \<open>Properties\<close>

text \<open>A string cannot be sent: \<open>dump_to\<close> never writes the characters. A string of one to eight
  bytes is sent as that many bytes of its heap address, and a longer one makes \<open>dump_to\<close> read
  outside the pointer it copies from.\<close>

theorem string_dump_sends_pointer:
  assumes "heap_wf h" and "addr \<noteq> 0" and "cs \<noteq> []" and "length cs < 2 ^ 64" and "length junk = length cs"
  shows "if length cs \<le> 8
         then \<exists>s s'. string_dump junk (simple_string_copy addr cs) (sq_init h) = Inr s \<and>
                string_load addr' s =
                  Some (Inr (simple_string_copy addr' (take (length cs) (int_bytes addr)), s'))
         else string_dump junk (simple_string_copy addr cs) (sq_init h) = Inl Out_of_bounds"
proof -
  let ?x = "simple_string_copy addr cs" and ?n = "length cs"
  have len: "unat (str_len ?x) = ?n" and st: "str ?x = addr"
    using assms(4) by (simp_all add: simple_string_copy_def unat_of_nat)
  have "unat (str_len ?x) \<noteq> 0" using len assms(3) by simp
  then have pos: "0 < str_len ?x" by (auto simp: word_gt_0)
  show ?thesis
  proof (cases "?n \<le> 8")
    case True
    let ?b = "take ?n (int_bytes addr)"
    have "string_dump junk ?x (sq_init h) = sq_push ?b (sq_init h)"
      using True assms(2,5) pos by (simp add: string_dump_def len st mem_load_def mem_store_def)
    moreover from sq.rep_push [OF sq_rep_init [OF assms(1)], of ?b] obtain s where
      s: "sq_push ?b (sq_init h) = Inr s" "sq_rep s [?b]" by (auto simp: sq_limit_def)
    moreover obtain s' where "sq_pop s = Some (Inr (?b, s'))" using sq.rep_pop s(2) by blast
    ultimately show ?thesis using True by (simp add: string_load_def)
  next
    case False
    then show ?thesis
      using assms(2) pos by (simp add: string_dump_def len st mem_load_def)
  qed
qed

theorem string_dump_sends_pointer_witness:
  "\<exists>s s'. string_dump [0, 0] (simple_string_copy 4096 [104, 105]) (sq_init empty_heap) = Inr s \<and>
     string_load 8192 s = Some (Inr (simple_string_copy 8192 [0, 16], s'))"
proof -
  have "heap_wf empty_heap" by (simp add: heap_wf_def empty_heap_def)
  moreover have "take (Suc (Suc 0)) (int_bytes (4096 :: u64)) = [0, 16]" by (simp add: int_bytes_def nat_to_le_numeral)
  ultimately show ?thesis
    using string_dump_sends_pointer [of empty_heap 4096 "[104, 105]" "[0, 0]" 8192] by simp
qed

end
