(* ===== verification/Actor_Message.thy ===== *)
theory Actor_Message
  imports Actor_Address Data_Types
begin

text \<open>
  Actor messages and their wire format (\<open>core/actor_message.hh\<close>, the deserialiser and the sender
  and receiver loops of \<open>net/connection.cc\<close>). A frame is the 32-bit length of the rest, the bytes
  of the header object, the 32-bit number of payload buffers and, for each of them, its 32-bit
  length and its bytes. The payload type is a parameter with the contract \<open>payload_type\<close>; the
  byte streams of a connection are parameters with the documented behaviour of seastar streams as
  the named hypotheses \<open>in_stream_laws\<close> and \<open>out_stream_law\<close>. The main result is that a sequence
  of messages written by the sender is delivered by the receiver in order, with equal headers and
  payloads.
\<close>

section \<open>Messages\<close>

text \<open>\<open>message_type\<close> is an enumeration with the underlying type \<open>uint8_t\<close>; a header read from the
  network can hold any byte.\<close>

type_synonym message_type = byte

definition USER :: message_type where "USER = 1"
definition RESPONSE :: message_type where "RESPONSE = 2"
definition EXCEPTION_RESPONSE :: message_type where "EXCEPTION_RESPONSE = 3"
definition FORCE_STOP :: message_type where "FORCE_STOP = 4"
definition PEACE_STOP :: message_type where "PEACE_STOP = 8"

lemmas message_type_defs = USER_def RESPONSE_def EXCEPTION_RESPONSE_def FORCE_STOP_def PEACE_STOP_def

record header =
  hdr_addr :: address
  behavior_tid :: byte
  src_shard_id :: u32
  hdr_pr_id :: u32
  m_type :: message_type
  from_network :: bool

datatype 'd actor_message =
    Without_payload header
  | With_payload header 'd
  | From_network header sq_state

primrec msg_hdr :: "'d actor_message \<Rightarrow> header" where
  "msg_hdr (Without_payload h) = h"
| "msg_hdr (With_payload h d) = h"
| "msg_hdr (From_network h q) = h"

definition local_header :: "address \<Rightarrow> byte \<Rightarrow> u32 \<Rightarrow> u32 \<Rightarrow> message_type \<Rightarrow> header" where
  "local_header addr behv_tid src_s_id pr_id mt =
     \<lparr>hdr_addr = addr, behavior_tid = behv_tid, src_shard_id = src_s_id, hdr_pr_id = pr_id,
      m_type = mt, from_network = False\<rparr>"

definition remote_header :: "address \<Rightarrow> byte \<Rightarrow> u32 \<Rightarrow> u32 \<Rightarrow> message_type \<Rightarrow> header" where
  "remote_header addr behv_tid src_s_id pr_id mt =
     \<lparr>hdr_addr = addr, behavior_tid = behv_tid, src_shard_id = src_s_id, hdr_pr_id = pr_id,
      m_type = mt, from_network = True\<rparr>"

definition make_without_payload :: "address \<Rightarrow> byte \<Rightarrow> u32 \<Rightarrow> u32 \<Rightarrow> message_type \<Rightarrow> 'd actor_message" where
  "make_without_payload addr behv_tid src_s_id pr_id mt =
     Without_payload (local_header addr behv_tid src_s_id pr_id mt)"

definition make_with_payload ::
    "address \<Rightarrow> byte \<Rightarrow> 'd \<Rightarrow> u32 \<Rightarrow> u32 \<Rightarrow> message_type \<Rightarrow> 'd actor_message" where
  "make_with_payload addr behv_tid data src_s_id pr_id mt =
     With_payload (local_header addr behv_tid src_s_id pr_id mt) data"

definition make_system_message :: "address \<Rightarrow> message_type \<Rightarrow> 'd actor_message" where
  "make_system_message addr mt = make_without_payload addr 0 0 0 mt"

definition make_request_message :: "address \<Rightarrow> byte \<Rightarrow> u32 \<Rightarrow> u32 \<Rightarrow> message_type \<Rightarrow> 'd actor_message" where
  "make_request_message addr behv_tid src_s_id pr_id mt =
     make_without_payload addr behv_tid src_s_id pr_id mt"

definition make_one_way_request_message :: "address \<Rightarrow> byte \<Rightarrow> u32 \<Rightarrow> message_type \<Rightarrow> 'd actor_message" where
  "make_one_way_request_message addr behv_tid src_s_id mt =
     make_without_payload addr behv_tid src_s_id 0 mt"

definition make_request_with_data ::
    "address \<Rightarrow> byte \<Rightarrow> 'd \<Rightarrow> u32 \<Rightarrow> u32 \<Rightarrow> message_type \<Rightarrow> 'd actor_message" where
  "make_request_with_data addr behv_tid data src_s_id pr_id mt =
     make_with_payload addr behv_tid data src_s_id pr_id mt"

definition make_one_way_request_with_data ::
    "address \<Rightarrow> byte \<Rightarrow> 'd \<Rightarrow> u32 \<Rightarrow> message_type \<Rightarrow> 'd actor_message" where
  "make_one_way_request_with_data addr behv_tid data src_s_id mt =
     make_with_payload addr behv_tid data src_s_id 0 mt"

definition response_address :: "byte list \<Rightarrow> u32 \<Rightarrow> address res" where
  "response_address junk s_id =
     set_data 0 (int_bytes s_id) ((address_default junk)\<lparr>addr_length := word_of_nat GShardIdInBytes\<rparr>)"

definition make_response_message :: "byte list \<Rightarrow> u32 \<Rightarrow> u32 \<Rightarrow> message_type \<Rightarrow> 'd actor_message res" where
  "make_response_message junk s_id pr_id mt =
     bind_res (response_address junk s_id) (\<lambda>addr. Inr (make_without_payload addr 0 0 pr_id mt))"

definition make_response_with_data ::
    "byte list \<Rightarrow> u32 \<Rightarrow> 'd \<Rightarrow> u32 \<Rightarrow> message_type \<Rightarrow> 'd actor_message res" where
  "make_response_with_data junk s_id data pr_id mt =
     bind_res (response_address junk s_id) (\<lambda>addr. Inr (make_with_payload addr 0 data 0 pr_id mt))"

section \<open>The header object in memory\<close>

text \<open>
  The layout of \<open>actor_message::header\<close>: the address at 0 (its length byte, then 52 data bytes),
  \<open>behavior_tid\<close> at 53, \<open>src_shard_id\<close> at 56, \<open>pr_id\<close> at 60, \<open>m_type\<close> at 64, \<open>from_network\<close> at 65;
  bytes 54, 55, 66 and 67 are padding, with contents \<open>pad\<close>.
\<close>

definition sizeof_header :: nat where
  "sizeof_header = 68"

definition header_bytes :: "byte list \<Rightarrow> header \<Rightarrow> byte list" where
  "header_bytes pad h =
     addr_length (hdr_addr h) # addr_data (hdr_addr h) @ [behavior_tid h] @ take 2 pad @
     int_bytes (src_shard_id h) @ int_bytes (hdr_pr_id h) @
     [m_type h, bool_byte (from_network h)] @ drop 2 pad"

definition header_of_bytes :: "byte list \<Rightarrow> header" where
  "header_of_bytes bs =
     \<lparr>hdr_addr = \<lparr>addr_length = bs ! 0, addr_data = take 52 (drop 1 bs)\<rparr>,
      behavior_tid = bs ! 53,
      src_shard_id = int_of_bytes (take 4 (drop 56 bs)),
      hdr_pr_id = int_of_bytes (take 4 (drop 60 bs)),
      m_type = bs ! 64,
      from_network = (bs ! 65 \<noteq> 0)\<rparr>"

definition load_header :: "byte list \<Rightarrow> header res" where
  "load_header buf = bind_res (mem_load 0 sizeof_header buf) (\<lambda>bs. Inr (header_of_bytes bs))"

section \<open>Writing a message\<close>

text \<open>\<open>wr\<close> is \<open>output_stream::write\<close>, whose futures the code chains so that each write happens
  after the one before it.\<close>

definition serialize_without_payload :: "(byte list \<Rightarrow> 'o \<Rightarrow> 'o) \<Rightarrow> byte list \<Rightarrow> header \<Rightarrow> 'o \<Rightarrow> 'o" where
  "serialize_without_payload wr pad h out =
     (let msg_len = word_of_nat (sizeof_header + 4) :: u32
      in wr (int_bytes (0 :: u32)) (wr (header_bytes pad h) (wr (int_bytes msg_len) out)))"

partial_function (option) write_payloads ::
    "(byte list \<Rightarrow> 'o \<Rightarrow> 'o) \<Rightarrow> sq_state \<Rightarrow> 'o \<Rightarrow> 'o res option" where
  "write_payloads wr su out =
     (if sq_empty su then Some (Inr out)
      else bind_run (sq_pop su) (\<lambda>(buf, su').
             write_payloads wr su' (wr buf (wr (int_bytes (word_of_nat (length buf) :: u32)) out))))"

declare write_payloads.simps [code]

definition serialize_with_payload ::
    "('d \<Rightarrow> sq_state \<Rightarrow> sq_state res) \<Rightarrow> (byte list \<Rightarrow> 'o \<Rightarrow> 'o) \<Rightarrow> byte list \<Rightarrow> header \<Rightarrow> 'd \<Rightarrow>
     'o \<Rightarrow> 'o res option" where
  "serialize_with_payload dump wr pad h data out =
     bind_run (Some (dump data (sq_init empty_heap))) (\<lambda>su.
     bind_run (sq_get_buffer_size su) (\<lambda>buffer_size.
       let msg_len = word_of_nat (sizeof_header + 4) + sq_size su * 4 + buffer_size
       in write_payloads wr su
            (wr (int_bytes (sq_size su)) (wr (header_bytes pad h) (wr (int_bytes msg_len) out)))))"

text \<open>A message that came from the network writes nothing when it is serialised again.\<close>

fun serialize :: "('d \<Rightarrow> sq_state \<Rightarrow> sq_state res) \<Rightarrow> (byte list \<Rightarrow> 'o \<Rightarrow> 'o) \<Rightarrow> byte list \<Rightarrow>
    'd actor_message \<Rightarrow> 'o \<Rightarrow> 'o res option" where
  "serialize dump wr pad (Without_payload h) out = Some (Inr (serialize_without_payload wr pad h out))"
| "serialize dump wr pad (With_payload h d) out = serialize_with_payload dump wr pad h d out"
| "serialize dump wr pad (From_network h q) out = Some (Inr out)"

text \<open>The sender loop of one connection, over the messages its buffer hands out before it is
  aborted.\<close>

fun run_sender :: "('d \<Rightarrow> sq_state \<Rightarrow> sq_state res) \<Rightarrow> (byte list \<Rightarrow> 'o \<Rightarrow> 'o) \<Rightarrow> byte list \<Rightarrow>
    'd actor_message list \<Rightarrow> 'o \<Rightarrow> 'o res option" where
  "run_sender dump wr pad [] out = Some (Inr out)"
| "run_sender dump wr pad (m # ms) out =
     bind_run (serialize dump wr pad m out) (run_sender dump wr pad ms)"

section \<open>Reading a message\<close>

fun read_payloads :: "byte list \<Rightarrow> nat \<Rightarrow> nat \<Rightarrow> sq_state \<Rightarrow> sq_state res" where
  "read_payloads buf 0 pos qu = Inr qu"
| "read_payloads buf (Suc n) pos qu =
     bind_res (load_unaligned_int pos buf) (\<lambda>len :: u32.
     bind_res (mem_load (pos + 4) (unat len) buf) (\<lambda>bs.
     bind_res (sq_push bs qu) (\<lambda>qu'. read_payloads buf n (pos + unat (len + 4)) qu')))"

definition deserialize :: "byte list \<Rightarrow> 'd actor_message res" where
  "deserialize buf =
     bind_res (load_header buf) (\<lambda>h.
     bind_res (load_unaligned_int sizeof_header buf) (\<lambda>nr_payload :: u32.
     bind_res (read_payloads buf (unat nr_payload) (sizeof_header + 4) (sq_init empty_heap)) (\<lambda>qu.
       Inr (From_network
         (remote_header (hdr_addr h) (behavior_tid h) (src_shard_id h) (hdr_pr_id h) (m_type h))
         (fst qu, fst (sq_move qu))))))"

text \<open>The receiver loop of one connection: \<open>rd\<close> is \<open>read_exactly\<close>, \<open>at_eof\<close> is \<open>eof\<close>, and
  \<open>abort_connection\<close> reads the flag that \<open>stop\<close> sets. The result is the sequence of messages
  handed to \<open>actor_engine().send\<close>.\<close>

partial_function (option) run_receiver ::
    "(nat \<Rightarrow> 's \<Rightarrow> byte list \<times> 's) \<Rightarrow> ('s \<Rightarrow> bool) \<Rightarrow> ('s \<Rightarrow> bool) \<Rightarrow> 's \<Rightarrow>
     ('d actor_message list \<times> 's) res option" where
  "run_receiver rd at_eof abort_connection s =
     (if at_eof s \<or> abort_connection s then Some (Inr ([], s))
      else (case rd 4 s of (buf, s1) \<Rightarrow>
        if at_eof s1 \<or> abort_connection s1 then run_receiver rd at_eof abort_connection s1
        else bind_run (Some (load_unaligned_int 0 buf)) (\<lambda>nr_bytes :: u32.
          case rd (unat nr_bytes) s1 of (buf, s2) \<Rightarrow>
          bind_run (Some (deserialize buf)) (\<lambda>msg.
          bind_run (run_receiver rd at_eof abort_connection s2) (\<lambda>(msgs, s').
            Some (Inr (msg # msgs, s')))))))"

declare run_receiver.simps [code]

section \<open>Streams\<close>

text \<open>\<open>write\<close> appends to what was written; \<open>read_exactly\<close> returns the next bytes, fewer only at
  the end of the stream, and the end-of-file flag is set by a read that noticed the end.\<close>

definition out_stream_law :: "(byte list \<Rightarrow> 'o \<Rightarrow> 'o) \<Rightarrow> ('o \<Rightarrow> byte list) \<Rightarrow> bool" where
  "out_stream_law wr written \<longleftrightarrow> (\<forall>bs out. written (wr bs out) = written out @ bs)"

definition in_stream_laws ::
    "(nat \<Rightarrow> 's \<Rightarrow> byte list \<times> 's) \<Rightarrow> ('s \<Rightarrow> bool) \<Rightarrow> ('s \<Rightarrow> byte list) \<Rightarrow> bool" where
  "in_stream_laws rd at_eof rest \<longleftrightarrow>
     (\<forall>n s. fst (rd n s) = take n (rest s) \<and> rest (snd (rd n s)) = drop n (rest s) \<and>
        (\<not> at_eof s \<longrightarrow> at_eof (snd (rd n s)) = (length (rest s) < n)))"

section \<open>Frames\<close>

definition payload_frame :: "tmpbuf \<Rightarrow> byte list" where
  "payload_frame b = int_bytes (word_of_nat (length b) :: u32) @ b"

definition frame_body :: "byte list \<Rightarrow> header \<Rightarrow> tmpbuf list \<Rightarrow> byte list" where
  "frame_body pad h bs =
     header_bytes pad h @ int_bytes (word_of_nat (length bs) :: u32) @ concat (map payload_frame bs)"

definition frame :: "byte list \<Rightarrow> header \<Rightarrow> tmpbuf list \<Rightarrow> byte list" where
  "frame pad h bs = int_bytes (word_of_nat (length (frame_body pad h bs)) :: u32) @ frame_body pad h bs"

definition frame_ok :: "header \<Rightarrow> tmpbuf list \<Rightarrow> bool" where
  "frame_ok h bs \<longleftrightarrow> length (addr_data (hdr_addr h)) = GMaxAddrLength \<and>
     72 + 4 * length bs + length (concat bs) < 4294967296"

primrec msg_bufs :: "('d \<Rightarrow> tmpbuf list) \<Rightarrow> 'd actor_message \<Rightarrow> tmpbuf list" where
  "msg_bufs bufs (Without_payload h) = []"
| "msg_bufs bufs (With_payload h d) = bufs d"
| "msg_bufs bufs (From_network h q) = []"

definition msg_ok :: "('d \<Rightarrow> tmpbuf list) \<Rightarrow> 'd actor_message \<Rightarrow> bool" where
  "msg_ok bufs m \<longleftrightarrow> (\<forall>h q. m \<noteq> From_network h q) \<and> frame_ok (msg_hdr m) (msg_bufs bufs m)"

lemma length_header_bytes:
  "length (addr_data (hdr_addr h)) = 52 \<Longrightarrow> length pad = 4 \<Longrightarrow> length (header_bytes pad h) = 68"
  by (simp add: header_bytes_def)

lemma length_payload_frames:
  "length (concat (map payload_frame bs)) = 4 * length bs + length (concat bs)"
  by (induction bs) (auto simp: payload_frame_def)

lemma length_frame_body:
  "frame_ok h bs \<Longrightarrow> length pad = 4 \<Longrightarrow>
   length (frame_body pad h bs) = 72 + 4 * length bs + length (concat bs)"
  using length_payload_frames [of bs]
  by (simp add: frame_body_def frame_ok_def length_header_bytes addr_consts)

lemma unat_frame_length:
  "frame_ok h bs \<Longrightarrow> length pad = 4 \<Longrightarrow>
   unat (word_of_nat (length (frame_body pad h bs)) :: u32) = length (frame_body pad h bs)"
  by (rule unat_of_nat_u32) (simp add: length_frame_body, simp add: frame_ok_def)

lemma frame_ok_sq_limit: "frame_ok h bs \<Longrightarrow> length bs \<le> sq_limit"
  by (simp add: frame_ok_def sq_limit_def)

lemma remote_header_of:
  "remote_header (hdr_addr h) (behavior_tid h) (src_shard_id h) (hdr_pr_id h) (m_type h) =
     h\<lparr>from_network := True\<rparr>"
  by (cases h) (simp add: remote_header_def)

lemma header_round_trip:
  assumes "length (addr_data (hdr_addr h)) = 52" and "length pad = 4"
  shows "header_of_bytes (header_bytes pad h) = h"
proof -
  let ?ad = "addr_data (hdr_addr h)"
  obtain p0 p1 p2 p3 where pad: "pad = [p0, p1, p2, p3]"
    using assms(2) by (auto simp: length_Suc_conv eval_nat_numeral)
  let ?t = "behavior_tid h # p0 # p1 # int_bytes (src_shard_id h) @ int_bytes (hdr_pr_id h) @
     [m_type h, bool_byte (from_network h), p2, p3]"
  have bs: "header_bytes pad h = addr_length (hdr_addr h) # ?ad @ ?t"
    by (simp add: header_bytes_def pad)
  have d: "drop (53 + k) (header_bytes pad h) = drop k ?t" for k
  proof -
    have "drop 53 (header_bytes pad h) = ?t" using assms(1) by (simp add: bs)
    then show ?thesis by (metis add.commute drop_drop)
  qed
  have n: "header_bytes pad h ! (53 + k) = ?t ! k" for k
    using assms(1) by (simp add: bs nth_Cons' nth_append)
  show ?thesis
    using d [of 3] d [of 7] n [of 0] n [of 11] n [of 12] assms(1)
    by (simp add: header_of_bytes_def codec32.dec_enc nth_append bool_byte_def) (simp add: bs)
qed

section \<open>The sender writes frames\<close>

lemma write_payloads_ok:
  assumes "out_stream_law wr written" and "sq_rep su bs"
  shows "\<exists>out'. write_payloads wr su out = Some (Inr out') \<and>
           written out' = written out @ concat (map payload_frame bs)"
  using assms(2)
proof (induction bs arbitrary: su out)
  case Nil
  then show ?case by (simp add: write_payloads.simps sq_empty_iff)
next
  case (Cons b bs)
  obtain su' where p: "sq_pop su = Some (Inr (b, su'))" "sq_rep su' bs"
    using sq.rep_pop Cons.prems by blast
  let ?out = "wr b (wr (int_bytes (word_of_nat (length b) :: u32)) out)"
  have e: "write_payloads wr su out = write_payloads wr su' ?out"
    using p(1) Cons.prems by (simp add: write_payloads.simps sq_empty_iff)
  have w: "written ?out = written out @ payload_frame b"
    using assms(1) by (simp add: out_stream_law_def payload_frame_def)
  from Cons.IH [OF p(2), of ?out] obtain out' where "write_payloads wr su' ?out = Some (Inr out')"
    and "written out' = written ?out @ concat (map payload_frame bs)" by blast
  then show ?case using e w by simp
qed

lemma serialize_ok:
  assumes "payload_type dump load bufs" and "out_stream_law wr written" and "msg_ok bufs m"
    and "length pad = 4"
  shows "\<exists>out'. serialize dump wr pad m out = Some (Inr out') \<and>
           written out' = written out @ frame pad (msg_hdr m) (msg_bufs bufs m)"
proof (cases m)
  case (Without_payload h)
  then have "length (frame_body pad h []) = 72"
    using length_frame_body [of h "[]" pad] assms(3,4) by (simp add: msg_ok_def)
  with Without_payload show ?thesis
    using assms(2)
    by (simp add: serialize_without_payload_def out_stream_law_def frame_def sizeof_header_def Let_def)
      (simp add: frame_body_def)
next
  case (With_payload h d)
  with assms(3) have ok: "frame_ok h (bufs d)" by (simp add: msg_ok_def)
  note lim = frame_ok_sq_limit [OF ok]
  have "sq_rep (sq_init empty_heap) []" by (rule sq_rep_init) (simp add: heap_wf_def empty_heap_def)
  from payload_type.dump_law [OF assms(1) this, of d] lim obtain su where
    su: "dump d (sq_init empty_heap) = Inr su" "sq_rep su (bufs d)" by auto
  let ?len = "72 + 4 * length (bufs d) + length (concat (bufs d))"
  have sz: "sq_size su = word_of_nat (length (bufs d))" using sq.rep_size su(2) by blast
  have bsz: "sq_get_buffer_size su = Some (Inr (word_of_nat (length (concat (bufs d)))))"
    using sq_get_buffer_size_ok [OF su(2)] by (simp add: length_concat)
  have ml: "word_of_nat (sizeof_header + 4) + sq_size su * 4 + word_of_nat (length (concat (bufs d))) =
      (word_of_nat ?len :: u32)"
    by (simp add: sz sizeof_header_def)
  let ?out = "wr (int_bytes (sq_size su)) (wr (header_bytes pad h) (wr (int_bytes (word_of_nat ?len :: u32)) out))"
  from write_payloads_ok [OF assms(2) su(2), of ?out] obtain out' where
    w: "write_payloads wr su ?out = Some (Inr out')"
       "written out' = written ?out @ concat (map payload_frame (bufs d))" by blast
  have "serialize dump wr pad m out = Some (Inr out')"
    unfolding With_payload serialize.simps serialize_with_payload_def Let_def su(1) bsz bind_run_simps ml
    by (rule w(1))
  moreover have "written ?out = written out @ int_bytes (word_of_nat ?len :: u32) @ header_bytes pad h @
      int_bytes (word_of_nat (length (bufs d)) :: u32)"
    using assms(2) by (simp add: out_stream_law_def sz)
  ultimately show ?thesis
    unfolding With_payload msg_hdr.simps msg_bufs.simps frame_def length_frame_body [OF ok assms(4)]
    using w(2) by (simp add: frame_body_def)
qed (use assms(3) in \<open>simp add: msg_ok_def\<close>)

section \<open>The receiver reads frames\<close>

lemma read_payloads_ok:
  assumes "drop pos buf = concat (map payload_frame bs)" and "pos \<le> length buf"
    and "\<And>b. b \<in> set bs \<Longrightarrow> length b + 4 < 4294967296"
  shows "read_payloads buf (length bs) pos qu = fold_res sq_push bs qu"
  using assms
proof (induction bs arbitrary: pos qu)
  case Nil
  then show ?case by simp
next
  case (Cons b bs)
  let ?n = "word_of_nat (length b) :: u32"
  have lb: "length b + 4 < 4294967296" using Cons.prems(3) by simp
  have n: "unat ?n = length b" and n4: "unat (?n + 4) = length b + 4"
    using lb unat_of_nat_u32 [of "length b + 4"] by simp_all
  have dr: "drop pos buf = int_bytes ?n @ b @ concat (map payload_frame bs)"
    using Cons.prems(1) by (simp add: payload_frame_def [of b])
  have "length (drop pos buf) = 4 + (length b + length (concat (map payload_frame bs)))"
    unfolding dr by simp
  then have len: "length buf - pos = 4 + (length b + length (concat (map payload_frame bs)))" by simp
  have l: "load_unaligned_int pos buf = Inr ?n"
    using len Cons.prems(2) by (simp add: load_unaligned_int_def mem_load_def dr int_bytes_decode)
  have d4: "drop (pos + 4) buf = b @ concat (map payload_frame bs)"
    using arg_cong [OF dr, of "drop 4"] by (simp add: add.commute)
  have m: "mem_load (pos + 4) (unat ?n) buf = Inr b"
    using len Cons.prems(2) n by (simp add: mem_load_def d4)
  have "drop (pos + unat (?n + 4)) buf = concat (map payload_frame bs)"
    using arg_cong [OF d4, of "drop (length b)"] n4 by (simp add: add.commute add.left_commute)
  then have "read_payloads buf (length bs) (pos + unat (?n + 4)) = fold_res sq_push bs"
    using Cons.IH [of "pos + unat (?n + 4)"] Cons.prems(2,3) len n4 by (intro ext) simp
  then show ?case by (simp add: l m)
qed

lemma frame_ok_bufs: "frame_ok h bs \<Longrightarrow> b \<in> set bs \<Longrightarrow> length b + 4 < 4294967296"
  using member_le_sum_list [of "length b" "map length bs"]
  by (auto simp: frame_ok_def length_concat)

lemma deserialize_ok:
  assumes "frame_ok h bs" and "length pad = 4"
  shows "\<exists>q. deserialize (frame_body pad h bs) = Inr (From_network (h\<lparr>from_network := True\<rparr>) q) \<and>
           sq_readable q bs"
proof -
  let ?buf = "frame_body pad h bs"
  have l52: "length (addr_data (hdr_addr h)) = 52" using assms(1) by (simp add: frame_ok_def addr_consts)
  have lh: "length (header_bytes pad h) = 68" using length_header_bytes l52 assms(2) by blast
  have lim: "length bs \<le> sq_limit" using assms(1) by (rule frame_ok_sq_limit)
  have len: "length ?buf = 72 + 4 * length bs + length (concat bs)"
    using length_frame_body assms by blast
  have h: "load_header ?buf = Inr h"
    using len lh header_round_trip [OF l52 assms(2)]
    by (simp add: load_header_def mem_load_def sizeof_header_def) (simp add: frame_body_def)
  have nr: "load_unaligned_int sizeof_header ?buf = Inr (word_of_nat (length bs) :: u32)"
    using len lh
    by (simp add: load_unaligned_int_def mem_load_def sizeof_header_def)
      (simp add: frame_body_def int_bytes_decode)
  have un: "unat (word_of_nat (length bs) :: u32) = length bs"
    using lim by (simp add: sq_limit_def)
  have "sq_rep (sq_init empty_heap) []" by (rule sq_rep_init) (simp add: heap_wf_def empty_heap_def)
  from sq.push_all [OF this, of bs] lim obtain qu where
    qu: "fold_res sq_push bs (sq_init empty_heap) = Inr qu" "sq_rep qu bs" by auto
  have "drop 72 ?buf = concat (map payload_frame bs)" using lh by (simp add: frame_body_def)
  then have "read_payloads ?buf (length bs) 72 (sq_init empty_heap) = Inr qu"
    using read_payloads_ok [of 72 ?buf bs] len frame_ok_bufs [OF assms(1)] qu(1) by simp
  then have d: "deserialize ?buf =
      Inr (From_network (h\<lparr>from_network := True\<rparr>) (fst qu, fst (sq_move qu)))"
    unfolding deserialize_def h nr bind_res_simps un remote_header_of by (simp add: sizeof_header_def)
  have "arr_cur_idx (q_array (snd qu)) = 0"
    by (rule sq_push_unread [OF qu(1)]) (simp add: sq_init_def tmpbuf_array_init_def)
  with sq_move_shape [OF qu(2)] have "sq_readable (fst qu, fst (sq_move qu)) bs"
    by (simp add: sq_readable_def)
  with d show ?thesis by blast
qed

definition delivers :: "header \<times> tmpbuf list \<Rightarrow> 'd actor_message \<Rightarrow> bool" where
  "delivers = (\<lambda>(h, bs) m. \<exists>q. m = From_network (h\<lparr>from_network := True\<rparr>) q \<and> sq_readable q bs)"

lemma in_streamD:
  assumes "in_stream_laws rd at_eof rest"
  shows "rd n s = (take n (rest s), snd (rd n s))" and "rest (snd (rd n s)) = drop n (rest s)"
    and "\<not> at_eof s \<Longrightarrow> at_eof (snd (rd n s)) = (length (rest s) < n)"
  using assms unfolding in_stream_laws_def by (simp_all add: prod_eq_iff)

lemma run_receiver_step:
  assumes "in_stream_laws rd at_eof rest" and "\<not> at_eof s" and "length pad = 4" and "frame_ok h bs"
    and "rest s = frame pad h bs @ tail_bytes"
  shows "\<exists>s2 (m :: 'd actor_message). \<not> at_eof s2 \<and> rest s2 = tail_bytes \<and> delivers (h, bs) m \<and>
    run_receiver rd at_eof (\<lambda>_. False) s =
      bind_run (run_receiver rd at_eof (\<lambda>_. False) s2) (\<lambda>(msgs, s'). Some (Inr (m # msgs, s')))"
proof -
  let ?body = "frame_body pad h bs"
  let ?n = "word_of_nat (length ?body) :: u32"
  have n: "unat ?n = length ?body" by (rule unat_frame_length [OF assms(4,3)])
  define s1 where "s1 = snd (rd 4 s)"
  define s2 where "s2 = snd (rd (length ?body) s1)"
  have r: "rest s = int_bytes ?n @ ?body @ tail_bytes" using assms(5) by (simp add: frame_def)
  have rd1: "rd 4 s = (int_bytes ?n, s1)"
    using in_streamD(1) [OF assms(1), of 4 s] r by (simp add: s1_def)
  have r1: "rest s1 = ?body @ tail_bytes" "\<not> at_eof s1"
    using in_streamD(2) [OF assms(1), of 4 s] in_streamD(3) [OF assms(1), of s 4] r assms(2) by (simp_all add: s1_def)
  have rd2: "rd (unat ?n) s1 = (?body, s2)"
    using in_streamD(1) [OF assms(1), of "length ?body" s1] r1 n by (simp add: s2_def)
  have r2: "rest s2 = tail_bytes" "\<not> at_eof s2"
    using in_streamD(2) [OF assms(1), of "length ?body" s1] in_streamD(3) [OF assms(1), of s1 "length ?body"] r1 by (simp_all add: s2_def)
  have l: "load_unaligned_int 0 (int_bytes ?n) = Inr ?n"
    by (simp add: load_unaligned_int_def mem_load_def int_bytes_decode)
  from deserialize_ok [OF assms(4,3)] obtain q where
    q: "(deserialize ?body :: 'd actor_message res) = Inr (From_network (h\<lparr>from_network := True\<rparr>) q)"
      "sq_readable q bs"
    by blast
  have "(run_receiver rd at_eof (\<lambda>_. False) s :: ('d actor_message list \<times> _) res option) =
      bind_run (run_receiver rd at_eof (\<lambda>_. False) s2)
        (\<lambda>(msgs, s'). Some (Inr (From_network (h\<lparr>from_network := True\<rparr>) q # msgs, s')))"
    by (subst run_receiver.simps) (simp add: assms(2) rd1 r1(2) l rd2 q(1))
  with r2 q(2) show ?thesis unfolding delivers_def by blast
qed

lemma run_receiver_ok:
  assumes "in_stream_laws rd at_eof rest" and "length pad = 4"
    and "\<And>h bs. (h, bs) \<in> set fs \<Longrightarrow> frame_ok h bs"
    and "rest s = concat (map (\<lambda>(h, bs). frame pad h bs) fs)" and "\<not> at_eof s"
  shows "\<exists>(ms :: 'd actor_message list) s'.
    run_receiver rd at_eof (\<lambda>_. False) s = Some (Inr (ms, s')) \<and> at_eof s' \<and> list_all2 delivers fs ms"
  using assms(3,4,5)
proof (induction fs arbitrary: s)
  case Nil
  define s1 where "s1 = snd (rd 4 s)"
  have rd1: "rd 4 s = ([], s1)" "at_eof s1"
    using in_streamD(1) [OF assms(1), of 4 s] in_streamD(3) [OF assms(1), of s 4] Nil by (simp_all add: s1_def)
  have "run_receiver rd at_eof (\<lambda>_. False) s1 = Some (Inr ([] :: 'd actor_message list, s1))"
    by (subst run_receiver.simps) (simp add: rd1)
  then have "run_receiver rd at_eof (\<lambda>_. False) s = Some (Inr ([] :: 'd actor_message list, s1))"
    by (subst run_receiver.simps) (simp add: rd1 Nil)
  then show ?case using rd1(2) by simp
next
  case (Cons f fs)
  obtain h bs where f: "f = (h, bs)" by (cases f)
  with Cons.prems(1) have ok: "frame_ok h bs" by simp
  have r: "rest s = frame pad h bs @ concat (map (\<lambda>(h, bs). frame pad h bs) fs)"
    using Cons.prems(2) f by simp
  from run_receiver_step [OF assms(1) Cons.prems(3) assms(2) ok r] obtain s2 m where
    st: "\<not> at_eof s2" "rest s2 = concat (map (\<lambda>(h, bs). frame pad h bs) fs)" "delivers (h, bs) (m :: 'd actor_message)"
      "run_receiver rd at_eof (\<lambda>_. False) s =
        bind_run (run_receiver rd at_eof (\<lambda>_. False) s2) (\<lambda>(msgs, s'). Some (Inr (m # msgs, s')))"
    by blast
  from Cons.IH [OF _ st(2,1)] Cons.prems(1) obtain ms :: "'d actor_message list" and s' where
    "run_receiver rd at_eof (\<lambda>_. False) s2 = Some (Inr (ms, s'))" "at_eof s'" "list_all2 delivers fs ms"
    by auto
  with st(3,4) f show ?case by auto
qed

lemma run_sender_ok:
  assumes "payload_type dump load bufs" and "out_stream_law wr written" and "length pad = 4"
    and "\<And>m. m \<in> set ms \<Longrightarrow> msg_ok bufs m"
  shows "\<exists>out'. run_sender dump wr pad ms out = Some (Inr out') \<and>
    written out' = written out @ concat (map (\<lambda>m. frame pad (msg_hdr m) (msg_bufs bufs m)) ms)"
  using assms(4)
proof (induction ms arbitrary: out)
  case Nil
  then show ?case by simp
next
  case (Cons m ms)
  from serialize_ok [OF assms(1,2) _ assms(3), of m out] Cons.prems obtain o1 where
    "serialize dump wr pad m out = Some (Inr o1)"
    "written o1 = written out @ frame pad (msg_hdr m) (msg_bufs bufs m)" by auto
  with Cons.IH [of o1] Cons.prems show ?case by auto
qed

section \<open>Properties\<close>

text \<open>What arrives for a message: a network message with the header of the one sent, marked as
  coming from the network, from which the payload loads back.\<close>

fun arrives :: "(sq_state \<Rightarrow> ('d \<times> sq_state) res option) \<Rightarrow> 'd actor_message \<Rightarrow> 'd actor_message \<Rightarrow> bool" where
  "arrives load (Without_payload h) (From_network h' q) = (h' = h\<lparr>from_network := True\<rparr> \<and> sq_readable q [])"
| "arrives load (With_payload h d) (From_network h' q) =
     (h' = h\<lparr>from_network := True\<rparr> \<and> (\<exists>q'. load q = Some (Inr (d, q')) \<and> sq_readable q' []))"
| "arrives load m m' = False"

lemma delivers_arrives:
  assumes "payload_type dump load bufs" and "msg_ok bufs m" and "delivers (msg_hdr m, msg_bufs bufs m) m'"
  shows "arrives load m m'"
proof -
  from assms(3) obtain q where m': "m' = From_network ((msg_hdr m)\<lparr>from_network := True\<rparr>) q"
    and q: "sq_readable q (msg_bufs bufs m)" by (auto simp: delivers_def)
  show ?thesis
  proof (cases m)
    case (With_payload h d)
    then show ?thesis using m' q payload_type.load_law [OF assms(1), of q d "[]"] by simp
  qed (use m' q assms(2) in \<open>simp_all add: msg_ok_def\<close>)
qed

text \<open>C9: Messages cross a connection unharmed and in order: for every payload type that meets its
  contract and every sequence of messages whose frames are shorter than 2 to the power 32, the
  sender writes all of them, and a receiver that reads exactly these bytes, whatever the padding
  bytes, returns at the end of the stream after handing over one message per message sent, in the
  order sent, each with the header and the payload of its original.\<close>

theorem network_messages_round_trip:
  fixes ms :: "'d actor_message list"
  assumes "payload_type dump load bufs" and "out_stream_law wr written"
    and "in_stream_laws rd at_eof rest" and "length pad = 4" and "\<forall>m \<in> set ms. msg_ok bufs m"
  shows "\<exists>out'. run_sender dump wr pad ms out = Some (Inr out') \<and>
    (\<forall>s. \<not> at_eof s \<and> written out' = written out @ rest s \<longrightarrow>
       (\<exists>ms' s'. run_receiver rd at_eof (\<lambda>_. False) s = Some (Inr (ms', s')) \<and> at_eof s' \<and>
          list_all2 (arrives load) ms ms'))"
proof -
  let ?fs = "map (\<lambda>m. (msg_hdr m, msg_bufs bufs m)) ms"
  from run_sender_ok [OF assms(1,2,4), of ms out] assms(5) obtain out' where
    o: "run_sender dump wr pad ms out = Some (Inr out')"
      "written out' = written out @ concat (map (\<lambda>(h, bs). frame pad h bs) ?fs)"
    by (auto simp: comp_def)
  have "\<exists>ms' s'. run_receiver rd at_eof (\<lambda>_. False) s = Some (Inr (ms', s')) \<and> at_eof s' \<and>
      list_all2 (arrives load) ms ms'" if "\<not> at_eof s" "written out' = written out @ rest s" for s
  proof -
    have fo: "frame_ok h bs" if "(h, bs) \<in> set ?fs" for h bs
      using that assms(5) by (auto simp: msg_ok_def)
    have "rest s = concat (map (\<lambda>(h, bs). frame pad h bs) ?fs)" using o(2) that(2) by simp
    from run_receiver_ok [OF assms(3,4) fo this that(1)] obtain ms' :: "'d actor_message list" and s' where
      r: "run_receiver rd at_eof (\<lambda>_. False) s = Some (Inr (ms', s'))" "at_eof s'"
        "list_all2 delivers ?fs ms'" by blast
    have "list_all2 (arrives load) ms ms'"
      using r(3) assms(5) delivers_arrives [OF assms(1)]
      by (auto simp: list_all2_conv_all_nth)
    with r show ?thesis by blast
  qed
  with o(1) show ?thesis by blast
qed

text \<open>An in-memory stream that meets the stream laws.\<close>

definition mem_read :: "nat \<Rightarrow> byte list \<times> bool \<Rightarrow> byte list \<times> byte list \<times> bool" where
  "mem_read n = (\<lambda>(bs, e). (take n bs, drop n bs, e \<or> length bs < n))"

lemma mem_read_laws: "in_stream_laws mem_read snd fst"
  by (auto simp: in_stream_laws_def mem_read_def)

definition sample_header :: header where
  "sample_header = local_header \<lparr>addr_length = 10, addr_data = replicate 52 7\<rparr> 3 1 9 USER"

theorem network_messages_round_trip_witness:
  "\<exists>out'. run_sender prim_dump (\<lambda>bs out. out @ bs) [0, 0, 0, 0]
      [With_payload sample_header (42 :: u32), Without_payload sample_header] [] = Some (Inr out') \<and>
    (\<exists>ms' s'. run_receiver mem_read snd (\<lambda>_. False) (out', False) = Some (Inr (ms', s')) \<and>
       list_all2 (arrives prim_load) [With_payload sample_header (42 :: u32), Without_payload sample_header] ms')"
proof -
  let ?ms = "[With_payload sample_header (42 :: u32), Without_payload sample_header]"
  have "\<forall>m \<in> set ?ms. msg_ok (\<lambda>v. [int_bytes v]) m"
    by (simp add: msg_ok_def frame_ok_def sample_header_def local_header_def addr_consts)
  from network_messages_round_trip [OF prim32.payload_type_axioms _ mem_read_laws _ this,
      of "\<lambda>bs out. out @ bs" id "[0, 0, 0, 0]" "[]"] obtain out' where
    o: "run_sender prim_dump (\<lambda>bs out. out @ bs) [0, 0, 0, 0] ?ms [] = Some (Inr out')"
    and r: "\<forall>s. \<not> snd s \<and> id out' = id [] @ fst s \<longrightarrow>
       (\<exists>ms' s'. run_receiver mem_read snd (\<lambda>_. False) s = Some (Inr (ms', s')) \<and> snd s' \<and>
          list_all2 (arrives prim_load) ?ms ms')"
    by (auto simp: out_stream_law_def)
  from r [THEN spec, of "(out', False)"] have "\<exists>ms' s'. run_receiver mem_read snd (\<lambda>_. False) (out', False) =
      Some (Inr (ms', s')) \<and> list_all2 (arrives prim_load) ?ms ms'"
    unfolding id_apply append_Nil fst_conv snd_conv by blast
  with o show ?thesis by blast
qed

text \<open>The receiver does not check that the body of a frame arrived: when the connection ends
  inside the fixed part of a frame, after the length word, the short buffer is decoded all the
  same, and the decoder reads past its end.\<close>

theorem truncated_frame_out_of_bounds:
  assumes "in_stream_laws rd at_eof rest" and "\<not> at_eof s" and "frame_ok h bs" and "length pad = 4"
    and "k < 72" and "rest s = take (4 + k) (frame pad h bs)"
  shows "(run_receiver rd at_eof (\<lambda>_. False) s :: ('d actor_message list \<times> _) res option) =
    Some (Inl Out_of_bounds)"
proof -
  let ?body = "frame_body pad h bs"
  let ?n = "word_of_nat (length ?body) :: u32"
  have len: "length ?body = 72 + 4 * length bs + length (concat bs)"
    using length_frame_body [OF assms(3,4)] .
  have n: "unat ?n = length ?body" by (rule unat_frame_length [OF assms(3,4)])
  define s1 where "s1 = snd (rd 4 s)"
  define s2 where "s2 = snd (rd (length ?body) s1)"
  have r: "rest s = int_bytes ?n @ take k ?body" using assms(6) by (simp add: frame_def)
  have rd1: "rd 4 s = (int_bytes ?n, s1)"
    using in_streamD(1) [OF assms(1), of 4 s] r by (simp add: s1_def)
  have r1: "rest s1 = take k ?body" "\<not> at_eof s1"
    using in_streamD(2) [OF assms(1), of 4 s] in_streamD(3) [OF assms(1), of s 4] r assms(2) by (simp_all add: s1_def)
  have rd2: "rd (unat ?n) s1 = (take k ?body, s2)"
    using in_streamD(1) [OF assms(1), of "length ?body" s1] r1 n assms(5) len by (simp add: s2_def)
  have l: "load_unaligned_int 0 (int_bytes ?n) = Inr ?n"
    by (simp add: load_unaligned_int_def mem_load_def int_bytes_decode)
  have "(deserialize (take k ?body) :: 'd actor_message res) = Inl Out_of_bounds"
    using assms(5) len
    by (cases "k < 68") (simp_all add: deserialize_def load_header_def load_unaligned_int_def mem_load_def
        sizeof_header_def)
  then show ?thesis
    by (subst run_receiver.simps) (simp add: assms(2) rd1 r1(2) l rd2)
qed

theorem truncated_frame_out_of_bounds_witness:
  "(run_receiver mem_read snd (\<lambda>_. False) (take 14 (frame [0, 0, 0, 0] sample_header []), False)
      :: (unit actor_message list \<times> _) res option) = Some (Inl Out_of_bounds)"
proof -
  have "frame_ok sample_header []"
    by (simp add: frame_ok_def sample_header_def local_header_def addr_consts)
  with truncated_frame_out_of_bounds [OF mem_read_laws, of "(take 14 (frame [0, 0, 0, 0] sample_header []), False)"
      sample_header "[]" "[0, 0, 0, 0]" 10]
  show ?thesis by simp
qed

end
