(* ===== verification/Actor_Scheduling.thy ===== *)
theory Actor_Scheduling
  imports Hiactor_Prelude "HOL-Library.Multiset"
begin

text \<open>
  The task queue of an actor group (\<open>core/actor_scheduling.hh\<close>): urgent tasks first and in order;
  the others in order, or, when the group has a comparator, by priority, with \<open>std::make_heap\<close> and
  \<open>std::pop_heap\<close>. The two library algorithms are the arguments \<open>mk\<close> and \<open>pp\<close>; the locale
  \<open>std_heap\<close> states what the C++ standard promises of them. The locale \<open>task_pool\<close> is the contract
  the actor groups rely on: no task is lost, duplicated or invented.
\<close>

section \<open>The queue\<close>

record 'a task_queue =
  urgent_q :: "'a list"
  normal_q :: "'a list"
  comparator :: "('a \<Rightarrow> 'a \<Rightarrow> bool) option"
  need_scheduling :: bool

definition task_queue_new :: "'a task_queue" where
  "task_queue_new = \<lparr>urgent_q = [], normal_q = [], comparator = None, need_scheduling = False\<rparr>"

definition set_comparator :: "('a \<Rightarrow> 'a \<Rightarrow> bool) \<Rightarrow> 'a task_queue \<Rightarrow> 'a task_queue" where
  "set_comparator cmp q = q\<lparr>comparator := Some cmp\<rparr>"

definition push_urgent_task :: "'a \<Rightarrow> 'a task_queue \<Rightarrow> 'a task_queue" where
  "push_urgent_task t q = q\<lparr>urgent_q := urgent_q q @ [t]\<rparr>"

definition push_task :: "'a \<Rightarrow> 'a task_queue \<Rightarrow> 'a task_queue" where
  "push_task t q = q\<lparr>normal_q := normal_q q @ [t], need_scheduling := True\<rparr>"

type_synonym 'a make_heap = "('a \<Rightarrow> 'a \<Rightarrow> bool) \<Rightarrow> 'a list \<Rightarrow> 'a list"
type_synonym 'a pop_heap = "('a \<Rightarrow> 'a \<Rightarrow> bool) \<Rightarrow> 'a list \<Rightarrow> 'a list"

definition pop_task ::
    "'a make_heap \<Rightarrow> 'a pop_heap \<Rightarrow> 'a task_queue \<Rightarrow> ('a \<times> 'a task_queue) res" where
  "pop_task mk pp q =
     (case urgent_q q of
        t # ts \<Rightarrow> Inr (t, q\<lparr>urgent_q := ts\<rparr>)
      | [] \<Rightarrow>
          (case comparator q of
             None \<Rightarrow>
               (case normal_q q of
                  [] \<Rightarrow> Inl Out_of_bounds
                | t # ts \<Rightarrow> Inr (t, q\<lparr>normal_q := ts\<rparr>))
           | Some cmp \<Rightarrow>
               if normal_q q = [] then Inl Out_of_bounds
               else let q1 = (if need_scheduling q
                              then q\<lparr>normal_q := mk cmp (normal_q q), need_scheduling := False\<rparr> else q);
                        xs = pp cmp (normal_q q1)
                    in Inr (last xs, q1\<lparr>normal_q := butlast xs\<rparr>)))"

definition tq_empty :: "'a task_queue \<Rightarrow> bool" where
  "tq_empty q \<longleftrightarrow> urgent_q q = [] \<and> normal_q q = []"

definition tq_size :: "'a task_queue \<Rightarrow> nat" where
  "tq_size q = length (urgent_q q) + length (normal_q q)"

section \<open>Heaps\<close>

text \<open>A comparator must be a strict weak ordering; \<open>cmp a b\<close> means that \<open>a\<close> has the lower priority.\<close>

definition strict_weak_order :: "('a \<Rightarrow> 'a \<Rightarrow> bool) \<Rightarrow> bool" where
  "strict_weak_order cmp \<longleftrightarrow> (\<forall>a b. cmp a b \<longrightarrow> \<not> cmp b a) \<and>
     (\<forall>a b c. \<not> cmp a b \<longrightarrow> \<not> cmp b c \<longrightarrow> \<not> cmp a c)"

lemma swo_asym: "strict_weak_order cmp \<Longrightarrow> cmp a b \<Longrightarrow> \<not> cmp b a"
  unfolding strict_weak_order_def by blast

lemma swo_neg_trans: "strict_weak_order cmp \<Longrightarrow> \<not> cmp a b \<Longrightarrow> \<not> cmp b c \<Longrightarrow> \<not> cmp a c"
  unfolding strict_weak_order_def by blast

definition is_heap :: "('a \<Rightarrow> 'a \<Rightarrow> bool) \<Rightarrow> 'a list \<Rightarrow> bool" where
  "is_heap cmp xs \<longleftrightarrow> (\<forall>i < length xs. 0 < i \<longrightarrow> \<not> cmp (xs ! ((i - 1) div 2)) (xs ! i))"

lemma heap_front_max:
  assumes "strict_weak_order cmp" and "is_heap cmp xs" and "i < length xs"
  shows "\<not> cmp (xs ! 0) (xs ! i)"
  using assms(3)
proof (induction i rule: less_induct)
  case (less i)
  show ?case
  proof (cases "i = 0")
    case True
    then show ?thesis using swo_asym [OF assms(1)] by blast
  next
    case False
    then have p: "(i - 1) div 2 < i" by auto
    then have "\<not> cmp (xs ! 0) (xs ! ((i - 1) div 2))" using less by simp
    moreover have "\<not> cmp (xs ! ((i - 1) div 2)) (xs ! i)"
      using assms(2) less.prems False by (simp add: is_heap_def)
    ultimately show ?thesis by (rule swo_neg_trans [OF assms(1)])
  qed
qed

lemma sorted_is_heap:
  assumes "sorted_wrt (\<lambda>a b. \<not> cmp a b) xs"
  shows "is_heap cmp xs"
proof -
  have "(i - 1) div 2 < i" if "0 < i" for i :: nat using that by auto
  then show ?thesis using assms by (simp add: is_heap_def sorted_wrt_iff_nth_less)
qed

section \<open>The contract\<close>

locale task_pool =
  fixes add :: "'a \<Rightarrow> 'q \<Rightarrow> 'q" and add_urgent :: "'a \<Rightarrow> 'q \<Rightarrow> 'q"
    and take_one :: "'q \<Rightarrow> ('a \<times> 'q) res" and pending :: "'q \<Rightarrow> 'a multiset" and ok :: "'q \<Rightarrow> bool"
  assumes add_law: "ok q \<Longrightarrow> ok (add t q) \<and> pending (add t q) = add_mset t (pending q)"
    and add_urgent_law: "ok q \<Longrightarrow> ok (add_urgent t q) \<and> pending (add_urgent t q) = add_mset t (pending q)"
    and take_law: "ok q \<Longrightarrow> pending q \<noteq> {#} \<Longrightarrow>
      \<exists>t q'. take_one q = Inr (t, q') \<and> ok q' \<and> pending q = add_mset t (pending q')"
begin

text \<open>Taking as many tasks as are pending yields each of them exactly once.\<close>

fun take_all :: "nat \<Rightarrow> 'q \<Rightarrow> 'a list res" where
  "take_all 0 q = Inr []"
| "take_all (Suc n) q = bind_res (take_one q) (\<lambda>(t, q'). bind_res (take_all n q') (\<lambda>ts. Inr (t # ts)))"

lemma take_all_pending: "ok q \<Longrightarrow> \<exists>ts. take_all (size (pending q)) q = Inr ts \<and> mset ts = pending q"
proof (induction "size (pending q)" arbitrary: q)
  case 0
  then show ?case by simp
next
  case (Suc n)
  then have "pending q \<noteq> {#}" by auto
  with take_law Suc.prems obtain t q' where t: "take_one q = Inr (t, q')" "ok q'"
    "pending q = add_mset t (pending q')" by blast
  then have "n = size (pending q')" using Suc.hyps(2) by simp
  with Suc.hyps(1) t(2) obtain ts where "take_all n q' = Inr ts" "mset ts = pending q'" by blast
  then show ?case using t(1,3) Suc.hyps(2) [symmetric] by simp
qed

end

definition tq_pending :: "'a task_queue \<Rightarrow> 'a multiset" where
  "tq_pending q = mset (urgent_q q) + mset (normal_q q)"

definition tq_inv :: "'a task_queue \<Rightarrow> bool" where
  "tq_inv q \<longleftrightarrow> (\<forall>cmp. comparator q = Some cmp \<longrightarrow> strict_weak_order cmp \<and>
     (\<not> need_scheduling q \<longrightarrow> is_heap cmp (normal_q q)))"

text \<open>What the standard promises: \<open>make_heap\<close> rearranges the range into a heap, \<open>pop_heap\<close> moves the
  first element of a heap to the end and makes a heap of the rest.\<close>

locale std_heap =
  fixes mk :: "'a make_heap" and pp :: "'a pop_heap"
  assumes make_heap_law: "strict_weak_order cmp \<Longrightarrow> mset (mk cmp xs) = mset xs \<and> is_heap cmp (mk cmp xs)"
    and pop_heap_law: "strict_weak_order cmp \<Longrightarrow> is_heap cmp xs \<Longrightarrow> xs \<noteq> [] \<Longrightarrow>
      mset (pp cmp xs) = mset xs \<and> last (pp cmp xs) = hd xs \<and> is_heap cmp (butlast (pp cmp xs))"
begin

lemma pop_normal:
  assumes "tq_inv q" and "urgent_q q = []" and "comparator q = Some cmp" and "normal_q q \<noteq> []"
  shows "\<exists>t q'. pop_task mk pp q = Inr (t, q') \<and> tq_inv q' \<and> urgent_q q' = [] \<and> comparator q' = Some cmp \<and>
    mset (normal_q q) = add_mset t (mset (normal_q q')) \<and> (\<forall>t' \<in> set (normal_q q). \<not> cmp t t')"
proof -
  let ?xs = "if need_scheduling q then mk cmp (normal_q q) else normal_q q"
  from assms(1,3) have sw: "strict_weak_order cmp" by (simp add: tq_inv_def)
  have h: "mset ?xs = mset (normal_q q)" "is_heap cmp ?xs"
    using make_heap_law [OF sw] assms(1,3) by (auto simp: tq_inv_def)
  then have ne: "?xs \<noteq> []" using assms(4) by (metis mset_zero_iff)
  note p = pop_heap_law [OF sw h(2) ne]
  let ?ys = "pp cmp ?xs"
  have ys: "?ys \<noteq> []" using p ne by (metis mset_zero_iff)
  then have "?ys = butlast ?ys @ [last ?ys]" by simp
  then have m: "mset ?ys = add_mset (last ?ys) (mset (butlast ?ys))" by (metis mset_append mset.simps add_mset_add_single)
  have mx: "\<not> cmp (last ?ys) t'" if "t' \<in> set (normal_q q)" for t'
  proof -
    have "t' \<in> set ?xs" using that h(1) by (metis mset_eq_setD)
    then obtain i where "i < length ?xs" "?xs ! i = t'" by (auto simp: in_set_conv_nth)
    with heap_front_max [OF sw h(2)] p ne show ?thesis by (auto simp: hd_conv_nth)
  qed
  let ?q = "q\<lparr>normal_q := butlast ?ys, need_scheduling := False\<rparr>"
  have "pop_task mk pp q = Inr (last ?ys, ?q)"
    using assms by (cases "need_scheduling q") (simp_all add: pop_task_def Let_def)
  moreover have "tq_inv ?q" using p sw assms(3) by (simp add: tq_inv_def)
  ultimately show ?thesis using m p h(1) mx assms(2,3) by auto
qed

lemma pop_pending:
  assumes "tq_inv q" and "tq_pending q \<noteq> {#}"
  shows "\<exists>t q'. pop_task mk pp q = Inr (t, q') \<and> tq_inv q' \<and> tq_pending q = add_mset t (tq_pending q')"
proof (cases "urgent_q q")
  case (Cons t ts)
  then show ?thesis using assms(1) by (simp add: pop_task_def tq_inv_def tq_pending_def)
next
  case Nil
  then have ne: "normal_q q \<noteq> []" using assms(2) by (auto simp: tq_pending_def)
  show ?thesis
  proof (cases "comparator q")
    case None
    then show ?thesis using Nil ne by (cases "normal_q q") (simp_all add: pop_task_def tq_inv_def tq_pending_def)
  next
    case (Some cmp)
    from pop_normal [OF assms(1) Nil Some ne] show ?thesis by (auto simp: tq_pending_def Nil)
  qed
qed

end

sublocale std_heap \<subseteq> pool: task_pool push_task push_urgent_task "pop_task mk pp" tq_pending tq_inv
  by unfold_locales
    (use pop_pending in \<open>auto simp: push_task_def push_urgent_task_def tq_inv_def tq_pending_def\<close>)

section \<open>A sorting implementation of the heap algorithms\<close>

fun insert_by :: "('a \<Rightarrow> 'a \<Rightarrow> bool) \<Rightarrow> 'a \<Rightarrow> 'a list \<Rightarrow> 'a list" where
  "insert_by cmp x [] = [x]"
| "insert_by cmp x (y # ys) = (if cmp x y then y # insert_by cmp x ys else x # y # ys)"

definition sort_heap_by :: "('a \<Rightarrow> 'a \<Rightarrow> bool) \<Rightarrow> 'a list \<Rightarrow> 'a list" where
  "sort_heap_by cmp xs = foldr (insert_by cmp) xs []"

definition pop_sorted :: "('a \<Rightarrow> 'a \<Rightarrow> bool) \<Rightarrow> 'a list \<Rightarrow> 'a list" where
  "pop_sorted cmp xs = (case xs of [] \<Rightarrow> [] | x # rest \<Rightarrow> sort_heap_by cmp rest @ [x])"

lemma mset_insert_by [simp]: "mset (insert_by cmp x xs) = add_mset x (mset xs)"
  by (induction xs) auto

lemma mset_sort_heap_by [simp]: "mset (sort_heap_by cmp xs) = mset xs"
  unfolding sort_heap_by_def by (induction xs) auto

lemma set_insert_by [simp]: "set (insert_by cmp x xs) = insert x (set xs)"
  by (induction xs) auto

lemma sorted_insert_by:
  assumes "strict_weak_order cmp"
  shows "sorted_wrt (\<lambda>a b. \<not> cmp a b) xs \<Longrightarrow> sorted_wrt (\<lambda>a b. \<not> cmp a b) (insert_by cmp x xs)"
proof (induction xs)
  case (Cons y ys)
  show ?case
  proof (cases "cmp x y")
    case True
    then show ?thesis using Cons swo_asym [OF assms True] by simp
  next
    case False
    then show ?thesis using Cons.prems swo_neg_trans [OF assms False] by auto
  qed
qed simp

lemma sorted_sort_heap_by:
  "strict_weak_order cmp \<Longrightarrow> sorted_wrt (\<lambda>a b. \<not> cmp a b) (sort_heap_by cmp xs)"
  unfolding sort_heap_by_def by (induction xs) (simp_all add: sorted_insert_by)

interpretation sort_heap: std_heap sort_heap_by pop_sorted
proof
  fix cmp :: "'a \<Rightarrow> 'a \<Rightarrow> bool" and xs :: "'a list"
  assume sw: "strict_weak_order cmp"
  show "mset (sort_heap_by cmp xs) = mset xs \<and> is_heap cmp (sort_heap_by cmp xs)"
    using sorted_sort_heap_by [OF sw] by (simp add: sorted_is_heap)
  assume "is_heap cmp xs" and "xs \<noteq> []"
  then show "mset (pop_sorted cmp xs) = mset xs \<and> last (pop_sorted cmp xs) = hd xs \<and>
      is_heap cmp (butlast (pop_sorted cmp xs))"
    using sorted_sort_heap_by [OF sw] by (cases xs) (simp_all add: pop_sorted_def sorted_is_heap)
qed

section \<open>Properties\<close>

fun push_all_tasks :: "('a + 'a) list \<Rightarrow> 'a task_queue \<Rightarrow> 'a task_queue" where
  "push_all_tasks [] q = q"
| "push_all_tasks (Inl t # ts) q = push_all_tasks ts (push_urgent_task t q)"
| "push_all_tasks (Inr t # ts) q = push_all_tasks ts (push_task t q)"

lemma tq_inv_push:
  "tq_inv q \<Longrightarrow> tq_inv (push_task t q)" "tq_inv q \<Longrightarrow> tq_inv (push_urgent_task t q)"
  "comparator (push_task t q) = comparator q" "comparator (push_urgent_task t q) = comparator q"
  by (simp_all add: push_urgent_task_def push_task_def tq_inv_def)

lemma push_all_tasks_inv: "tq_inv q \<Longrightarrow> tq_inv (push_all_tasks ts q) \<and> comparator (push_all_tasks ts q) = comparator q"
  by (induction ts q rule: push_all_tasks.induct) (simp_all add: tq_inv_push)

text \<open>Scheduling order: with standard-conforming heap algorithms, taking a task from a queue
  filled by any sequence of pushes hands out the oldest urgent task if there is one; otherwise the
  oldest task when the group has no comparator, and a task to which no waiting task is preferred
  when it has one. Exactly that task leaves the queue.\<close>

theorem pop_task_schedules:
  assumes "std_heap mk pp" and "tq_inv q0" and "q = push_all_tasks ts q0" and "\<not> tq_empty q"
  shows "\<exists>t q'. pop_task mk pp q = Inr (t, q') \<and> tq_inv q' \<and> tq_pending q = add_mset t (tq_pending q') \<and>
    (if urgent_q q \<noteq> [] then t = hd (urgent_q q)
     else case comparator q0 of None \<Rightarrow> t = hd (normal_q q)
          | Some cmp \<Rightarrow> (\<forall>t' \<in> set (normal_q q). \<not> cmp t t'))"
proof -
  from push_all_tasks_inv [OF assms(2), of ts] assms(3) have inv: "tq_inv q"
    and c: "comparator q = comparator q0" by simp_all
  have "tq_pending q \<noteq> {#}" using assms(4) by (auto simp: tq_pending_def tq_empty_def)
  from std_heap.pop_pending [OF assms(1) inv this] obtain t q' where
    t: "pop_task mk pp q = Inr (t, q')" "tq_inv q'" "tq_pending q = add_mset t (tq_pending q')" by blast
  show ?thesis
  proof (cases "urgent_q q = [] \<and> comparator q0 \<noteq> None")
    case True
    then obtain cmp where cmp: "comparator q = Some cmp" using c by auto
    have "normal_q q \<noteq> []" using True assms(4) by (simp add: tq_empty_def)
    then obtain t1 q1 where "pop_task mk pp q = Inr (t1, q1)" "\<forall>t' \<in> set (normal_q q). \<not> cmp t1 t'"
      using std_heap.pop_normal [OF assms(1) inv _ cmp] True by blast
    then have "\<forall>t' \<in> set (normal_q q). \<not> cmp t t'" using t(1) by simp
    moreover have "comparator q0 = Some cmp" using cmp c by simp
    ultimately show ?thesis using t True by simp
  next
    case False
    have "if urgent_q q \<noteq> [] then t = hd (urgent_q q) else t = hd (normal_q q)"
    proof (cases "urgent_q q")
      case Nil
      with False c have "comparator q = None" by simp
      with Nil t(1) assms(4) show ?thesis
        by (cases "normal_q q") (auto simp: pop_task_def tq_empty_def)
    qed (use t(1) in \<open>simp add: pop_task_def\<close>)
    then show ?thesis using t False by (cases "comparator q0") simp_all
  qed
qed

theorem pop_task_schedules_witness:
  "\<exists>t q'. pop_task sort_heap_by pop_sorted
      (push_all_tasks [Inr 3, Inr 8, Inr (5 :: nat)] (set_comparator (<) task_queue_new)) = Inr (t, q') \<and>
    (\<forall>t' \<in> {3, 8, 5}. \<not> t < t')"
proof -
  let ?q0 = "set_comparator (<) task_queue_new :: nat task_queue"
  have "tq_inv ?q0"
    by (auto simp: tq_inv_def set_comparator_def task_queue_new_def strict_weak_order_def is_heap_def)
  from pop_task_schedules [OF sort_heap.std_heap_axioms this refl, of "[Inr 3, Inr 8, Inr 5]"]
  show ?thesis
    by (simp add: tq_empty_def push_task_def set_comparator_def task_queue_new_def) blast
qed

end
