(* ===== verification/Promise_Manager.thy ===== *)
theory Promise_Manager
  imports Hiactor_Prelude
begin

text \<open>
  The table of promises that pairs responses with requests (\<open>core/promise_manager.hh\<close>): an array
  of nodes whose unused entries form a free list through \<open>next_avl\<close>; id 0 is the end of that list
  and never a request id. The promise itself is a \<open>seastar::promise\<close>; its type and a fresh promise
  are parameters. The invariant \<open>pr_inv\<close> says that the free list holds exactly the inactive ids;
  the locale \<open>id_pool\<close> is the contract the request/response code relies on.
\<close>

section \<open>The table\<close>

record 'p pr_node =
  pr :: 'p
  next_avl :: u32
  active :: bool

record 'p pr_manager =
  pr_array :: "'p pr_node list"
  available :: u32

definition pr_node_new :: "'p \<Rightarrow> 'p pr_node" where
  "pr_node_new fresh = \<lparr>pr = fresh, next_avl = 0, active = True\<rparr>"

definition occupy :: "'p \<Rightarrow> 'p pr_node \<Rightarrow> 'p pr_node" where
  "occupy fresh n = n\<lparr>pr := fresh, active := True\<rparr>"

definition release :: "'p pr_node \<Rightarrow> 'p pr_node" where
  "release n = n\<lparr>active := False\<rparr>"

text \<open>\<open>resolve\<close> is \<open>set_value\<close> with the default value, applied to the promise of entry 0.\<close>

definition pr_manager_new :: "'p \<Rightarrow> ('p \<Rightarrow> 'p) \<Rightarrow> 'p pr_manager" where
  "pr_manager_new fresh resolve =
     \<lparr>pr_array = [release ((pr_node_new fresh)\<lparr>pr := resolve fresh\<rparr>)], available = 0\<rparr>"

definition upd_node :: "u32 \<Rightarrow> ('p pr_node \<Rightarrow> 'p pr_node) \<Rightarrow> 'p pr_manager \<Rightarrow> 'p pr_manager res" where
  "upd_node i f m =
     (if unat i < length (pr_array m)
      then Inr (m\<lparr>pr_array := (pr_array m)[unat i := f (pr_array m ! unat i)]\<rparr>)
      else Inl Out_of_bounds)"

definition get_node :: "u32 \<Rightarrow> 'p pr_manager \<Rightarrow> 'p pr_node res" where
  "get_node i m =
     (if unat i < length (pr_array m) then Inr (pr_array m ! unat i) else Inl Out_of_bounds)"

definition acquire_pr :: "'p \<Rightarrow> 'p pr_manager \<Rightarrow> (u32 \<times> 'p pr_manager) res" where
  "acquire_pr fresh m =
     (if available m = 0 then
        (let m' = m\<lparr>pr_array := pr_array m @ [pr_node_new fresh]\<rparr>
         in Inr (word_of_nat (length (pr_array m') - 1), m'))
      else
        (let pr_id = available m
         in bind_res (get_node pr_id m) (\<lambda>n.
            bind_res (upd_node pr_id (occupy fresh) (m\<lparr>available := next_avl n\<rparr>)) (\<lambda>m'.
              Inr (pr_id, m')))))"

definition remove_pr :: "u32 \<Rightarrow> 'p pr_manager \<Rightarrow> 'p pr_manager res" where
  "remove_pr pr_id m =
     bind_res (upd_node pr_id release m) (\<lambda>m1.
     bind_res (upd_node pr_id (\<lambda>n. n\<lparr>next_avl := available m1\<rparr>) m1) (\<lambda>m2.
       Inr (m2\<lparr>available := pr_id\<rparr>)))"

definition pr_size :: "'p pr_manager \<Rightarrow> nat" where
  "pr_size m = length (pr_array m)"

definition is_active :: "u32 \<Rightarrow> 'p pr_manager \<Rightarrow> bool res" where
  "is_active pr_id m = bind_res (get_node pr_id m) (\<lambda>n. Inr (active n))"

definition get_future :: "u32 \<Rightarrow> 'p pr_manager \<Rightarrow> 'p res" where
  "get_future pr_id m = bind_res (get_node pr_id m) (\<lambda>n. Inr (pr n))"

text \<open>\<open>set_value\<close> and \<open>set_exception\<close> apply an operation of the promise.\<close>

definition set_pr :: "u32 \<Rightarrow> ('p \<Rightarrow> 'p) \<Rightarrow> 'p pr_manager \<Rightarrow> 'p pr_manager res" where
  "set_pr pr_id set_op m = upd_node pr_id (\<lambda>n. n\<lparr>pr := set_op (pr n)\<rparr>) m"

section \<open>The free list\<close>

fun free_chain :: "'p pr_node list \<Rightarrow> u32 \<Rightarrow> u32 list \<Rightarrow> bool" where
  "free_chain arr a [] = (a = 0)"
| "free_chain arr a (i # is) =
     (a = i \<and> i \<noteq> 0 \<and> unat i < length arr \<and> free_chain arr (next_avl (arr ! unat i)) is)"

definition active_ids :: "'p pr_manager \<Rightarrow> u32 set" where
  "active_ids m = {i. unat i < length (pr_array m) \<and> active (pr_array m ! unat i)}"

definition pr_inv :: "'p pr_manager \<Rightarrow> bool" where
  "pr_inv m \<longleftrightarrow> 0 < length (pr_array m) \<and> length (pr_array m) \<le> 4294967296 \<and> 0 \<notin> active_ids m \<and>
     (\<exists>is. free_chain (pr_array m) (available m) is \<and> distinct is \<and>
        (\<forall>i. i \<in> set is \<longleftrightarrow> i \<noteq> 0 \<and> unat i < length (pr_array m) \<and> i \<notin> active_ids m))"

lemma pr_invI:
  assumes "0 < length (pr_array m)" and "length (pr_array m) \<le> 4294967296" and "0 \<notin> active_ids m"
    and "free_chain (pr_array m) (available m) is" and "distinct is"
    and "\<And>i. i \<in> set is \<longleftrightarrow> i \<noteq> 0 \<and> unat i < length (pr_array m) \<and> i \<notin> active_ids m"
  shows "pr_inv m"
  unfolding pr_inv_def using assms by (intro conjI exI [of _ "is"] allI) simp_all

lemma pr_invE:
  assumes "pr_inv m"
  obtains "is" where "0 < length (pr_array m)" "length (pr_array m) \<le> 4294967296" "0 \<notin> active_ids m"
    "free_chain (pr_array m) (available m) is" "distinct is"
    "\<And>i. i \<in> set is \<longleftrightarrow> i \<noteq> 0 \<and> unat i < length (pr_array m) \<and> i \<notin> active_ids m"
  using assms unfolding pr_inv_def by (elim conjE exE) simp

lemma unat_u32_eq_iff: "unat (i :: u32) = unat j \<longleftrightarrow> i = j"
  by (simp add: word_unat_eq_iff)

lemma free_chain_upd:
  "i \<notin> set is \<Longrightarrow> free_chain (arr[unat i := n]) a is = free_chain arr a is"
  by (induction "is" arbitrary: a) (auto simp: nth_list_update unat_u32_eq_iff)

lemma free_chain_cong:
  "length arr' = length arr \<Longrightarrow> (\<And>j. j < length arr \<Longrightarrow> next_avl (arr' ! j) = next_avl (arr ! j)) \<Longrightarrow>
   free_chain arr' a is = free_chain arr a is"
  by (induction "is" arbitrary: a) auto

lemma free_chain_append: "free_chain arr a is \<Longrightarrow> free_chain (arr @ ns) a is"
  by (induction "is" arbitrary: a) (auto simp: nth_append)

lemma pr_inv_new: "pr_inv (pr_manager_new fresh resolve)"
  by (auto simp: pr_inv_def pr_manager_new_def active_ids_def release_def pr_node_new_def
      word_unat_eq_iff intro!: exI [of _ "[]"])

lemma active_ids_new [simp]: "active_ids (pr_manager_new fresh resolve) = {}"
  by (auto simp: pr_manager_new_def active_ids_def release_def pr_node_new_def)

lemma is_active_iff:
  "unat i < pr_size m \<Longrightarrow> is_active i m = Inr (i \<in> active_ids m)"
  by (simp add: is_active_def get_node_def active_ids_def pr_size_def)

lemma active_ids_upd:
  assumes "unat i < length (pr_array m)"
  shows "active_ids (m\<lparr>pr_array := (pr_array m)[unat i := n], available := a\<rparr>) =
           (if active n then insert i (active_ids m) else active_ids m - {i})"
  using assms by (auto simp: active_ids_def nth_list_update unat_u32_eq_iff)

lemma acquire_reuse:
  assumes "pr_inv m" and "available m \<noteq> 0"
  shows "\<exists>m'. acquire_pr fresh m = Inr (available m, m') \<and> pr_inv m' \<and> available m \<notin> active_ids m \<and>
           active_ids m' = insert (available m) (active_ids m) \<and> get_future (available m) m' = Inr fresh"
proof -
  let ?i = "available m" and ?arr = "pr_array m"
  from assms(1) obtain "is" where b: "0 < length ?arr" "length ?arr \<le> 4294967296" "0 \<notin> active_ids m"
    and ch: "free_chain ?arr ?i is" and d: "distinct is"
    and fr: "\<And>i. i \<in> set is \<longleftrightarrow> i \<noteq> 0 \<and> unat i < length ?arr \<and> i \<notin> active_ids m"
    by (rule pr_invE) blast
  from ch assms(2) obtain js where "is": "is = ?i # js" by (cases "is") auto
  with ch have i: "unat ?i < length ?arr" and chj: "free_chain ?arr (next_avl (?arr ! unat ?i)) js"
    by auto
  let ?n = "occupy fresh (?arr ! unat ?i)"
  let ?m = "m\<lparr>pr_array := ?arr[unat ?i := ?n], available := next_avl (?arr ! unat ?i)\<rparr>"
  have a: "acquire_pr fresh m = Inr (?i, ?m)"
    using assms(2) i by (simp add: acquire_pr_def get_node_def upd_node_def Let_def)
  have act: "active_ids ?m = insert ?i (active_ids m)"
    using active_ids_upd [OF i] by (simp add: occupy_def)
  have "pr_inv ?m"
  proof (rule pr_invI [of _ js])
    show "free_chain (pr_array ?m) (available ?m) js"
      using chj d "is" by (simp add: free_chain_upd)
    show "i \<in> set js \<longleftrightarrow> i \<noteq> 0 \<and> unat i < length (pr_array ?m) \<and> i \<notin> active_ids ?m" for i
      using fr [of i] d unfolding act "is" by auto
  qed (use b d "is" assms(2) in \<open>simp_all add: act\<close>)
  moreover have "?i \<notin> active_ids m" using fr [of ?i] "is" by simp
  ultimately show ?thesis using a act i by (auto simp: get_future_def get_node_def occupy_def)
qed

lemma acquire_extend:
  assumes "pr_inv m" and "available m = 0" and "length (pr_array m) < 4294967296"
  shows "\<exists>i m'. acquire_pr fresh m = Inr (i, m') \<and> unat i = length (pr_array m) \<and> pr_inv m' \<and> i \<noteq> 0 \<and>
           i \<notin> active_ids m \<and> active_ids m' = insert i (active_ids m) \<and> get_future i m' = Inr fresh"
proof -
  let ?arr = "pr_array m"
  define i :: u32 where "i = word_of_nat (length ?arr)"
  let ?m = "m\<lparr>pr_array := ?arr @ [pr_node_new fresh]\<rparr>"
  have ui: "unat i = length ?arr" using assms(3) by (simp add: i_def)
  from assms(1) obtain "is" where b: "0 < length ?arr" "0 \<notin> active_ids m"
    and ch: "free_chain ?arr (available m) is"
    and fr: "\<And>i. i \<in> set is \<longleftrightarrow> i \<noteq> 0 \<and> unat i < length ?arr \<and> i \<notin> active_ids m"
    by (rule pr_invE) blast
  from ch assms(2) have "is = []" by (cases "is") auto
  with fr have all: "\<And>j. j \<noteq> 0 \<Longrightarrow> unat j < length ?arr \<Longrightarrow> j \<in> active_ids m" by auto
  have nz: "i \<noteq> 0" and fresh_i: "i \<notin> active_ids m" using b ui by (auto simp: active_ids_def)
  have lt: "unat j < Suc (length ?arr) \<longleftrightarrow> unat j < length ?arr \<or> j = i" for j
    using unat_u32_eq_iff [of j i] ui by auto
  have act: "active_ids ?m = insert i (active_ids m)"
    using lt ui by (auto simp: active_ids_def nth_append pr_node_new_def)
  have "pr_inv ?m"
  proof (rule pr_invI [of _ "[]"])
    show "j \<in> set [] \<longleftrightarrow> j \<noteq> 0 \<and> unat j < length (pr_array ?m) \<and> j \<notin> active_ids ?m" for j
      using all [of j] lt [of j] by (auto simp: act)
  qed (use b nz assms in \<open>simp_all add: act\<close>)
  moreover have "acquire_pr fresh m = Inr (i, ?m)"
    using assms(2) by (simp add: acquire_pr_def i_def)
  moreover have "get_future i ?m = Inr fresh"
    using ui by (simp add: get_future_def get_node_def nth_append pr_node_new_def)
  ultimately show ?thesis using act nz fresh_i ui by blast
qed

lemma remove_ok:
  assumes "pr_inv m" and "i \<in> active_ids m"
  shows "\<exists>m'. remove_pr i m = Inr m' \<and> pr_inv m' \<and> active_ids m' = active_ids m - {i} \<and> available m' = i"
proof -
  let ?arr = "pr_array m"
  let ?n = "(?arr ! unat i)\<lparr>active := False, next_avl := available m\<rparr>"
  let ?m = "m\<lparr>pr_array := ?arr[unat i := ?n], available := i\<rparr>"
  have i: "unat i < length ?arr" using assms(2) by (simp add: active_ids_def)
  from assms(1) obtain "is" where b: "0 < length ?arr" "length ?arr \<le> 4294967296" "0 \<notin> active_ids m"
    and ch: "free_chain ?arr (available m) is" and d: "distinct is"
    and fr: "\<And>j. j \<in> set is \<longleftrightarrow> j \<noteq> 0 \<and> unat j < length ?arr \<and> j \<notin> active_ids m"
    by (rule pr_invE) blast
  have i0: "i \<noteq> 0" using b(3) assms(2) by auto
  have r: "remove_pr i m = Inr ?m" using i by (simp add: remove_pr_def upd_node_def release_def)
  have act: "active_ids ?m = active_ids m - {i}" using active_ids_upd [OF i] by simp
  have "i \<notin> set is" using fr assms(2) by blast
  have "pr_inv ?m"
  proof (rule pr_invI [of _ "i # is"])
    show "free_chain (pr_array ?m) (available ?m) (i # is)"
      using ch i i0 \<open>i \<notin> set is\<close> by (auto simp: free_chain_upd)
    show "j \<in> set (i # is) \<longleftrightarrow> j \<noteq> 0 \<and> unat j < length (pr_array ?m) \<and> j \<notin> active_ids ?m" for j
      using fr [of j] i i0 by (auto simp: act)
  qed (use b d \<open>i \<notin> set is\<close> in \<open>simp_all add: act\<close>)
  with r act show ?thesis by auto
qed

lemma set_pr_inv:
  assumes "pr_inv m" and "set_pr i f m = Inr m'"
  shows "pr_inv m' \<and> active_ids m' = active_ids m"
proof -
  have i: "unat i < length (pr_array m)"
    and m': "m' = m\<lparr>pr_array := (pr_array m)[unat i := (pr_array m ! unat i)\<lparr>pr := f (pr (pr_array m ! unat i))\<rparr>]\<rparr>"
    using assms(2) by (auto simp: set_pr_def upd_node_def split: if_splits)
  have ch: "free_chain (pr_array m') = free_chain (pr_array m)"
    by (intro ext free_chain_cong) (simp_all add: m' nth_list_update i)
  have len: "length (pr_array m') = length (pr_array m)" and av: "available m' = available m"
    by (simp_all add: m')
  have act: "active_ids m' = active_ids m" using i by (auto simp: m' active_ids_def nth_list_update)
  show ?thesis using assms(1) unfolding pr_inv_def act ch len av by simp
qed

section \<open>The pool of request ids\<close>

text \<open>
  The clients of the table: a request acquires an id with a promise of its own, its response
  resolves that promise, and the continuation gives the id back. A client names a request by its
  position among those outstanding; the abstract state is the list of their promises.
\<close>

datatype 'p pool_op = Acquire 'p | Resolve nat "'p \<Rightarrow> 'p" | Complete nat

definition drop_nth :: "nat \<Rightarrow> 'a list \<Rightarrow> 'a list" where
  "drop_nth k xs = take k xs @ drop (Suc k) xs"

fun pool_spec :: "'p pool_op list \<Rightarrow> 'p list \<Rightarrow> 'p list" where
  "pool_spec [] ps = ps"
| "pool_spec (Acquire p # ops) ps = pool_spec ops (ps @ [p])"
| "pool_spec (Resolve k f # ops) ps = pool_spec ops (if k < length ps then ps[k := f (ps ! k)] else ps)"
| "pool_spec (Complete k # ops) ps = pool_spec ops (drop_nth k ps)"

fun pool_run :: "'p pool_op list \<Rightarrow> u32 list \<times> 'p pr_manager \<Rightarrow> (u32 list \<times> 'p pr_manager) res" where
  "pool_run [] c = Inr c"
| "pool_run (Acquire p # ops) (ids, m) =
     bind_res (acquire_pr p m) (\<lambda>(i, m'). pool_run ops (ids @ [i], m'))"
| "pool_run (Resolve k f # ops) (ids, m) =
     (if k < length ids then bind_res (set_pr (ids ! k) f m) (\<lambda>m'. pool_run ops (ids, m'))
      else pool_run ops (ids, m))"
| "pool_run (Complete k # ops) (ids, m) =
     (if k < length ids then bind_res (remove_pr (ids ! k) m) (\<lambda>m'. pool_run ops (drop_nth k ids, m'))
      else pool_run ops (ids, m))"

text \<open>The largest number of requests outstanding at any time, from \<open>n\<close> outstanding ones on.\<close>

fun outstanding :: "'p pool_op list \<Rightarrow> nat \<Rightarrow> nat" where
  "outstanding [] n = n"
| "outstanding (Acquire p # ops) n = outstanding ops (Suc n)"
| "outstanding (Resolve k f # ops) n = outstanding ops n"
| "outstanding (Complete k # ops) n = max n (outstanding ops (if k < n then n - 1 else n))"

lemma outstanding_ge: "n \<le> outstanding ops n"
  by (induction ops n rule: outstanding.induct) auto

lemma length_drop_nth: "length (drop_nth k xs) = (if k < length xs then length xs - 1 else length xs)"
  by (auto simp: drop_nth_def)

lemma map_drop_nth: "map f (drop_nth k xs) = drop_nth k (map f xs)"
  by (simp add: drop_nth_def take_map drop_map)

lemma drop_nth_beyond [simp]: "length xs \<le> k \<Longrightarrow> drop_nth k xs = xs"
  by (simp add: drop_nth_def)

lemma drop_nth_distinct:
  assumes "distinct xs" and "k < length xs"
  shows "distinct (drop_nth k xs) \<and> set (drop_nth k xs) = set xs - {xs ! k}"
proof -
  have xs: "xs = take k xs @ xs ! k # drop (Suc k) xs" using assms(2) by (rule id_take_nth_drop)
  then have "distinct (take k xs @ xs ! k # drop (Suc k) xs)" using assms(1) by simp
  moreover have "set xs = set (take k xs) \<union> {xs ! k} \<union> set (drop (Suc k) xs)"
    by (subst xs) auto
  ultimately show ?thesis by (auto simp: drop_nth_def)
qed

text \<open>
  The contract of a pool of ids with a value per id: an acquired id is one nobody holds, the other
  ids keep their values, a released id is free again.
\<close>

locale id_pool =
  fixes acq :: "'v \<Rightarrow> 's \<Rightarrow> ('i \<times> 's) res" and put :: "'i \<Rightarrow> ('v \<Rightarrow> 'v) \<Rightarrow> 's \<Rightarrow> 's res"
    and rel :: "'i \<Rightarrow> 's \<Rightarrow> 's res" and val :: "'i \<Rightarrow> 's \<Rightarrow> 'v res"
    and live :: "'s \<Rightarrow> 'i set" and room :: "nat \<Rightarrow> 's \<Rightarrow> bool" and null :: 'i
  assumes acq_law: "room (Suc n) s \<Longrightarrow> \<exists>i s'. acq v s = Inr (i, s') \<and> room n s' \<and> i \<noteq> null \<and>
      i \<notin> live s \<and> live s' = insert i (live s) \<and> val i s' = Inr v \<and>
      (\<forall>j \<in> live s. val j s' = val j s)"
    and put_law: "room n s \<Longrightarrow> i \<in> live s \<Longrightarrow> val i s = Inr v \<Longrightarrow> \<exists>s'. put i f s = Inr s' \<and> room n s' \<and>
      live s' = live s \<and> val i s' = Inr (f v) \<and> (\<forall>j \<in> live s - {i}. val j s' = val j s)"
    and rel_law: "room n s \<Longrightarrow> i \<in> live s \<Longrightarrow> \<exists>s'. rel i s = Inr s' \<and> room n s' \<and>
      live s' = live s - {i} \<and> (\<forall>j \<in> live s - {i}. val j s' = val j s)"
begin

definition holds :: "nat \<Rightarrow> 'i list \<Rightarrow> 's \<Rightarrow> 'v list \<Rightarrow> bool" where
  "holds n ids s vs \<longleftrightarrow> room n s \<and> distinct ids \<and> null \<notin> set ids \<and> set ids = live s \<and>
     map (\<lambda>i. val i s) ids = map Inr vs"

lemma holdsD:
  assumes "holds n ids s vs"
  shows "room n s" "distinct ids" "null \<notin> set ids" "live s = set ids" "length vs = length ids"
    and "\<And>k. k < length ids \<Longrightarrow> val (ids ! k) s = Inr (vs ! k)"
proof -
  from assms have m: "map (\<lambda>i. val i s) ids = map Inr vs" by (simp add: holds_def)
  then have "length (map (\<lambda>i. val i s) ids) = length (map (Inr :: 'v \<Rightarrow> 'v res) vs)" by (rule arg_cong)
  then show l: "length vs = length ids" by simp
  show "val (ids ! k) s = Inr (vs ! k)" if "k < length ids" for k
    using arg_cong [OF m, of "\<lambda>l. l ! k"] that l by simp
qed (use assms in \<open>auto simp: holds_def\<close>)

lemma holdsI:
  assumes "room n s" "distinct ids" "null \<notin> set ids" "live s = set ids" "length vs = length ids"
    and "\<And>k. k < length ids \<Longrightarrow> val (ids ! k) s = Inr (vs ! k)"
  shows "holds n ids s vs"
  using assms by (simp add: holds_def list_eq_iff_nth_eq)

lemma holds_acq:
  assumes "holds (Suc n) ids s vs"
  shows "\<exists>i s'. acq v s = Inr (i, s') \<and> holds n (ids @ [i]) s' (vs @ [v])"
proof -
  note h = holdsD [OF assms]
  from acq_law [OF h(1), of v] obtain i s' where a: "acq v s = Inr (i, s')" "room n s'" "i \<noteq> null"
    "i \<notin> live s" "live s' = insert i (live s)" "val i s' = Inr v" "\<forall>j \<in> live s. val j s' = val j s"
    by blast
  have "holds n (ids @ [i]) s' (vs @ [v])"
  proof (rule holdsI)
    show "val ((ids @ [i]) ! k) s' = Inr ((vs @ [v]) ! k)" if "k < length (ids @ [i])" for k
      using that a(6,7) h(4,5,6) by (auto simp: nth_append less_Suc_eq)
  qed (use a h in auto)
  with a(1) show ?thesis by blast
qed

lemma holds_put:
  assumes "holds n ids s vs" and "k < length ids"
  shows "\<exists>s'. put (ids ! k) f s = Inr s' \<and> holds n ids s' (vs[k := f (vs ! k)])"
proof -
  note h = holdsD [OF assms(1)]
  have "ids ! k \<in> live s" using assms(2) h(4) by simp
  from put_law [OF h(1) this h(6) [OF assms(2)], of f] obtain s' where
    p: "put (ids ! k) f s = Inr s'" "room n s'" "live s' = live s" "val (ids ! k) s' = Inr (f (vs ! k))"
      "\<forall>j \<in> live s - {ids ! k}. val j s' = val j s"
    by blast
  have "holds n ids s' (vs[k := f (vs ! k)])"
  proof (rule holdsI)
    show "val (ids ! j) s' = Inr (vs[k := f (vs ! k)] ! j)" if "j < length ids" for j
      using that p(4,5) h assms(2) by (cases "j = k") (auto simp: nth_eq_iff_index_eq)
  qed (use p h in auto)
  with p(1) show ?thesis by blast
qed

lemma holds_rel:
  assumes "holds n ids s vs" and "k < length ids"
  shows "\<exists>s'. rel (ids ! k) s = Inr s' \<and> holds n (drop_nth k ids) s' (drop_nth k vs)"
proof -
  note h = holdsD [OF assms(1)]
  have "ids ! k \<in> live s" using assms(2) h(4) by simp
  from rel_law [OF h(1) this] obtain s' where r: "rel (ids ! k) s = Inr s'" "room n s'"
      "live s' = live s - {ids ! k}" "\<forall>j \<in> live s - {ids ! k}. val j s' = val j s"
    by blast
  note d = drop_nth_distinct [OF h(2) assms(2)]
  have "map (\<lambda>i. val i s') (drop_nth k ids) = map (\<lambda>i. val i s) (drop_nth k ids)"
    using r(4) d h(4) by auto
  also have "\<dots> = map Inr (drop_nth k vs)"
    using assms(1) by (simp add: map_drop_nth holds_def)
  finally have "holds n (drop_nth k ids) s' (drop_nth k vs)"
    using r d h by (auto simp: holds_def)
  with r(1) show ?thesis by blast
qed

end

text \<open>The table has room for \<open>n\<close> more requests when that many ids are not in use: it grows only when
  every id it has is active.\<close>

definition pr_room :: "nat \<Rightarrow> 'p pr_manager \<Rightarrow> bool" where
  "pr_room n m \<longleftrightarrow> pr_inv m \<and> card (active_ids m) + n \<le> 4294967295"

lemma full_table_length:
  assumes "pr_inv m" and "available m = 0"
  shows "length (pr_array m) = Suc (card (active_ids m))"
proof -
  let ?l = "length (pr_array m)"
  from assms(1) obtain "is" where b: "0 < ?l" "?l \<le> 4294967296" "0 \<notin> active_ids m"
    and ch: "free_chain (pr_array m) (available m) is"
    and fr: "\<And>i. i \<in> set is \<longleftrightarrow> i \<noteq> 0 \<and> unat i < ?l \<and> i \<notin> active_ids m"
    by (rule pr_invE) blast
  from ch assms(2) have "is = []" by (cases "is") auto
  with fr b(3) have act: "i \<in> active_ids m \<longleftrightarrow> i \<noteq> 0 \<and> unat i < ?l" for i
    by (auto simp: active_ids_def)
  have "bij_betw unat (active_ids m) {1..<?l}"
  proof (rule bij_betw_byWitness [where f' = word_of_nat])
    have n: "unat (word_of_nat y :: u32) = y" if "y < ?l" for y using that b(2) by (simp add: unat_of_nat)
    then show "\<forall>y \<in> {1..<?l}. unat (word_of_nat y :: u32) = y" by simp
    show "word_of_nat ` {1..<?l} \<subseteq> active_ids m"
    proof
      fix i :: u32 assume "i \<in> word_of_nat ` {1..<?l}"
      then obtain y where "i = word_of_nat y" "1 \<le> y" "y < ?l" by auto
      with n [of y] show "i \<in> active_ids m" by (auto simp: act)
    qed
    show "unat ` active_ids m \<subseteq> {1..<?l}" by (auto simp: act Suc_le_eq unat_gt_0)
  qed simp
  then have "card (active_ids m) = card {1..<?l}" by (rule bij_betw_same_card)
  with b(1) show ?thesis by simp
qed

lemma get_future_upd:
  assumes "upd_node i g m = Inr m'"
  shows "get_future j m' = (if j = i then bind_res (get_node i m) (\<lambda>n. Inr (pr (g n))) else get_future j m)"
  using assms
  by (auto simp: get_future_def get_node_def upd_node_def nth_list_update unat_u32_eq_iff split: if_splits)

lemma get_future_available [simp]: "get_future j (m\<lparr>available := a\<rparr>) = get_future j m"
  by (simp add: get_future_def get_node_def)

lemma acquire_others:
  assumes "acquire_pr fresh m = Inr (i, m')" and "j \<in> active_ids m" and "j \<noteq> i"
  shows "get_future j m' = get_future j m"
proof (cases "available m = 0")
  case True
  with assms show ?thesis
    by (auto simp: acquire_pr_def Let_def active_ids_def get_future_def get_node_def nth_append)
next
  case False
  with assms show ?thesis by (auto simp: acquire_pr_def Let_def bind_res_Inr_iff get_future_upd)
qed

lemma remove_others:
  assumes "remove_pr i m = Inr m'" and "j \<noteq> i"
  shows "get_future j m' = get_future j m"
  using assms by (auto simp: remove_pr_def bind_res_Inr_iff get_future_upd)

lemma set_pr_ok: "i \<in> active_ids m \<Longrightarrow> \<exists>m'. set_pr i f m = Inr m' \<and> length (pr_array m') = length (pr_array m)"
  by (simp add: set_pr_def upd_node_def active_ids_def)

lemma acquire_ok:
  assumes "pr_room (Suc n) m"
  shows "\<exists>i m'. acquire_pr fresh m = Inr (i, m') \<and> pr_inv m' \<and> i \<noteq> 0 \<and>
           i \<notin> active_ids m \<and> active_ids m' = insert i (active_ids m) \<and> get_future i m' = Inr fresh"
proof (cases "available m = 0")
  case True
  with assms have "pr_inv m" "length (pr_array m) < 4294967296"
    by (simp_all add: pr_room_def full_table_length)
  with acquire_extend [of m fresh] True show ?thesis by fastforce
next
  case False
  with acquire_reuse [of m fresh] assms show ?thesis unfolding pr_room_def by blast
qed

interpretation pool: id_pool acquire_pr set_pr remove_pr get_future active_ids pr_room 0
proof
  fix n and m :: "'p pr_manager" and v :: 'p
  assume r: "pr_room (Suc n) m"
  from acquire_ok [OF r, of v] obtain i m' where a: "acquire_pr v m = Inr (i, m')" "pr_inv m'" "i \<noteq> 0"
    "i \<notin> active_ids m" "active_ids m' = insert i (active_ids m)" "get_future i m' = Inr v"
    by blast
  moreover have "pr_room n m'" using a(2,4,5) r by (simp add: pr_room_def)
  moreover have "\<forall>j \<in> active_ids m. get_future j m' = get_future j m"
    using acquire_others [OF a(1)] a(4) by blast
  ultimately show "\<exists>i m'. acquire_pr v m = Inr (i, m') \<and> pr_room n m' \<and> i \<noteq> 0 \<and> i \<notin> active_ids m \<and>
      active_ids m' = insert i (active_ids m) \<and> get_future i m' = Inr v \<and>
      (\<forall>j \<in> active_ids m. get_future j m' = get_future j m)"
    by blast
next
  fix n and m :: "'p pr_manager" and i f and v :: 'p
  assume r: "pr_room n m" and i: "i \<in> active_ids m" and v: "get_future i m = Inr v"
  from set_pr_ok [OF i, of f] obtain m' where s: "set_pr i f m = Inr m'"
    and l: "length (pr_array m') = length (pr_array m)" by blast
  have inv: "pr_inv m' \<and> active_ids m' = active_ids m"
    using r s by (intro set_pr_inv) (auto simp: pr_room_def)
  have g: "get_future j m' = (if j = i then Inr (f v) else get_future j m)" for j
    using get_future_upd [OF s [unfolded set_pr_def], of j] v
    by (auto simp: get_future_def get_node_def split: if_splits)
  show "\<exists>m'. set_pr i f m = Inr m' \<and> pr_room n m' \<and> active_ids m' = active_ids m \<and>
      get_future i m' = Inr (f v) \<and> (\<forall>j \<in> active_ids m - {i}. get_future j m' = get_future j m)"
    using s l r inv g by (auto simp: pr_room_def)
next
  fix n and m :: "'p pr_manager" and i
  assume r: "pr_room n m" and i: "i \<in> active_ids m"
  from remove_ok [OF _ i] r obtain m' where "remove_pr i m = Inr m'" "pr_inv m'"
    "active_ids m' = active_ids m - {i}" by (auto simp: pr_room_def)
  then show "\<exists>m'. remove_pr i m = Inr m' \<and> pr_room n m' \<and> active_ids m' = active_ids m - {i} \<and>
      (\<forall>j \<in> active_ids m - {i}. get_future j m' = get_future j m)"
    using r remove_others [of i m] i by (auto simp: pr_room_def)
qed

lemma pool_holds_room:
  assumes "pool.holds n ids m ps" and "length ids + k \<le> 4294967295"
  shows "pool.holds k ids m ps"
proof -
  note h = pool.holdsD [OF assms(1)]
  have "card (active_ids m) = length ids" using h(2,4) by (simp add: distinct_card)
  with h(1) assms(2) have "pr_room k m" by (simp add: pr_room_def)
  with assms(1) show ?thesis unfolding pool.holds_def by blast
qed

lemma pool_run_holds:
  assumes "pool.holds 0 ids m ps" and "outstanding ops (length ids) \<le> 4294967295"
  shows "\<exists>ids' m'. pool_run ops (ids, m) = Inr (ids', m') \<and> pool.holds 0 ids' m' (pool_spec ops ps)"
  using assms
proof (induction ops arbitrary: ids m ps)
  case Nil
  then show ?case by simp
next
  case (Cons op ops)
  note len = pool.holdsD(5) [OF Cons.prems(1)]
  show ?case
  proof (cases op)
    case (Acquire p)
    with Cons.prems(2) outstanding_ge [of "Suc (length ids)" ops] have "length ids + 1 \<le> 4294967295" by simp
    from pool.holds_acq [OF pool_holds_room [OF Cons.prems(1) this, simplified], of p] Acquire Cons.prems(2) Cons.IH
    show ?thesis by fastforce
  next
    case (Resolve k f)
    with Cons.prems pool.holds_put [of 0 ids m ps k f] Cons.IH len show ?thesis by fastforce
  next
    case (Complete k)
    with Cons.prems pool.holds_rel [of 0 ids m ps k] Cons.IH len show ?thesis
      by (fastforce simp: length_drop_nth)
  qed
qed

lemma pool_holds_new: "pool.holds 0 [] (pr_manager_new fresh resolve) []"
  by (simp add: pool.holds_def pr_room_def pr_inv_new)

lemma remove_pr_eq:
  "unat i < length (pr_array m) \<Longrightarrow> remove_pr i m = Inr (m\<lparr>pr_array :=
     (pr_array m)[unat i := (pr_array m ! unat i)\<lparr>active := False, next_avl := available m\<rparr>], available := i\<rparr>)"
  by (simp add: remove_pr_def upd_node_def release_def)

lemma acquire_pr_eq:
  "available m \<noteq> 0 \<Longrightarrow> unat (available m) < length (pr_array m) \<Longrightarrow>
   acquire_pr fresh m = Inr (available m, m\<lparr>pr_array :=
     (pr_array m)[unat (available m) := occupy fresh (pr_array m ! unat (available m))],
     available := next_avl (pr_array m ! unat (available m))\<rparr>)"
  by (simp add: acquire_pr_def get_node_def upd_node_def Let_def)

section \<open>Properties\<close>

text \<open>C11: requests never share an id. Whatever sequence of acquiring an id with a promise,
  resolving the promise of an outstanding request and giving an id back runs on a new table (with
  at most 2^32 - 1 requests outstanding at any time, however many there are in all), no access
  leaves the array, the outstanding ids are distinct, never 0, exactly the active entries, and each
  of them holds the promise its own request put there, changed only by its own resolutions.\<close>

theorem promise_table_refines_pool:
  assumes "outstanding ops 0 \<le> 4294967295"
  shows "\<exists>ids m. pool_run ops ([], pr_manager_new fresh resolve) = Inr (ids, m) \<and>
    distinct ids \<and> 0 \<notin> set ids \<and> set ids = active_ids m \<and>
    map (\<lambda>i. get_future i m) ids = map Inr (pool_spec ops [])"
  using pool_run_holds [OF pool_holds_new, of ops fresh resolve] assms by (auto simp: pool.holds_def)

theorem promise_table_refines_pool_witness:
  "outstanding [Acquire 1, Acquire 2, Complete 0, Acquire (3::nat), Resolve 1 Suc] 0 \<le> 4294967295 \<and>
   (\<exists>ids m. pool_run [Acquire 1, Acquire 2, Complete 0, Acquire 3, Resolve 1 Suc]
       ([], pr_manager_new 0 Suc) = Inr (ids, m) \<and> distinct ids \<and> 0 \<notin> set ids \<and>
     set ids = active_ids m \<and> map (\<lambda>i. get_future i m) ids = map Inr [2, 4])"
  using promise_table_refines_pool [of "[Acquire 1, Acquire 2, Complete 0, Acquire 3, Resolve 1 Suc]" 0 Suc]
  by (simp add: drop_nth_def)

text \<open>giving the id of an outstanding request back twice breaks the table: the free list loops
  on that entry, and the next two requests get the same id, so the second one's promise replaces
  the first one's while both are outstanding.\<close>

theorem double_remove_shares_id:
  assumes "pr_inv m" and "i \<in> active_ids m"
  shows "\<exists>m1 m2 m3 m4. remove_pr i m = Inr m1 \<and> remove_pr i m1 = Inr m2 \<and>
    acquire_pr p m2 = Inr (i, m3) \<and> acquire_pr q m3 = Inr (i, m4) \<and> get_future i m4 = Inr q"
proof -
  have "unat i < length (pr_array m)" using assms(2) by (simp add: active_ids_def)
  moreover have "i \<noteq> 0" using assms unfolding pr_inv_def by blast
  ultimately show ?thesis by (simp add: remove_pr_eq acquire_pr_eq get_future_def get_node_def occupy_def)
qed

theorem double_remove_shares_id_witness:
  "\<exists>m. acquire_pr (1::nat) (pr_manager_new 0 id) = Inr (1, m) \<and>
    (\<exists>m1 m2 m3 m4. remove_pr 1 m = Inr m1 \<and> remove_pr 1 m1 = Inr m2 \<and>
      acquire_pr 2 m2 = Inr (1, m3) \<and> acquire_pr 3 m3 = Inr (1, m4) \<and> get_future 1 m4 = Inr 3)"
proof -
  have "pr_inv (pr_manager_new 0 id)" by (rule pr_inv_new)
  from acquire_extend [OF this, of "1::nat"] obtain i m where
    a: "acquire_pr (1::nat) (pr_manager_new 0 id) = Inr (i, m)" "unat i = 1" "pr_inv m" "i \<in> active_ids m"
    by (auto simp: pr_manager_new_def)
  from a(2) have "i = 1" by (simp add: word_unat_eq_iff)
  with a double_remove_shares_id [of m 1 2 3] show ?thesis by auto
qed

end
