(* ===== verification/Actor_Core.thy ===== *)
theory Actor_Core
  imports Actor_Message Actor_Scheduling Promise_Manager
begin

text \<open>
  The actor objects of one shard and what they do to each other (\<open>core/actor_core.hh\<close>,
  \<open>core/actor_core.cc\<close>, the state of \<open>core/actor-template.hh\<close> and \<open>core/root_actor_group.hh\<close>, the
  scheduling hook of the seastar patch). An object is identified by its path, the list of child
  ids from itself up to a child of the root: the parent keeps the entry of a child in its instance
  map for good (a null pointer after the child stopped), so a path never names two objects. A
  pointer to an object that was deleted is a path without an object; following it is the fault
  \<open>Null_deref\<close>.

  User code is a parameter, the record \<open>actor_env\<close>: what \<open>do_work\<close> and the continuations of an actor
  do, as functions of a user state that return the messages they send and the continuations they
  make ready. When a turn of an actor ends is decided by clocks and the reactor; the answers of
  \<open>need_yield\<close> are an input, the list \<open>yields\<close>. The memory of the shard has room for \<open>max_objs\<close> objects,
  after which \<open>new\<close> throws. The activation semaphore holds more units than a
  32-bit count of children can use up; its queue of waiting children is modelled all the same.
\<close>

section \<open>Objects\<close>

datatype schedule_status = INITIALIZED | SCHEDULABLE | SCHEDULED
datatype actor_status = RUNNING | PEACE_STOPPING | FORCE_STOPPING

type_synonym child_id = u64
type_synonym path = "child_id list"

text \<open>The outcome of a future of \<open>do_work\<close>; a continuation of an actor is the code that follows
  \<open>do_work\<close> or one of the user's.\<close>

datatype outcome = Value bool | Failed

datatype 'u task = User_task 'u | Post_work outcome

fun cancel_task :: "'u task \<Rightarrow> 'u task" where
  "cancel_task (Post_work r) = Post_work Failed"
| "cancel_task (User_task u) = User_task u"

record children =
  inst_map :: "(child_id \<times> bool) list"
  num_managed :: u32
  sem_count :: int
  sem_waiters :: "child_id list"

record group_part =
  group_children :: children
  group_tasks :: "child_id task_queue"
  cancel_request_sid :: u32
  cancel_request_pr_id :: u32

record 'u actor_part =
  actor_tasks :: "'u task list"
  max_concurrency :: u32
  cur_concurrency :: u32

datatype 'u part = Group group_part | Actor "'u actor_part"

record ('d, 'u) obj =
  sched_status :: schedule_status
  stop_status :: actor_status
  mailbox :: "'d actor_message list"
  part :: "'u part"

definition stopping :: "('d, 'u) obj \<Rightarrow> bool" where
  "stopping a \<longleftrightarrow> stop_status a \<noteq> RUNNING"

definition force_stopping :: "('d, 'u) obj \<Rightarrow> bool" where
  "force_stopping a \<longleftrightarrow> stop_status a = FORCE_STOPPING"

definition activatable :: "('d, 'u) obj \<Rightarrow> bool" where
  "activatable a \<longleftrightarrow> sched_status a = SCHEDULABLE"

text \<open>\<open>_total_addr_length\<close>: that of the execution context plus one layer.\<close>

definition total_addr_length :: "path \<Rightarrow> byte" where
  "total_addr_length p = word_of_nat (GShardIdInBytes + GLocalActorAddrLength * length p)"

section \<open>The shard\<close>

datatype 'm promise = Unresolved | Resolved 'm | Broken

record ('d, 'u, 's) shard =
  objs :: "path \<Rightarrow> ('d, 'u) obj option"
  live_count :: nat
  root_children :: children
  root_stop :: actor_status
  engine_q :: "child_id list"
  response_prs :: "'d actor_message promise pr_manager"
  inbox :: "'d actor_message list"
  outbox :: "'d actor_message list"
  exits :: nat
  yields :: "bool list"
  user_state :: 's

datatype kind = Actor_kind bool | Group_kind "(child_id \<Rightarrow> child_id \<Rightarrow> bool) option"

datatype work = Work_done outcome | Work_pending

record ('d, 'u, 's) actor_env =
  do_work :: "path \<Rightarrow> 'd actor_message \<Rightarrow> 's \<Rightarrow> work \<times> 'd actor_message list \<times> 'u task list \<times> 's"
  user_task :: "path \<Rightarrow> 'u \<Rightarrow> 's \<Rightarrow> 'd actor_message list \<times> 'u task list \<times> 's"
  factory :: "u16 \<Rightarrow> kind res"
  max_objs :: nat
  heap_make :: "child_id make_heap"
  heap_pop :: "child_id pop_heap"
  this_gsid :: u32
  addr_junk :: "byte list"
  canceled_text :: 'd
  as_string :: "'d \<Rightarrow> bool"

definition get_obj :: "path \<Rightarrow> ('d, 'u, 's) shard \<Rightarrow> ('d, 'u) obj res" where
  "get_obj p s = (case objs s p of None \<Rightarrow> Inl Null_deref | Some a \<Rightarrow> Inr a)"

definition set_obj :: "path \<Rightarrow> ('d, 'u) obj \<Rightarrow> ('d, 'u, 's) shard \<Rightarrow> ('d, 'u, 's) shard" where
  "set_obj p a s = s\<lparr>objs := (objs s)(p \<mapsto> a)\<rparr>"

definition get_group :: "path \<Rightarrow> ('d, 'u, 's) shard \<Rightarrow> group_part res" where
  "get_group p s = bind_res (get_obj p s) (\<lambda>a. case part a of Group g \<Rightarrow> Inr g | Actor _ \<Rightarrow> Inl Bad_cast)"

definition set_group :: "path \<Rightarrow> group_part \<Rightarrow> ('d, 'u, 's) shard \<Rightarrow> ('d, 'u, 's) shard res" where
  "set_group p g s = bind_res (get_obj p s) (\<lambda>a. Inr (set_obj p (a\<lparr>part := Group g\<rparr>) s))"

definition get_actor :: "path \<Rightarrow> ('d, 'u, 's) shard \<Rightarrow> 'u actor_part res" where
  "get_actor p s = bind_res (get_obj p s) (\<lambda>a. case part a of Actor k \<Rightarrow> Inr k | Group _ \<Rightarrow> Inl Bad_cast)"

definition set_actor :: "path \<Rightarrow> 'u actor_part \<Rightarrow> ('d, 'u, 's) shard \<Rightarrow> ('d, 'u, 's) shard res" where
  "set_actor p k s = bind_res (get_obj p s) (\<lambda>a. Inr (set_obj p (a\<lparr>part := Actor k\<rparr>) s))"

definition get_children :: "path \<Rightarrow> ('d, 'u, 's) shard \<Rightarrow> children res" where
  "get_children p s =
     (if p = [] then Inr (root_children s) else bind_res (get_group p s) (\<lambda>g. Inr (group_children g)))"

definition set_children :: "path \<Rightarrow> children \<Rightarrow> ('d, 'u, 's) shard \<Rightarrow> ('d, 'u, 's) shard res" where
  "set_children p ch s =
     (if p = [] then Inr (s\<lparr>root_children := ch\<rparr>)
      else bind_res (get_group p s) (\<lambda>g. set_group p (g\<lparr>group_children := ch\<rparr>) s))"

section \<open>Activation\<close>

text \<open>\<open>activate\<close> and, through \<open>seastar::schedule\<close>, \<open>add_task\<close> of the execution context: the reactor's
  queue for a child of the root, the group's queue and the group's own activation otherwise.\<close>

fun activate :: "path \<Rightarrow> ('d, 'u, 's) shard \<Rightarrow> ('d, 'u, 's) shard res" where
  "activate [] s = Inr s"
| "activate (c # p) s =
     bind_res (get_obj (c # p) s) (\<lambda>a.
       if activatable a then
         (let s1 = set_obj (c # p) (a\<lparr>sched_status := SCHEDULED\<rparr>) s
          in if p = [] then Inr (s1\<lparr>engine_q := engine_q s1 @ [c]\<rparr>)
             else bind_res (get_group p s1) (\<lambda>g.
                  bind_res (set_group p (g\<lparr>group_tasks := push_task c (group_tasks g)\<rparr>) s1) (\<lambda>s2.
                    activate p s2)))
       else Inr s)"

definition set_activatable :: "path \<Rightarrow> ('d, 'u, 's) shard \<Rightarrow> ('d, 'u, 's) shard res" where
  "set_activatable p s =
     bind_res (get_obj p s) (\<lambda>a. Inr (set_obj p (a\<lparr>sched_status := SCHEDULABLE\<rparr>) s))"

definition schedule_child :: "path \<Rightarrow> ('d, 'u, 's) shard \<Rightarrow> ('d, 'u, 's) shard res" where
  "schedule_child p s =
     bind_res (get_obj p s) (\<lambda>a.
       assert_res (sched_status a = INITIALIZED)
         (bind_res (set_activatable p s) (activate p)))"

text \<open>\<open>add_task\<close> of an actor: a continuation of the actor became ready.\<close>

definition actor_add_task :: "path \<Rightarrow> 'u task \<Rightarrow> ('d, 'u, 's) shard \<Rightarrow> ('d, 'u, 's) shard res" where
  "actor_add_task p t s =
     bind_res (get_actor p s) (\<lambda>k.
     bind_res (set_actor p (k\<lparr>actor_tasks := actor_tasks k @ [t]\<rparr>) s) (activate p))"

definition actor_add_urgent_task :: "path \<Rightarrow> 'u task \<Rightarrow> ('d, 'u, 's) shard \<Rightarrow> ('d, 'u, 's) shard res" where
  "actor_add_urgent_task p t s =
     bind_res (get_actor p s) (\<lambda>k.
     bind_res (set_actor p (k\<lparr>actor_tasks := t # actor_tasks k\<rparr>) s) (activate p))"

section \<open>Mailboxes\<close>

definition enque_message :: "'d actor_message \<Rightarrow> path \<Rightarrow> ('d, 'u, 's) shard \<Rightarrow> ('d, 'u, 's) shard res" where
  "enque_message m p s =
     bind_res (get_obj p s) (\<lambda>a. activate p (set_obj p (a\<lparr>mailbox := mailbox a @ [m]\<rparr>) s))"

definition enque_urgent_message ::
    "'d actor_message \<Rightarrow> path \<Rightarrow> ('d, 'u, 's) shard \<Rightarrow> ('d, 'u, 's) shard res" where
  "enque_urgent_message m p s =
     bind_res (get_obj p s) (\<lambda>a. activate p (set_obj p (a\<lparr>mailbox := m # mailbox a\<rparr>) s))"

definition deque_message :: "path \<Rightarrow> ('d, 'u, 's) shard \<Rightarrow> ('d actor_message \<times> ('d, 'u, 's) shard) res" where
  "deque_message p s =
     bind_res (get_obj p s) (\<lambda>a.
       case mailbox a of
         [] \<Rightarrow> Inl Out_of_bounds
       | m # ms \<Rightarrow> Inr (m, set_obj p (a\<lparr>mailbox := ms\<rparr>) s))"

definition clean_mailbox :: "path \<Rightarrow> ('d, 'u, 's) shard \<Rightarrow> ('d, 'u, 's) shard res" where
  "clean_mailbox p s = bind_res (get_obj p s) (\<lambda>a. Inr (set_obj p (a\<lparr>mailbox := []\<rparr>) s))"

definition need_yield :: "('d, 'u, 's) shard \<Rightarrow> bool \<times> ('d, 'u, 's) shard" where
  "need_yield s = (case yields s of [] \<Rightarrow> (False, s) | b # bs \<Rightarrow> (b, s\<lparr>yields := bs\<rparr>))"

section \<open>Creating a child\<close>

definition GMaxActiveChildNum :: int where
  "GMaxActiveChildNum = 2 ^ 63 - 1"

definition children_new :: children where
  "children_new = \<lparr>inst_map = [], num_managed = 0, sem_count = GMaxActiveChildNum, sem_waiters = []\<rparr>"

definition new_part :: "kind \<Rightarrow> 'u part" where
  "new_part k = (case k of
     Actor_kind reentrant \<Rightarrow>
       Actor \<lparr>actor_tasks = [], max_concurrency = (if reentrant then - 1 else 1), cur_concurrency = 0\<rparr>
   | Group_kind cmp \<Rightarrow>
       Group \<lparr>group_children = children_new,
              group_tasks = (case cmp of None \<Rightarrow> task_queue_new | Some f \<Rightarrow> set_comparator f task_queue_new),
              cancel_request_sid = - 1, cancel_request_pr_id = 0\<rparr>)"

definition new_obj :: "kind \<Rightarrow> ('d, 'u) obj" where
  "new_obj k = \<lparr>sched_status = INITIALIZED, stop_status = RUNNING, mailbox = [], part = new_part k\<rparr>"

definition create_child ::
    "('d, 'u, 's) actor_env \<Rightarrow> path \<Rightarrow> child_id \<Rightarrow> u16 \<Rightarrow> ('d, 'u, 's) shard \<Rightarrow> ('d, 'u, 's) shard res" where
  "create_child env p c tid s =
     bind_res (factory env tid) (\<lambda>k.
     if max_objs env \<le> live_count s then Inl (Thrown ''bad_alloc'')
     else bind_res (get_children p s) (\<lambda>ch.
       let s1 = (set_obj (c # p) (new_obj k) s)\<lparr>live_count := live_count s + 1\<rparr>;
           ch1 = ch\<lparr>inst_map := inst_map ch @ [(c, True)], num_managed := num_managed ch + 1\<rparr>
       in if 0 < sem_count ch1
          then bind_res (set_children p (ch1\<lparr>sem_count := sem_count ch1 - 1\<rparr>) s1) (schedule_child (c # p))
          else set_children p (ch1\<lparr>sem_waiters := sem_waiters ch1 @ [c]\<rparr>) s1))"

text \<open>Releasing a unit of the semaphore lets the first waiting child be scheduled.\<close>

definition signal_sem :: "path \<Rightarrow> ('d, 'u, 's) shard \<Rightarrow> ('d, 'u, 's) shard res" where
  "signal_sem p s =
     bind_res (get_children p s) (\<lambda>ch.
       case sem_waiters ch of
         [] \<Rightarrow> set_children p (ch\<lparr>sem_count := sem_count ch + 1\<rparr>) s
       | c # cs \<Rightarrow> bind_res (set_children p (ch\<lparr>sem_waiters := cs\<rparr>) s) (schedule_child (c # p)))"

end
