(* ===== verification/Actor_Run.thy ===== *)
theory Actor_Run
  imports Actor_Core
begin

text \<open>
  What actors, actor groups and the root of a shard do (\<open>core/actor-template.cc\<close>,
  \<open>core/root_actor_group.cc\<close>): finding or creating the destination of a message, stopping, one turn
  of an actor (\<open>actor::run_and_dispose\<close>) and of a group, and the handlers of the root. The loops of a
  turn end when their queues are empty or the turn is over; user code can keep them going, so they
  are partial functions and a turn that never ends is \<open>None\<close>. A request to stop the whole shard that
  is sent from inside a turn goes to \<open>inbox\<close> and is received when the turn is over; every other
  message to this shard is received at once.
\<close>

section \<open>Responses\<close>

definition receive_response ::
    "('d, 'u, 's) actor_env \<Rightarrow> 'd actor_message \<Rightarrow> ('d, 'u, 's) shard \<Rightarrow> ('d, 'u, 's) shard res" where
  "receive_response env m s =
     (let h = msg_hdr m; pr_id = hdr_pr_id h
      in if m_type h = RESPONSE then
           bind_res (is_active pr_id (response_prs s)) (\<lambda>act.
             if act then bind_res (set_pr pr_id (\<lambda>_. Resolved m) (response_prs s))
                           (\<lambda>prs. Inr (s\<lparr>response_prs := prs\<rparr>))
             else Inr s)
         else
           bind_res (is_active pr_id (response_prs s)) (\<lambda>act.
             if act then
               (case m of
                  With_payload _ d \<Rightarrow>
                    if as_string env d
                    then bind_res (set_pr pr_id (\<lambda>_. Broken) (response_prs s))
                           (\<lambda>prs. Inr (s\<lparr>response_prs := prs\<rparr>))
                    else Inl Bad_cast
                | _ \<Rightarrow> Inl Bad_cast)
             else Inr s))"

definition send_response ::
    "('d, 'u, 's) actor_env \<Rightarrow> 'd actor_message \<Rightarrow> ('d, 'u, 's) shard \<Rightarrow> ('d, 'u, 's) shard res" where
  "send_response env m s =
     bind_res (get_shard_id (hdr_addr (msg_hdr m))) (\<lambda>sid.
       if sid \<noteq> this_gsid env then Inr (s\<lparr>outbox := outbox s @ [m]\<rparr>) else receive_response env m s)"

definition stopped_actor_enqueue ::
    "('d, 'u, 's) actor_env \<Rightarrow> 'd actor_message \<Rightarrow> ('d, 'u, 's) shard \<Rightarrow> ('d, 'u, 's) shard res" where
  "stopped_actor_enqueue env m s =
     (if hdr_pr_id (msg_hdr m) \<noteq> 0
      then bind_res (make_response_with_data (addr_junk env) (src_shard_id (msg_hdr m)) (canceled_text env)
                       (hdr_pr_id (msg_hdr m)) EXCEPTION_RESPONSE)
             (\<lambda>r. send_response env r s)
      else Inr s)"

section \<open>Finding the destination\<close>

text \<open>\<open>n\<close> is the number of address layers below \<open>p\<close> that the data array can hold; a group that looks
  for a child beyond them reads outside the array.\<close>

fun get_actor_local ::
    "('d, 'u, 's) actor_env \<Rightarrow> address \<Rightarrow> nat \<Rightarrow> path \<Rightarrow> ('d, 'u, 's) shard \<Rightarrow>
     (path option \<times> ('d, 'u, 's) shard) res" where
  "get_actor_local env addr 0 p s =
     bind_res (get_obj p s) (\<lambda>a. case part a of Actor _ \<Rightarrow> Inr (Some p, s) | Group _ \<Rightarrow> Inl Out_of_bounds)"
| "get_actor_local env addr (Suc n) p s =
     bind_res (get_obj p s) (\<lambda>a. case part a of
       Actor _ \<Rightarrow> Inr (Some p, s)
     | Group g \<Rightarrow>
         bind_res (child_id_at (unat (total_addr_length p)) addr) (\<lambda>c.
           case map_of (inst_map (group_children g)) c of
             Some False \<Rightarrow> Inr (None, s)
           | Some True \<Rightarrow>
               if addr_length addr = total_addr_length (c # p) then Inr (Some (c # p), s)
               else get_actor_local env addr n (c # p) s
           | None \<Rightarrow>
               bind_res (child_type_at (unat (total_addr_length p)) addr) (\<lambda>tid.
               bind_res (create_child env p c tid s) (\<lambda>s1.
                 if addr_length addr = total_addr_length (c # p) then Inr (Some (c # p), s1)
                 else get_actor_local env addr n (c # p) s1))))"

definition deliver_to ::
    "'d actor_message \<Rightarrow> path \<Rightarrow> ('d, 'u, 's) shard \<Rightarrow> ('d, 'u, 's) shard res" where
  "deliver_to m p s =
     (if m_type (msg_hdr m) = USER then enque_message m p s else enque_urgent_message m p s)"

definition receive_actor ::
    "('d, 'u, 's) actor_env \<Rightarrow> 'd actor_message \<Rightarrow> ('d, 'u, 's) shard \<Rightarrow> ('d, 'u, 's) shard res" where
  "receive_actor env m s =
     (let addr = hdr_addr (msg_hdr m)
      in bind_res (child_id_at (unat (total_addr_length [])) addr) (\<lambda>c.
           case map_of (inst_map (root_children s)) c of
             Some False \<Rightarrow> stopped_actor_enqueue env m s
           | Some True \<Rightarrow>
               bind_res (if addr_length addr = total_addr_length [c] then Inr (Some [c], s)
                         else get_actor_local env addr 7 [c] s) (\<lambda>(dest, s1).
                 case dest of Some p \<Rightarrow> deliver_to m p s1 | None \<Rightarrow> stopped_actor_enqueue env m s1)
           | None \<Rightarrow>
               if root_stop s \<noteq> RUNNING then stopped_actor_enqueue env m s
               else bind_res (child_type_at (unat (total_addr_length [])) addr) (\<lambda>tid.
                    bind_res (create_child env [] c tid s) (\<lambda>s1.
                    bind_res (if addr_length addr = total_addr_length [c] then Inr (Some [c], s1)
                              else get_actor_local env addr 7 [c] s1) (\<lambda>(dest, s2).
                      case dest of Some p \<Rightarrow> deliver_to m p s2 | None \<Rightarrow> Inl Null_deref)))))"

text \<open>\<open>root_actor_group::send\<close> from inside a turn.\<close>

definition send_in_turn ::
    "('d, 'u, 's) actor_env \<Rightarrow> 'd actor_message \<Rightarrow> ('d, 'u, 's) shard \<Rightarrow> ('d, 'u, 's) shard res" where
  "send_in_turn env m s =
     (let h = msg_hdr m
      in bind_res (get_shard_id (hdr_addr h)) (\<lambda>sid.
           if sid \<noteq> this_gsid env then Inr (s\<lparr>outbox := outbox s @ [m]\<rparr>)
           else if addr_length (hdr_addr h) = total_addr_length [] then
             (if m_type h = RESPONSE \<or> m_type h = EXCEPTION_RESPONSE then receive_response env m s
              else if m_type h = PEACE_STOP \<or> m_type h = FORCE_STOP then Inr (s\<lparr>inbox := inbox s @ [m]\<rparr>)
              else Inl Assert_failed)
           else receive_actor env m s))"

section \<open>Stopping\<close>

definition mark_null :: "child_id \<Rightarrow> (child_id \<times> bool) list \<Rightarrow> (child_id \<times> bool) list" where
  "mark_null c m = map (\<lambda>(k, v). if k = c then (k, False) else (k, v)) m"

text \<open>The entry of the child at \<open>p\<close> in its parent's instance map. A group looks it up without checking
  that it exists, the root asserts that it does.\<close>

definition child_entry :: "path \<Rightarrow> ('d, 'u, 's) shard \<Rightarrow> bool res" where
  "child_entry p s =
     bind_res (get_children (tl p) s) (\<lambda>ch.
       case map_of (inst_map ch) (hd p) of
         None \<Rightarrow> Inl (if tl p = [] then Assert_failed else Null_deref)
       | Some v \<Rightarrow> Inr v)"

definition null_child_entry :: "path \<Rightarrow> ('d, 'u, 's) shard \<Rightarrow> ('d, 'u, 's) shard res" where
  "null_child_entry p s =
     bind_res (get_children (tl p) s) (\<lambda>ch.
       set_children (tl p) (ch\<lparr>inst_map := mark_null (hd p) (inst_map ch)\<rparr>) s)"

definition apply_user ::
    "('d, 'u, 's) actor_env \<Rightarrow> path \<Rightarrow> 'd actor_message list \<Rightarrow> 'u task list \<Rightarrow> 's \<Rightarrow>
     ('d, 'u, 's) shard \<Rightarrow> ('d, 'u, 's) shard res" where
  "apply_user env p msgs ts st s =
     bind_res (fold_res (send_in_turn env) msgs (s\<lparr>user_state := st\<rparr>)) (fold_res (actor_add_task p) ts)"

definition dec_concurrency :: "path \<Rightarrow> ('d, 'u, 's) shard \<Rightarrow> ('d, 'u, 's) shard res" where
  "dec_concurrency p s =
     bind_res (get_actor p s) (\<lambda>k. set_actor p (k\<lparr>cur_concurrency := cur_concurrency k - 1\<rparr>) s)"

text \<open>A task that runs while its actor is being force-stopped: stopping the actor again returns at
  once, so that only the entry in the parent's map changes.\<close>

definition run_task_while_stopping ::
    "('d, 'u, 's) actor_env \<Rightarrow> path \<Rightarrow> 'u task \<Rightarrow> ('d, 'u, 's) shard \<Rightarrow> ('d, 'u, 's) shard res" where
  "run_task_while_stopping env p t s =
     (case t of
        User_task u \<Rightarrow> (case user_task env p u (user_state s) of (msgs, ts, st) \<Rightarrow> apply_user env p msgs ts st s)
      | Post_work r \<Rightarrow>
          bind_res (dec_concurrency p s) (\<lambda>s1.
            case r of
              Failed \<Rightarrow> Inr s1
            | Value stop \<Rightarrow>
                if stop then bind_res (child_entry p s1) (\<lambda>live. if live then null_child_entry p s1 else Inr s1)
                else Inr s1))"

partial_function (option) run_stopped_tasks ::
    "('d, 'u, 's) actor_env \<Rightarrow> path \<Rightarrow> ('d, 'u, 's) shard \<Rightarrow> ('d, 'u, 's) shard res option" where
  "run_stopped_tasks env p s =
     bind_run (Some (get_actor p s)) (\<lambda>k.
       case actor_tasks k of
         [] \<Rightarrow> Some (Inr s)
       | t # ts \<Rightarrow>
           bind_run (Some (bind_res (set_actor p (k\<lparr>actor_tasks := ts\<rparr>) s) (run_task_while_stopping env p t)))
             (run_stopped_tasks env p))"

declare run_stopped_tasks.simps [code]

definition clean_task_queue ::
    "('d, 'u, 's) actor_env \<Rightarrow> path \<Rightarrow> ('d, 'u, 's) shard \<Rightarrow> ('d, 'u, 's) shard res option" where
  "clean_task_queue env p s =
     bind_run (Some (get_obj p s)) (\<lambda>a.
       if mailbox a = [] \<and> force_stopping a then
         bind_run (Some (get_actor p s)) (\<lambda>k.
         bind_run (Some (set_actor p (k\<lparr>actor_tasks := map cancel_task (actor_tasks k)\<rparr>) s))
           (run_stopped_tasks env p))
       else Some (Inl Assert_failed))"

definition set_stop_status :: "path \<Rightarrow> actor_status \<Rightarrow> ('d, 'u, 's) shard \<Rightarrow> ('d, 'u, 's) shard res" where
  "set_stop_status p st s = bind_res (get_obj p s) (\<lambda>a. Inr (set_obj p (a\<lparr>stop_status := st\<rparr>) s))"

definition actor_stop ::
    "('d, 'u, 's) actor_env \<Rightarrow> path \<Rightarrow> bool \<Rightarrow> ('d, 'u, 's) shard \<Rightarrow> ('d, 'u, 's) shard res option" where
  "actor_stop env p force s =
     bind_run (Some (get_obj p s)) (\<lambda>a.
       if stopping a then Some (Inr s)
       else
         bind_run
           (if force then
              bind_run (Some (bind_res (set_stop_status p FORCE_STOPPING s) (clean_mailbox p)))
                (clean_task_queue env p)
            else Some (set_stop_status p PEACE_STOPPING s))
           (\<lambda>s1. bind_run (Some (get_obj p s1)) (\<lambda>a1. bind_run (Some (get_actor p s1)) (\<lambda>k1.
              if activatable a1 \<and> cur_concurrency k1 = 0 then Some (activate p s1) else Some (Inr s1)))))"

definition stop_message :: "('d, 'u, 's) actor_env \<Rightarrow> bool \<Rightarrow> 'd actor_message" where
  "stop_message env force =
     make_system_message (address_default (addr_junk env)) (if force then FORCE_STOP else PEACE_STOP)"

definition stop_all_children ::
    "('d, 'u, 's) actor_env \<Rightarrow> path \<Rightarrow> bool \<Rightarrow> ('d, 'u, 's) shard \<Rightarrow> ('d, 'u, 's) shard res" where
  "stop_all_children env p force s =
     bind_res (get_group p s) (\<lambda>g.
       fold_res (\<lambda>(c, live) s. if live then enque_urgent_message (stop_message env force) (c # p) s else Inr s)
         (inst_map (group_children g)) s)"

text \<open>Breaking the semaphore fails the waiting futures, whose callbacks schedule their children all
  the same.\<close>

definition break_sem :: "path \<Rightarrow> ('d, 'u, 's) shard \<Rightarrow> ('d, 'u, 's) shard res" where
  "break_sem p s =
     bind_res (get_children p s) (\<lambda>ch.
     bind_res (set_children p (ch\<lparr>sem_waiters := []\<rparr>) s)
       (fold_res (\<lambda>c. schedule_child (c # p)) (sem_waiters ch)))"

definition group_stop ::
    "('d, 'u, 's) actor_env \<Rightarrow> path \<Rightarrow> bool \<Rightarrow> ('d, 'u, 's) shard \<Rightarrow> ('d, 'u, 's) shard res" where
  "group_stop env p force s =
     bind_res (get_obj p s) (\<lambda>a.
       if stopping a then Inr s
       else
         bind_res
           (if force then
              bind_res (set_stop_status p FORCE_STOPPING s) (\<lambda>s1.
              bind_res (break_sem p s1) (\<lambda>s2.
              bind_res (stop_all_children env p force s2) (clean_mailbox p)))
            else bind_res (set_stop_status p PEACE_STOPPING s) (stop_all_children env p force))
           (\<lambda>s1. bind_res (get_obj p s1) (\<lambda>a1. bind_res (get_children p s1) (\<lambda>ch.
              if num_managed ch = 0 \<and> activatable a1 then activate p s1 else Inr s1))))"

definition obj_stop ::
    "('d, 'u, 's) actor_env \<Rightarrow> path \<Rightarrow> bool \<Rightarrow> ('d, 'u, 's) shard \<Rightarrow> ('d, 'u, 's) shard res option" where
  "obj_stop env p force s =
     bind_run (Some (get_obj p s)) (\<lambda>a.
       case part a of Actor _ \<Rightarrow> actor_stop env p force s | Group _ \<Rightarrow> Some (group_stop env p force s))"

text \<open>\<open>stop_child_actor\<close> of the parent, called by the object at \<open>p\<close> on itself.\<close>

definition stop_child_actor ::
    "('d, 'u, 's) actor_env \<Rightarrow> path \<Rightarrow> bool \<Rightarrow> ('d, 'u, 's) shard \<Rightarrow> ('d, 'u, 's) shard res option" where
  "stop_child_actor env p force s =
     bind_run (Some (child_entry p s)) (\<lambda>live.
       if live then bind_run (obj_stop env p force s) (\<lambda>s1. Some (null_child_entry p s1))
       else Some (Inr s))"

definition wait_others_and_exit :: "('d, 'u, 's) shard \<Rightarrow> ('d, 'u, 's) shard" where
  "wait_others_and_exit s = s\<lparr>exits := exits s + 1\<rparr>"

definition notify_child_stopped :: "path \<Rightarrow> ('d, 'u, 's) shard \<Rightarrow> ('d, 'u, 's) shard res" where
  "notify_child_stopped p s =
     bind_res (get_children p s) (\<lambda>ch.
     bind_res (set_children p (ch\<lparr>num_managed := num_managed ch - 1\<rparr>) s) (\<lambda>s1.
       signal_sem p
         (if p = [] \<and> num_managed ch - 1 = 0 \<and> root_stop s1 \<noteq> RUNNING then wait_others_and_exit s1 else s1)))"

definition delete_obj :: "path \<Rightarrow> ('d, 'u, 's) shard \<Rightarrow> ('d, 'u, 's) shard" where
  "delete_obj p s = s\<lparr>objs := (objs s)(p := None), live_count := live_count s - 1\<rparr>"

section \<open>A turn of an actor\<close>

definition run_task ::
    "('d, 'u, 's) actor_env \<Rightarrow> path \<Rightarrow> 'u task \<Rightarrow> ('d, 'u, 's) shard \<Rightarrow> ('d, 'u, 's) shard res option" where
  "run_task env p t s =
     (case t of
        User_task u \<Rightarrow>
          (case user_task env p u (user_state s) of (msgs, ts, st) \<Rightarrow> Some (apply_user env p msgs ts st s))
      | Post_work r \<Rightarrow>
          bind_run (Some (dec_concurrency p s)) (\<lambda>s1.
            case r of
              Failed \<Rightarrow> Some (Inr s1)
            | Value stop \<Rightarrow> if stop then stop_child_actor env p True s1 else Some (Inr s1)))"

text \<open>The result says whether the turn ended in the loop.\<close>

partial_function (option) run_ready_tasks ::
    "('d, 'u, 's) actor_env \<Rightarrow> path \<Rightarrow> ('d, 'u, 's) shard \<Rightarrow> (bool \<times> ('d, 'u, 's) shard) res option" where
  "run_ready_tasks env p s =
     bind_run (Some (get_actor p s)) (\<lambda>k.
       case actor_tasks k of
         [] \<Rightarrow> Some (Inr (False, s))
       | t # ts \<Rightarrow>
           bind_run (Some (set_actor p (k\<lparr>actor_tasks := ts\<rparr>) s)) (\<lambda>s1.
           bind_run (run_task env p t s1) (\<lambda>s2.
             case need_yield s2 of (y, s3) \<Rightarrow>
               if y then Some (Inr (True, s3)) else run_ready_tasks env p s3)))"

declare run_ready_tasks.simps [code]

text \<open>One message; the result says whether the concurrency limit was reached.\<close>

definition process_message ::
    "('d, 'u, 's) actor_env \<Rightarrow> path \<Rightarrow> 'd actor_message \<Rightarrow> ('d, 'u, 's) shard \<Rightarrow>
     (bool \<times> ('d, 'u, 's) shard) res option" where
  "process_message env p m s =
     (let mt = m_type (msg_hdr m)
      in if mt = USER then
           (case do_work env p m (user_state s) of (w, msgs, ts, st) \<Rightarrow>
             bind_run (Some (apply_user env p msgs ts st s)) (\<lambda>s1.
               case w of
                 Work_pending \<Rightarrow>
                   bind_run (Some (get_actor p s1)) (\<lambda>k.
                   bind_run (Some (set_actor p (k\<lparr>cur_concurrency := cur_concurrency k + 1\<rparr>) s1)) (\<lambda>s2.
                     Some (Inr (cur_concurrency k + 1 = max_concurrency k, s2))))
               | Work_done Failed \<Rightarrow> Some (Inr (False, s1))
               | Work_done (Value stop) \<Rightarrow>
                   bind_run (if stop then stop_child_actor env p True s1 else Some (Inr s1)) (\<lambda>s2.
                     Some (Inr (False, s2)))))
         else if mt = PEACE_STOP then
           bind_run (stop_child_actor env p False s) (\<lambda>s1. Some (Inr (False, s1)))
         else if mt = FORCE_STOP then
           bind_run (stop_child_actor env p True s) (\<lambda>s1. Some (Inr (False, s1)))
         else Some (Inl Assert_failed))"

partial_function (option) process_mailbox ::
    "('d, 'u, 's) actor_env \<Rightarrow> path \<Rightarrow> ('d, 'u, 's) shard \<Rightarrow> ('d, 'u, 's) shard res option" where
  "process_mailbox env p s =
     bind_run (Some (get_obj p s)) (\<lambda>a.
       if mailbox a = [] then Some (Inr s)
       else
         bind_run (Some (deque_message p s)) (\<lambda>(m, s1).
         bind_run (process_message env p m s1) (\<lambda>(limit, s2).
           if limit then Some (Inr s2)
           else (case need_yield s2 of (y, s3) \<Rightarrow>
                  if y then Some (Inr s3) else process_mailbox env p s3))))"

declare process_mailbox.simps [code]

definition finish_actor_turn :: "path \<Rightarrow> ('d, 'u, 's) shard \<Rightarrow> ('d, 'u, 's) shard res" where
  "finish_actor_turn p s =
     bind_res (get_obj p s) (\<lambda>a.
     bind_res (get_actor p s) (\<lambda>k.
       if stopping a \<and> cur_concurrency k = 0 \<and> mailbox a = [] then
         bind_res (notify_child_stopped (tl p) s) (\<lambda>s1. Inr (delete_obj p s1))
       else
         bind_res (set_activatable p s) (\<lambda>s1.
           if actor_tasks k \<noteq> [] \<or> (mailbox a \<noteq> [] \<and> cur_concurrency k < max_concurrency k)
           then activate p s1 else Inr s1)))"

definition actor_run ::
    "('d, 'u, 's) actor_env \<Rightarrow> path \<Rightarrow> ('d, 'u, 's) shard \<Rightarrow> ('d, 'u, 's) shard res option" where
  "actor_run env p s =
     bind_run (Some (get_obj p s)) (\<lambda>a.
     bind_run (Some (get_actor p s)) (\<lambda>k.
     bind_run (Some (set_actor p
         (if force_stopping a then k\<lparr>actor_tasks := map cancel_task (actor_tasks k)\<rparr> else k) s)) (\<lambda>s1.
     bind_run (run_ready_tasks env p s1) (\<lambda>(yielded, s2).
       if yielded then Some (finish_actor_turn p s2)
       else
         bind_run (Some (get_actor p s2)) (\<lambda>k2.
           if cur_concurrency k2 = max_concurrency k2 then Some (set_activatable p s2)
           else bind_run (process_mailbox env p s2) (\<lambda>s3. Some (finish_actor_turn p s3)))))))"

definition set_max_concurrency :: "path \<Rightarrow> u32 \<Rightarrow> ('d, 'u, 's) shard \<Rightarrow> ('d, 'u, 's) shard res" where
  "set_max_concurrency p n s =
     bind_res (get_actor p s) (\<lambda>k. set_actor p (k\<lparr>max_concurrency := (if 0 < n then n else 1)\<rparr>) s)"

section \<open>A turn of an actor group\<close>

definition group_process_message ::
    "('d, 'u, 's) actor_env \<Rightarrow> path \<Rightarrow> 'd actor_message \<Rightarrow> ('d, 'u, 's) shard \<Rightarrow> ('d, 'u, 's) shard res option" where
  "group_process_message env p m s =
     (let h = msg_hdr m
      in if m_type h = PEACE_STOP \<or> m_type h = FORCE_STOP then
           bind_run (stop_child_actor env p (m_type h = FORCE_STOP) s) (\<lambda>s1.
           bind_run (Some (get_group p s1)) (\<lambda>g.
             Some (set_group p (g\<lparr>cancel_request_sid := src_shard_id h, cancel_request_pr_id := hdr_pr_id h\<rparr>) s1)))
         else Some (Inl Assert_failed))"

partial_function (option) group_mailbox ::
    "('d, 'u, 's) actor_env \<Rightarrow> path \<Rightarrow> ('d, 'u, 's) shard \<Rightarrow> (bool \<times> ('d, 'u, 's) shard) res option" where
  "group_mailbox env p s =
     bind_run (Some (get_obj p s)) (\<lambda>a.
       if mailbox a = [] then Some (Inr (False, s))
       else
         bind_run (Some (deque_message p s)) (\<lambda>(m, s1).
         bind_run (group_process_message env p m s1) (\<lambda>s2.
           case need_yield s2 of (y, s3) \<Rightarrow>
             if y then Some (Inr (True, s3)) else group_mailbox env p s3)))"

declare group_mailbox.simps [code]

partial_function (option) group_task_loop ::
    "('d, 'u, 's) actor_env \<Rightarrow> (path \<Rightarrow> ('d, 'u, 's) shard \<Rightarrow> ('d, 'u, 's) shard res option) \<Rightarrow> path \<Rightarrow>
     ('d, 'u, 's) shard \<Rightarrow> ('d, 'u, 's) shard res option" where
  "group_task_loop env run_child p s =
     bind_run (Some (get_group p s)) (\<lambda>g.
       if tq_empty (group_tasks g) then Some (Inr s)
       else
         bind_run (Some (pop_task (heap_make env) (heap_pop env) (group_tasks g))) (\<lambda>(c, tq).
         bind_run (Some (set_group p (g\<lparr>group_tasks := tq\<rparr>) s)) (\<lambda>s1.
         bind_run (run_child (c # p) s1) (\<lambda>s2.
           case need_yield s2 of (y, s3) \<Rightarrow>
             if y then Some (Inr s3) else group_task_loop env run_child p s3))))"

declare group_task_loop.simps [code]

definition finish_group_turn ::
    "('d, 'u, 's) actor_env \<Rightarrow> path \<Rightarrow> ('d, 'u, 's) shard \<Rightarrow> ('d, 'u, 's) shard res" where
  "finish_group_turn env p s =
     bind_res (get_obj p s) (\<lambda>a.
     bind_res (get_group p s) (\<lambda>g.
       if stopping a \<and> num_managed (group_children g) = 0 \<and> tq_empty (group_tasks g) \<and> mailbox a = [] then
         bind_res (notify_child_stopped (tl p) s) (\<lambda>s1.
         bind_res
           (if cancel_request_pr_id g \<noteq> 0 then
              bind_res (make_response_message (addr_junk env) (cancel_request_sid g) (cancel_request_pr_id g) RESPONSE)
                (\<lambda>r. send_response env r s1)
            else Inr s1)
           (\<lambda>s2. Inr (delete_obj p s2)))
       else
         bind_res (set_activatable p s) (\<lambda>s1.
           if mailbox a \<noteq> [] \<or> \<not> tq_empty (group_tasks g) then activate p s1 else Inr s1)))"

text \<open>\<open>cancel_all\<close>, which a force-stopped group calls first, cancels the queued children, and \<open>cancel\<close> of
  an actor does nothing.\<close>

definition group_run ::
    "('d, 'u, 's) actor_env \<Rightarrow> (path \<Rightarrow> ('d, 'u, 's) shard \<Rightarrow> ('d, 'u, 's) shard res option) \<Rightarrow> path \<Rightarrow>
     ('d, 'u, 's) shard \<Rightarrow> ('d, 'u, 's) shard res option" where
  "group_run env run_child p s =
     bind_run (group_mailbox env p s) (\<lambda>(yielded, s1).
     bind_run (if yielded then Some (Inr s1) else group_task_loop env run_child p s1) (\<lambda>s2.
       Some (finish_group_turn env p s2)))"

text \<open>\<open>n\<close> bounds the depth of groups below the object; addresses have room for eight layers.\<close>

primrec run_and_dispose ::
    "nat \<Rightarrow> ('d, 'u, 's) actor_env \<Rightarrow> path \<Rightarrow> ('d, 'u, 's) shard \<Rightarrow> ('d, 'u, 's) shard res option" where
  "run_and_dispose 0 env p s = actor_run env p s"
| "run_and_dispose (Suc n) env p s =
     bind_run (Some (get_obj p s)) (\<lambda>a.
       case part a of
         Actor _ \<Rightarrow> actor_run env p s
       | Group _ \<Rightarrow> group_run env (run_and_dispose n env) p s)"

section \<open>The root of the shard\<close>

text \<open>The reactor runs the oldest task of its queue.\<close>

definition engine_run :: "('d, 'u, 's) actor_env \<Rightarrow> ('d, 'u, 's) shard \<Rightarrow> ('d, 'u, 's) shard res option" where
  "engine_run env s =
     (case engine_q s of
        [] \<Rightarrow> Some (Inr s)
      | c # cs \<Rightarrow> run_and_dispose 8 env [c] (s\<lparr>engine_q := cs\<rparr>))"

definition break_promises :: "'d actor_message promise pr_manager \<Rightarrow> 'd actor_message promise pr_manager res" where
  "break_promises prs =
     fold_res (\<lambda>i prs.
        bind_res (is_active i prs) (\<lambda>act.
          if act then bind_res (set_pr i (\<lambda>_. Broken) prs) (remove_pr i) else Inr prs))
       (map word_of_nat [0..<pr_size prs]) prs"

text \<open>The loop over the instance map, whose entries can turn null while it runs.\<close>

fun stop_root_children ::
    "('d, 'u, 's) actor_env \<Rightarrow> bool \<Rightarrow> child_id list \<Rightarrow> ('d, 'u, 's) shard \<Rightarrow> ('d, 'u, 's) shard res option" where
  "stop_root_children env force [] s = Some (Inr s)"
| "stop_root_children env force (c # cs) s =
     bind_run
       (if map_of (inst_map (root_children s)) c = Some True
        then bind_run (obj_stop env [c] force s) (\<lambda>s1. Some (null_child_entry [c] s1))
        else Some (Inr s))
       (stop_root_children env force cs)"

definition stop_actor_system ::
    "('d, 'u, 's) actor_env \<Rightarrow> bool \<Rightarrow> ('d, 'u, 's) shard \<Rightarrow> ('d, 'u, 's) shard res option" where
  "stop_actor_system env force s =
     (if root_stop s \<noteq> RUNNING then Some (Inr s)
      else
        bind_run (Some (break_promises (response_prs s))) (\<lambda>prs.
        bind_run
          (stop_root_children env force (map fst (inst_map (root_children s)))
            (s\<lparr>root_stop := (if force then FORCE_STOPPING else PEACE_STOPPING), response_prs := prs\<rparr>))
          (\<lambda>s1. Some (Inr (if num_managed (root_children s1) = 0 then wait_others_and_exit s1 else s1)))))"

definition receive ::
    "('d, 'u, 's) actor_env \<Rightarrow> 'd actor_message \<Rightarrow> ('d, 'u, 's) shard \<Rightarrow> ('d, 'u, 's) shard res option" where
  "receive env m s =
     (let h = msg_hdr m
      in if addr_length (hdr_addr h) = total_addr_length [] then
           (if m_type h = RESPONSE \<or> m_type h = EXCEPTION_RESPONSE then Some (receive_response env m s)
            else if m_type h = PEACE_STOP then stop_actor_system env False s
            else if m_type h = FORCE_STOP then stop_actor_system env True s
            else Some (Inl Assert_failed))
         else Some (receive_actor env m s))"

definition send ::
    "('d, 'u, 's) actor_env \<Rightarrow> 'd actor_message \<Rightarrow> ('d, 'u, 's) shard \<Rightarrow> ('d, 'u, 's) shard res option" where
  "send env m s =
     bind_run (Some (get_shard_id (hdr_addr (msg_hdr m)))) (\<lambda>sid.
       if sid \<noteq> this_gsid env then Some (Inr (s\<lparr>outbox := outbox s @ [m]\<rparr>)) else receive env m s)"

fun send_all ::
    "('d, 'u, 's) actor_env \<Rightarrow> 'd actor_message list \<Rightarrow> ('d, 'u, 's) shard \<Rightarrow> ('d, 'u, 's) shard res option" where
  "send_all env [] s = Some (Inr s)"
| "send_all env (m # ms) s = bind_run (send env m s) (send_all env ms)"

text \<open>The stop messages of \<open>cancel_scope\<close> and \<open>exit\<close>, one per shard.\<close>

definition scope_stop_message :: "address \<Rightarrow> bool \<Rightarrow> u32 \<Rightarrow> 'd actor_message res" where
  "scope_stop_message scope force sid =
     bind_res (set_data 0 (int_bytes sid) scope) (\<lambda>dst.
       Inr (make_system_message dst (if force then FORCE_STOP else PEACE_STOP)))"

definition collect_res :: "('a \<Rightarrow> 'b res) \<Rightarrow> 'a list \<Rightarrow> 'b list res" where
  "collect_res f xs = fold_res (\<lambda>x ys. bind_res (f x) (\<lambda>y. Inr (ys @ [y]))) xs []"

definition cancel_scope ::
    "('d, 'u, 's) actor_env \<Rightarrow> u32 \<Rightarrow> address \<Rightarrow> bool \<Rightarrow> ('d, 'u, 's) shard \<Rightarrow> ('d, 'u, 's) shard res option" where
  "cancel_scope env num_shards scope force s =
     bind_run (Some (collect_res (scope_stop_message scope force) (map word_of_nat [0..<unat num_shards])))
       (\<lambda>msgs. send_all env msgs s)"

definition exit_system ::
    "('d, 'u, 's) actor_env \<Rightarrow> u32 \<Rightarrow> bool \<Rightarrow> ('d, 'u, 's) shard \<Rightarrow> ('d, 'u, 's) shard res option" where
  "exit_system env num_shards force s =
     cancel_scope env num_shards
       ((address_default (addr_junk env))\<lparr>addr_length := word_of_nat GShardIdInBytes\<rparr>) force s"

end
