(* ===== verification/Actor_Invariant.thy ===== *)
theory Actor_Invariant
  imports Actor_Run
begin

text \<open>
  The invariant of a shard and its preservation by everything an actor, a group or the root does.
  It has four parts: the objects form a tree under the root, the instance maps and child counts of
  the parents agree with it, every scheduled object that is not running is in its parent's queue
  exactly once, and every object that is not scheduled has nothing to do (no ready continuation,
  no message it could handle, no pending deletion). The consequences are that no dangling pointer is
  followed and that no message or continuation is left without a wake-up.

  \<open>sinv X E R K s\<close>: \<open>X\<close> are the objects whose wake-up is still owed, \<open>E\<close> those whose entry in the
  parent's map is still to be nulled, \<open>R\<close> those whose turn is running, \<open>K\<close> objects known to exist,
  with their kind.
\<close>

section \<open>Results without dangling pointers\<close>

definition ok_res :: "('a \<Rightarrow> bool) \<Rightarrow> 'a res \<Rightarrow> bool" where
  "ok_res P r \<longleftrightarrow> (case r of Inl e \<Rightarrow> e \<noteq> Null_deref | Inr x \<Rightarrow> P x)"

definition ok_run :: "('a \<Rightarrow> bool) \<Rightarrow> 'a res option \<Rightarrow> bool" where
  "ok_run P r \<longleftrightarrow> (case r of None \<Rightarrow> True | Some x \<Rightarrow> ok_res P x)"

lemma ok_res_simps [simp]:
  "ok_res P (Inr x) = P x" "ok_res P (Inl e) = (e \<noteq> Null_deref)"
  by (simp_all add: ok_res_def)

lemma ok_run_simps [simp]: "ok_run P (Some r) = ok_res P r" "ok_run P None"
  by (simp_all add: ok_run_def)

lemma ok_res_bind: "ok_res P m \<Longrightarrow> (\<And>x. P x \<Longrightarrow> ok_res Q (f x)) \<Longrightarrow> ok_res Q (bind_res m f)"
  by (cases m) auto

lemma ok_run_bind: "ok_run P m \<Longrightarrow> (\<And>x. P x \<Longrightarrow> ok_run Q (f x)) \<Longrightarrow> ok_run Q (bind_run m f)"
  by (cases m rule: option.exhaust [case_names None Some]; simp; cases "the m") auto

lemma ok_res_mono: "ok_res P m \<Longrightarrow> (\<And>x. P x \<Longrightarrow> Q x) \<Longrightarrow> ok_res Q m"
  by (cases m) auto

lemma ok_run_mono: "ok_run P m \<Longrightarrow> (\<And>x. P x \<Longrightarrow> Q x) \<Longrightarrow> ok_run Q m"
  by (auto simp: ok_run_def ok_res_def split: option.splits sum.splits)

lemma ok_res_fold:
  "P s \<Longrightarrow> (\<And>x s. x \<in> set xs \<Longrightarrow> P s \<Longrightarrow> ok_res P (f x s)) \<Longrightarrow> ok_res P (fold_res f xs s)"
proof (induction xs arbitrary: s)
  case (Cons x xs)
  have "ok_res P (f x s)" using Cons.prems by simp
  then show ?case using Cons by (auto intro: ok_res_bind)
qed simp

section \<open>The invariant\<close>

text \<open>What is known of an object: whether it is a group, and whether it is surely scheduled.\<close>

type_synonym known = "path \<Rightarrow> (bool \<times> bool) option"

definition is_group :: "('d, 'u) obj \<Rightarrow> bool" where
  "is_group a \<longleftrightarrow> (case part a of Group _ \<Rightarrow> True | Actor _ \<Rightarrow> False)"

definition children_of :: "('d, 'u, 's) shard \<Rightarrow> path \<Rightarrow> children option" where
  "children_of s p = (if p = [] then Some (root_children s)
     else case objs s p of
            None \<Rightarrow> None
          | Some a \<Rightarrow> (case part a of Group g \<Rightarrow> Some (group_children g) | Actor _ \<Rightarrow> None))"

definition queue_of :: "('d, 'u, 's) shard \<Rightarrow> path \<Rightarrow> child_id multiset" where
  "queue_of s p = (if p = [] then mset (engine_q s)
     else case objs s p of
            None \<Rightarrow> {#}
          | Some a \<Rightarrow> (case part a of Group g \<Rightarrow> tq_pending (group_tasks g) | Actor _ \<Rightarrow> {#}))"

definition kids :: "('d, 'u, 's) shard \<Rightarrow> path \<Rightarrow> child_id set" where
  "kids s p = {c. objs s (c # p) \<noteq> None}"

definition wake_ok :: "('d, 'u) obj \<Rightarrow> bool" where
  "wake_ok a \<longleftrightarrow> (sched_status a = SCHEDULABLE \<longrightarrow>
     (case part a of
        Actor k \<Rightarrow> actor_tasks k = [] \<and> (mailbox a = [] \<or> max_concurrency k \<le> cur_concurrency k) \<and>
                   (stopping a \<longrightarrow> cur_concurrency k \<noteq> 0)
      | Group g \<Rightarrow> mailbox a = [] \<and> tq_empty (group_tasks g) \<and>
                   (stopping a \<longrightarrow> num_managed (group_children g) \<noteq> 0)))"

definition obj_ok :: "('d, 'u) obj \<Rightarrow> bool" where
  "obj_ok a \<longleftrightarrow> sched_status a \<noteq> INITIALIZED \<and>
     (case part a of Actor k \<Rightarrow> 0 < max_concurrency k | Group g \<Rightarrow> tq_inv (group_tasks g))"

definition tree_ok :: "('d, 'u, 's) shard \<Rightarrow> bool" where
  "tree_ok s \<longleftrightarrow> finite (dom (objs s)) \<and> [] \<notin> dom (objs s) \<and> live_count s = card (dom (objs s)) \<and>
     live_count s < 4294967296 \<and> (\<forall>c p. c # p \<in> dom (objs s) \<longrightarrow> children_of s p \<noteq> None)"

definition kids_ok :: "('d, 'u, 's) shard \<Rightarrow> bool" where
  "kids_ok s \<longleftrightarrow> (\<forall>p ch. children_of s p = Some ch \<longrightarrow>
     (\<forall>c. (c, True) \<in> set (inst_map ch) \<longrightarrow> c \<in> kids s p) \<and>
     (\<forall>c \<in> kids s p. map_of (inst_map ch) c \<noteq> None) \<and>
     num_managed ch = word_of_nat (card (kids s p)) \<and> sem_waiters ch = [] \<and>
     sem_count ch = GMaxActiveChildNum - int (card (kids s p)))"

definition entries_ok :: "path set \<Rightarrow> ('d, 'u, 's) shard \<Rightarrow> bool" where
  "entries_ok E s \<longleftrightarrow> (\<forall>c p a ch. objs s (c # p) = Some a \<longrightarrow> c # p \<notin> E \<longrightarrow> stopping a \<longrightarrow>
     children_of s p = Some ch \<longrightarrow> (c, True) \<notin> set (inst_map ch))"

definition waits :: "path set \<Rightarrow> ('d, 'u, 's) shard \<Rightarrow> path \<Rightarrow> bool" where
  "waits R s p \<longleftrightarrow> p \<notin> R \<and> (case objs s p of None \<Rightarrow> False | Some a \<Rightarrow> sched_status a = SCHEDULED)"

definition queue_ok :: "path set \<Rightarrow> ('d, 'u, 's) shard \<Rightarrow> bool" where
  "queue_ok R s \<longleftrightarrow> (\<forall>c p. count (queue_of s p) c = (if waits R s (c # p) then 1 else 0))"

definition run_ok :: "path set \<Rightarrow> ('d, 'u, 's) shard \<Rightarrow> bool" where
  "run_ok R s \<longleftrightarrow> (\<forall>p \<in> R. \<exists>a. objs s p = Some a \<and> sched_status a = SCHEDULED) \<and>
     (\<forall>c p. c # p \<in> R \<longrightarrow> p \<noteq> [] \<longrightarrow> p \<in> R)"

definition known_ok :: "known \<Rightarrow> ('d, 'u, 's) shard \<Rightarrow> bool" where
  "known_ok K s \<longleftrightarrow> (\<forall>p b w. K p = Some (b, w) \<longrightarrow>
     (\<exists>a. objs s p = Some a \<and> is_group a = b \<and> (w \<longrightarrow> sched_status a = SCHEDULED)))"

definition wakes_ok :: "path set \<Rightarrow> ('d, 'u, 's) shard \<Rightarrow> bool" where
  "wakes_ok X s \<longleftrightarrow> (\<forall>p a. objs s p = Some a \<longrightarrow> obj_ok a \<and> (p \<notin> X \<longrightarrow> wake_ok a))"

definition sinv :: "path set \<Rightarrow> path set \<Rightarrow> path set \<Rightarrow> known \<Rightarrow> ('d, 'u, 's) shard \<Rightarrow> bool" where
  "sinv X E R K s \<longleftrightarrow> tree_ok s \<and> kids_ok s \<and> entries_ok E s \<and> queue_ok R s \<and> run_ok R s \<and>
     known_ok K s \<and> wakes_ok X s"

lemma sinv_weaken:
  "sinv X E R K s \<Longrightarrow> X \<subseteq> X' \<Longrightarrow> E \<subseteq> E' \<Longrightarrow> K' \<subseteq>\<^sub>m K \<Longrightarrow> sinv X' E' R K' s"
proof -
  assume i: "sinv X E R K s" and x: "X \<subseteq> X'" "E \<subseteq> E'" "K' \<subseteq>\<^sub>m K"
  have "entries_ok E' s" using i x(2) unfolding sinv_def entries_ok_def by blast
  moreover have "wakes_ok X' s" using i x(1) unfolding sinv_def wakes_ok_def by blast
  moreover have "known_ok K' s"
    using i x(3) unfolding sinv_def known_ok_def map_le_def by (metis domI)
  ultimately show ?thesis using i by (simp add: sinv_def)
qed

lemma sinv_settle:
  assumes "sinv (insert p X) E R K s" and "\<And>a. objs s p = Some a \<Longrightarrow> wake_ok a"
  shows "sinv X E R K s"
  using assms unfolding sinv_def wakes_ok_def by blast

lemma sinv_kidsD:
  assumes "sinv X E R K s" and "children_of s p = Some ch"
  shows "(c, True) \<in> set (inst_map ch) \<Longrightarrow> c \<in> kids s p"
    and "c \<in> kids s p \<Longrightarrow> map_of (inst_map ch) c \<noteq> None"
    and "num_managed ch = word_of_nat (card (kids s p))" and "sem_waiters ch = []"
    and "sem_count ch = GMaxActiveChildNum - int (card (kids s p))"
  using assms unfolding sinv_def kids_ok_def by blast+

lemma sinv_known:
  assumes "sinv X E R K s" and "K p = Some (b, w)"
  obtains a where "objs s p = Some a" "is_group a = b" "w \<Longrightarrow> sched_status a = SCHEDULED"
  using assms unfolding sinv_def known_ok_def by blast

lemma sinv_running:
  assumes "sinv X E R K s" and "p \<in> R"
  obtains a where "objs s p = Some a" "sched_status a = SCHEDULED"
  using assms unfolding sinv_def run_ok_def by blast

lemma sinv_obj:
  assumes "sinv X E R K s" and "objs s p = Some a"
  shows "obj_ok a" and "p \<notin> X \<Longrightarrow> wake_ok a" and "p \<noteq> []"
  using assms unfolding sinv_def wakes_ok_def tree_ok_def by auto

lemma sinv_parent:
  assumes "sinv X E R K s" and "objs s (c # p) = Some a"
  obtains ch where "children_of s p = Some ch"
  using assms unfolding sinv_def tree_ok_def by fastforce

lemma card_kids_le: "sinv X E R K s \<Longrightarrow> card (kids s p) \<le> live_count s \<and> finite (kids s p)"
proof -
  assume "sinv X E R K s"
  then have f: "finite (dom (objs s))" and l: "live_count s = card (dom (objs s))"
    by (auto simp: sinv_def tree_ok_def)
  have sub: "(\<lambda>c. c # p) ` kids s p \<subseteq> dom (objs s)" by (auto simp: kids_def)
  have inj: "inj_on (\<lambda>c. c # p) (kids s p)" by (auto simp: inj_on_def)
  have "finite (kids s p)" using finite_imageD [OF finite_subset [OF sub f] inj] .
  moreover have "card (kids s p) = card ((\<lambda>c. c # p) ` kids s p)" using card_image [OF inj] by simp
  ultimately show ?thesis using card_mono [OF f sub] l by simp
qed

section \<open>Changing one object in place\<close>

text \<open>The parts of an object the structure of the shard depends on.\<close>

definition same_shape :: "('d, 'u) obj \<Rightarrow> ('d, 'u) obj \<Rightarrow> bool" where
  "same_shape a b \<longleftrightarrow> sched_status a = sched_status b \<and>
     (case (part a, part b) of
        (Group g, Group h) \<Rightarrow> group_children g = group_children h \<and> group_tasks g = group_tasks h
      | (Actor _, Actor _) \<Rightarrow> True
      | _ \<Rightarrow> False)"

lemma same_shape_views:
  assumes "objs s p = Some a" and "same_shape a b"
  shows "children_of (set_obj p b s) = children_of s" and "queue_of (set_obj p b s) = queue_of s"
    and "kids (set_obj p b s) = kids s" and "dom (objs (set_obj p b s)) = dom (objs s)"
    and "waits R (set_obj p b s) = waits R s" and "is_group b = is_group a"
proof -
  show "children_of (set_obj p b s) = children_of s"
    using assms by (auto simp: children_of_def set_obj_def same_shape_def fun_eq_iff split: part.splits option.splits)
  show "queue_of (set_obj p b s) = queue_of s"
    using assms by (auto simp: queue_of_def set_obj_def same_shape_def fun_eq_iff split: part.splits option.splits)
  show "kids (set_obj p b s) = kids s"
    using assms(1) by (auto simp: kids_def set_obj_def fun_eq_iff)
  show "dom (objs (set_obj p b s)) = dom (objs s)" using assms(1) by (auto simp: set_obj_def)
  show "waits R (set_obj p b s) = waits R s"
    using assms by (auto simp: waits_def set_obj_def same_shape_def fun_eq_iff)
  show "is_group b = is_group a" using assms(2) by (auto simp: same_shape_def is_group_def split: part.splits)
qed

lemma set_obj_sel [simp]:
  "objs (set_obj p b s) = (objs s)(p \<mapsto> b)" "live_count (set_obj p b s) = live_count s"
  "root_children (set_obj p b s) = root_children s" "engine_q (set_obj p b s) = engine_q s"
  by (simp_all add: set_obj_def)

lemma sinv_set_obj:
  assumes "sinv X E R K s" and "objs s p = Some a" and "same_shape a b" and "obj_ok b"
    and "p \<notin> X \<Longrightarrow> wake_ok b" and "p \<notin> E \<Longrightarrow> stopping b \<Longrightarrow> stopping a"
  shows "sinv X E R K (set_obj p b s)"
proof -
  note v = same_shape_views [OF assms(2,3)]
  have "tree_ok (set_obj p b s)"
    using assms(1) unfolding sinv_def tree_ok_def v(1) v(4) by simp
  moreover have "kids_ok (set_obj p b s)" using assms(1) v by (simp add: sinv_def kids_ok_def)
  moreover have "entries_ok E (set_obj p b s)"
    using assms(1,2,6) v(1) unfolding sinv_def entries_ok_def by (auto split: if_splits)
  moreover have "queue_ok R (set_obj p b s)" using assms(1) v by (simp add: sinv_def queue_ok_def)
  moreover have "run_ok R (set_obj p b s)"
    using assms(1-3) unfolding sinv_def run_ok_def same_shape_def by auto
  moreover have "known_ok K (set_obj p b s)"
  proof -
    have "K p = Some (c, w) \<Longrightarrow> is_group b = c \<and> (w \<longrightarrow> sched_status b = SCHEDULED)" for c w
      using assms(1-3) v(6) unfolding sinv_def known_ok_def same_shape_def by force
    then show ?thesis using assms(1) unfolding sinv_def known_ok_def by auto
  qed
  moreover have "wakes_ok X (set_obj p b s)"
    using assms(1,4,5) unfolding sinv_def wakes_ok_def by auto
  ultimately show ?thesis by (simp add: sinv_def)
qed

text \<open>Nothing else of the shard matters.\<close>

lemma sinv_cong:
  assumes "objs s' = objs s" "root_children s' = root_children s" "engine_q s' = engine_q s"
    "live_count s' = live_count s"
  shows "sinv X E R K s' = sinv X E R K s"
proof -
  have "children_of s' = children_of s" "queue_of s' = queue_of s" "kids s' = kids s" "waits R s' = waits R s"
    using assms by (auto simp: children_of_def queue_of_def kids_def waits_def fun_eq_iff)
  with assms show ?thesis
    by (simp add: sinv_def tree_ok_def kids_ok_def entries_ok_def queue_ok_def run_ok_def known_ok_def wakes_ok_def)
qed

lemma sinv_other_fields [simp]:
  "sinv X E R K (s\<lparr>outbox := o1\<rparr>) = sinv X E R K s" "sinv X E R K (s\<lparr>inbox := i1\<rparr>) = sinv X E R K s"
  "sinv X E R K (s\<lparr>response_prs := r1\<rparr>) = sinv X E R K s" "sinv X E R K (s\<lparr>user_state := u1\<rparr>) = sinv X E R K s"
  "sinv X E R K (s\<lparr>yields := y1\<rparr>) = sinv X E R K s" "sinv X E R K (s\<lparr>exits := e1\<rparr>) = sinv X E R K s"
  "sinv X E R K (s\<lparr>root_stop := t1\<rparr>) = sinv X E R K s"
  by (rule sinv_cong; simp)+

section \<open>Activation\<close>

lemma sinv_enqueue:
  assumes i: "sinv (insert (c # q) X) E R K s" and a: "objs s (c # q) = Some a" "sched_status a = SCHEDULABLE"
    and d: "dom (objs s') = dom (objs s)" "children_of s' = children_of s" "live_count s' = live_count s"
    and qu: "queue_of s' = (queue_of s)(q := add_mset c (queue_of s q))"
    and a': "objs s' (c # q) = Some (a\<lparr>sched_status := SCHEDULED\<rparr>)"
    and other: "\<And>r. r \<noteq> c # q \<Longrightarrow> r \<noteq> q \<Longrightarrow> objs s' r = objs s r"
    and par: "\<And>b'. objs s' q = Some b' \<Longrightarrow> \<exists>b. objs s q = Some b \<and> sched_status b' = sched_status b \<and>
      is_group b' = is_group b \<and> stopping b' = stopping b \<and> obj_ok b'"
  shows "sinv (insert q X) E R K s'"
proof -
  have nR: "c # q \<notin> R" using i a unfolding sinv_def run_ok_def by force
  have k: "kids s' = kids s" using d(1) by (auto simp: kids_def fun_eq_iff dom_def)
  have old: "\<exists>b. objs s r = Some b \<and> is_group b' = is_group b \<and> stopping b' = stopping b \<and> obj_ok b' \<and>
      (r \<noteq> c # q \<longrightarrow> sched_status b' = sched_status b) \<and> (r \<noteq> c # q \<longrightarrow> r \<noteq> q \<longrightarrow> b' = b)"
    if "objs s' r = Some b'" for r b'
  proof (cases "r = c # q")
    case True
    then show ?thesis using that a' a i by (auto simp: is_group_def stopping_def obj_ok_def sinv_def wakes_ok_def)
  next
    case False
    then show ?thesis
      using that par other [of r] i by (cases "r = q") (auto simp: sinv_def wakes_ok_def)
  qed
  have w: "waits R s' r \<longleftrightarrow> r = c # q \<or> waits R s r" for r
  proof (cases "r = c # q")
    case True
    then show ?thesis using nR a' by (simp add: waits_def)
  next
    case False
    show ?thesis
    proof (cases "objs s' r")
      case None
      then have "objs s r = None" using d(1) by (metis domIff)
      then show ?thesis using None False by (simp add: waits_def)
    next
      case (Some b')
      with old [OF this] False show ?thesis by (auto simp: waits_def)
    qed
  qed
  have nw: "\<not> waits R s (c # q)" using a by (simp add: waits_def)
  have "tree_ok s'" using i d unfolding sinv_def tree_ok_def by simp
  moreover have "kids_ok s'" using i d k by (simp add: sinv_def kids_ok_def)
  moreover have "entries_ok E s'"
  proof -
    have "(c', True) \<notin> set (inst_map ch)"
      if "objs s' (c' # p') = Some b'" "c' # p' \<notin> E" "stopping b'" "children_of s' p' = Some ch" for c' p' b' ch
    proof -
      from old [OF that(1)] obtain b where "objs s (c' # p') = Some b" "stopping b' = stopping b" by blast
      then show ?thesis using i that d(2) unfolding sinv_def entries_ok_def by auto
    qed
    then show ?thesis by (simp add: entries_ok_def)
  qed
  moreover have "queue_ok R s'"
    using i qu w nw unfolding sinv_def queue_ok_def by auto
  moreover have "run_ok R s'"
  proof -
    have "\<exists>b. objs s' r = Some b \<and> sched_status b = SCHEDULED" if "r \<in> R" for r
    proof -
      from that i obtain b where b: "objs s r = Some b" "sched_status b = SCHEDULED"
        unfolding sinv_def run_ok_def by blast
      with d(1) obtain b' where "objs s' r = Some b'" by (metis domD domI)
      with old [OF this] b that nR show ?thesis by auto
    qed
    then show ?thesis using i unfolding sinv_def run_ok_def by blast
  qed
  moreover have "known_ok K s'"
  proof -
    have "\<exists>b. objs s' r = Some b \<and> is_group b = k \<and> (w \<longrightarrow> sched_status b = SCHEDULED)"
      if "K r = Some (k, w)" for r k w
    proof -
      from sinv_known [OF i that] obtain b where b: "objs s r = Some b" "is_group b = k"
        "w \<Longrightarrow> sched_status b = SCHEDULED" by blast
      with d(1) obtain b' where b': "objs s' r = Some b'" by (metis domD domI)
      with old [OF this] b a' show ?thesis by (cases "r = c # q") auto
    qed
    then show ?thesis by (simp add: known_ok_def)
  qed
  moreover have "wakes_ok (insert q X) s'"
  proof -
    have "obj_ok b' \<and> (r \<notin> insert q X \<longrightarrow> wake_ok b')" if "objs s' r = Some b'" for r b'
    proof (cases "r = c # q")
      case True
      then show ?thesis using that a' old by (auto simp: wake_ok_def)
    next
      case False
      then show ?thesis using old [OF that] i unfolding sinv_def wakes_ok_def by blast
    qed
    then show ?thesis by (simp add: wakes_ok_def)
  qed
  ultimately show ?thesis by (simp add: sinv_def)
qed

lemma tq_pending_push [simp]: "tq_pending (push_task c tq) = add_mset c (tq_pending tq)"
  by (simp add: tq_pending_def push_task_def)

lemma tq_empty_iff: "tq_empty tq \<longleftrightarrow> tq_pending tq = {#}"
  by (simp add: tq_empty_def tq_pending_def)

lemma children_of_group:
  "p \<noteq> [] \<Longrightarrow> children_of s p = Some ch \<Longrightarrow>
   \<exists>a g. objs s p = Some a \<and> part a = Group g \<and> group_children g = ch"
  by (auto simp: children_of_def split: option.splits part.splits)

lemma activate_inv:
  "sinv (insert p X) E R K s \<Longrightarrow> p \<noteq> [] \<Longrightarrow> objs s p \<noteq> None \<Longrightarrow>
   \<exists>s'. activate p s = Inr s' \<and> sinv X E R K s'"
proof (induction p arbitrary: s)
  case Nil
  then show ?case by simp
next
  case (Cons c p)
  from Cons.prems(3) obtain a where a: "objs s (c # p) = Some a" by auto
  show ?case
  proof (cases "activatable a")
    case False
    then have "wake_ok a" by (simp add: wake_ok_def activatable_def)
    then have "sinv X E R K s" using sinv_settle [OF Cons.prems(1)] a by simp
    then show ?thesis using False a by (simp add: get_obj_def)
  next
    case True
    then have sch: "sched_status a = SCHEDULABLE" by (simp add: activatable_def)
    let ?a = "a\<lparr>sched_status := SCHEDULED\<rparr>"
    let ?s1 = "set_obj (c # p) ?a s"
    have ne: "p \<noteq> c # p" by simp
    obtain ch where ch: "children_of s p = Some ch" using sinv_parent [OF Cons.prems(1) a] by blast
    have d1: "dom (objs ?s1) = dom (objs s)" using a by auto
    have c1: "children_of ?s1 = children_of s" and q1: "queue_of ?s1 = queue_of s"
      using a by (auto simp: children_of_def queue_of_def fun_eq_iff split: part.splits option.splits)
    show ?thesis
    proof (cases "p = []")
      case True
      let ?s2 = "?s1\<lparr>engine_q := engine_q ?s1 @ [c]\<rparr>"
      have "sinv (insert p X) E R K ?s2"
      proof (rule sinv_enqueue [OF Cons.prems(1) a sch])
        show "queue_of ?s2 = (queue_of s)(p := add_mset c (queue_of s p))"
          using True a by (auto simp: queue_of_def fun_eq_iff split: part.splits option.splits)
        show "children_of ?s2 = children_of s"
          using a by (auto simp: children_of_def fun_eq_iff split: part.splits option.splits)
        show "\<exists>b. objs s p = Some b \<and> sched_status b' = sched_status b \<and> is_group b' = is_group b \<and>
            stopping b' = stopping b \<and> obj_ok b'" if "objs ?s2 p = Some b'" for b'
          using that True Cons.prems(1) by (auto simp: sinv_def tree_ok_def)
      qed (use a in auto)
      moreover have "objs ?s2 [] = None" using Cons.prems(1) True by (auto simp: sinv_def tree_ok_def)
      ultimately have "sinv X E R K ?s2" using True sinv_settle by fastforce
      then show ?thesis using a \<open>activatable a\<close> True by (simp add: get_obj_def)
    next
      case False
      from children_of_group [OF False ch] obtain b g where
        b: "objs s p = Some b" "part b = Group g" "group_children g = ch" by blast
      let ?g = "g\<lparr>group_tasks := push_task c (group_tasks g)\<rparr>"
      let ?s2 = "set_obj p (b\<lparr>part := Group ?g\<rparr>) ?s1"
      have "obj_ok b" using Cons.prems(1) b(1) by (rule sinv_obj)
      then have ok': "obj_ok (b\<lparr>part := Group ?g\<rparr>)" using b(2) by (simp add: obj_ok_def tq_inv_push)
      have "sinv (insert p X) E R K ?s2"
      proof (rule sinv_enqueue [OF Cons.prems(1) a sch])
        show "queue_of ?s2 = (queue_of s)(p := add_mset c (queue_of s p))"
          using False a b ne by (auto simp: queue_of_def fun_eq_iff split: part.splits option.splits)
        show "children_of ?s2 = children_of s"
          using False a b ne by (auto simp: children_of_def fun_eq_iff split: part.splits option.splits)
        show "\<exists>b. objs s p = Some b \<and> sched_status b' = sched_status b \<and> is_group b' = is_group b \<and>
            stopping b' = stopping b \<and> obj_ok b'" if "objs ?s2 p = Some b'" for b'
          using that b ok' by (auto simp: is_group_def stopping_def)
      qed (use a b ne in auto)
      with Cons.IH [of ?s2] False obtain s' where "activate p ?s2 = Inr s'" "sinv X E R K s'" by auto
      then show ?thesis
        using a b ne False \<open>activatable a\<close> by (simp add: get_obj_def get_group_def set_group_def Let_def)
    qed
  qed
qed

lemma sinv_owe: "sinv X E R K s \<Longrightarrow> sinv (insert p X) E R K s"
  by (erule sinv_weaken) (auto simp: map_le_def)

lemma activate_ok: "sinv (insert p X) E R K s \<Longrightarrow> objs s p \<noteq> None \<Longrightarrow> ok_res (sinv X E R K) (activate p s)"
proof -
  assume i: "sinv (insert p X) E R K s" and "objs s p \<noteq> None"
  then have "p \<noteq> []" by (auto simp: sinv_def tree_ok_def)
  with activate_inv [OF i] \<open>objs s p \<noteq> None\<close> obtain s' where "activate p s = Inr s'" "sinv X E R K s'" by blast
  then show ?thesis by simp
qed

section \<open>Mailboxes and continuations\<close>

lemma mailbox_shape: "same_shape a (a\<lparr>mailbox := ms\<rparr>)" "obj_ok (a\<lparr>mailbox := ms\<rparr>) = obj_ok a"
    "stopping (a\<lparr>mailbox := ms\<rparr>) = stopping a"
  by (auto simp: same_shape_def obj_ok_def stopping_def split: part.splits)

lemma actor_shape:
  "part a = Actor k \<Longrightarrow> same_shape a (a\<lparr>part := Actor k'\<rparr>)" "stopping (a\<lparr>part := q\<rparr>) = stopping a"
  "obj_ok a \<Longrightarrow> obj_ok (a\<lparr>part := Actor k\<rparr>) = (0 < max_concurrency k)"
  by (auto simp: same_shape_def obj_ok_def stopping_def split: part.splits)

lemma enque_message_ok:
  "sinv X E R K s \<Longrightarrow> objs s p \<noteq> None \<Longrightarrow> ok_res (sinv X E R K) (enque_message m p s)"
  "sinv X E R K s \<Longrightarrow> objs s p \<noteq> None \<Longrightarrow> ok_res (sinv X E R K) (enque_urgent_message m p s)"
proof -
  assume i: "sinv X E R K s" and "objs s p \<noteq> None"
  then obtain a where a: "objs s p = Some a" by auto
  have "sinv (insert p X) E R K (set_obj p (a\<lparr>mailbox := ms\<rparr>) s)" for ms
    using sinv_owe [OF i] a by (rule sinv_set_obj) (use sinv_obj(1) [OF i a] in \<open>auto simp: mailbox_shape\<close>)
  then have "ok_res (sinv X E R K) (activate p (set_obj p (a\<lparr>mailbox := ms\<rparr>) s))" for ms
    by (rule activate_ok) simp
  then show "ok_res (sinv X E R K) (enque_message m p s)" "ok_res (sinv X E R K) (enque_urgent_message m p s)"
    using a by (simp_all add: enque_message_def enque_urgent_message_def get_obj_def)
qed

lemma is_group_actor: "\<not> is_group a \<Longrightarrow> \<exists>k. part a = Actor k"
  by (cases "part a") (auto simp: is_group_def)

lemma is_group_group: "is_group a \<Longrightarrow> \<exists>g. part a = Group g"
  by (cases "part a") (auto simp: is_group_def)

lemma known_actor:
  assumes "sinv X E R K s" and "K p = Some (False, w)"
  obtains a k where "objs s p = Some a" "part a = Actor k" "get_actor p s = Inr k" "0 < max_concurrency k"
    "\<And>k'. set_actor p k' s = Inr (set_obj p (a\<lparr>part := Actor k'\<rparr>) s)"
proof -
  from sinv_known [OF assms] obtain a where a: "objs s p = Some a" "\<not> is_group a" by auto
  from is_group_actor [OF a(2)] obtain k where k: "part a = Actor k" by blast
  have "0 < max_concurrency k" using sinv_obj(1) [OF assms(1) a(1)] k by (simp add: obj_ok_def)
  then show thesis using that a(1) k by (simp add: get_actor_def set_actor_def get_obj_def)
qed

lemma sinv_set_actor:
  assumes "sinv X E R K s" and "objs s p = Some a" and "part a = Actor k" and "0 < max_concurrency k'"
    and "p \<notin> X \<Longrightarrow> wake_ok (a\<lparr>part := Actor k'\<rparr>)"
  shows "sinv X E R K (set_obj p (a\<lparr>part := Actor k'\<rparr>) s)"
  using assms(1,2) by (rule sinv_set_obj) (use assms sinv_obj(1) [OF assms(1,2)] in \<open>auto simp: actor_shape\<close>)

lemma actor_add_task_ok:
  assumes "sinv X E R K s" and "K p = Some (False, w)"
  shows "ok_res (sinv X E R K) (actor_add_task p t s)"
proof -
  from assms obtain a k where a: "objs s p = Some a" "part a = Actor k" "get_actor p s = Inr k"
    "0 < max_concurrency k" "\<And>k'. set_actor p k' s = Inr (set_obj p (a\<lparr>part := Actor k'\<rparr>) s)"
    by (rule known_actor) blast
  let ?s = "set_obj p (a\<lparr>part := Actor (k\<lparr>actor_tasks := actor_tasks k @ [t]\<rparr>)\<rparr>) s"
  have "sinv (insert p X) E R K ?s"
    using sinv_owe [OF assms(1)] a(1,2) by (rule sinv_set_actor) (use a(4) in auto)
  then show ?thesis using a(3,5) activate_ok [of p X E R K ?s] by (simp add: actor_add_task_def)
qed

section \<open>Creating a child\<close>

definition env_ok :: "('d, 'u, 's) actor_env \<Rightarrow> bool" where
  "env_ok env \<longleftrightarrow> max_objs env < 4294967296 \<and> std_heap (heap_make env) (heap_pop env) \<and>
     (\<forall>tid. factory env tid \<noteq> Inl Null_deref) \<and>
     (\<forall>tid cmp. factory env tid = Inr (Group_kind (Some cmp)) \<longrightarrow> strict_weak_order cmp)"

text \<open>A new child, once \<open>schedule\<close> has made it schedulable.\<close>

definition ready_obj :: "kind \<Rightarrow> ('d, 'u) obj" where
  "ready_obj k = (new_obj k)\<lparr>sched_status := SCHEDULABLE\<rparr>"

lemma new_obj_facts:
  "env_ok env \<Longrightarrow> factory env tid = Inr k \<Longrightarrow> obj_ok (ready_obj k)" "wake_ok (ready_obj k)"
  "sched_status (ready_obj k) = SCHEDULABLE" "\<not> stopping (ready_obj k)"
  by (auto simp: ready_obj_def obj_ok_def new_obj_def new_part_def wake_ok_def stopping_def tq_inv_def task_queue_new_def
      set_comparator_def tq_empty_def env_ok_def is_heap_def word_gt_0 split: kind.splits option.splits)

definition new_children :: "kind \<Rightarrow> children option" where
  "new_children k = (case k of Actor_kind _ \<Rightarrow> None | Group_kind _ \<Rightarrow> Some children_new)"

lemma set_children_eq:
  assumes "children_of s p = Some ch"
  obtains s' where "set_children p ch' s = Inr s'" "live_count s' = live_count s" "engine_q s' = engine_q s"
    "queue_of s' = queue_of s" "dom (objs s') = dom (objs s)" "waits R s' = waits R s"
    "children_of s' = (children_of s)(p := Some ch')" "kids s' = kids s"
    "\<And>r. r \<noteq> p \<Longrightarrow> objs s' r = objs s r"
    "\<And>b'. objs s' p = Some b' \<Longrightarrow> p \<noteq> [] \<Longrightarrow> \<exists>b g. objs s p = Some b \<and> part b = Group g \<and> group_children g = ch \<and>
       b' = b\<lparr>part := Group (g\<lparr>group_children := ch'\<rparr>)\<rparr>"
    "p = [] \<Longrightarrow> objs s' = objs s"
proof (cases "p = []")
  case True
  let ?s = "s\<lparr>root_children := ch'\<rparr>"
  have "set_children p ch' s = Inr ?s" using True by (simp add: set_children_def)
  then show thesis
    by (rule that) (use True in \<open>auto simp: queue_of_def children_of_def waits_def kids_def fun_eq_iff\<close>)
next
  case False
  with assms obtain b g where b: "objs s p = Some b" "part b = Group g" "group_children g = ch"
    using children_of_group by blast
  let ?s = "set_obj p (b\<lparr>part := Group (g\<lparr>group_children := ch'\<rparr>)\<rparr>) s"
  have "set_children p ch' s = Inr ?s"
    using False b by (simp add: set_children_def get_group_def set_group_def get_obj_def)
  then show thesis
    by (rule that)
      (use False b in \<open>auto simp: queue_of_def children_of_def waits_def kids_def fun_eq_iff
          split: option.splits part.splits\<close>)
qed

lemma sinv_no_orphans: "sinv X E R K s \<Longrightarrow> objs s q = None \<Longrightarrow> q \<noteq> [] \<Longrightarrow> kids s q = {}"
proof (rule ccontr)
  assume i: "sinv X E R K s" and n: "objs s q = None" "q \<noteq> []" and "kids s q \<noteq> {}"
  then obtain c a where "objs s (c # q) = Some a" by (auto simp: kids_def)
  then obtain ch where "children_of s q = Some ch" using sinv_parent [OF i] by blast
  with n show False by (simp add: children_of_def)
qed

lemma add_child_views:
  assumes "objs s (c # p) = None"
    and s1_def: "s1 = (set_obj (c # p) (ready_obj k) s)\<lparr>live_count := n\<rparr>"
  shows "children_of s1 = (children_of s)(c # p := new_children k)" and "queue_of s1 = queue_of s"
    and "kids s1 = (kids s)(p := insert c (kids s p))" and "waits R s1 = waits R s"
    and "dom (objs s1) = insert (c # p) (dom (objs s))"
proof -
  show "children_of s1 = (children_of s)(c # p := new_children k)"
    by (auto simp: s1_def children_of_def new_children_def ready_obj_def new_obj_def new_part_def fun_eq_iff
        split: option.splits part.splits kind.splits)
  show "queue_of s1 = queue_of s"
    using assms(1) by (auto simp: s1_def queue_of_def ready_obj_def new_obj_def new_part_def fun_eq_iff tq_pending_def
        task_queue_new_def set_comparator_def split: option.splits part.splits kind.splits)
  show "kids s1 = (kids s)(p := insert c (kids s p))" by (auto simp: s1_def kids_def fun_eq_iff)
  show "waits R s1 = waits R s" using assms(1) by (auto simp: s1_def waits_def ready_obj_def new_obj_def fun_eq_iff)
  show "dom (objs s1) = insert (c # p) (dom (objs s))" by (auto simp: s1_def)
qed

lemma sinv_add_child:
  assumes env: "env_ok env" and i: "sinv X E R K s" and ch: "children_of s p = Some ch"
    and c: "map_of (inst_map ch) c = None" and k: "factory env tid = Inr k"
    and room: "live_count s < max_objs env"
    and s2: "set_children p (ch\<lparr>inst_map := inst_map ch @ [(c, True)], num_managed := num_managed ch + 1,
        sem_count := sem_count ch - 1\<rparr>) ((set_obj (c # p) (ready_obj k) s)\<lparr>live_count := live_count s + 1\<rparr>) = Inr s2"
  shows "sinv X E R (K(c # p \<mapsto> (is_group (ready_obj k :: ('d, 'u) obj), False))) (s2 :: ('d, 'u, 's) shard) \<and>
    objs s2 (c # p) = Some (ready_obj k)"
proof -
  let ?n = "ready_obj k :: ('d, 'u) obj"
  let ?ch = "ch\<lparr>inst_map := inst_map ch @ [(c, True)], num_managed := num_managed ch + 1,
        sem_count := sem_count ch - 1\<rparr>"
  let ?s1 = "(set_obj (c # p) ?n s)\<lparr>live_count := live_count s + 1\<rparr>"
  have ck: "c \<notin> kids s p" using sinv_kidsD(2) [OF i ch] c by blast
  then have none: "objs s (c # p) = None" by (simp add: kids_def)
  note kd = sinv_kidsD [OF i ch]
  have fk: "finite (kids s p)" and lek: "card (kids s p) \<le> live_count s" using card_kids_le [OF i] by auto
  have lim: "live_count s + 1 < 4294967296" using room env by (simp add: env_ok_def)
  note v1 = add_child_views [OF none refl, where k = k and n = "live_count s + 1"]
  have ne: "p \<noteq> c # p" by simp
  have ch1: "children_of ?s1 p = Some ch" using v1(1) ch by simp
  obtain s' where s': "set_children p ?ch ?s1 = Inr s'" "live_count s' = live_count s + 1" "queue_of s' = queue_of ?s1"
    "dom (objs s') = dom (objs ?s1)" "waits R s' = waits R ?s1"
    "children_of s' = (children_of ?s1)(p := Some ?ch)" "kids s' = kids ?s1"
    "\<And>r. r \<noteq> p \<Longrightarrow> objs s' r = objs ?s1 r"
    "\<And>b'. objs s' p = Some b' \<Longrightarrow> p \<noteq> [] \<Longrightarrow> \<exists>b g. objs ?s1 p = Some b \<and> part b = Group g \<and> group_children g = ch \<and>
       b' = b\<lparr>part := Group (g\<lparr>group_children := ?ch\<rparr>)\<rparr>"
    by (rule set_children_eq [OF ch1, of ?ch R]) auto
  with s2 have [simp]: "s' = s2" by simp
  note s' = s' [simplified \<open>s' = s2\<close>]
  have ko: "kids s (c # p) = {}" using sinv_no_orphans [OF i none] by simp
  have kk: "kids s2 = (kids s)(p := insert c (kids s p))" using s'(7) v1(3) by simp
  have cc: "children_of s2 = (children_of s)(c # p := new_children k, p := Some ?ch)"
    using s'(6) v1(1) by simp
  have dd: "dom (objs s2) = insert (c # p) (dom (objs s))" using s'(4) v1(5) by simp
  have new: "objs s2 (c # p) = Some ?n" using s'(8) [of "c # p"] by simp
  have old: "r = c # p \<and> b' = ?n \<or> (\<exists>b. objs s r = Some b \<and> sched_status b' = sched_status b \<and>
      is_group b' = is_group b \<and> stopping b' = stopping b \<and> obj_ok b' \<and> (wake_ok b \<longrightarrow> wake_ok b'))"
    if b': "objs s2 r = Some b'" for r b'
  proof (cases "r = p")
    case True
    have pn: "p \<noteq> []" using b' dd i True by (auto simp: sinv_def tree_ok_def)
    from s'(9) [OF b' [unfolded True] pn] obtain b g where
      b: "objs s p = Some b" "part b = Group g" "group_children g = ch"
        "b' = b\<lparr>part := Group (g\<lparr>group_children := ?ch\<rparr>)\<rparr>" by auto
    have "obj_ok b" using sinv_obj(1) [OF i b(1)] .
    moreover have "num_managed ch + 1 \<noteq> 0"
    proof -
      have "num_managed ch + 1 = (word_of_nat (Suc (card (kids s p))) :: u32)" using kd(3) by simp
      moreover have "unat (word_of_nat (Suc (card (kids s p))) :: u32) = Suc (card (kids s p))"
        using lek lim by (intro unat_of_nat_u32) simp
      ultimately show ?thesis by (metis nat.simps(3) unat_0)
    qed
    ultimately show ?thesis
      using b True by (auto simp: is_group_def stopping_def obj_ok_def wake_ok_def)
  next
    case False
    then show ?thesis using b' s'(8) [OF False] sinv_obj(1) [OF i] by (auto split: if_splits)
  qed
  have "tree_ok s2"
  proof -
    have "finite (dom (objs s2))" "[] \<notin> dom (objs s2)" "live_count s2 = card (dom (objs s2))"
      using i dd s'(2) none by (auto simp: sinv_def tree_ok_def card_insert_if)
    moreover have "children_of s2 q \<noteq> None" if "c' # q \<in> dom (objs s2)" for c' q
    proof (cases "c' = c \<and> q = p")
      case True
      then show ?thesis by (simp add: cc)
    next
      case False
      then have "c' # q \<in> dom (objs s)" using that dd by auto
      then have "children_of s q \<noteq> None" using i unfolding sinv_def tree_ok_def by blast
      moreover have "q \<noteq> c # p" using ko \<open>c' # q \<in> dom (objs s)\<close> by (auto simp: kids_def)
      ultimately show ?thesis by (auto simp: cc)
    qed
    ultimately show ?thesis using s'(2) lim by (simp add: tree_ok_def)
  qed
  moreover have "kids_ok s2"
  proof -
    have "(\<forall>c'. (c', True) \<in> set (inst_map ch') \<longrightarrow> c' \<in> kids s2 q) \<and>
        (\<forall>c' \<in> kids s2 q. map_of (inst_map ch') c' \<noteq> None) \<and>
        num_managed ch' = word_of_nat (card (kids s2 q)) \<and> sem_waiters ch' = [] \<and>
        sem_count ch' = GMaxActiveChildNum - int (card (kids s2 q))"
      if "children_of s2 q = Some ch'" for q ch'
    proof (cases "q = p")
      case True
      then have "ch' = ?ch" using that cc by simp
      then show ?thesis using True kd ck fk kk by (auto simp: map_add_def split: option.splits)
    next
      case False
      show ?thesis
      proof (cases "q = c # p")
        case True
        then have "ch' = children_new" using that cc False by (auto simp: new_children_def split: kind.splits)
        then show ?thesis using True ko kk False by (simp add: children_new_def)
      next
        case n2: False
        then have "children_of s q = Some ch'" using that cc False by simp
        then show ?thesis using i kk False unfolding sinv_def kids_ok_def by simp
      qed
    qed
    then show ?thesis unfolding kids_ok_def by blast
  qed
  moreover have "entries_ok E s2"
  proof -
    have "(c', True) \<notin> set (inst_map ch')"
      if h: "objs s2 (c' # q) = Some b'" "c' # q \<notin> E" "stopping b'" "children_of s2 q = Some ch'" for c' q b' ch'
    proof -
      from old [OF h(1)] h(3) obtain b where b: "objs s (c' # q) = Some b" "stopping b"
        by (auto simp: new_obj_facts)
      have q: "q \<noteq> c # p" using ko b(1) by (auto simp: kids_def)
      obtain ch0 where ch0: "children_of s q = Some ch0" using sinv_parent [OF i b(1)] .
      then have "(c', True) \<notin> set (inst_map ch0)" using i b h(2) unfolding sinv_def entries_ok_def by blast
      then show ?thesis using h(4) ch0 ch q cc none b(1) by (auto split: if_splits)
    qed
    then show ?thesis unfolding entries_ok_def by blast
  qed
  moreover have "queue_ok R s2" using i s'(3,5) v1 unfolding sinv_def queue_ok_def by simp
  moreover have "run_ok R s2"
  proof -
    have "\<exists>b. objs s2 r = Some b \<and> sched_status b = SCHEDULED" if "r \<in> R" for r
    proof -
      from sinv_running [OF i that] obtain b where b: "objs s r = Some b" "sched_status b = SCHEDULED" .
      then obtain b' where "objs s2 r = Some b'" using dd by (metis domD domI insertCI)
      with old [OF this] b none show ?thesis by auto
    qed
    then show ?thesis using i unfolding sinv_def run_ok_def by blast
  qed
  moreover have "known_ok (K(c # p \<mapsto> (is_group ?n, False))) s2"
  proof -
    have "\<exists>b. objs s2 r = Some b \<and> is_group b = x \<and> (w \<longrightarrow> sched_status b = SCHEDULED)"
      if "r \<noteq> c # p" "K r = Some (x, w)" for r x w
    proof -
      from sinv_known [OF i that(2)] obtain b where b: "objs s r = Some b" "is_group b = x"
        "w \<Longrightarrow> sched_status b = SCHEDULED" by blast
      then obtain b' where "objs s2 r = Some b'" using dd by (metis domD domI insertCI)
      with old [OF this] b that(1) show ?thesis by auto
    qed
    then show ?thesis using new by (auto simp: known_ok_def)
  qed
  moreover have "wakes_ok X s2"
    using old i new_obj_facts(1) [OF env k] unfolding sinv_def wakes_ok_def
    by (metis (no_types, lifting) new_obj_facts(2))
  ultimately show ?thesis using new by (simp add: sinv_def)
qed

end
