(* ===== verification/Actor_Safety.thy ===== *)
theory Actor_Safety
  imports Actor_Invariant
begin

text \<open>
  Every operation of the actor system keeps the invariant of the shard and follows no dangling
  pointer, operation by operation up to a whole turn of the reactor and the receipt of a message.
  The statements have the form \<open>ok_res (sinv X E R K) (op s)\<close>: the operation returns a shard with the
  invariant, or faults for a reason other than a dangling pointer (a malformed message, an
  assertion, memory exhausted).
\<close>

section \<open>Receiving\<close>

lemma get_children_of: "children_of s p = Some ch \<Longrightarrow> get_children p s = Inr ch"
  by (auto simp: get_children_def children_of_def get_group_def get_obj_def split: if_splits option.splits part.splits)

lemma set_children_new_obj:
  assumes "set_children p ch ((set_obj (c # p) n s)\<lparr>live_count := l\<rparr>) = Inr s2"
    and "sched_status n = INITIALIZED"
  shows "\<exists>s3. set_children p ch ((set_obj (c # p) (n\<lparr>sched_status := SCHEDULABLE\<rparr>) s)\<lparr>live_count := l\<rparr>) = Inr s3 \<and>
    schedule_child (c # p) s2 = activate (c # p) s3"
proof (cases "p = []")
  case True
  then show ?thesis
    using assms by (auto simp: set_children_def schedule_child_def set_activatable_def get_obj_def set_obj_def)
next
  case False
  have ne: "p \<noteq> c # p" by simp
  show ?thesis
    using False ne assms
    by (auto simp: set_children_def get_group_def set_group_def schedule_child_def set_activatable_def get_obj_def
        set_obj_def bind_res_def fun_upd_twist split: sum.splits option.splits part.splits simp del: activate.simps)
qed

lemma activate_children: "activate p s = Inr s' \<Longrightarrow> children_of s' = children_of s"
proof (induction p arbitrary: s)
  case (Cons c p)
  show ?case
  proof (cases "objs s (c # p)")
    case None
    then show ?thesis using Cons.prems by (simp add: get_obj_def)
  next
    case (Some a)
    let ?s1 = "set_obj (c # p) (a\<lparr>sched_status := SCHEDULED\<rparr>) s"
    have c1: "children_of ?s1 = children_of s"
      using Some by (auto simp: children_of_def fun_eq_iff split: part.splits option.splits)
    have cg: "children_of (set_obj p (b\<lparr>part := Group (g\<lparr>group_tasks := q\<rparr>)\<rparr>) ?s1) = children_of ?s1"
      if "objs ?s1 p = Some b" "part b = Group g" for b g q
      using that by (auto simp: children_of_def fun_eq_iff split: part.splits option.splits)
    have eq: "children_of (?s1\<lparr>engine_q := q\<rparr>) = children_of ?s1" for q
      by (auto simp: children_of_def fun_eq_iff)
    show ?thesis
      using Cons.prems Some Cons.IH c1 cg eq
      by (auto simp: get_obj_def get_group_def set_group_def Let_def split: if_splits option.splits part.splits)
  qed
qed simp

text \<open>\<open>child_made\<close>: the new child has the invariant and no children of its own.\<close>

definition fresh :: "('d, 'u, 's) shard \<Rightarrow> path \<Rightarrow> bool" where
  "fresh s p \<longleftrightarrow> (\<forall>ch. children_of s p = Some ch \<longrightarrow> inst_map ch = [])"

definition child_made :: "path set \<Rightarrow> path set \<Rightarrow> path set \<Rightarrow> known \<Rightarrow> path \<Rightarrow> ('d, 'u, 's) shard \<Rightarrow> bool" where
  "child_made X E R K p s \<longleftrightarrow> sinv X E R K s \<and> objs s p \<noteq> None \<and> fresh s p"

lemma create_child_ok:
  assumes "env_ok env" and "sinv X E R K s" and "children_of s p = Some ch" and "map_of (inst_map ch) c = None"
  shows "ok_res (child_made X E R K (c # p)) (create_child env p c tid (s :: ('d, 'u, 's) shard))"
proof (cases "factory env tid")
  case (Inl e)
  then show ?thesis using assms(1) by (auto simp: create_child_def env_ok_def)
next
  case (Inr k)
  show ?thesis
  proof (cases "max_objs env \<le> live_count s")
    case True
    then show ?thesis using Inr by (simp add: create_child_def)
  next
    case False
    let ?n = "new_obj k :: ('d, 'u) obj"
    let ?r = "ready_obj k :: ('d, 'u) obj"
    let ?s1 = "(set_obj (c # p) ?n s)\<lparr>live_count := live_count s + 1\<rparr>"
    let ?ch = "ch\<lparr>inst_map := inst_map ch @ [(c, True)], num_managed := num_managed ch + 1,
        sem_count := sem_count ch - 1\<rparr>"
    let ?K = "K(c # p \<mapsto> (is_group ?r, False))"
    have "c \<notin> kids s p" using sinv_kidsD(2) [OF assms(2,3)] assms(4) by blast
    then have none: "objs s (c # p) = None" by (simp add: kids_def)
    have "children_of ?s1 p = Some ch" using assms(3) by (auto simp: children_of_def split: option.splits if_splits)
    then obtain s2 where s2: "set_children p ?ch ?s1 = Inr s2" by (rule set_children_eq)
    then obtain s3 where s3: "set_children p ?ch ((set_obj (c # p) ?r s)\<lparr>live_count := live_count s + 1\<rparr>) = Inr s3"
      "schedule_child (c # p) s2 = activate (c # p) s3"
      using set_children_new_obj [OF s2] by (auto simp: new_obj_def ready_obj_def)
    from sinv_add_child [OF assms Inr _ s3(1)] False have i3: "sinv X E R ?K s3"
      and new: "objs s3 (c # p) = Some ?r" by auto
    have p: "p \<noteq> [] \<Longrightarrow> children_of s3 (c # p) = new_children k"
      and "p = [] \<Longrightarrow> children_of s3 (c # p) = new_children k"
      using new by (auto simp: children_of_def new_children_def ready_obj_def new_obj_def new_part_def split: kind.splits)
    then have nc: "children_of s3 (c # p) = new_children k" by blast
    obtain s4 where s4: "activate (c # p) s3 = Inr s4" "sinv X E R ?K s4"
      using activate_inv [OF sinv_owe [OF i3]] new by blast
    have f: "fresh s4 (c # p)"
      using nc activate_children [OF s4(1)] by (auto simp: fresh_def new_children_def children_new_def split: kind.splits)
    obtain a where a: "objs s4 (c # p) = Some a" using sinv_known [OF s4(2), of "c # p"] by auto
    have "K (c # p) = None"
      using assms(2) none unfolding sinv_def known_ok_def by (metis option.distinct(1) option.exhaust prod.exhaust)
    then have "sinv X E R K s4" using s4(2) by (elim sinv_weaken) (auto simp: map_le_def)
    then have "ok_res (child_made X E R K (c # p)) (schedule_child (c # p) s2)"
      using s3(2) s4(1) f a by (simp add: child_made_def)
    moreover have "card (kids s p) < 4294967296"
      using card_kids_le [OF assms(2), of p] assms(2) by (auto simp: sinv_def tree_ok_def)
    then have "0 < sem_count ch" using sinv_kidsD(5) [OF assms(2,3)] by (simp add: GMaxActiveChildNum_def)
    ultimately show ?thesis
      using Inr False s2 get_children_of [OF assms(3)] by (simp add: create_child_def Let_def)
  qed
qed

lemma pr_access_ok: "ok_res (\<lambda>_. True) (set_pr i f prs)" "ok_res (\<lambda>_. True) (is_active i prs)"
  by (simp_all add: is_active_def get_node_def set_pr_def upd_node_def)

lemma receive_response_ok: "sinv X E R K s \<Longrightarrow> ok_res (sinv X E R K) (receive_response env m s)"
proof -
  assume i: "sinv X E R K s"
  then have s: "ok_res (sinv X E R K) (bind_res (set_pr j f (response_prs s)) (\<lambda>prs. Inr (s\<lparr>response_prs := prs\<rparr>)))"
    for j f
    by (intro ok_res_bind [OF pr_access_ok(1)]) simp
  show ?thesis
    by (cases m) (auto simp: receive_response_def Let_def i s intro!: ok_res_bind [OF pr_access_ok(2)])
qed

lemma get_shard_id_ok: "ok_res (\<lambda>_. True) (get_shard_id a)"
  by (simp add: get_shard_id_def load_unaligned_int_def mem_load_def)

lemma send_response_ok: "sinv X E R K s \<Longrightarrow> ok_res (sinv X E R K) (send_response env m s)"
  unfolding send_response_def
  by (rule ok_res_bind [OF get_shard_id_ok]) (simp add: receive_response_ok)

lemma response_address_ok: "ok_res (\<lambda>_. True) (response_address junk sid)"
  by (simp add: response_address_def set_data_def mem_store_def)

lemma stopped_actor_enqueue_ok: "sinv X E R K s \<Longrightarrow> ok_res (sinv X E R K) (stopped_actor_enqueue env m s)"
proof -
  assume i: "sinv X E R K s"
  have "ok_res (\<lambda>_. True) (make_response_with_data junk sid d pr mt)" for junk sid d pr mt
    unfolding make_response_with_data_def by (rule ok_res_bind [OF response_address_ok]) simp
  then show ?thesis using i by (auto simp: stopped_actor_enqueue_def intro!: ok_res_bind send_response_ok)
qed

lemma child_at_ok: "ok_res (\<lambda>_. True) (child_id_at off a)" "ok_res (\<lambda>_. True) (child_type_at off a)"
  by (simp_all add: child_id_at_def child_type_at_def load_unaligned_int_partial_def load_unaligned_int_def
      mem_load_def)

text \<open>A destination that was found exists.\<close>

definition found :: "path set \<Rightarrow> path set \<Rightarrow> path set \<Rightarrow> known \<Rightarrow>
    path option \<times> ('d, 'u, 's) shard \<Rightarrow> bool" where
  "found X E R K = (\<lambda>(dest, s). sinv X E R K s \<and> (\<forall>p. dest = Some p \<longrightarrow> objs s p \<noteq> None))"

lemma found_simps [simp]:
  "found X E R K (None, s) = sinv X E R K s" "found X E R K (Some p, s) = (sinv X E R K s \<and> objs s p \<noteq> None)"
  by (auto simp: found_def)

lemma get_actor_local_ok:
  fixes s :: "('d, 'u, 's) shard"
  assumes "env_ok env"
  shows "sinv X E R K s \<Longrightarrow> objs s p \<noteq> None \<Longrightarrow> ok_res (found X E R K) (get_actor_local env addr n p s)"
proof (induction n arbitrary: p s)
  case 0
  then obtain a where "objs s p = Some a" by auto
  then show ?case using 0 by (auto simp: get_obj_def found_def split: part.splits)
next
  case (Suc n)
  then obtain a where a: "objs s p = Some a" by auto
  have pn: "p \<noteq> []" using sinv_obj(3) [OF Suc.prems(1) a] .
  show ?case
  proof (cases "part a")
    case (Actor k)
    then show ?thesis using a Suc.prems by (simp add: get_obj_def found_def)
  next
    case (Group g)
    then have ch: "children_of s p = Some (group_children g)" using a pn by (simp add: children_of_def)
    have go: "ok_res (found X E R K) (get_actor_local env addr n (c # p) s')"
      if "sinv X E R K s'" "objs s' (c # p) \<noteq> None" for c and s' :: "('d, 'u, 's) shard"
      using that Suc.IH [of s' "c # p"] by simp
    have t: "map_of (inst_map (group_children g)) c = Some True \<Longrightarrow> objs s (c # p) \<noteq> None" for c
      using sinv_kidsD(1) [OF Suc.prems(1) ch, OF map_of_SomeD] by (simp add: kids_def)
    have new: "ok_res (found X E R K) (bind_res (child_type_at off addr) (\<lambda>tid.
        bind_res (create_child env p c tid s) (\<lambda>s1.
          if addr_length addr = total_addr_length (c # p) then Inr (Some (c # p), s1)
          else get_actor_local env addr n (c # p) s1)))"
      if "map_of (inst_map (group_children g)) c = None" for c off
      by (intro ok_res_bind [OF child_at_ok(2)] ok_res_bind [OF create_child_ok [OF assms Suc.prems(1) ch that]])
        (simp add: child_made_def go)
    have "ok_res (found X E R K) (case map_of (inst_map (group_children g)) c of
        Some False \<Rightarrow> Inr (None, s)
      | Some True \<Rightarrow> if addr_length addr = total_addr_length (c # p) then Inr (Some (c # p), s)
          else get_actor_local env addr n (c # p) s
      | None \<Rightarrow> bind_res (child_type_at off addr) (\<lambda>tid.
          bind_res (create_child env p c tid s) (\<lambda>s1.
            if addr_length addr = total_addr_length (c # p) then Inr (Some (c # p), s1)
            else get_actor_local env addr n (c # p) s1)))" for c off
    proof (cases "map_of (inst_map (group_children g)) c")
      case None
      show ?thesis unfolding None option.case by (rule new [OF None])
    next
      case (Some v)
      then show ?thesis using go [OF Suc.prems(1), of c] t [of c] Suc.prems(1) by (cases v) simp_all
    qed
    then show ?thesis using a Group by (simp add: get_obj_def ok_res_bind [OF child_at_ok(1)])
  qed
qed

lemma fresh_get_actor_local:
  assumes "env_ok env"
  shows "sinv X E R K s \<Longrightarrow> objs s p \<noteq> None \<Longrightarrow> fresh s p \<Longrightarrow>
    ok_res (\<lambda>(d, s'). d \<noteq> None) (get_actor_local env addr n p s)"
proof (induction n arbitrary: p s)
  case 0
  then show ?case by (auto simp: get_obj_def split: part.splits)
next
  case (Suc n)
  then obtain a where a: "objs s p = Some a" by auto
  show ?case
  proof (cases "part a")
    case (Actor k)
    then show ?thesis using a by (simp add: get_obj_def)
  next
    case (Group g)
    then have ch: "children_of s p = Some (group_children g)"
      using a sinv_obj(3) [OF Suc.prems(1) a] by (simp add: children_of_def)
    then have e: "inst_map (group_children g) = []" using Suc.prems(3) by (simp add: fresh_def)
    have "ok_res (\<lambda>(d, s'). d \<noteq> None) (bind_res (child_type_at off addr) (\<lambda>tid.
        bind_res (create_child env p c tid s) (\<lambda>s1.
          if addr_length addr = total_addr_length (c # p) then Inr (Some (c # p), s1)
          else get_actor_local env addr n (c # p) s1)))" for c off
      by (intro ok_res_bind [OF child_at_ok(2)] ok_res_bind [OF create_child_ok [OF assms Suc.prems(1) ch]])
        (use Suc.IH in \<open>auto simp: child_made_def e\<close>)
    then show ?thesis using a Group e by (auto simp: get_obj_def intro!: ok_res_bind [OF child_at_ok(1)])
  qed
qed

lemma deliver_to_ok: "sinv X E R K s \<Longrightarrow> objs s p \<noteq> None \<Longrightarrow> ok_res (sinv X E R K) (deliver_to m p s)"
  by (simp add: deliver_to_def enque_message_ok)

lemma ok_res_conj: "ok_res P m \<Longrightarrow> ok_res Q m \<Longrightarrow> ok_res (\<lambda>x. P x \<and> Q x) m"
  by (cases m) auto

lemma receive_actor_ok:
  fixes s :: "('d, 'u, 's) shard"
  assumes e: "env_ok env" and i: "sinv X E R K s"
  shows "ok_res (sinv X E R K) (receive_actor env m s)"
proof -
  let ?addr = "hdr_addr (msg_hdr m)"
  have rc: "children_of s [] = Some (root_children s)" by (simp add: children_of_def)
  have live: "map_of (inst_map (root_children s)) c = Some True \<Longrightarrow> objs s [c] \<noteq> None" for c
    using sinv_kidsD(1) [OF i rc, OF map_of_SomeD] by (simp add: kids_def)
  have d: "ok_res (sinv X E R K) (bind_res (if b then Inr (Some [c], s') else get_actor_local env ?addr 7 [c] s')
      (\<lambda>(dest, s1). case dest of Some p \<Rightarrow> deliver_to m p s1 | None \<Rightarrow> stopped_actor_enqueue env m s1))"
    if "sinv X E R K s'" "objs s' [c] \<noteq> None" for b c and s' :: "('d, 'u, 's) shard"
  proof (rule ok_res_bind [where P = "found X E R K"])
    show "ok_res (found X E R K) (if b then Inr (Some [c], s') else get_actor_local env ?addr 7 [c] s')"
      using that get_actor_local_ok [OF e that] by simp
  qed (auto simp: deliver_to_ok stopped_actor_enqueue_ok split: option.splits)
  have f: "ok_res (sinv X E R K) (bind_res (if b then Inr (Some [c], s') else get_actor_local env ?addr 7 [c] s')
      (\<lambda>(dest, s1). case dest of Some p \<Rightarrow> deliver_to m p s1 | None \<Rightarrow> Inl Null_deref))"
    if c: "sinv X E R K s'" "objs s' [c] \<noteq> None" "fresh s' [c]" for b c and s' :: "('d, 'u, 's) shard"
  proof (rule ok_res_bind [where P = "\<lambda>x. found X E R K x \<and> fst x \<noteq> None"])
    show "ok_res (\<lambda>x. found X E R K x \<and> fst x \<noteq> None)
        (if b then Inr (Some [c], s') else get_actor_local env ?addr 7 [c] s')"
      using c ok_res_conj [OF get_actor_local_ok [OF e c(1,2)] fresh_get_actor_local [OF e c]]
      by (simp add: case_prod_beta)
  qed (auto simp: deliver_to_ok)
  have new: "ok_res (sinv X E R K) (bind_res (child_type_at off ?addr) (\<lambda>tid.
      bind_res (create_child env [] c tid s) (\<lambda>s1.
      bind_res (if b then Inr (Some [c], s1) else get_actor_local env ?addr 7 [c] s1)
        (\<lambda>(dest, s2). case dest of Some p \<Rightarrow> deliver_to m p s2 | None \<Rightarrow> Inl Null_deref))))"
    if "map_of (inst_map (root_children s)) c = None" for c off b
    by (intro ok_res_bind [OF child_at_ok(2)] ok_res_bind [OF create_child_ok [OF e i rc that]] f)
      (simp_all add: child_made_def)
  have "ok_res (sinv X E R K) (case map_of (inst_map (root_children s)) c of
      Some False \<Rightarrow> stopped_actor_enqueue env m s
    | Some True \<Rightarrow>
        bind_res (if addr_length ?addr = total_addr_length [c] then Inr (Some [c], s)
                  else get_actor_local env ?addr 7 [c] s) (\<lambda>(dest, s1).
          case dest of Some p \<Rightarrow> deliver_to m p s1 | None \<Rightarrow> stopped_actor_enqueue env m s1)
    | None \<Rightarrow>
        if root_stop s \<noteq> RUNNING then stopped_actor_enqueue env m s
        else bind_res (child_type_at (unat (total_addr_length [])) ?addr) (\<lambda>tid.
             bind_res (create_child env [] c tid s) (\<lambda>s1.
             bind_res (if addr_length ?addr = total_addr_length [c] then Inr (Some [c], s1)
                       else get_actor_local env ?addr 7 [c] s1) (\<lambda>(dest, s2).
               case dest of Some p \<Rightarrow> deliver_to m p s2 | None \<Rightarrow> Inl Null_deref))))" for c
  proof (cases "map_of (inst_map (root_children s)) c")
    case None
    show ?thesis unfolding None option.case
      by (cases "root_stop s \<noteq> RUNNING"; simp only: if_True if_False not_False_eq_True)
        (rule stopped_actor_enqueue_ok [OF i] new [OF None])+
  next
    case (Some v)
    show ?thesis
    proof (cases v rule: bool.exhaust)
      assume v: "v = True"
      show ?thesis unfolding Some option.case v bool.case using Some v by (intro d [OF i] live) simp
    next
      assume v: "v = False"
      show ?thesis unfolding Some option.case v bool.case by (rule stopped_actor_enqueue_ok [OF i])
    qed
  qed
  then show ?thesis unfolding receive_actor_def Let_def by (rule ok_res_bind [OF child_at_ok(1)])
qed

lemma send_in_turn_ok: "env_ok env \<Longrightarrow> sinv X E R K s \<Longrightarrow> ok_res (sinv X E R K) (send_in_turn env m s)"
  by (auto simp: send_in_turn_def Let_def receive_response_ok receive_actor_ok intro!: ok_res_bind [OF get_shard_id_ok])

section \<open>Stopping\<close>

lemma sinv_children:
  assumes "sinv X E R K s" and "objs s p = Some a"
  obtains ch where "children_of s (tl p) = Some ch" "map_of (inst_map ch) (hd p) \<noteq> None"
proof -
  from sinv_obj(3) [OF assms] obtain c q where p: "p = c # q" by (cases p) auto
  obtain ch where ch: "children_of s q = Some ch" using sinv_parent [OF assms(1), of c q] assms(2) p by blast
  moreover have "c \<in> kids s q" using assms(2) p by (simp add: kids_def)
  ultimately show thesis using that p sinv_kidsD(2) [OF assms(1) ch] by simp
qed

lemma child_entry_ok:
  assumes "sinv X E R K s" and "objs s p \<noteq> None"
  shows "ok_res (\<lambda>_. True) (child_entry p s)"
  using assms by (auto elim!: sinv_children simp: child_entry_def get_children_of)

lemma map_of_mark_null:
  "map_of (mark_null c m) k = (if k = c then map_option (\<lambda>_. False) (map_of m k) else map_of m k)"
  by (induction m) (auto simp: mark_null_def)

lemma mark_null_True: "(k, True) \<in> set (mark_null c m) \<longleftrightarrow> k \<noteq> c \<and> (k, True) \<in> set m"
  by (induction m) (auto simp: mark_null_def split: if_splits)

text \<open>Changing the instance map of a parent.\<close>

lemma sinv_set_children:
  assumes i: "sinv X E R K s" and ch: "children_of s q = Some ch"
    and t: "\<And>c. (c, True) \<in> set (inst_map ch') \<Longrightarrow> (c, True) \<in> set (inst_map ch)"
    and keys: "\<And>c. map_of (inst_map ch) c \<noteq> None \<Longrightarrow> map_of (inst_map ch') c \<noteq> None"
    and n: "num_managed ch' = num_managed ch" "sem_waiters ch' = sem_waiters ch" "sem_count ch' = sem_count ch"
    and en: "\<And>c a. objs s (c # q) = Some a \<Longrightarrow> c # q \<notin> E' \<Longrightarrow> stopping a \<Longrightarrow> (c, True) \<notin> set (inst_map ch')"
    and E: "\<And>c p. c # p \<in> E \<Longrightarrow> p \<noteq> q \<Longrightarrow> c # p \<in> E'"
  shows "ok_res (sinv X E' R K) (set_children q ch' s)"
proof -
  obtain s' where s': "set_children q ch' s = Inr s'" "live_count s' = live_count s"
    "queue_of s' = queue_of s" "dom (objs s') = dom (objs s)" "waits R s' = waits R s"
    "children_of s' = (children_of s)(q := Some ch')" "kids s' = kids s" "\<And>r. r \<noteq> q \<Longrightarrow> objs s' r = objs s r"
    "\<And>b'. objs s' q = Some b' \<Longrightarrow> q \<noteq> [] \<Longrightarrow> \<exists>b g. objs s q = Some b \<and> part b = Group g \<and> group_children g = ch \<and>
       b' = b\<lparr>part := Group (g\<lparr>group_children := ch'\<rparr>)\<rparr>"
    by (rule set_children_eq [OF ch, of ch' R]) auto
  have qn: "q \<noteq> []" if "objs s' q = Some b'" for b' using that s'(4) i unfolding sinv_def tree_ok_def by auto
  have old: "\<exists>b. objs s r = Some b \<and> sched_status b' = sched_status b \<and> is_group b' = is_group b \<and>
      stopping b' = stopping b \<and> obj_ok b' \<and> (wake_ok b \<longrightarrow> wake_ok b')" if b': "objs s' r = Some b'" for r b'
  proof (cases "r = q")
    case True
    from s'(9) [OF b' [unfolded True] qn [OF b' [unfolded True]]] obtain b g where
      b: "objs s q = Some b" "part b = Group g" "group_children g = ch" "b' = b\<lparr>part := Group (g\<lparr>group_children := ch'\<rparr>)\<rparr>"
      by blast
    then show ?thesis
      using True sinv_obj(1) [OF i b(1)] n by (auto simp: is_group_def stopping_def obj_ok_def wake_ok_def)
  next
    case False
    then show ?thesis using b' s'(8) [OF False] sinv_obj(1) [OF i] by auto
  qed
  have new: "\<exists>b'. objs s' r = Some b' \<and> sched_status b' = sched_status b \<and> is_group b' = is_group b"
    if b: "objs s r = Some b" for r b
  proof -
    obtain b' where "objs s' r = Some b'" using s'(4) b by (metis domD domI)
    with old [OF this] b show ?thesis by auto
  qed
  have "tree_ok s'" using i s'(2,4,6) unfolding sinv_def tree_ok_def by simp
  moreover have "kids_ok s'"
  proof -
    have "(\<forall>c. (c, True) \<in> set (inst_map ch0) \<longrightarrow> c \<in> kids s p) \<and> (\<forall>c \<in> kids s p. map_of (inst_map ch0) c \<noteq> None) \<and>
        num_managed ch0 = word_of_nat (card (kids s p)) \<and> sem_waiters ch0 = [] \<and>
        sem_count ch0 = GMaxActiveChildNum - int (card (kids s p))" if "children_of s' p = Some ch0" for p ch0
    proof (cases "p = q")
      case True
      then show ?thesis using that s'(6) sinv_kidsD [OF i ch] n t keys by auto
    next
      case False
      then show ?thesis using that s'(6) sinv_kidsD [OF i, of p ch0] by auto
    qed
    then show ?thesis unfolding kids_ok_def s'(7) by blast
  qed
  moreover have "entries_ok E' s'"
  proof -
    have "(c, True) \<notin> set (inst_map ch0)"
      if h: "objs s' (c # p) = Some b'" "c # p \<notin> E'" "stopping b'" "children_of s' p = Some ch0" for c p b' ch0
    proof -
      from old [OF h(1)] h(3) obtain b where b: "objs s (c # p) = Some b" "stopping b" by auto
      show ?thesis
      proof (cases "p = q")
        case True
        then show ?thesis using en [of c b] b h s'(6) by simp
      next
        case False
        then show ?thesis using E [of c p] b h s'(6) i unfolding sinv_def entries_ok_def by auto
      qed
    qed
    then show ?thesis unfolding entries_ok_def by blast
  qed
  moreover have "queue_ok R s'" using i s'(3,5) unfolding sinv_def queue_ok_def by simp
  moreover have "run_ok R s'" using i new unfolding sinv_def run_ok_def by metis
  moreover have "known_ok K s'" using i new unfolding sinv_def known_ok_def by metis
  moreover have "wakes_ok X s'" using i old unfolding sinv_def wakes_ok_def by metis
  ultimately show ?thesis using s'(1) by (simp add: sinv_def)
qed

lemma null_child_entry_ok:
  assumes "sinv X (insert p E) R K s" and "objs s p \<noteq> None"
  shows "ok_res (sinv X E R K) (null_child_entry p s)"
proof -
  from assms(2) obtain a where a: "objs s p = Some a" by auto
  obtain ch where ch: "children_of s (tl p) = Some ch" "map_of (inst_map ch) (hd p) \<noteq> None"
    by (rule sinv_children [OF assms(1) a])
  from sinv_obj(3) [OF assms(1) a] obtain c q where p: "p = c # q" by (cases p) auto
  have "ok_res (sinv X E R K) (set_children q (ch\<lparr>inst_map := mark_null c (inst_map ch)\<rparr>) s)"
    using assms(1)
  proof (rule sinv_set_children)
    show "children_of s q = Some ch" using ch p by simp
    show "(c', True) \<notin> set (inst_map (ch\<lparr>inst_map := mark_null c (inst_map ch)\<rparr>))"
      if "objs s (c' # q) = Some a'" "c' # q \<notin> E" "stopping a'" for c' a'
      using that assms(1) ch p unfolding sinv_def entries_ok_def by (auto simp: mark_null_True)
  qed (use p in \<open>auto simp: mark_null_def map_of_mark_null [unfolded mark_null_def] split: if_splits\<close>)
  then show ?thesis using ch p by (simp add: null_child_entry_def get_children_of)
qed

section \<open>Continuations of an actor that is surely scheduled\<close>

lemma scheduled_wake_ok: "sched_status a = SCHEDULED \<Longrightarrow> wake_ok a"
  by (simp add: wake_ok_def)

lemma awake_actor:
  assumes "sinv X E R K s" and "K p = Some (False, True)"
  obtains a k where "objs s p = Some a" "part a = Actor k" "sched_status a = SCHEDULED"
    "get_obj p s = Inr a" "get_actor p s = Inr k"
    "\<And>k'. 0 < max_concurrency k' \<Longrightarrow> ok_res (sinv X E R K) (set_actor p k' s)" "0 < max_concurrency k"
proof -
  from assms obtain a k where a: "objs s p = Some a" "part a = Actor k" "get_actor p s = Inr k"
    "0 < max_concurrency k" "\<And>k'. set_actor p k' s = Inr (set_obj p (a\<lparr>part := Actor k'\<rparr>) s)"
    by (rule known_actor) blast
  have sch: "sched_status a = SCHEDULED" using sinv_known [OF assms] a(1) by auto
  have "ok_res (sinv X E R K) (set_actor p k' s)" if "0 < max_concurrency k'" for k'
    using sinv_set_actor [OF assms(1) a(1,2) that] a(5) sch by (simp add: scheduled_wake_ok)
  then show thesis using that [OF a(1,2) sch _ a(3)] a(1,4) by (simp add: get_obj_def)
qed

lemma apply_user_ok:
  assumes "env_ok env" and "sinv X E R K s" and "K p = Some (False, w)"
  shows "ok_res (sinv X E R K) (apply_user env p msgs ts st s)"
  unfolding apply_user_def
proof (rule ok_res_bind)
  show "ok_res (sinv X E R K) (fold_res (send_in_turn env) msgs (s\<lparr>user_state := st\<rparr>))"
    using assms by (intro ok_res_fold send_in_turn_ok) simp_all
  show "ok_res (sinv X E R K) (fold_res (actor_add_task p) ts s1)" if "sinv X E R K s1" for s1
    using that by (rule ok_res_fold) (rule actor_add_task_ok [where K = K, OF _ assms(3)])
qed

lemma dec_concurrency_ok:
  "sinv X E R K s \<Longrightarrow> K p = Some (False, True) \<Longrightarrow> ok_res (sinv X E R K) (dec_concurrency p s)"
  by (rule awake_actor [of X E R K s p]) (auto simp: dec_concurrency_def)

lemma sinv_more_E: "sinv X E R K s \<Longrightarrow> sinv X (insert p E) R K s"
  by (erule sinv_weaken) (auto simp: map_le_def)

lemma run_task_while_stopping_ok:
  assumes "env_ok env" and "sinv X (insert p E) R K s" and "K p = Some (False, True)"
  shows "ok_res (sinv X (insert p E) R K) (run_task_while_stopping env p t s)"
proof (cases t)
  case (User_task u)
  then show ?thesis using apply_user_ok [OF assms] by (simp add: run_task_while_stopping_def split: prod.split)
next
  case (Post_work x)
  have n: "ok_res (sinv X (insert p E) R K) (bind_res (child_entry p s1)
      (\<lambda>live. if live then null_child_entry p s1 else Inr s1))" if i: "sinv X (insert p E) R K s1" for s1
  proof -
    obtain a where a: "objs s1 p = Some a" using sinv_known [OF i assms(3)] by blast
    have "ok_res (sinv X (insert p E) R K) (null_child_entry p s1)"
      using null_child_entry_ok [OF i] a by (auto elim: ok_res_mono intro: sinv_more_E)
    then show ?thesis using i a by (auto intro!: ok_res_bind [OF child_entry_ok [OF i]])
  qed
  show ?thesis
    unfolding run_task_while_stopping_def Post_work task.case
    using dec_concurrency_ok [OF assms(2,3)] by (rule ok_res_bind) (simp add: n split: outcome.split)
qed

lemma ok_runI: "(\<And>r. m = Some r \<Longrightarrow> ok_res P r) \<Longrightarrow> ok_run P m"
  by (cases m) auto

lemma run_stopped_tasks_ok:
  assumes "env_ok env" and "K p = Some (False, True)" and "sinv X (insert p E) R K s"
  shows "ok_run (sinv X (insert p E) R K) (run_stopped_tasks env p s)"
proof (rule ok_runI)
  let ?I = "sinv X (insert p E) R K"
  let ?P = "\<lambda>e q s r. e = env \<longrightarrow> q = p \<longrightarrow> ?I s \<longrightarrow> ok_res ?I r"
  fix r assume r: "run_stopped_tasks env p s = Some r"
  have "?P env p s r"
  proof (rule run_stopped_tasks.raw_induct [OF _ r, where P = ?P], intro impI)
    fix rec e q s r
    assume IH: "\<And>e q s r. rec e q s = Some r \<Longrightarrow> ?P e q s r" and "e = env" "q = p" and i: "?I s"
      and b: "bind_run (Some (get_actor q s)) (\<lambda>k. case actor_tasks k of [] \<Rightarrow> Some (Inr s)
        | t # ts \<Rightarrow> bind_run (Some (bind_res (set_actor q (k\<lparr>actor_tasks := ts\<rparr>) s) (run_task_while_stopping e q t)))
            (rec e q)) = Some r"
    obtain k where k: "get_actor p s = Inr k" "0 < max_concurrency k"
      "\<And>k'. 0 < max_concurrency k' \<Longrightarrow> ok_res ?I (set_actor p k' s)"
      by (rule awake_actor [OF i assms(2)]) blast
    have "ok_run ?I (case actor_tasks k of [] \<Rightarrow> Some (Inr s)
        | t # ts \<Rightarrow> bind_run (Some (bind_res (set_actor p (k\<lparr>actor_tasks := ts\<rparr>) s) (run_task_while_stopping env p t)))
            (rec env p))"
    proof (cases "actor_tasks k")
      case (Cons t ts)
      have "ok_res ?I (bind_res (set_actor p (k\<lparr>actor_tasks := ts\<rparr>) s) (run_task_while_stopping env p t))"
        using k by (intro ok_res_bind [OF k(3)] run_task_while_stopping_ok assms) simp_all
      then show ?thesis
        unfolding Cons list.case by (intro ok_run_bind [where P = ?I]) (auto intro!: ok_runI dest: IH)
    qed (simp add: i)
    then show "ok_res ?I r" using b [unfolded \<open>e = env\<close> \<open>q = p\<close>] k(1) by simp
  qed
  then show "ok_res ?I r" using assms(3) by simp
qed

text \<open>The mailbox of an object can be emptied and its stop status set while it is surely scheduled.\<close>

lemma wake_ok_clean: "wake_ok a \<Longrightarrow> wake_ok (a\<lparr>mailbox := []\<rparr>)"
  by (auto simp: wake_ok_def stopping_def split: part.splits)

lemma clean_mailbox_ok:
  assumes "sinv X E R K s" and "objs s p \<noteq> None"
  shows "ok_res (sinv X E R K) (clean_mailbox p s)"
proof -
  from assms(2) obtain a where a: "objs s p = Some a" by auto
  have "sinv X E R K (set_obj p (a\<lparr>mailbox := []\<rparr>) s)"
    using assms(1) a by (rule sinv_set_obj)
      (use sinv_obj [OF assms(1) a] in \<open>auto simp: mailbox_shape intro: wake_ok_clean\<close>)
  then show ?thesis using a by (simp add: clean_mailbox_def get_obj_def)
qed

lemma set_stop_status_ok:
  assumes "sinv X E R K s" and "objs s p = Some a" and "p \<in> X \<or> wake_ok (a\<lparr>stop_status := st\<rparr>)"
  shows "ok_res (sinv X (insert p E) R K) (set_stop_status p st s)"
proof -
  have "sinv X (insert p E) R K (set_obj p (a\<lparr>stop_status := st\<rparr>) s)"
    using sinv_more_E [OF assms(1)] assms(2) by (rule sinv_set_obj)
      (use sinv_obj [OF assms(1,2)] assms(3) in \<open>auto simp: same_shape_def obj_ok_def split: part.splits\<close>)
  then show ?thesis using assms(2) by (simp add: set_stop_status_def get_obj_def)
qed

lemma clean_task_queue_ok:
  assumes "env_ok env" and "K p = Some (False, True)" and i: "sinv X (insert p E) R K s"
  shows "ok_run (sinv X (insert p E) R K) (clean_task_queue env p s)"
proof -
  obtain a k where a: "get_obj p s = Inr a" "get_actor p s = Inr k" "0 < max_concurrency k"
    "\<And>k'. 0 < max_concurrency k' \<Longrightarrow> ok_res (sinv X (insert p E) R K) (set_actor p k' s)"
    by (rule awake_actor [OF i assms(2)]) blast
  have "ok_run (sinv X (insert p E) R K)
      (bind_run (Some (set_actor p (k\<lparr>actor_tasks := map cancel_task (actor_tasks k)\<rparr>) s)) (run_stopped_tasks env p))"
    by (rule ok_run_bind [where P = "sinv X (insert p E) R K"])
      (use a in \<open>auto intro: run_stopped_tasks_ok assms(1,2)\<close>)
  then show ?thesis using a(1,2) by (simp add: clean_task_queue_def)
qed

lemma sinv_learn:
  "sinv X E R K s \<Longrightarrow> objs s p = Some a \<Longrightarrow> sinv X E R (K(p \<mapsto> (is_group a, sched_status a = SCHEDULED))) s"
  unfolding sinv_def known_ok_def by auto

lemma sinv_forget:
  assumes "sinv X E R (K(p \<mapsto> (b, w'))) s" and "K p = Some (b, w)" and "w \<Longrightarrow> w'"
  shows "sinv X E R K s"
proof -
  have k: "known_ok (K(p \<mapsto> (b, w'))) s" using assms(1) by (simp add: sinv_def)
  have "\<exists>a. objs s q = Some a \<and> is_group a = c \<and> (v \<longrightarrow> sched_status a = SCHEDULED)" if "K q = Some (c, v)" for q c v
  proof (cases "q = p")
    case True
    have "(K(p \<mapsto> (b, w'))) p = Some (b, w')" by simp
    with k obtain a where "objs s p = Some a" "is_group a = b" "w' \<longrightarrow> sched_status a = SCHEDULED"
      unfolding known_ok_def by blast
    then show ?thesis using that assms(2,3) True by auto
  next
    case False
    then have "(K(p \<mapsto> (b, w'))) q = Some (c, v)" using that by simp
    then show ?thesis using k unfolding known_ok_def by blast
  qed
  then have "known_ok K s" by (simp add: known_ok_def)
  then show ?thesis using assms(1) by (simp add: sinv_def)
qed

text \<open>A stopped object is left with its entry still to be nulled.\<close>

lemma actor_stop_sleeping:
  assumes i: "sinv {} E R K s" and a: "objs s p = Some a" and k: "part a = Actor k"
    and "\<not> stopping a" and sch: "sched_status a = SCHEDULABLE"
  shows "ok_run (sinv {} (insert p E) R K) (actor_stop env p force (s :: ('d, 'u, 's) shard))"
proof -
  have w: "actor_tasks k = []" "mailbox a = [] \<or> max_concurrency k \<le> cur_concurrency k"
    using sinv_obj(2) [OF i a] k sch by (simp_all add: wake_ok_def)
  let ?b = "a\<lparr>stop_status := (if force then FORCE_STOPPING else PEACE_STOPPING),
     mailbox := (if force then [] else mailbox a)\<rparr>"
  let ?s = "set_obj p ?b s"
  have i1: "sinv {p} (insert p E) R K ?s"
    using sinv_more_E [OF sinv_owe [OF i]] a by (rule sinv_set_obj)
      (use sinv_obj(1) [OF i a] k in \<open>auto simp: same_shape_def obj_ok_def\<close>)
  have "ok_res (sinv {} (insert p E) R K) (if cur_concurrency k = 0 then activate p ?s else Inr ?s)"
  proof (cases "cur_concurrency k = 0")
    case True
    then show ?thesis using activate_ok [OF i1] by simp
  next
    case False
    then have "wake_ok ?b" using w k by (auto simp: wake_ok_def)
    then show ?thesis using False sinv_settle [OF i1] by simp
  qed
  moreover have "actor_stop env p force s = Some (if cur_concurrency k = 0 then activate p ?s else Inr ?s)"
  proof (cases force)
    case True
    then show ?thesis
      using assms w(1) k
      by (cases a; cases k)
        (simp add: actor_stop_def get_obj_def set_stop_status_def get_actor_def set_actor_def activatable_def
          clean_mailbox_def clean_task_queue_def force_stopping_def run_stopped_tasks.simps set_obj_def)
  next
    case False
    have b: "a\<lparr>stop_status := PEACE_STOPPING, mailbox := mailbox a\<rparr> = a\<lparr>stop_status := PEACE_STOPPING\<rparr>"
      by (cases a) simp
    show ?thesis
      using False assms b
      by (simp add: actor_stop_def get_obj_def set_stop_status_def get_actor_def activatable_def)
  qed
  ultimately show ?thesis by simp
qed

lemma actor_stop_ok:
  assumes e: "env_ok env" and i: "sinv {} E R K s" and kp: "K p = Some (False, w)"
  shows "ok_run (sinv {} (insert p E) R K) (actor_stop env p force (s :: ('d, 'u, 's) shard))"
proof -
  obtain a k where a: "objs s p = Some a" "part a = Actor k" by (rule known_actor [OF i kp]) blast
  consider "stopping a" | "\<not> stopping a" "sched_status a = SCHEDULABLE" | "\<not> stopping a" "sched_status a = SCHEDULED"
    using sinv_obj(1) [OF i a(1)] by (cases "sched_status a") (auto simp: obj_ok_def)
  then show ?thesis
  proof cases
    case 1
    then show ?thesis using a sinv_more_E [OF i] by (simp add: actor_stop_def get_obj_def)
  next
    case 2
    then show ?thesis by (rule actor_stop_sleeping [OF i a])
  next
    case 3
    let ?K = "K(p \<mapsto> (False, True))"
    let ?I = "sinv {} (insert p E) R ?K"
    have i1: "sinv {} E R ?K s" using sinv_learn [OF i a(1)] a(2) 3 by (simp add: is_group_def)
    have st: "ok_res ?I (set_stop_status p st s)" for st
      using 3 by (intro set_stop_status_ok [OF i1 a(1)]) (simp add: scheduled_wake_ok)
    have "ok_res ?I (bind_res (set_stop_status p FORCE_STOPPING s) (clean_mailbox p))"
      using st by (rule ok_res_bind) (auto intro!: clean_mailbox_ok elim: sinv_known [of _ _ _ ?K])
    then have "ok_run ?I (bind_run (Some (bind_res (set_stop_status p FORCE_STOPPING s) (clean_mailbox p)))
        (clean_task_queue env p))"
      by (intro ok_run_bind [where P = ?I] clean_task_queue_ok e) simp_all
    with st have h: "ok_run ?I (if force then
              bind_run (Some (bind_res (set_stop_status p FORCE_STOPPING s) (clean_mailbox p)))
                (clean_task_queue env p)
            else Some (set_stop_status p PEACE_STOPPING s))" by simp
    have "ok_run ?I (actor_stop env p force s)"
    proof -
      have "ok_run ?I (bind_run (Some (get_obj p s1)) (\<lambda>a1. bind_run (Some (get_actor p s1)) (\<lambda>k1.
              if activatable a1 \<and> cur_concurrency k1 = 0 then Some (activate p s1) else Some (Inr s1))))"
        if i2: "?I s1" for s1
      proof -
        obtain a1 k1 where "objs s1 p = Some a1" "get_obj p s1 = Inr a1" "get_actor p s1 = Inr k1"
          by (rule awake_actor [OF i2, of p]) auto
        then show ?thesis using i2 activate_ok [OF sinv_owe [OF i2], of p] by simp
      qed
      from ok_run_bind [OF h this] show ?thesis
        using a 3 unfolding actor_stop_def get_obj_def [of p s] by (simp only: option.case bind_run_simps if_False)
    qed
    then show ?thesis by (rule ok_run_mono) (erule sinv_forget [where K = K], rule kp, simp)
  qed
qed

lemma known_group:
  assumes "sinv X E R K s" and "K p = Some (True, w)"
  obtains a g where "objs s p = Some a" "part a = Group g" "get_obj p s = Inr a" "get_group p s = Inr g"
    "children_of s p = Some (group_children g)" "get_children p s = Inr (group_children g)" "p \<noteq> []"
proof -
  from sinv_known [OF assms] obtain a where a: "objs s p = Some a" "is_group a" by auto
  from is_group_group [OF a(2)] obtain g where g: "part a = Group g" by blast
  have p: "p \<noteq> []" using sinv_obj(3) [OF assms(1) a(1)] .
  show thesis using a(1) g p
    by (intro that [of a g]) (simp_all add: get_obj_def get_group_def children_of_def get_children_def)
qed

text \<open>Every object can be taken to be known.\<close>

definition known_all :: "known \<Rightarrow> ('d, 'u, 's) shard \<Rightarrow> known" where
  "known_all K s = (\<lambda>r. case K r of Some x \<Rightarrow> Some x | None \<Rightarrow> map_option (\<lambda>a. (is_group a, False)) (objs s r))"

lemma sinv_known_all: "sinv X E R K s \<Longrightarrow> sinv X E R (known_all K s) s"
  unfolding sinv_def known_ok_def known_all_def by (auto split: option.splits)

lemma known_all_le: "K \<subseteq>\<^sub>m known_all K s"
  by (auto simp: known_all_def map_le_def)

lemma known_all_dom: "objs s r = Some a \<Longrightarrow> \<exists>b w. known_all K s r = Some (b, w)"
  by (cases "K r") (auto simp: known_all_def)

lemma stop_all_children_ok:
  fixes s :: "('d, 'u, 's) shard" and env :: "('d, 'u, 's) actor_env"
  assumes i: "sinv X E R K s" and kp: "K p = Some (True, w)"
  shows "ok_res (sinv X E R K) (stop_all_children env p force s)"
proof -
  obtain g where g: "get_group p s = Inr g" "children_of s p = Some (group_children g)"
    by (rule known_group [OF i kp]) blast
  let ?I = "sinv X E R (known_all K s)"
  have "ok_res ?I (fold_res (\<lambda>(c, live) s. if live then enque_urgent_message (stop_message env force) (c # p) s
      else Inr s) (inst_map (group_children g)) s)"
  proof (rule ok_res_fold [where P = ?I, OF sinv_known_all [OF i]])
    fix x and s1 :: "('d, 'u, 's) shard"
    assume x: "x \<in> set (inst_map (group_children g))" and i1: "?I s1"
    obtain c live where xc: "x = (c, live)" by force
    have "objs s1 (c # p) \<noteq> None" if live
    proof -
      have "c \<in> kids s p" using sinv_kidsD(1) [OF i g(2)] x xc that by simp
      then obtain b v where "known_all K s (c # p) = Some (b, v)" using known_all_dom by (force simp: kids_def)
      then show ?thesis using sinv_known [OF i1] by (metis option.distinct(1))
    qed
    then show "ok_res ?I ((case x of (c, live) \<Rightarrow> \<lambda>s. if live then enque_urgent_message (stop_message env force) (c # p) s
        else Inr s) s1)"
      using xc i1 enque_message_ok(2) [OF i1] by simp
  qed
  then have "ok_res (sinv X E R K) (fold_res (\<lambda>(c, live) s. if live then enque_urgent_message (stop_message env force) (c # p) s
      else Inr s) (inst_map (group_children g)) s)"
    by (rule ok_res_mono) (erule sinv_weaken, simp_all add: known_all_le)
  then show ?thesis using g(1) by (simp add: stop_all_children_def)
qed

lemma break_sem_ok:
  assumes i: "sinv X E R K s" and kp: "K p = Some (True, w)"
  shows "ok_res (sinv X E R K) (break_sem p s)"
proof -
  obtain g :: group_part where g: "children_of s p = Some (group_children g)"
      "get_children p s = Inr (group_children g)"
    by (rule known_group [OF i kp]) blast
  let ?ch = "(group_children g)\<lparr>sem_waiters := []\<rparr>"
  have w: "sem_waiters (group_children g) = []" using sinv_kidsD(4) [OF i g(1)] .
  have "ok_res (sinv X E R K) (set_children p ?ch s)"
    using i g(1)
  proof (rule sinv_set_children)
    show "(c, True) \<notin> set (inst_map ?ch)" if "objs s (c # p) = Some a" "c # p \<notin> E" "stopping a" for c a
      using that i g(1) unfolding sinv_def entries_ok_def by auto
  qed (use w in auto)
  then show ?thesis using g(2) w by (simp add: break_sem_def) (cases "set_children p ?ch s", auto)
qed

lemma fold_res_same: "(\<And>x. x \<in> set xs \<Longrightarrow> f x s = Inr s) \<Longrightarrow> fold_res f xs s = Inr s"
  by (induction xs) auto

lemma stop_all_children_none:
  "get_group p s = Inr g \<Longrightarrow> \<forall>x \<in> set (inst_map (group_children g)). \<not> snd x \<Longrightarrow>
   stop_all_children env p force s = Inr s"
  unfolding stop_all_children_def by (simp, intro fold_res_same) auto

lemma group_stop_childless:
  assumes i: "sinv {} E R K s" and a: "objs s p = Some a" "part a = Group g" "children_of s p = Some (group_children g)"
    and st: "\<not> stopping a" "sched_status a = SCHEDULABLE" and n: "num_managed (group_children g) = 0"
  shows "ok_res (sinv {} (insert p E) R K) (group_stop env p force (s :: ('d, 'u, 's) shard))"
proof -
  let ?b = "a\<lparr>stop_status := (if force then FORCE_STOPPING else PEACE_STOPPING), mailbox := []\<rparr>"
  have m: "mailbox a = []" using sinv_obj(2) [OF i a(1)] a(2) st(2) by (simp add: wake_ok_def)
  have pn: "p \<noteq> []" using sinv_obj(3) [OF i a(1)] .
  have "sinv {p} (insert p E) R K (set_obj p ?b s)"
    using sinv_more_E [OF sinv_owe [OF i]] a(1) by (rule sinv_set_obj)
      (use sinv_obj(1) [OF i a(1)] a(2) in \<open>auto simp: same_shape_def obj_ok_def\<close>)
  then have ok: "ok_res (sinv {} (insert p E) R K) (activate p (set_obj p ?b s))" by (rule activate_ok) simp
  have "card (kids s p) = 0"
  proof -
    have "card (kids s p) < 4294967296"
      using card_kids_le [OF i, of p] i by (auto simp: sinv_def tree_ok_def)
    then have "unat (num_managed (group_children g)) = card (kids s p)"
      using sinv_kidsD(3) [OF i a(3)] by (simp add: unat_of_nat_u32)
    then show ?thesis using n by simp
  qed
  then have "\<forall>x \<in> set (inst_map (group_children g)). \<not> snd x"
    using sinv_kidsD(1) [OF i a(3)] card_kids_le [OF i, of p] by fastforce
  note none = this
  have w: "sem_waiters (group_children g) = []" using sinv_kidsD(4) [OF i a(3)] .
  have "group_stop env p force s = activate p (set_obj p ?b s)"
  proof (cases force)
    case True
    have "stop_all_children env p True s1 = Inr s1" if "objs s1 p = Some a'" "part a' = Group g'"
      "inst_map (group_children g') = inst_map (group_children g)" for s1 :: "('d, 'u, 's) shard" and a' g'
      using that none by (intro stop_all_children_none [of _ _ g']) (auto simp: get_group_def get_obj_def)
    then show ?thesis
      using True a(1,2) st n pn m w
      by (cases a; cases g; cases "group_children g")
        (simp add: group_stop_def get_obj_def set_stop_status_def get_group_def set_group_def
          get_children_def set_children_def break_sem_def clean_mailbox_def activatable_def set_obj_def)
  next
    case False
    have "stop_all_children env p False s1 = Inr s1" if "objs s1 p = Some a'" "part a' = Group g'"
      "inst_map (group_children g') = inst_map (group_children g)" for s1 :: "('d, 'u, 's) shard" and a' g'
      using that none by (intro stop_all_children_none [of _ _ g']) (auto simp: get_group_def get_obj_def)
    then show ?thesis
      using False a(1,2) st n pn m
      by (cases a; cases g)
        (simp add: group_stop_def get_obj_def set_stop_status_def get_group_def
          get_children_def activatable_def set_obj_def)
  qed
  then show ?thesis using ok by simp
qed

lemma group_stop_ok:
  assumes e: "env_ok env" and i: "sinv {} E R K s" and kp: "K p = Some (True, w)"
  shows "ok_res (sinv {} (insert p E) R K) (group_stop env p force (s :: ('d, 'u, 's) shard))"
proof -
  let ?I = "sinv {} (insert p E) R K"
  obtain a g where a: "objs s p = Some a" "part a = Group g" "get_obj p s = Inr a"
    "children_of s p = Some (group_children g)"
    by (rule known_group [OF i kp]) blast
  consider "stopping a" | "\<not> stopping a" "sched_status a = SCHEDULABLE" "num_managed (group_children g) = 0"
    | "\<not> stopping a" "sched_status a \<noteq> SCHEDULABLE \<or> num_managed (group_children g) \<noteq> 0" by blast
  then show ?thesis
  proof cases
    case 1
    then show ?thesis using a sinv_more_E [OF i] by (simp add: group_stop_def)
  next
    case 2
    then show ?thesis by (rule group_stop_childless [OF i a(1,2,4)])
  next
    case 3
    have st: "ok_res ?I (set_stop_status p st s)" for st
      using 3 sinv_obj(2) [OF i a(1)] a(2) by (intro set_stop_status_ok [OF i a(1)]) (auto simp: wake_ok_def)
    have live: "objs s1 p \<noteq> None" if "?I s1" for s1 using sinv_known [OF that kp] by auto
    have "ok_res ?I (bind_res (set_stop_status p FORCE_STOPPING s) (\<lambda>s1.
              bind_res (break_sem p s1) (\<lambda>s2.
              bind_res (stop_all_children env p force s2) (clean_mailbox p))))"
      using st
    proof (rule ok_res_bind)
      show "ok_res ?I (bind_res (break_sem p s1) (\<lambda>s2. bind_res (stop_all_children env p force s2) (clean_mailbox p)))"
        if i1: "?I s1" for s1
        using break_sem_ok [OF i1 kp]
      proof (rule ok_res_bind)
        show "ok_res ?I (bind_res (stop_all_children env p force s2) (clean_mailbox p))" if i2: "?I s2" for s2
          using stop_all_children_ok [OF i2 kp] by (rule ok_res_bind) (simp add: clean_mailbox_ok live)
      qed
    qed
    moreover have "ok_res ?I (bind_res (set_stop_status p PEACE_STOPPING s) (stop_all_children env p force))"
      using st by (rule ok_res_bind) (rule stop_all_children_ok [where K = K], simp_all add: kp)
    ultimately have h: "ok_res ?I (if force then
              bind_res (set_stop_status p FORCE_STOPPING s) (\<lambda>s1.
              bind_res (break_sem p s1) (\<lambda>s2.
              bind_res (stop_all_children env p force s2) (clean_mailbox p)))
            else bind_res (set_stop_status p PEACE_STOPPING s) (stop_all_children env p force))"
      by (cases "force"; simp only: if_True if_False)
    have "ok_res ?I (bind_res (get_obj p s1) (\<lambda>a1. bind_res (get_children p s1) (\<lambda>ch.
              if num_managed ch = 0 \<and> activatable a1 then activate p s1 else Inr s1)))" if i1: "?I s1" for s1
    proof -
      obtain a1 and g1 :: group_part where "objs s1 p = Some a1" "get_obj p s1 = Inr a1" "get_children p s1 = Inr (group_children g1)"
        by (rule known_group [OF i1 kp]) blast
      then show ?thesis using i1 activate_ok [OF sinv_owe [OF i1], of p] by simp
    qed
    from ok_res_bind [OF h this] show ?thesis
      using 3(1) unfolding group_stop_def a(3) by (simp only: bind_res_simps if_False)
  qed
qed

lemma obj_stop_ok:
  assumes "env_ok env" and i: "sinv {} E R K s" and kp: "K p = Some (b, w)"
  shows "ok_run (sinv {} (insert p E) R K) (obj_stop env p force (s :: ('d, 'u, 's) shard))"
proof -
  obtain a where a: "objs s p = Some a" "is_group a = b" by (rule sinv_known [OF i kp])
  show ?thesis
  proof (cases b)
    case True
    then show ?thesis
      using a kp group_stop_ok [OF assms(1,2)] by (auto simp: obj_stop_def get_obj_def is_group_def split: part.splits)
  next
    case False
    then show ?thesis
      using a kp actor_stop_ok [OF assms(1,2)] by (auto simp: obj_stop_def get_obj_def is_group_def split: part.splits)
  qed
qed

lemma obj_stop_entry_ok:
  assumes "env_ok env" and i: "sinv {} E R K s" and kp: "K p = Some (b, w)"
  shows "ok_run (sinv {} E R K) (bind_run (obj_stop env p force s) (\<lambda>s1. Some (null_child_entry p s1)))"
  using obj_stop_ok [OF assms]
proof (rule ok_run_bind)
  fix s1 assume "sinv {} (insert p E) R K s1"
  then show "ok_run (sinv {} E R K) (Some (null_child_entry p s1))"
    using null_child_entry_ok sinv_known [of _ _ _ K s1 p] kp by (metis ok_run_simps(1) option.distinct(1))
qed

lemma stop_child_actor_ok:
  assumes "env_ok env" and i: "sinv {} E R K s" and kp: "K p = Some (b, w)"
  shows "ok_run (sinv {} E R K) (stop_child_actor env p force s)"
proof -
  obtain a where "objs s p = Some a" by (rule sinv_known [OF i kp])
  then have "ok_run (\<lambda>_. True) (Some (child_entry p s))" using child_entry_ok [OF i] by simp
  then show ?thesis
    unfolding stop_child_actor_def by (rule ok_run_bind) (simp add: obj_stop_entry_ok [OF assms] i)
qed

end
