(* ===== verification/Turn_Safety.thy ===== *)
theory Turn_Safety
  imports Actor_Safety
begin

text \<open>
  The turns of actors and groups keep the invariant of the shard: a turn starts with an object that
  its parent's queue hands out, runs continuations and messages, and ends with the object idle,
  queued again or deleted. At the top are the events of a shard: a message arrives, the reactor runs
  its oldest task, a future of an actor resolves. Any sequence of them, from a fresh shard, keeps the
  invariant with no exemption, so no dangling pointer is followed and every object with something to
  do is in its parent's queue exactly once.
\<close>

section \<open>Starting a turn\<close>

lemma sinv_dequeue:
  assumes i: "sinv X E R K s" and c: "c \<in># queue_of s q" and q: "q = [] \<or> q \<in> R"
    and d: "dom (objs s') = dom (objs s)" "children_of s' = children_of s" "live_count s' = live_count s"
    and qu: "queue_of s' = (queue_of s)(q := queue_of s q - {#c#})"
    and other: "\<And>r. r \<noteq> q \<Longrightarrow> objs s' r = objs s r"
    and par: "\<And>b'. objs s' q = Some b' \<Longrightarrow> \<exists>b. objs s q = Some b \<and> sched_status b' = sched_status b \<and>
      is_group b' = is_group b \<and> stopping b' = stopping b \<and> obj_ok b'"
  shows "sinv X E (insert (c # q) R) K s' \<and> c # q \<notin> R"
proof -
  have cnt: "count (queue_of s q) c' = (if waits R s (c' # q) then 1 else 0)" for c' q
    using i unfolding sinv_def queue_ok_def by blast
  have "0 < count (queue_of s q) c" using c by simp
  then have w: "waits R s (c # q)" using cnt [of q c] by (simp split: if_splits)
  then have nR: "c # q \<notin> R" by (simp add: waits_def)
  from w obtain a where a: "objs s (c # q) = Some a" "sched_status a = SCHEDULED"
    by (auto simp: waits_def split: option.splits)
  have a': "objs s' (c # q) = Some a" using other [of "c # q"] a(1) by simp
  have qn: "q \<in> R" if "objs s' q = Some b" for b
    using q that d(1) i unfolding sinv_def tree_ok_def by auto
  have old: "\<exists>b. objs s r = Some b \<and> is_group b' = is_group b \<and> stopping b' = stopping b \<and> obj_ok b' \<and>
      sched_status b' = sched_status b \<and> (wake_ok b \<longrightarrow> wake_ok b')" if b': "objs s' r = Some b'" for r b'
  proof (cases "r = q")
    case True
    from par [OF b' [unfolded True]] obtain b where b: "objs s q = Some b" "sched_status b' = sched_status b"
      "is_group b' = is_group b" "stopping b' = stopping b" "obj_ok b'" by blast
    obtain b2 where "objs s q = Some b2" "sched_status b2 = SCHEDULED"
      by (rule sinv_running [OF i qn [OF b' [unfolded True]]])
    then show ?thesis using b True by (simp add: wake_ok_def)
  next
    case False
    then show ?thesis using b' other [OF False] sinv_obj(1) [OF i] by auto
  qed
  have new: "\<exists>b'. objs s' r = Some b' \<and> sched_status b' = sched_status b \<and> is_group b' = is_group b"
    if b: "objs s r = Some b" for r b
  proof -
    obtain b' where "objs s' r = Some b'" using d(1) b by (metis domD domI)
    with old [OF this] b show ?thesis by auto
  qed
  have ww: "waits (insert (c # q) R) s' r \<longleftrightarrow> r \<noteq> c # q \<and> waits R s r" for r
  proof (cases "objs s' r")
    case None
    then have "objs s r = None" using d(1) by (metis domIff)
    then show ?thesis using None by (simp add: waits_def)
  next
    case (Some b')
    with old [OF this] show ?thesis by (auto simp: waits_def)
  qed
  have "kids s' = kids s" using d(1) by (auto simp: kids_def fun_eq_iff dom_def)
  then have "kids_ok s'" using i d(2) by (simp add: sinv_def kids_ok_def)
  moreover have "tree_ok s'" using i d unfolding sinv_def tree_ok_def by simp
  moreover have "entries_ok E s'"
    using i d(2) old unfolding sinv_def entries_ok_def by metis
  moreover have "queue_ok (insert (c # q) R) s'"
  proof -
    have "count (queue_of s' q') c' = (if waits (insert (c # q) R) s' (c' # q') then 1 else 0)" for c' q'
      using cnt [of q' c'] w qu ww [of "c' # q'"] by auto
    then show ?thesis unfolding queue_ok_def by blast
  qed
  moreover have "run_ok (insert (c # q) R) s'"
  proof -
    have "\<exists>b. objs s' r = Some b \<and> sched_status b = SCHEDULED" if "r \<in> R" for r
      using sinv_running [OF i that] new by metis
    moreover have "p \<in> insert (c # q) R" if "c' # p \<in> insert (c # q) R" "p \<noteq> []" for c' p
      using that q i unfolding sinv_def run_ok_def by auto
    ultimately show ?thesis using a' a(2) unfolding run_ok_def by blast
  qed
  moreover have "known_ok K s'" using i new unfolding sinv_def known_ok_def by metis
  moreover have "wakes_ok X s'" using i old unfolding sinv_def wakes_ok_def by metis
  ultimately show ?thesis using nR by (simp add: sinv_def)
qed

section \<open>Ending a turn\<close>

lemma sinv_set_activatable:
  assumes i: "sinv X E (insert p R) K s" and p: "p \<notin> R" "\<And>c. c # p \<notin> R" and a: "objs s p = Some a"
  shows "sinv (insert p X) E R (K(p := None)) (set_obj p (a\<lparr>sched_status := SCHEDULABLE\<rparr>) s)"
proof -
  let ?b = "a\<lparr>sched_status := SCHEDULABLE\<rparr>"
  let ?s = "set_obj p ?b s"
  have v: "children_of ?s = children_of s" "queue_of ?s = queue_of s" "kids ?s = kids s"
    "dom (objs ?s) = dom (objs s)"
    using a by (auto simp: children_of_def queue_of_def kids_def fun_eq_iff split: option.splits part.splits)
  have w: "waits R ?s = waits (insert p R) s" by (auto simp: waits_def fun_eq_iff)
  have "tree_ok ?s" using i unfolding sinv_def tree_ok_def v by simp
  moreover have "kids_ok ?s" using i v by (simp add: sinv_def kids_ok_def)
  moreover have "entries_ok E ?s"
    using i a v(1) unfolding sinv_def entries_ok_def by (auto simp: stopping_def split: if_splits)
  moreover have "queue_ok R ?s" using i v w by (simp add: sinv_def queue_ok_def)
  moreover have "run_ok R ?s" using i p unfolding sinv_def run_ok_def by auto
  moreover have "known_ok (K(p := None)) ?s" using i unfolding sinv_def known_ok_def by auto
  moreover have "wakes_ok (insert p X) ?s"
    using i a unfolding sinv_def wakes_ok_def by (auto simp: obj_ok_def)
  ultimately show ?thesis by (simp add: sinv_def)
qed

lemma end_turn_ok:
  assumes i: "sinv {} E (insert p R) K s" and p: "p \<notin> R" "\<And>c. c # p \<notin> R" and a: "objs s p = Some a"
    and w: "\<not> again \<Longrightarrow> wake_ok (a\<lparr>sched_status := SCHEDULABLE\<rparr>)"
  shows "ok_res (sinv {} E R (K(p := None))) (bind_res (set_activatable p s) (\<lambda>s1. if again then activate p s1 else Inr s1))"
proof -
  let ?s = "set_obj p (a\<lparr>sched_status := SCHEDULABLE\<rparr>) s"
  have i1: "sinv {p} E R (K(p := None)) ?s" using sinv_set_activatable [OF i p a] by simp
  have "ok_res (sinv {} E R (K(p := None))) (if again then activate p ?s else Inr ?s)"
    using activate_ok [OF i1] sinv_settle [OF i1] w by auto
  then show ?thesis using a by (simp add: set_activatable_def get_obj_def)
qed

text \<open>Deleting an object that has stopped: the parent's count goes down, a unit of its semaphore is
  released, the object goes.\<close>

definition one_child_less :: "children \<Rightarrow> children" where
  "one_child_less ch = ch\<lparr>num_managed := num_managed ch - 1, sem_count := sem_count ch + 1\<rparr>"

lemma notify_child_stopped_eq:
  assumes ch: "children_of s q = Some ch" and w: "sem_waiters ch = []"
  shows "\<exists>s1 e. set_children q (one_child_less ch) s = Inr s1 \<and> notify_child_stopped q s = Inr (s1\<lparr>exits := e\<rparr>)"
proof (cases "q = []")
  case True
  then show ?thesis
    using assms
    by (cases s) (auto simp: children_of_def notify_child_stopped_def signal_sem_def get_children_def set_children_def
        one_child_less_def wait_others_and_exit_def)
next
  case False
  then obtain b g where b: "objs s q = Some b" "part b = Group g" "group_children g = ch"
    using children_of_group [OF _ ch] by blast
  have "notify_child_stopped q s = set_children q (one_child_less ch) s"
    using False b w
    by (simp add: notify_child_stopped_def signal_sem_def get_children_def set_children_def get_group_def set_group_def
        get_obj_def set_obj_def one_child_less_def)
  moreover obtain s1 where "set_children q (one_child_less ch) s = Inr s1" by (rule set_children_eq [OF ch])
  moreover have "s1 = s1\<lparr>exits := exits s1\<rparr>" by simp
  ultimately show ?thesis by metis
qed

lemma sinv_delete:
  assumes i: "sinv X E (insert (c # q) R) K s" and p: "c # q \<notin> R" "\<And>c'. c' # c # q \<notin> R"
    and a: "objs s (c # q) = Some a" "stopping a" "c # q \<notin> E" "kids s (c # q) = {}"
    and ch: "children_of s q = Some ch" and s1: "set_children q (one_child_less ch) s = Inr s1"
  shows "sinv X E R (K(c # q := None)) (delete_obj (c # q) s1)"
proof -
  let ?ch = "one_child_less ch" and ?s = "delete_obj (c # q) s1"
  have ne: "q \<noteq> c # q" by simp
  obtain s' where s': "set_children q ?ch s = Inr s'" "live_count s' = live_count s"
    "queue_of s' = queue_of s" "dom (objs s') = dom (objs s)" "waits R s' = waits R s"
    "children_of s' = (children_of s)(q := Some ?ch)" "kids s' = kids s" "\<And>r. r \<noteq> q \<Longrightarrow> objs s' r = objs s r"
    "\<And>b'. objs s' q = Some b' \<Longrightarrow> q \<noteq> [] \<Longrightarrow> \<exists>b g. objs s q = Some b \<and> part b = Group g \<and> group_children g = ch \<and>
       b' = b\<lparr>part := Group (g\<lparr>group_children := ?ch\<rparr>)\<rparr>"
    by (rule set_children_eq [OF ch, of ?ch R]) auto
  with s1 have "s' = s1" by simp
  note s' = s' [unfolded this]
  have qn: "q \<noteq> []" if "objs s1 q = Some b'" for b' using that s'(4) i unfolding sinv_def tree_ok_def by auto
  have qR: "q \<in> R" if "q \<noteq> []" using that i ne unfolding sinv_def run_ok_def by auto
  have ck: "c \<in> kids s q" using a(1) by (simp add: kids_def)
  note kd = sinv_kidsD [OF i ch]
  have fk: "finite (kids s q)" using card_kids_le [OF i] by simp
  have cc: "children_of ?s = (children_of s)(q := Some ?ch, c # q := None)"
  proof -
    have "children_of ?s = (children_of s1)(c # q := None)" by (auto simp: delete_obj_def children_of_def fun_eq_iff)
    then show ?thesis using s'(6) by simp
  qed
  have kk: "kids ?s = (kids s)(q := kids s q - {c})"
  proof -
    have "kids ?s = (kids s1)(q := kids s1 q - {c})" by (auto simp: delete_obj_def kids_def fun_eq_iff)
    then show ?thesis using s'(7) by simp
  qed
  have dd: "dom (objs ?s) = dom (objs s) - {c # q}" using s'(4) by (auto simp: delete_obj_def)
  have old: "r \<noteq> c # q \<and> (\<exists>b. objs s r = Some b \<and> sched_status b' = sched_status b \<and> is_group b' = is_group b \<and>
      stopping b' = stopping b \<and> obj_ok b' \<and> (wake_ok b \<longrightarrow> wake_ok b'))" if b': "objs ?s r = Some b'" for r b'
  proof -
    have r: "r \<noteq> c # q" "objs s1 r = Some b'" using b' by (auto simp: delete_obj_def split: if_splits)
    show ?thesis
    proof (cases "r = q")
      case True
      from s'(9) [OF r(2) [unfolded True] qn [OF r(2) [unfolded True]]] obtain b g where
        b: "objs s q = Some b" "part b = Group g" "group_children g = ch" "b' = b\<lparr>part := Group (g\<lparr>group_children := ?ch\<rparr>)\<rparr>"
        by blast
      have "q \<in> insert (c # q) R" using qR qn [OF r(2) [unfolded True]] by simp
      then obtain b2 where "objs s q = Some b2" "sched_status b2 = SCHEDULED" by (rule sinv_running [OF i])
      then show ?thesis
        using True sinv_obj(1) [OF i b(1)] b ne by (auto simp: is_group_def stopping_def obj_ok_def wake_ok_def)
    next
      case False
      then show ?thesis using r s'(8) [OF False] sinv_obj(1) [OF i] by auto
    qed
  qed
  have new: "\<exists>b'. objs ?s r = Some b' \<and> sched_status b' = sched_status b \<and> is_group b' = is_group b"
    if b: "objs s r = Some b" "r \<noteq> c # q" for r b
  proof -
    obtain b' where "objs ?s r = Some b'" using dd b by (metis DiffI domD domI singletonD)
    with old [OF this] b show ?thesis by auto
  qed
  have "tree_ok ?s"
  proof -
    have "finite (dom (objs ?s))" "[] \<notin> dom (objs ?s)" using i dd unfolding sinv_def tree_ok_def by simp_all
    moreover have "live_count ?s = card (dom (objs ?s))"
      using i dd s'(2) a(1) unfolding sinv_def tree_ok_def by (auto simp: delete_obj_def domI)
    moreover have "live_count ?s < 4294967296"
      using i s'(2) unfolding sinv_def tree_ok_def by (auto simp: delete_obj_def)
    moreover have "children_of ?s p \<noteq> None" if "c' # p \<in> dom (objs ?s)" for c' p
    proof -
      have h: "c' # p \<in> dom (objs s)" using that dd by simp
      then have "p \<noteq> c # q" using a(4) by (auto simp: kids_def)
      moreover have "children_of s p \<noteq> None" using h i unfolding sinv_def tree_ok_def by blast
      ultimately show ?thesis by (simp add: cc)
    qed
    ultimately show ?thesis by (simp add: tree_ok_def)
  qed
  moreover have "kids_ok ?s"
  proof -
    have e: "(c, True) \<notin> set (inst_map ch)" using i a ch unfolding sinv_def entries_ok_def by blast
    have "(\<forall>c'. (c', True) \<in> set (inst_map ch0) \<longrightarrow> c' \<in> kids ?s p') \<and> (\<forall>c' \<in> kids ?s p'. map_of (inst_map ch0) c' \<noteq> None) \<and>
        num_managed ch0 = word_of_nat (card (kids ?s p')) \<and> sem_waiters ch0 = [] \<and>
        sem_count ch0 = GMaxActiveChildNum - int (card (kids ?s p'))" if "children_of ?s p' = Some ch0" for p' ch0
    proof (cases "p' = q")
      case True
      then have "ch0 = ?ch" using that cc by simp
      moreover have "card (kids s q) = Suc (card (kids s q - {c}))" using card_Suc_Diff1 [OF fk ck] by simp
      ultimately show ?thesis using True kd kk e by (auto simp: one_child_less_def)
    next
      case False
      then have "children_of s p' = Some ch0" using that cc by (auto split: if_splits)
      then show ?thesis using False kk sinv_kidsD [OF i] by auto
    qed
    then show ?thesis unfolding kids_ok_def by blast
  qed
  moreover have "entries_ok E ?s"
  proof -
    have "(c', True) \<notin> set (inst_map ch0)"
      if h: "objs ?s (c' # p') = Some b'" "c' # p' \<notin> E" "stopping b'" "children_of ?s p' = Some ch0" for c' p' b' ch0
    proof -
      from old [OF h(1)] h(3) obtain b where b: "objs s (c' # p') = Some b" "stopping b" by auto
      obtain ch1 where ch1: "children_of s p' = Some ch1" by (rule sinv_parent [OF i b(1)])
      then have "(c', True) \<notin> set (inst_map ch1)" using b h(2) i unfolding sinv_def entries_ok_def by blast
      moreover have "inst_map ch0 = inst_map ch1"
        using h(4) ch1 ch by (auto simp: cc one_child_less_def split: if_splits)
      ultimately show ?thesis by simp
    qed
    then show ?thesis unfolding entries_ok_def by blast
  qed
  moreover have "queue_ok R ?s"
  proof -
    have ws: "waits R ?s r = waits (insert (c # q) R) s r" for r
    proof (cases "objs ?s r")
      case None
      then have "objs s r = None \<or> r = c # q" using dd by (metis DiffI domIff singletonD)
      then show ?thesis using None by (auto simp: waits_def)
    next
      case (Some b')
      with old [OF this] show ?thesis by (auto simp: waits_def)
    qed
    have cnt: "count (queue_of s p') c' = (if waits (insert (c # q) R) s (c' # p') then 1 else 0)" for c' p'
      using i unfolding sinv_def queue_ok_def by blast
    have "queue_of s (c # q) = {#}"
    proof (rule multiset_eqI)
      fix c' have "\<not> waits (insert (c # q) R) s (c' # c # q)" using a(4) by (simp add: waits_def kids_def)
      then show "count (queue_of s (c # q)) c' = count {#} c'" using cnt by simp
    qed
    moreover have "queue_of ?s r = (if r = c # q then {#} else queue_of s1 r)" for r
      by (simp add: queue_of_def delete_obj_def)
    ultimately have "queue_of ?s = queue_of s" using s'(3) by (auto simp: fun_eq_iff)
    then show ?thesis using cnt ws unfolding queue_ok_def by simp
  qed
  moreover have "run_ok R ?s"
  proof -
    have "\<exists>b. objs ?s r = Some b \<and> sched_status b = SCHEDULED" if "r \<in> R" for r
    proof -
      have "r \<in> insert (c # q) R" using that by simp
      then obtain b where "objs s r = Some b" "sched_status b = SCHEDULED" by (rule sinv_running [OF i])
      then show ?thesis using new [of r b] that p(1) by auto
    qed
    moreover have "p' \<in> R" if "c' # p' \<in> R" "p' \<noteq> []" for c' p'
      using that i p(2) [of c'] unfolding sinv_def run_ok_def by auto
    ultimately show ?thesis unfolding run_ok_def by blast
  qed
  moreover have "known_ok (K(c # q := None)) ?s"
  proof -
    have "\<exists>b. objs ?s r = Some b \<and> is_group b = x \<and> (w \<longrightarrow> sched_status b = SCHEDULED)"
      if h: "r \<noteq> c # q" "K r = Some (x, w)" for r x w
    proof -
      obtain b where "objs s r = Some b" "is_group b = x" "w \<longrightarrow> sched_status b = SCHEDULED"
        by (rule sinv_known [OF i h(2)]) auto
      then show ?thesis using new [of r b] h(1) by auto
    qed
    then show ?thesis by (simp add: known_ok_def)
  qed
  moreover have "wakes_ok X ?s" using i old unfolding sinv_def wakes_ok_def by metis
  ultimately show ?thesis by (simp add: sinv_def)
qed

text \<open>The last step of a turn that stops the object: what is left of the state after a response was
  sent differs only in the promises and the outgoing messages.\<close>

definition same_tree :: "('d, 'u, 's) shard \<Rightarrow> ('d, 'u, 's) shard \<Rightarrow> bool" where
  "same_tree s s' \<longleftrightarrow> objs s' = objs s \<and> root_children s' = root_children s \<and> engine_q s' = engine_q s \<and>
     live_count s' = live_count s"

lemma same_tree_sinv: "same_tree s s' \<Longrightarrow> sinv X E R K s' = sinv X E R K s"
  by (rule sinv_cong) (simp_all add: same_tree_def)

lemma receive_response_tree: "ok_res (same_tree s) (receive_response env m s)"
proof -
  have s: "ok_res (same_tree s) (bind_res (set_pr j f (response_prs s)) (\<lambda>prs. Inr (s\<lparr>response_prs := prs\<rparr>)))"
    for j f
    by (intro ok_res_bind [OF pr_access_ok(1)]) (simp add: same_tree_def)
  have "same_tree s s" by (simp add: same_tree_def)
  then show ?thesis
    by (cases m) (auto simp: receive_response_def Let_def s intro!: ok_res_bind [OF pr_access_ok(2)])
qed

lemma send_response_tree: "ok_res (same_tree s) (send_response env m s)"
  unfolding send_response_def
  by (rule ok_res_bind [OF get_shard_id_ok]) (simp add: receive_response_tree, simp add: same_tree_def)

lemma dispose_ok:
  assumes i: "sinv {} {} (insert p R) K s" and p: "p \<notin> R" "\<And>c'. c' # p \<notin> R"
    and a: "objs s p = Some a" "stopping a" "kids s p = {}"
    and r: "\<And>s1 :: ('d, 'u, 's) shard. ok_res (same_tree s1) (respond s1)"
  shows "ok_res (sinv {} {} R (K(p := None)))
    (bind_res (notify_child_stopped (tl p) s) (\<lambda>s1. bind_res (respond s1) (\<lambda>s2. Inr (delete_obj p s2))))"
proof -
  from sinv_obj(3) [OF i a(1)] obtain c q where pc: "p = c # q" by (cases p) auto
  obtain ch where ch: "children_of s q = Some ch" using sinv_parent [OF i, of c q] a(1) pc by blast
  obtain s1 e where s1: "set_children q (one_child_less ch) s = Inr s1"
    "notify_child_stopped q s = Inr (s1\<lparr>exits := e\<rparr>)"
    using notify_child_stopped_eq [OF ch sinv_kidsD(4) [OF i ch]] by blast
  have d: "sinv {} {} R (K(p := None)) (delete_obj p s1)"
    using sinv_delete [OF i [unfolded pc] _ _ _ a(2) _ _ ch s1(1)] p a pc by simp
  have "ok_res (sinv {} {} R (K(p := None))) (bind_res (respond (s1\<lparr>exits := e\<rparr>)) (\<lambda>s2. Inr (delete_obj p s2)))"
    using r
  proof (rule ok_res_bind)
    fix s2 assume "same_tree (s1\<lparr>exits := e\<rparr>) s2"
    then have "same_tree (delete_obj p s1) (delete_obj p s2)" by (simp add: same_tree_def delete_obj_def)
    then show "ok_res (sinv {} {} R (K(p := None))) (Inr (delete_obj p s2))" using d by (simp add: same_tree_sinv)
  qed
  then show ?thesis using s1(2) pc by simp
qed

section \<open>A turn of an actor\<close>

lemma no_kids_of_actor:
  "sinv X E R K s \<Longrightarrow> objs s p = Some a \<Longrightarrow> part a = Actor k \<Longrightarrow> kids s p = {}"
proof (rule ccontr)
  assume i: "sinv X E R K s" and a: "objs s p = Some a" "part a = Actor k" and "kids s p \<noteq> {}"
  then obtain c b where "objs s (c # p) = Some b" by (auto simp: kids_def)
  then obtain ch where "children_of s p = Some ch" by (rule sinv_parent [OF i])
  then show False using a sinv_obj(3) [OF i a(1)] by (simp add: children_of_def)
qed

lemma need_yield_ok: "sinv X E R K s \<Longrightarrow> sinv X E R K (snd (need_yield s))"
  by (simp add: need_yield_def split: list.split)

lemma finish_actor_turn_ok:
  assumes i: "sinv {} {} (insert p R) K s" and kp: "K p = Some (False, True)" and p: "p \<notin> R" "\<And>c. c # p \<notin> R"
  shows "ok_res (sinv {} {} R (K(p := None))) (finish_actor_turn p s)"
proof -
  obtain a k where a: "objs s p = Some a" "part a = Actor k" "get_obj p s = Inr a" "get_actor p s = Inr k"
    "0 < max_concurrency k"
    by (rule awake_actor [OF i kp]) blast
  show ?thesis
  proof (cases "stopping a \<and> cur_concurrency k = 0 \<and> mailbox a = []")
    case True
    have "ok_res (same_tree s1) (Inr s1)" for s1 by (simp add: same_tree_def)
    from dispose_ok [OF i p a(1) _ no_kids_of_actor [OF i a(1,2)] this] True
    show ?thesis using a by (simp add: finish_actor_turn_def)
  next
    case False
    let ?again = "actor_tasks k \<noteq> [] \<or> (mailbox a \<noteq> [] \<and> cur_concurrency k < max_concurrency k)"
    have "wake_ok (a\<lparr>sched_status := SCHEDULABLE\<rparr>)" if "\<not> ?again"
      using that False a(2,5) by (auto simp: wake_ok_def stopping_def)
    from end_turn_ok [OF i p a(1) this] show ?thesis
      using a False unfolding finish_actor_turn_def a(3,4) bind_res_simps by (simp only: if_False)
  qed
qed

lemma run_task_ok:
  assumes e: "env_ok env" and i: "sinv {} E R K s" and kp: "K p = Some (False, True)"
  shows "ok_run (sinv {} E R K) (run_task env p t s)"
proof (cases t)
  case (User_task u)
  then show ?thesis using apply_user_ok [OF e i kp] by (simp add: run_task_def split: prod.split)
next
  case (Post_work x)
  have "ok_run (sinv {} E R K) (Some (dec_concurrency p s))" using dec_concurrency_ok [OF i kp] by simp
  then show ?thesis
    unfolding run_task_def Post_work task.case
    by (rule ok_run_bind) (simp add: stop_child_actor_ok [where K = K, OF e _ kp] split: outcome.split)
qed

lemma run_ready_tasks_ok:
  fixes s :: "('d, 'u, 's) shard"
  assumes e: "env_ok env" and kp: "K p = Some (False, True)" and i: "sinv {} E R K s"
  shows "ok_run (\<lambda>(y, s). sinv {} E R K s \<and> (\<not> y \<longrightarrow> (\<exists>k. get_actor p s = Inr k \<and> actor_tasks k = [])))
    (run_ready_tasks env p s)"
proof (rule ok_runI)
  let ?I = "sinv {} E R K"
  let ?Q = "\<lambda>(y, s). ?I s \<and> (\<not> y \<longrightarrow> (\<exists>k. get_actor p s = Inr k \<and> actor_tasks k = []))"
  let ?P = "\<lambda>v q s r. v = env \<longrightarrow> q = p \<longrightarrow> ?I s \<longrightarrow> ok_res ?Q r"
  fix r assume r: "run_ready_tasks env p s = Some r"
  have "?P env p s r"
  proof (rule run_ready_tasks.raw_induct [OF _ r, where P = ?P], intro impI)
    fix rec v q s r
    assume IH: "\<And>v q s r. rec v q s = Some r \<Longrightarrow> ?P v q s r" and "v = env" "q = p" and i: "?I s"
      and b: "bind_run (Some (get_actor q s)) (\<lambda>k. case actor_tasks k of [] \<Rightarrow> Some (Inr (False, s))
        | t # ts \<Rightarrow> bind_run (Some (set_actor q (k\<lparr>actor_tasks := ts\<rparr>) s)) (\<lambda>s1.
           bind_run (run_task v q t s1) (\<lambda>s2.
             case need_yield s2 of (y, s3) \<Rightarrow> if y then Some (Inr (True, s3)) else rec v q s3))) = Some r"
    obtain k where k: "get_actor p s = Inr k" "0 < max_concurrency k"
      "\<And>k'. 0 < max_concurrency k' \<Longrightarrow> ok_res ?I (set_actor p k' s)"
      by (rule awake_actor [OF i kp]) blast
    have "ok_run ?Q (case actor_tasks k of [] \<Rightarrow> Some (Inr (False, s))
        | t # ts \<Rightarrow> bind_run (Some (set_actor p (k\<lparr>actor_tasks := ts\<rparr>) s)) (\<lambda>s1.
           bind_run (run_task env p t s1) (\<lambda>s2.
             case need_yield s2 of (y, s3) \<Rightarrow> if y then Some (Inr (True, s3)) else rec env p s3)))"
    proof (cases "actor_tasks k")
      case (Cons t ts)
      have "ok_run ?I (Some (set_actor p (k\<lparr>actor_tasks := ts\<rparr>) s))" using k by simp
      moreover have "ok_run ?Q (bind_run (run_task env p t s1) (\<lambda>s2.
             case need_yield s2 of (y, s3) \<Rightarrow> if y then Some (Inr (True, s3)) else rec env p s3))" if "?I s1" for s1
        using run_task_ok [OF e that kp]
      proof (rule ok_run_bind)
        fix s2 :: "('d, 'u, 's) shard" assume "?I s2"
        then show "ok_run ?Q (case need_yield s2 of (y, s3) \<Rightarrow> if y then Some (Inr (True, s3)) else rec env p s3)"
          using need_yield_ok [of "{}" E R K s2] IH [of env p] by (auto split: prod.split intro!: ok_runI)
      qed
      ultimately show ?thesis unfolding Cons list.case by (rule ok_run_bind)
    qed (use i k in simp)
    then show "ok_res ?Q r" using b [unfolded \<open>v = env\<close> \<open>q = p\<close>] k(1) by simp
  qed
  then show "ok_res ?Q r" using i by simp
qed

lemma process_message_ok:
  fixes s :: "('d, 'u, 's) shard"
  assumes e: "env_ok env" and kp: "K p = Some (False, True)" and i: "sinv {} E R K s"
  shows "ok_run (\<lambda>(limit, s). sinv {} E R K s) (process_message env p m s)"
proof -
  let ?I = "sinv {} E R K"
  let ?Q = "\<lambda>(limit :: bool, s). ?I s"
  have st: "ok_run ?Q (bind_run (stop_child_actor env p f s1) (\<lambda>s2. Some (Inr (False, s2))))" if "?I s1" for f s1
    by (rule ok_run_bind [OF stop_child_actor_ok [OF e that kp]]) simp
  have pend: "ok_run ?Q (bind_run (Some (get_actor p s1)) (\<lambda>k.
      bind_run (Some (set_actor p (k\<lparr>cur_concurrency := cur_concurrency k + 1\<rparr>) s1)) (\<lambda>s2.
        Some (Inr (cur_concurrency k + 1 = max_concurrency k, s2)))))" if i1: "?I s1" for s1
  proof -
    obtain k where k: "get_actor p s1 = Inr k" "0 < max_concurrency k"
      "\<And>k'. 0 < max_concurrency k' \<Longrightarrow> ok_res ?I (set_actor p k' s1)"
      by (rule awake_actor [OF i1 kp]) blast
    then have "ok_run ?I (Some (set_actor p (k\<lparr>cur_concurrency := cur_concurrency k + 1\<rparr>) s1))" by simp
    then have "ok_run ?Q (bind_run (Some (set_actor p (k\<lparr>cur_concurrency := cur_concurrency k + 1\<rparr>) s1)) (\<lambda>s2.
        Some (Inr (cur_concurrency k + 1 = max_concurrency k, s2))))"
      by (rule ok_run_bind) simp
    then show ?thesis using k(1) by simp
  qed
  have user: "ok_run ?Q (bind_run (Some (apply_user env p msgs ts x s)) (\<lambda>s1.
               case w of
                 Work_pending \<Rightarrow>
                   bind_run (Some (get_actor p s1)) (\<lambda>k.
                   bind_run (Some (set_actor p (k\<lparr>cur_concurrency := cur_concurrency k + 1\<rparr>) s1)) (\<lambda>s2.
                     Some (Inr (cur_concurrency k + 1 = max_concurrency k, s2))))
               | Work_done Failed \<Rightarrow> Some (Inr (False, s1))
               | Work_done (Value stop) \<Rightarrow>
                   bind_run (if stop then stop_child_actor env p True s1 else Some (Inr s1)) (\<lambda>s2.
                     Some (Inr (False, s2)))))" for w msgs ts x
  proof (rule ok_run_bind [where P = ?I])
    show "ok_run ?I (Some (apply_user env p msgs ts x s))" using apply_user_ok [OF e i kp] by simp
    show "ok_run ?Q (case w of
                 Work_pending \<Rightarrow>
                   bind_run (Some (get_actor p s1)) (\<lambda>k.
                   bind_run (Some (set_actor p (k\<lparr>cur_concurrency := cur_concurrency k + 1\<rparr>) s1)) (\<lambda>s2.
                     Some (Inr (cur_concurrency k + 1 = max_concurrency k, s2))))
               | Work_done Failed \<Rightarrow> Some (Inr (False, s1))
               | Work_done (Value stop) \<Rightarrow>
                   bind_run (if stop then stop_child_actor env p True s1 else Some (Inr s1)) (\<lambda>s2.
                     Some (Inr (False, s2))))" if "?I s1" for s1
      using pend [OF that] st [OF that, of True] that by (cases w) (auto split: outcome.split)
  qed
  show ?thesis
    using user st [OF i, of False] st [OF i, of True] unfolding process_message_def Let_def
    by (auto split: prod.split)
qed

lemma deque_message_ok:
  assumes i: "sinv {} E R K s" and kp: "K p = Some (b, True)"
  shows "ok_res (\<lambda>(m, s). sinv {} E R K s) (deque_message p s)"
proof -
  obtain a where a: "objs s p = Some a" "sched_status a = SCHEDULED" by (rule sinv_known [OF i kp]) blast
  have "sinv {} E R K (set_obj p (a\<lparr>mailbox := ms\<rparr>) s)" for ms
    using i a(1) by (rule sinv_set_obj)
      (use sinv_obj(1) [OF i a(1)] a(2) in \<open>auto simp: mailbox_shape scheduled_wake_ok\<close>)
  then show ?thesis using a(1) by (simp add: deque_message_def get_obj_def split: list.split)
qed

lemma process_mailbox_ok:
  fixes s :: "('d, 'u, 's) shard"
  assumes e: "env_ok env" and kp: "K p = Some (False, True)" and i: "sinv {} E R K s"
  shows "ok_run (sinv {} E R K) (process_mailbox env p s)"
proof (rule ok_runI)
  let ?I = "sinv {} E R K"
  let ?P = "\<lambda>v q s r. v = env \<longrightarrow> q = p \<longrightarrow> ?I s \<longrightarrow> ok_res ?I r"
  fix r assume r: "process_mailbox env p s = Some r"
  have "?P env p s r"
  proof (rule process_mailbox.raw_induct [OF _ r, where P = ?P], intro impI)
    fix rec v q r and s :: "('d, 'u, 's) shard"
    assume IH: "\<And>v q s r. rec v q s = Some r \<Longrightarrow> ?P v q s r" and "v = env" "q = p" and i: "?I s"
      and b: "bind_run (Some (get_obj q s)) (\<lambda>a.
       if mailbox a = [] then Some (Inr s)
       else
         bind_run (Some (deque_message q s)) (\<lambda>(m, s1).
         bind_run (process_message v q m s1) (\<lambda>(limit, s2).
           if limit then Some (Inr s2)
           else (case need_yield s2 of (y, s3) \<Rightarrow> if y then Some (Inr s3) else rec v q s3)))) = Some r"
    obtain a where a: "get_obj p s = Inr a" by (rule awake_actor [OF i kp]) blast
    have "ok_run ?I (bind_run (Some (deque_message p s)) (\<lambda>(m, s1).
         bind_run (process_message env p m s1) (\<lambda>(limit, s2).
           if limit then Some (Inr s2)
           else (case need_yield s2 of (y, s3) \<Rightarrow> if y then Some (Inr s3) else rec env p s3))))"
    proof (rule ok_run_bind [where P = "\<lambda>(m, s). ?I s"])
      show "ok_run (\<lambda>(m, s). ?I s) (Some (deque_message p s))" using deque_message_ok [OF i kp] by simp
      fix x :: "'d actor_message \<times> ('d, 'u, 's) shard" assume "case x of (m, s) \<Rightarrow> ?I s"
      then obtain m s1 where x: "x = (m, s1)" "?I s1" by auto
      have "ok_run ?I (bind_run (process_message env p m s1) (\<lambda>(limit, s2).
           if limit then Some (Inr s2)
           else (case need_yield s2 of (y, s3) \<Rightarrow> if y then Some (Inr s3) else rec env p s3)))"
        using process_message_ok [OF e kp x(2)]
      proof (rule ok_run_bind)
        fix y :: "bool \<times> ('d, 'u, 's) shard" assume "case y of (limit, s) \<Rightarrow> ?I s"
        then show "ok_run ?I (case y of (limit, s2) \<Rightarrow> if limit then Some (Inr s2)
            else (case need_yield s2 of (y, s3) \<Rightarrow> if y then Some (Inr s3) else rec env p s3))"
          using need_yield_ok [of "{}" E R K "snd y"] IH [of env p]
          by (cases y; cases "need_yield (snd y)") (auto intro!: ok_runI)
      qed
      then show "ok_run ?I (case x of (m, s1) \<Rightarrow> bind_run (process_message env p m s1) (\<lambda>(limit, s2).
           if limit then Some (Inr s2)
           else (case need_yield s2 of (y, s3) \<Rightarrow> if y then Some (Inr s3) else rec env p s3)))"
        by (simp add: x(1))
    qed
    then show "ok_res ?I r"
      using b [unfolded \<open>v = env\<close> \<open>q = p\<close> a bind_run_simps] i
      by (cases "mailbox a = []"; simp only: if_True if_False) auto
  qed
  then show "ok_res ?I r" using i by simp
qed

lemma set_activatable_limit_ok:
  assumes i: "sinv {} {} (insert p R) K s" and kp: "K p = Some (False, True)" and p: "p \<notin> R" "\<And>c. c # p \<notin> R"
    and k: "get_actor p s = Inr k" "actor_tasks k = []" "cur_concurrency k = max_concurrency k"
  shows "ok_res (sinv {} {} R (K(p := None))) (set_activatable p s)"
proof -
  obtain a k' where a: "objs s p = Some a" "part a = Actor k'" "get_actor p s = Inr k'" "0 < max_concurrency k'"
    by (rule awake_actor [OF i kp]) blast
  have "wake_ok (a\<lparr>sched_status := SCHEDULABLE\<rparr>)" using a k by (auto simp: wake_ok_def)
  from end_turn_ok [OF i p a(1), of False] this show ?thesis
    by (cases "set_activatable p s") auto
qed

lemma after_ready_tasks_ok:
  fixes s2 :: "('d, 'u, 's) shard"
  assumes e: "env_ok env" and i: "sinv {} {} (insert p R) K s2" and kp: "K p = Some (False, True)"
    and p: "p \<notin> R" "\<And>c. c # p \<notin> R"
    and t: "\<not> yielded \<Longrightarrow> \<exists>k. get_actor p s2 = Inr k \<and> actor_tasks k = []"
  shows "ok_run (sinv {} {} R (K(p := None)))
    (if yielded then Some (finish_actor_turn p s2)
     else bind_run (Some (get_actor p s2)) (\<lambda>k2.
       if cur_concurrency k2 = max_concurrency k2 then Some (set_activatable p s2)
       else bind_run (process_mailbox env p s2) (\<lambda>s3. Some (finish_actor_turn p s3))))"
proof (cases yielded)
  case True
  then show ?thesis using finish_actor_turn_ok [OF i kp p] by simp
next
  case False
  with t obtain k where k: "get_actor p s2 = Inr k" "actor_tasks k = []" by blast
  show ?thesis
  proof (cases "cur_concurrency k = max_concurrency k")
    case True
    then show ?thesis using False k set_activatable_limit_ok [OF i kp p k] by simp
  next
    case n: False
    have "ok_run (sinv {} {} R (K(p := None))) (bind_run (process_mailbox env p s2) (\<lambda>s3. Some (finish_actor_turn p s3)))"
      using process_mailbox_ok [OF e kp i] by (rule ok_run_bind) (use finish_actor_turn_ok [where K = K and p = p and R = R, OF _ kp p] in simp)
    then show ?thesis using False k n by simp
  qed
qed

lemma actor_run_ok:
  fixes s :: "('d, 'u, 's) shard"
  assumes e: "env_ok env" and i: "sinv {} {} (insert p R) K s" and p: "p \<notin> R" "\<And>c. c # p \<notin> R"
  shows "ok_run (sinv {} {} R (K(p := None))) (actor_run env p s)"
proof -
  have "p \<in> insert p R" by simp
  then obtain a where a: "objs s p = Some a" "sched_status a = SCHEDULED" by (rule sinv_running [OF i])
  show ?thesis
  proof (cases "part a")
    case (Group g)
    then show ?thesis using a by (simp add: actor_run_def get_obj_def get_actor_def)
  next
    case (Actor k)
    define K1 where "K1 = K(p \<mapsto> (False, True))"
    let ?I = "sinv {} {} (insert p R) K1"
    have kp: "K1 p = Some (False, True)" and up: "K1(p := None) = K(p := None)" by (simp_all add: K1_def)
    have i1: "?I s" using sinv_learn [OF i a(1)] a(2) Actor by (simp add: is_group_def K1_def)
    obtain k1 where k1: "get_actor p s = Inr k1" "0 < max_concurrency k1"
      "\<And>k'. 0 < max_concurrency k' \<Longrightarrow> ok_res ?I (set_actor p k' s)"
      by (rule awake_actor [OF i1 kp]) blast
    let ?k = "if force_stopping a then k1\<lparr>actor_tasks := map cancel_task (actor_tasks k1)\<rparr> else k1"
    have "ok_run ?I (Some (set_actor p ?k s))" using k1 by simp
    then have "ok_run (sinv {} {} R (K1(p := None))) (bind_run (Some (set_actor p ?k s)) (\<lambda>s1.
     bind_run (run_ready_tasks env p s1) (\<lambda>(yielded, s2).
       if yielded then Some (finish_actor_turn p s2)
       else
         bind_run (Some (get_actor p s2)) (\<lambda>k2.
           if cur_concurrency k2 = max_concurrency k2 then Some (set_activatable p s2)
           else bind_run (process_mailbox env p s2) (\<lambda>s3. Some (finish_actor_turn p s3))))))"
    proof (rule ok_run_bind)
      fix s1 :: "('d, 'u, 's) shard" assume "?I s1"
      from run_ready_tasks_ok [OF e kp this]
      show "ok_run (sinv {} {} R (K1(p := None))) (bind_run (run_ready_tasks env p s1) (\<lambda>(yielded, s2).
       if yielded then Some (finish_actor_turn p s2)
       else
         bind_run (Some (get_actor p s2)) (\<lambda>k2.
           if cur_concurrency k2 = max_concurrency k2 then Some (set_activatable p s2)
           else bind_run (process_mailbox env p s2) (\<lambda>s3. Some (finish_actor_turn p s3)))))"
        by (rule ok_run_bind) (clarsimp simp only: prod.case,
            rule after_ready_tasks_ok [where K = K1 and p = p and R = R, OF e _ kp p], blast+)
    qed
    then show ?thesis unfolding up using a k1(1) by (simp add: actor_run_def get_obj_def)
  qed
qed

section \<open>A turn of a group\<close>

lemma group_process_message_ok:
  assumes e: "env_ok env" and kp: "K p = Some (True, w)" and i: "sinv {} E R K s"
  shows "ok_run (sinv {} E R K) (group_process_message env p m s)"
proof -
  let ?h = "msg_hdr m"
  have "ok_run (sinv {} E R K) (bind_run (stop_child_actor env p f s) (\<lambda>s1.
      bind_run (Some (get_group p s1)) (\<lambda>g.
        Some (set_group p (g\<lparr>cancel_request_sid := src_shard_id ?h, cancel_request_pr_id := hdr_pr_id ?h\<rparr>) s1))))" for f
    using stop_child_actor_ok [OF e i kp]
  proof (rule ok_run_bind)
    fix s1 assume i1: "sinv {} E R K s1"
    obtain a g where a: "objs s1 p = Some a" "part a = Group g" "get_group p s1 = Inr g"
      by (rule known_group [OF i1 kp]) blast
    let ?g = "g\<lparr>cancel_request_sid := src_shard_id ?h, cancel_request_pr_id := hdr_pr_id ?h\<rparr>"
    have "sinv {} E R K (set_obj p (a\<lparr>part := Group ?g\<rparr>) s1)"
      using i1 a(1) by (rule sinv_set_obj)
        (use sinv_obj [OF i1 a(1)] a(2) in \<open>auto simp: same_shape_def obj_ok_def wake_ok_def stopping_def\<close>)
    then show "ok_run (sinv {} E R K) (bind_run (Some (get_group p s1)) (\<lambda>g.
        Some (set_group p (g\<lparr>cancel_request_sid := src_shard_id ?h, cancel_request_pr_id := hdr_pr_id ?h\<rparr>) s1)))"
      using a by (simp add: set_group_def get_obj_def)
  qed
  then show ?thesis by (simp add: group_process_message_def Let_def)
qed

lemma group_mailbox_ok:
  fixes s :: "('d, 'u, 's) shard"
  assumes e: "env_ok env" and kp: "K p = Some (True, True)" and i: "sinv {} E R K s"
  shows "ok_run (\<lambda>(y, s). sinv {} E R K s) (group_mailbox env p s)"
proof (rule ok_runI)
  let ?I = "sinv {} E R K"
  let ?Q = "\<lambda>(y :: bool, s). ?I s"
  let ?P = "\<lambda>v q s r. v = env \<longrightarrow> q = p \<longrightarrow> ?I s \<longrightarrow> ok_res ?Q r"
  fix r assume r: "group_mailbox env p s = Some r"
  have "?P env p s r"
  proof (rule group_mailbox.raw_induct [OF _ r, where P = ?P], intro impI)
    fix rec v q r and s :: "('d, 'u, 's) shard"
    assume IH: "\<And>v q s r. rec v q s = Some r \<Longrightarrow> ?P v q s r" and "v = env" "q = p" and i: "?I s"
      and b: "bind_run (Some (get_obj q s)) (\<lambda>a.
       if mailbox a = [] then Some (Inr (False, s))
       else
         bind_run (Some (deque_message q s)) (\<lambda>(m, s1).
         bind_run (group_process_message v q m s1) (\<lambda>s2.
           case need_yield s2 of (y, s3) \<Rightarrow> if y then Some (Inr (True, s3)) else rec v q s3))) = Some r"
    obtain a where a: "get_obj p s = Inr a" by (rule known_group [OF i kp]) blast
    have "ok_run ?Q (bind_run (Some (deque_message p s)) (\<lambda>(m, s1).
         bind_run (group_process_message env p m s1) (\<lambda>s2.
           case need_yield s2 of (y, s3) \<Rightarrow> if y then Some (Inr (True, s3)) else rec env p s3)))"
    proof (rule ok_run_bind [where P = "\<lambda>(m, s). ?I s"])
      show "ok_run (\<lambda>(m, s). ?I s) (Some (deque_message p s))" using deque_message_ok [OF i kp] by simp
      fix x :: "'d actor_message \<times> ('d, 'u, 's) shard" assume "case x of (m, s) \<Rightarrow> ?I s"
      then obtain m s1 where x: "x = (m, s1)" "?I s1" by auto
      have "ok_run ?Q (bind_run (group_process_message env p m s1) (\<lambda>s2.
           case need_yield s2 of (y, s3) \<Rightarrow> if y then Some (Inr (True, s3)) else rec env p s3))"
        using group_process_message_ok [OF e kp x(2)]
      proof (rule ok_run_bind)
        fix s2 :: "('d, 'u, 's) shard" assume "?I s2"
        then show "ok_run ?Q (case need_yield s2 of (y, s3) \<Rightarrow> if y then Some (Inr (True, s3)) else rec env p s3)"
          using need_yield_ok [of "{}" E R K s2] IH [of env p] by (cases "need_yield s2") (auto intro!: ok_runI)
      qed
      then show "ok_run ?Q (case x of (m, s1) \<Rightarrow> bind_run (group_process_message env p m s1) (\<lambda>s2.
           case need_yield s2 of (y, s3) \<Rightarrow> if y then Some (Inr (True, s3)) else rec env p s3))"
        by (simp add: x(1))
    qed
    then show "ok_res ?Q r"
      using b [unfolded \<open>v = env\<close> \<open>q = p\<close> a bind_run_simps] i
      by (cases "mailbox a = []"; simp only: if_True if_False) auto
  qed
  then show "ok_res ?Q r" using i by simp
qed

text \<open>Handing out a child of a running group starts the turn of the child.\<close>

lemma group_pop_ok:
  assumes e: "env_ok env" and i: "sinv {} E R K s" and pR: "p \<in> R" and a: "objs s p = Some a" "part a = Group g"
    and ne: "\<not> tq_empty (group_tasks g)"
  obtains c tq where "pop_task (heap_make env) (heap_pop env) (group_tasks g) = Inr (c, tq)"
    "sinv {} E (insert (c # p) R) K (set_obj p (a\<lparr>part := Group (g\<lparr>group_tasks := tq\<rparr>)\<rparr>) s)" "c # p \<notin> R"
    "\<And>c'. c' # c # p \<notin> R"
proof -
  have "tq_inv (group_tasks g)" using sinv_obj(1) [OF i a(1)] a(2) by (simp add: obj_ok_def)
  moreover have "tq_pending (group_tasks g) \<noteq> {#}" using ne by (simp add: tq_empty_iff)
  moreover have "std_heap (heap_make env) (heap_pop env)" using e by (simp add: env_ok_def)
  ultimately obtain c tq where c: "pop_task (heap_make env) (heap_pop env) (group_tasks g) = Inr (c, tq)"
    "tq_inv tq" "tq_pending (group_tasks g) = add_mset c (tq_pending tq)"
    using std_heap.pop_pending by blast
  have pn: "p \<noteq> []" using sinv_obj(3) [OF i a(1)] .
  let ?s = "set_obj p (a\<lparr>part := Group (g\<lparr>group_tasks := tq\<rparr>)\<rparr>) s"
  have q: "queue_of s p = add_mset c (tq_pending tq)" using a c(3) pn by (simp add: queue_of_def)
  have "sinv {} E (insert (c # p) R) K ?s \<and> c # p \<notin> R"
  proof (rule sinv_dequeue [OF i, of c p])
    show "queue_of ?s = (queue_of s)(p := queue_of s p - {#c#})"
      using q pn a by (auto simp: queue_of_def fun_eq_iff split: option.splits part.splits)
    show "children_of ?s = children_of s"
      using a by (auto simp: children_of_def fun_eq_iff split: option.splits part.splits)
    show "\<exists>b. objs s p = Some b \<and> sched_status b' = sched_status b \<and> is_group b' = is_group b \<and>
        stopping b' = stopping b \<and> obj_ok b'" if "objs ?s p = Some b'" for b'
      using that a sinv_obj(1) [OF i a(1)] c(2) by (auto simp: is_group_def stopping_def obj_ok_def)
  qed (use q pR a in auto)
  then have d: "sinv {} E (insert (c # p) R) K ?s" "c # p \<notin> R" by simp_all
  have "c' # c # p \<notin> R" for c' using d(2) i unfolding sinv_def run_ok_def by blast
  then show thesis using that c(1) d by blast
qed

lemma group_task_loop_ok:
  fixes s :: "('d, 'u, 's) shard"
  assumes e: "env_ok env" and kp: "K p = Some (True, True)" and pR: "p \<in> R" and i: "sinv {} {} R K s"
    and run: "\<And>c s1. sinv {} {} (insert (c # p) R) K s1 \<Longrightarrow> c # p \<notin> R \<Longrightarrow> (\<And>c'. c' # c # p \<notin> R) \<Longrightarrow>
      ok_run (sinv {} {} R K) (run_child (c # p) s1)"
  shows "ok_run (sinv {} {} R K) (group_task_loop env run_child p s)"
proof (rule ok_runI)
  let ?I = "sinv {} {} R K"
  let ?P = "\<lambda>v rc q s r. v = env \<longrightarrow> rc = run_child \<longrightarrow> q = p \<longrightarrow> ?I s \<longrightarrow> ok_res ?I r"
  fix r assume r: "group_task_loop env run_child p s = Some r"
  have "?P env run_child p s r"
  proof (rule group_task_loop.raw_induct [OF _ r, where P = ?P], intro impI)
    fix rec v rc q r and s :: "('d, 'u, 's) shard"
    assume IH: "\<And>v rc q s r. rec v rc q s = Some r \<Longrightarrow> ?P v rc q s r" and "v = env" "rc = run_child" "q = p" and i: "?I s"
      and b: "bind_run (Some (get_group q s)) (\<lambda>g.
       if tq_empty (group_tasks g) then Some (Inr s)
       else
         bind_run (Some (pop_task (heap_make v) (heap_pop v) (group_tasks g))) (\<lambda>(c, tq).
         bind_run (Some (set_group q (g\<lparr>group_tasks := tq\<rparr>) s)) (\<lambda>s1.
         bind_run (rc (c # q) s1) (\<lambda>s2.
           case need_yield s2 of (y, s3) \<Rightarrow> if y then Some (Inr s3) else rec v rc q s3)))) = Some r"
    obtain a g where a: "objs s p = Some a" "part a = Group g" "get_group p s = Inr g"
      by (rule known_group [OF i kp]) blast
    show "ok_res ?I r"
    proof (cases "tq_empty (group_tasks g)")
      case True
      then show ?thesis using b [unfolded \<open>q = p\<close> a bind_run_simps] i by auto
    next
      case False
      obtain c tq where c: "pop_task (heap_make env) (heap_pop env) (group_tasks g) = Inr (c, tq)"
        "sinv {} {} (insert (c # p) R) K (set_obj p (a\<lparr>part := Group (g\<lparr>group_tasks := tq\<rparr>)\<rparr>) s)" "c # p \<notin> R"
        "\<And>c'. c' # c # p \<notin> R"
        by (rule group_pop_ok [OF e i pR a(1,2) False]) blast
      have "ok_run ?I (bind_run (run_child (c # p) (set_obj p (a\<lparr>part := Group (g\<lparr>group_tasks := tq\<rparr>)\<rparr>) s)) (\<lambda>s2.
           case need_yield s2 of (y, s3) \<Rightarrow> if y then Some (Inr s3) else rec env run_child p s3))"
        using run [OF c(2-4)]
      proof (rule ok_run_bind)
        fix s2 :: "('d, 'u, 's) shard" assume "?I s2"
        then show "ok_run ?I (case need_yield s2 of (y, s3) \<Rightarrow> if y then Some (Inr s3) else rec env run_child p s3)"
          using need_yield_ok [of "{}" "{}" R K s2] IH [of env run_child p]
          by (cases "need_yield s2") (auto intro!: ok_runI)
      qed
      then show ?thesis
        using b [unfolded \<open>v = env\<close> \<open>rc = run_child\<close> \<open>q = p\<close> a bind_run_simps] False a c(1)
        by (simp add: set_group_def get_obj_def)
    qed
  qed
  then show "ok_res ?I r" using i by simp
qed

lemma finish_group_turn_ok:
  assumes i: "sinv {} {} (insert p R) K s" and kp: "K p = Some (True, True)" and p: "p \<notin> R" "\<And>c. c # p \<notin> R"
  shows "ok_res (sinv {} {} R (K(p := None))) (finish_group_turn env p (s :: ('d, 'u, 's) shard))"
proof -
  obtain a g where a: "objs s p = Some a" "part a = Group g" "get_obj p s = Inr a" "get_group p s = Inr g"
    "children_of s p = Some (group_children g)"
    by (rule known_group [OF i kp]) blast
  show ?thesis
  proof (cases "stopping a \<and> num_managed (group_children g) = 0 \<and> tq_empty (group_tasks g) \<and> mailbox a = []")
    case True
    let ?resp = "\<lambda>s1 :: ('d, 'u, 's) shard. if cancel_request_pr_id g \<noteq> 0 then
              bind_res (make_response_message (addr_junk env) (cancel_request_sid g) (cancel_request_pr_id g) RESPONSE)
                (\<lambda>r. send_response env r s1)
            else Inr s1"
    have "ok_res (\<lambda>_. True) (make_response_message junk sid pr mt)" for junk sid pr mt
      unfolding make_response_message_def by (rule ok_res_bind [OF response_address_ok]) simp
    then have r: "ok_res (same_tree s1) (?resp s1)" for s1
      by (auto intro!: ok_res_bind send_response_tree simp: same_tree_def)
    have "card (kids s p) < 4294967296"
      using card_kids_le [OF i, of p] i by (auto simp: sinv_def tree_ok_def)
    then have "unat (num_managed (group_children g)) = card (kids s p)"
      using sinv_kidsD(3) [OF i a(5)] by (simp add: unat_of_nat_u32)
    then have "kids s p = {}" using True card_kids_le [OF i, of p] by simp
    from dispose_ok [OF i p a(1) _ this r] True show ?thesis
      unfolding finish_group_turn_def a(3,4) bind_res_simps by (simp only: if_True simp_thms)
  next
    case False
    let ?again = "mailbox a \<noteq> [] \<or> \<not> tq_empty (group_tasks g)"
    have "wake_ok (a\<lparr>sched_status := SCHEDULABLE\<rparr>)" if "\<not> ?again"
      using that False a(2) by (auto simp: wake_ok_def stopping_def)
    from end_turn_ok [OF i p a(1) this] show ?thesis
      using a False unfolding finish_group_turn_def a(3,4) bind_res_simps by (simp only: if_False)
  qed
qed

lemma group_run_ok:
  fixes s :: "('d, 'u, 's) shard"
  assumes e: "env_ok env" and i: "sinv {} {} (insert p R) K s" and p: "p \<notin> R" "\<And>c. c # p \<notin> R"
    and g: "objs s p = Some a" "is_group a"
    and run: "\<And>c s1 K. sinv {} {} (insert (c # p) (insert p R)) K s1 \<Longrightarrow> c # p \<notin> insert p R \<Longrightarrow>
      (\<And>c'. c' # c # p \<notin> insert p R) \<Longrightarrow> dom K \<subseteq> insert p R \<Longrightarrow> ok_run (sinv {} {} (insert p R) (K(c # p := None))) (run_child (c # p) s1)"
    and K: "dom K \<subseteq> R"
  shows "ok_run (sinv {} {} R (K(p := None))) (group_run env run_child p s)"
proof -
  define K1 where "K1 = K(p \<mapsto> (True, True))"
  let ?I = "sinv {} {} (insert p R) K1"
  have kp: "K1 p = Some (True, True)" and up: "K1(p := None) = K(p := None)" by (simp_all add: K1_def)
  have pi: "p \<in> insert p R" by simp
  have "sched_status a = SCHEDULED" using sinv_running [OF i pi] g(1) by auto
  then have i1: "?I s" using sinv_learn [OF i g(1)] g(2) by (simp add: K1_def)
  have "K (c # p) = None" for c using K p(2) [of c] by (metis domIff subsetD)
  then have K1c: "K1(c # p := None) = K1" for c by (auto simp: K1_def fun_eq_iff)
  have Kd: "dom K1 \<subseteq> insert p R" using K by (auto simp: K1_def)
  have loop: "ok_run ?I (group_task_loop env run_child p s1)" if "?I s1" for s1
    by (rule group_task_loop_ok [OF e kp pi that]) (use run [where K = K1] K1c Kd in simp)
  have "ok_run ?I (case x of (y, s1) \<Rightarrow> if y then Some (Inr s1) else group_task_loop env run_child p s1)"
    if "case x of (y, s) \<Rightarrow> ?I s" for x :: "bool \<times> ('d, 'u, 's) shard"
    using that loop by (cases x) simp
  then have "ok_run (sinv {} {} R (K1(p := None))) (case x of (y, s1) \<Rightarrow>
      bind_run (if y then Some (Inr s1) else group_task_loop env run_child p s1) (\<lambda>s2. Some (finish_group_turn env p s2)))"
    if "case x of (y, s) \<Rightarrow> ?I s" for x :: "bool \<times> ('d, 'u, 's) shard"
    using that loop finish_group_turn_ok [where K = K1 and p = p and R = R, OF _ kp p]
    by (cases x) (auto intro!: ok_run_bind [where P = ?I])
  from ok_run_bind [OF group_mailbox_ok [OF e kp i1] this]
  show ?thesis unfolding up group_run_def by simp
qed

lemma run_and_dispose_ok:
  fixes s :: "('d, 'u, 's) shard"
  assumes e: "env_ok env"
  shows "sinv {} {} (insert p R) K s \<Longrightarrow> p \<notin> R \<Longrightarrow> (\<And>c. c # p \<notin> R) \<Longrightarrow> dom K \<subseteq> R \<Longrightarrow>
    ok_run (sinv {} {} R (K(p := None))) (run_and_dispose n env p s)"
proof (induction n arbitrary: p R K s)
  case 0
  then show ?case unfolding run_and_dispose.simps by (intro actor_run_ok [OF e])
next
  case (Suc n)
  have "p \<in> insert p R" by simp
  then obtain a where a: "objs s p = Some a" by (rule sinv_running [OF Suc.prems(1)])
  show ?case
  proof (cases "part a")
    case (Actor k)
    show ?thesis
      unfolding run_and_dispose.simps get_obj_def a option.case bind_run_simps Actor part.case
      using Suc.prems by (intro actor_run_ok [OF e])
  next
    case (Group g)
    have "ok_run (sinv {} {} R (K(p := None))) (group_run env (run_and_dispose n env) p s)"
    proof (rule group_run_ok [OF e Suc.prems(1-3) a _ _ Suc.prems(4)])
      fix c K and s1 :: "('d, 'u, 's) shard"
      assume "sinv {} {} (insert (c # p) (insert p R)) K s1" "c # p \<notin> insert p R"
        "\<And>c'. c' # c # p \<notin> insert p R" "dom K \<subseteq> insert p R"
      then show "ok_run (sinv {} {} (insert p R) (K(c # p := None))) (run_and_dispose n env (c # p) s1)"
        by (rule Suc.IH)
    qed (simp add: is_group_def Group)
    then show ?thesis unfolding run_and_dispose.simps get_obj_def a option.case bind_run_simps Group part.case .
  qed
qed

section \<open>The events of a shard\<close>

definition shard_ok :: "('d, 'u, 's) shard \<Rightarrow> bool" where
  "shard_ok s \<longleftrightarrow> sinv {} {} {} Map.empty s"

lemma engine_run_ok:
  assumes e: "env_ok env" and i: "shard_ok s"
  shows "ok_run shard_ok (engine_run env s)"
proof (cases "engine_q s")
  case Nil
  then show ?thesis using i by (simp add: engine_run_def)
next
  case (Cons c cs)
  let ?s = "s\<lparr>engine_q := cs\<rparr>"
  have "sinv {} {} (insert (c # []) {}) Map.empty ?s \<and> c # [] \<notin> {}"
  proof (rule sinv_dequeue [OF i [unfolded shard_ok_def]])
    show "queue_of ?s = (queue_of s)([] := queue_of s [] - {#c#})"
      using Cons by (auto simp: queue_of_def fun_eq_iff)
    show "children_of ?s = children_of s" by (auto simp: children_of_def fun_eq_iff)
    show "\<exists>b. objs s [] = Some b \<and> sched_status b' = sched_status b \<and> is_group b' = is_group b \<and>
        stopping b' = stopping b \<and> obj_ok b'" if "objs ?s [] = Some b'" for b'
      using that i by (auto simp: shard_ok_def sinv_def tree_ok_def)
  qed (simp_all add: queue_of_def Cons)
  then have "ok_run (sinv {} {} {} (Map.empty([c] := None))) (run_and_dispose 8 env [c] ?s)"
    by (intro run_and_dispose_ok [OF e]) simp_all
  then show ?thesis using Cons by (simp add: engine_run_def shard_ok_def [abs_def])
qed

lemma break_promises_ok: "ok_res (\<lambda>_. True) (break_promises prs)"
proof -
  have "ok_res (\<lambda>_. True) (remove_pr i prs)" for i and prs :: "'d actor_message promise pr_manager"
    by (simp add: remove_pr_def upd_node_def get_node_def)
  then show ?thesis unfolding break_promises_def
    by (intro ok_res_fold) (auto intro!: ok_res_bind [OF pr_access_ok(2)] ok_res_bind [OF pr_access_ok(1)])
qed

lemma stop_root_children_ok:
  assumes e: "env_ok env"
  shows "shard_ok s \<Longrightarrow> ok_run shard_ok (stop_root_children env force cs s)"
proof (induction cs arbitrary: s)
  case (Cons c cs)
  have "ok_run shard_ok (if map_of (inst_map (root_children s)) c = Some True
      then bind_run (obj_stop env [c] force s) (\<lambda>s1. Some (null_child_entry [c] s1)) else Some (Inr s))"
  proof (cases "map_of (inst_map (root_children s)) c = Some True")
    case True
    have i: "sinv {} {} {} Map.empty s" using Cons.prems by (simp add: shard_ok_def)
    have "children_of s [] = Some (root_children s)" by (simp add: children_of_def)
    from sinv_kidsD(1) [OF i this] map_of_SomeD [OF True] obtain a where a: "objs s [c] = Some a"
      by (auto simp: kids_def)
    have "ok_run (sinv {} {} {} (Map.empty([c] \<mapsto> (is_group a, sched_status a = SCHEDULED))))
        (bind_run (obj_stop env [c] force s) (\<lambda>s1. Some (null_child_entry [c] s1)))"
      by (rule obj_stop_entry_ok [OF e sinv_learn [OF i a]]) simp
    then have "ok_run shard_ok (bind_run (obj_stop env [c] force s) (\<lambda>s1. Some (null_child_entry [c] s1)))"
      by (rule ok_run_mono) (unfold shard_ok_def, erule sinv_weaken, simp_all)
    then show ?thesis using True by simp
  qed (use Cons.prems in simp)
  then show ?case unfolding stop_root_children.simps by (rule ok_run_bind) (rule Cons.IH)
qed simp

lemma stop_actor_system_ok:
  assumes e: "env_ok env" and i: "shard_ok s"
  shows "ok_run shard_ok (stop_actor_system env force s)"
proof -
  have "ok_run shard_ok (bind_run (Some (break_promises (response_prs s))) (\<lambda>prs.
      bind_run (stop_root_children env force (map fst (inst_map (root_children s)))
          (s\<lparr>root_stop := (if force then FORCE_STOPPING else PEACE_STOPPING), response_prs := prs\<rparr>))
        (\<lambda>s1. Some (Inr (if num_managed (root_children s1) = 0 then wait_others_and_exit s1 else s1)))))"
  proof (rule ok_run_bind [where P = "\<lambda>_. True"])
    fix prs
    have "shard_ok (s\<lparr>root_stop := (if force then FORCE_STOPPING else PEACE_STOPPING), response_prs := prs\<rparr>)"
      using i by (simp add: shard_ok_def)
    then have "ok_run shard_ok (stop_root_children env force cs
        (s\<lparr>root_stop := (if force then FORCE_STOPPING else PEACE_STOPPING), response_prs := prs\<rparr>))" for cs
      by (rule stop_root_children_ok [OF e])
    then show "ok_run shard_ok (bind_run (stop_root_children env force (map fst (inst_map (root_children s)))
          (s\<lparr>root_stop := (if force then FORCE_STOPPING else PEACE_STOPPING), response_prs := prs\<rparr>))
        (\<lambda>s1. Some (Inr (if num_managed (root_children s1) = 0 then wait_others_and_exit s1 else s1))))"
      by (rule ok_run_bind) (simp add: shard_ok_def wait_others_and_exit_def)
  qed (simp add: break_promises_ok)
  then show ?thesis using i by (simp add: stop_actor_system_def)
qed

lemma receive_ok:
  assumes "env_ok env" and "shard_ok s"
  shows "ok_run shard_ok (receive env m s)"
  using assms receive_response_ok [of "{}" "{}" "{}" Map.empty s env m] receive_actor_ok [of env "{}" "{}" "{}" Map.empty s m]
    stop_actor_system_ok [OF assms]
  by (simp add: receive_def Let_def shard_ok_def [abs_def])

text \<open>What can happen to a shard, from the state a shard starts in.\<close>

definition shard_new :: "'d actor_message promise pr_manager \<Rightarrow> 's \<Rightarrow> ('d, 'u, 's) shard" where
  "shard_new prs st = \<lparr>objs = Map.empty, live_count = 0, root_children = children_new, root_stop = RUNNING,
     engine_q = [], response_prs = prs, inbox = [], outbox = [], exits = 0, yields = [], user_state = st\<rparr>"

inductive reachable :: "('d, 'u, 's) actor_env \<Rightarrow> ('d, 'u, 's) shard \<Rightarrow> bool" for env where
  start: "reachable env (shard_new prs st)"
| message: "reachable env s \<Longrightarrow> receive env m s = Some (Inr s') \<Longrightarrow> reachable env s'"
| stop_request: "reachable env s \<Longrightarrow> inbox s = m # ms \<Longrightarrow> receive env m (s\<lparr>inbox := ms\<rparr>) = Some (Inr s') \<Longrightarrow> reachable env s'"
| turn: "reachable env s \<Longrightarrow> engine_run env s = Some (Inr s') \<Longrightarrow> reachable env s'"
| ready: "reachable env s \<Longrightarrow> get_actor p s = Inr k \<Longrightarrow> actor_add_task p t s = Inr s' \<Longrightarrow> reachable env s'"
| ready_urgent: "reachable env s \<Longrightarrow> get_actor p s = Inr k \<Longrightarrow> actor_add_urgent_task p t s = Inr s' \<Longrightarrow> reachable env s'"
| clock: "reachable env s \<Longrightarrow> reachable env (s\<lparr>yields := ys\<rparr>)"
| sent: "reachable env s \<Longrightarrow> outbox s = m # ms \<Longrightarrow> reachable env (s\<lparr>outbox := ms\<rparr>)"

lemma shard_new_ok: "shard_ok (shard_new prs st)"
  by (auto simp: shard_ok_def shard_new_def sinv_def tree_ok_def kids_ok_def entries_ok_def queue_ok_def run_ok_def
      known_ok_def wakes_ok_def children_of_def queue_of_def waits_def kids_def children_new_def)

lemma actor_add_urgent_task_ok:
  assumes "sinv X E R K s" and "K p = Some (False, w)"
  shows "ok_res (sinv X E R K) (actor_add_urgent_task p t s)"
proof -
  from assms obtain a k where a: "objs s p = Some a" "part a = Actor k" "get_actor p s = Inr k"
    "0 < max_concurrency k" "\<And>k'. set_actor p k' s = Inr (set_obj p (a\<lparr>part := Actor k'\<rparr>) s)"
    by (rule known_actor) blast
  let ?s = "set_obj p (a\<lparr>part := Actor (k\<lparr>actor_tasks := t # actor_tasks k\<rparr>)\<rparr>) s"
  have "sinv (insert p X) E R K ?s"
    using sinv_owe [OF assms(1)] a(1,2) by (rule sinv_set_actor) (use a(4) in auto)
  then show ?thesis using a(3,5) activate_ok [of p X E R K ?s] by (simp add: actor_add_urgent_task_def)
qed

lemma ready_ok:
  assumes "shard_ok s" and "get_actor p s = Inr k"
  shows "ok_res shard_ok (actor_add_task p t s)" "ok_res shard_ok (actor_add_urgent_task p t s)"
proof -
  from assms(2) obtain a where a: "objs s p = Some a" "\<not> is_group a"
    by (auto simp: get_actor_def get_obj_def is_group_def split: option.splits part.splits)
  let ?K = "Map.empty(p \<mapsto> (False, sched_status a = SCHEDULED))"
  have i: "sinv {} {} {} ?K s" using sinv_learn [OF assms(1) [unfolded shard_ok_def] a(1)] a(2) by simp
  have f: "sinv {} {} {} ?K s' \<Longrightarrow> shard_ok s'" for s' :: "('a, 'b, 'c) shard"
    unfolding shard_ok_def by (erule sinv_weaken) simp_all
  show "ok_res shard_ok (actor_add_task p t s)" "ok_res shard_ok (actor_add_urgent_task p t s)"
    using actor_add_task_ok [OF i, of p "sched_status a = SCHEDULED" t]
      actor_add_urgent_task_ok [OF i, of p "sched_status a = SCHEDULED" t] f
    by (auto elim!: ok_res_mono simp del: not_False_eq_True)
qed

lemma reachable_ok: "reachable env s \<Longrightarrow> env_ok env \<Longrightarrow> shard_ok s"
proof (induction rule: reachable.induct)
  case (start prs st)
  show ?case by (rule shard_new_ok)
next
  case (message s m s')
  then show ?case using receive_ok [of env s m] by simp
next
  case (stop_request s m ms s')
  then show ?case using receive_ok [of env "s\<lparr>inbox := ms\<rparr>" m] by (simp add: shard_ok_def)
next
  case (turn s s')
  then show ?case using engine_run_ok [of env s] by simp
next
  case (ready s p k t s')
  then show ?case using ready_ok(1) [of s p k t] by simp
next
  case (ready_urgent s p k t s')
  then show ?case using ready_ok(2) [of s p k t] by simp
qed (simp_all add: shard_ok_def)

lemma idle_shard_sleeps:
  assumes i: "shard_ok s" and q: "engine_q s = []"
  shows "objs s p = Some a \<Longrightarrow> sched_status a = SCHEDULABLE"
proof (induction p arbitrary: a)
  case Nil
  then show ?case using i by (auto simp: shard_ok_def sinv_def tree_ok_def)
next
  case (Cons c p)
  note i' = i [unfolded shard_ok_def]
  show ?case
  proof (rule ccontr)
    assume "sched_status a \<noteq> SCHEDULABLE"
    then have "sched_status a = SCHEDULED" using sinv_obj(1) [OF i' Cons.prems] by (cases "sched_status a") (auto simp: obj_ok_def)
    then have "waits {} s (c # p)" using Cons.prems by (simp add: waits_def)
    then have "count (queue_of s p) c = 1" using i' unfolding sinv_def queue_ok_def by simp
    then have ne: "queue_of s p \<noteq> {#}" by auto
    then obtain b g where b: "objs s p = Some b" "part b = Group g" "\<not> tq_empty (group_tasks g)"
      using q by (auto simp: queue_of_def tq_empty_iff split: if_splits option.splits part.splits)
    then have "sched_status b = SCHEDULABLE" using Cons.IH by simp
    then show False using sinv_obj(2) [OF i' b(1)] b by (simp add: wake_ok_def)
  qed
qed

end
