(* ===== verification/Actor_System.thy ===== *)
theory Actor_System
  imports Turn_Safety
begin

text \<open>
  The properties of the actor system of one shard: its safety over every sequence of events, the
  order in which an actor handles its messages, the stop protocol, responses and the concurrency
  limit, with the environment the examples run in.
\<close>

section \<open>An environment for examples\<close>

text \<open>Type 1 is an actor, type 2 a group without comparator, type 3 a group that prefers larger
  ids. An actor logs the payload of every message.\<close>

definition payload_of :: "nat actor_message \<Rightarrow> nat" where
  "payload_of m = (case m of With_payload h d \<Rightarrow> d | _ \<Rightarrow> 0)"

definition example_env :: "(nat, unit, nat list) actor_env" where
  "example_env = \<lparr>do_work = (\<lambda>p m log. (Work_done (Value False), [], [], log @ [payload_of m])),
     user_task = (\<lambda>p u log. ([], [], log)),
     factory = (\<lambda>tid. if tid = 1 then Inr (Actor_kind False) else if tid = 2 then Inr (Group_kind None)
        else if tid = 3 then Inr (Group_kind (Some (<))) else Inl (Thrown ''no such actor type'')),
     max_objs = 100, heap_make = sort_heap_by, heap_pop = pop_sorted, this_gsid = 0,
     addr_junk = replicate 128 0, canceled_text = 0, as_string = (\<lambda>_. True)\<rparr>"

lemma example_env_ok: "env_ok example_env"
  by (auto simp: env_ok_def example_env_def sort_heap.std_heap_axioms strict_weak_order_def)

text \<open>Messages with a payload to actor 7 in group 5, and a request to stop the group.\<close>

definition example_addr :: address where
  "example_addr = \<lparr>addr_length = 16, addr_data = [0, 0, 0, 0, 2, 0, 5, 0, 0, 0, 1, 0, 7, 0, 0, 0] @ replicate 36 0\<rparr>"

definition example_message :: "nat \<Rightarrow> nat actor_message" where
  "example_message d = make_one_way_request_with_data example_addr 0 d 0 USER"

definition example_start :: "(nat, unit, nat list) shard" where
  "example_start = shard_new (pr_manager_new Unresolved id) []"


lemma example_ids:
  "child_id_at 4 example_addr = Inr 327682" "child_type_at 4 example_addr = Inr 2"
  "child_id_at 10 example_addr = Inr 458753" "child_type_at 10 example_addr = Inr 1"
  "addr_length example_addr = 16" "get_shard_id example_addr = Inr 0"
  by (simp_all add: child_id_at_def child_type_at_def example_addr_def load_unaligned_int_partial_def
      load_unaligned_int_def mem_load_def addr_consts get_shard_id_def)

lemma example_lengths: "total_addr_length [] = 4" "total_addr_length [c] = 10" "total_addr_length [c, d] = 16"
  by (simp_all add: total_addr_length_def addr_consts)

lemma example_env_sel:
  "factory example_env 1 = Inr (Actor_kind False)" "factory example_env 2 = Inr (Group_kind None)"
  "max_objs example_env = 100" "heap_make example_env = sort_heap_by" "heap_pop example_env = pop_sorted"
  "this_gsid example_env = 0"
  "do_work example_env p m log = (Work_done (Value False), [], [], log @ [payload_of m])"
  by (simp_all add: example_env_def)

lemma example_message_hdr: "msg_hdr (example_message d) = local_header example_addr 0 0 0 USER"
  by (simp add: example_message_def make_one_way_request_with_data_def make_with_payload_def)

lemma get_actor_local_7: "get_actor_local env addr 7 = get_actor_local env addr (Suc 6)"
  by simp

lemma run_and_dispose_8: "run_and_dispose 8 = run_and_dispose (Suc (Suc 6))"
  by simp

lemmas object_defs = get_obj_def set_obj_def get_group_def set_group_def get_actor_def set_actor_def
  get_children_def set_children_def set_activatable_def activatable_def

lemmas receive_defs = receive_def receive_actor_def create_child_def schedule_child_def deliver_to_def
  enque_message_def enque_urgent_message_def new_obj_def new_part_def children_new_def GMaxActiveChildNum_def
  push_task_def task_queue_new_def local_header_def

lemmas turn_defs = engine_run_def group_run_def group_mailbox.simps group_task_loop.simps actor_run_def
  run_ready_tasks.simps process_mailbox.simps process_message_def apply_user_def deque_message_def need_yield_def
  finish_actor_turn_def finish_group_turn_def tq_empty_def pop_task_def force_stopping_def stopping_def

lemmas example_facts = example_message_hdr example_ids example_lengths example_env_sel get_actor_local_7

text \<open>The shard after the first message, and after the turn that handles it.\<close>

definition example_shard :: "bool \<Rightarrow> nat list \<Rightarrow> (nat, unit, nat list) shard" where
  "example_shard busy log =
     \<lparr>objs = [[327682] \<mapsto>
        \<lparr>sched_status = (if busy then SCHEDULED else SCHEDULABLE), stop_status = RUNNING, mailbox = [],
         part = Group
           \<lparr>group_children = \<lparr>inst_map = [(458753, True)], num_managed = 1, sem_count = 9223372036854775806,
              sem_waiters = []\<rparr>,
            group_tasks = \<lparr>urgent_q = [], normal_q = (if busy then [458753] else []), comparator = None,
              need_scheduling = True\<rparr>,
            cancel_request_sid = - 1, cancel_request_pr_id = 0\<rparr>\<rparr>,
       [458753, 327682] \<mapsto>
        \<lparr>sched_status = (if busy then SCHEDULED else SCHEDULABLE), stop_status = RUNNING,
         mailbox = (if busy then [example_message 3] else []),
         part = Actor \<lparr>actor_tasks = [], max_concurrency = 1, cur_concurrency = 0\<rparr>\<rparr>],
      live_count = 2,
      root_children = \<lparr>inst_map = [(327682, True)], num_managed = 1, sem_count = 9223372036854775806, sem_waiters = []\<rparr>,
      root_stop = RUNNING, engine_q = (if busy then [327682] else []),
      response_prs = pr_manager_new Unresolved id, inbox = [], outbox = [], exits = 0, yields = [], user_state = log\<rparr>"

lemma example_receive: "receive example_env (example_message 3) example_start = Some (Inr (example_shard True []))"
  by (simp add: object_defs receive_defs example_facts example_start_def shard_new_def example_shard_def Let_def
      del: Suc_numeral)

lemma example_payload: "payload_of (example_message d) = d"
  by (simp add: payload_of_def example_message_def make_one_way_request_with_data_def make_with_payload_def)

lemma example_turn: "engine_run example_env (example_shard True []) = Some (Inr (example_shard False [3]))"
  by (simp add: object_defs turn_defs example_facts example_shard_def Let_def run_and_dispose_8
      local_header_def example_payload del: Suc_numeral) (simp add: fun_eq_iff)

lemma example_reachable: "reachable example_env (example_shard True [])" "reachable example_env (example_shard False [3])"
proof -
  show r: "reachable example_env (example_shard True [])"
    using reachable.message [OF reachable.start example_receive [unfolded example_start_def]] .
  show "reachable example_env (example_shard False [3])" using reachable.turn [OF r example_turn] .
qed

section \<open>Safety\<close>



text \<open>C27: A queue of the scheduler (the reactor's queue for the children of the root, the task queue of
  a group for its children) holds every child that is marked as scheduled exactly once, and holds
  nothing else: no child is scheduled twice and no deleted child is in a queue.\<close>

theorem scheduled_exactly_once:
  assumes "env_ok env" and "reachable env s"
  shows "count (queue_of s p) c = (case objs s (c # p) of
     Some a \<Rightarrow> if sched_status a = SCHEDULED then 1 else 0 | None \<Rightarrow> 0)"
proof -
  have "count (queue_of s p) c = (if waits {} s (c # p) then 1 else 0)"
    using reachable_ok [OF assms(2,1)] unfolding shard_ok_def sinv_def queue_ok_def by blast
  then show ?thesis by (simp add: waits_def split: option.split)
qed

theorem scheduled_exactly_once_witness:
  "count (queue_of (example_shard True []) [327682]) 458753 = 1"
  using scheduled_exactly_once [OF example_env_ok example_reachable(1), of "[327682]" 458753]
  by (simp add: example_shard_def)

text \<open>C8: No lost wake-up: when the reactor's queue is empty, no actor of the shard has a continuation
  that is ready, or a message it could start to handle under its concurrency limit, or is stopping
  with nothing left to wait for; and no group has a message, a scheduled child, or is stopping
  without children.\<close>

theorem idle_reactor_leaves_nothing_to_do:
  assumes "env_ok env" and "reachable env s" and "engine_q s = []" and "objs s p = Some a"
  shows "case part a of
     Actor k \<Rightarrow> actor_tasks k = [] \<and> (mailbox a = [] \<or> max_concurrency k \<le> cur_concurrency k) \<and>
                (stopping a \<longrightarrow> cur_concurrency k \<noteq> 0)
   | Group g \<Rightarrow> mailbox a = [] \<and> tq_empty (group_tasks g) \<and>
                (stopping a \<longrightarrow> num_managed (group_children g) \<noteq> 0)"
proof -
  note i = reachable_ok [OF assms(2,1)]
  have "sched_status a = SCHEDULABLE" by (rule idle_shard_sleeps [OF i assms(3,4)])
  moreover have "wake_ok a" using sinv_obj(2) [OF i [unfolded shard_ok_def] assms(4)] by simp
  ultimately show ?thesis by (simp add: wake_ok_def)
qed

theorem idle_reactor_leaves_nothing_to_do_witness:
  "\<exists>a k. objs (example_shard False [3]) [458753, 327682] = Some a \<and> part a = Actor k \<and> actor_tasks k = [] \<and>
    (mailbox a = [] \<or> max_concurrency k \<le> cur_concurrency k)"
proof -
  obtain a k where a: "objs (example_shard False [3]) [458753, 327682] = Some a" "part a = Actor k"
    by (simp add: example_shard_def)
  have "engine_q (example_shard False [3]) = []" by (simp add: example_shard_def)
  from idle_reactor_leaves_nothing_to_do [OF example_env_ok example_reachable(2) this a(1)] a show ?thesis by auto
qed

text \<open>C28: The books of a parent (a group or the root): its child count is the number of its children
  that exist, every non-null entry of its instance map points to a child that exists, every child has
  an entry, and the entry of a child that is stopping is null, so that no new message reaches it.\<close>

theorem parent_books_agree:
  assumes "env_ok env" and "reachable env s" and "children_of s p = Some ch"
  shows "unat (num_managed ch) = card (kids s p) \<and>
    (\<forall>c. map_of (inst_map ch) c = Some True \<longrightarrow> c \<in> kids s p) \<and>
    (\<forall>c a. objs s (c # p) = Some a \<longrightarrow> map_of (inst_map ch) c \<noteq> None \<and>
       (stopping a \<longrightarrow> map_of (inst_map ch) c = Some False))"
proof (intro conjI allI impI)
  note i = reachable_ok [OF assms(2,1), unfolded shard_ok_def]
  have "card (kids s p) < 4294967296"
    using card_kids_le [OF i, of p] i by (auto simp: sinv_def tree_ok_def)
  then show "unat (num_managed ch) = card (kids s p)"
    using sinv_kidsD(3) [OF i assms(3)] by (simp add: unat_of_nat_u32)
  show "c \<in> kids s p" if "map_of (inst_map ch) c = Some True" for c
    using sinv_kidsD(1) [OF i assms(3) map_of_SomeD [OF that]] .
  show e: "map_of (inst_map ch) c \<noteq> None" if "objs s (c # p) = Some a" for c a
    using sinv_kidsD(2) [OF i assms(3), of c] that by (simp add: kids_def)
  show "map_of (inst_map ch) c = Some False" if "objs s (c # p) = Some a" "stopping a" for c a
  proof -
    have "(c, True) \<notin> set (inst_map ch)" using that assms(3) i unfolding sinv_def entries_ok_def by blast
    then have "map_of (inst_map ch) c \<noteq> Some True" using map_of_SomeD by metis
    then show ?thesis using e [OF that(1)] by (cases "map_of (inst_map ch) c") auto
  qed
qed

theorem parent_books_agree_witness:
  "\<exists>ch. children_of (example_shard False [3]) [327682] = Some ch \<and> unat (num_managed ch) = card (kids (example_shard False [3]) [327682])"
proof -
  obtain ch where "children_of (example_shard False [3]) [327682] = Some ch"
    by (simp add: example_shard_def children_of_def)
  with parent_books_agree [OF example_env_ok example_reachable(2) this] show ?thesis by blast
qed

section \<open>A turn\<close>

lemma set_obj_twice [simp]: "set_obj p b (set_obj p a s) = set_obj p b s"
  by (simp add: set_obj_def)

lemma set_obj_user_state: "(set_obj p a s)\<lparr>user_state := u\<rparr> = set_obj p a (s\<lparr>user_state := u\<rparr>)"
  by (simp add: set_obj_def)

lemma set_obj_more_sel [simp]: "user_state (set_obj p a s) = user_state s" "yields (set_obj p a s) = yields s"
  "root_stop (set_obj p a s) = root_stop s"
  by (simp_all add: set_obj_def)

text \<open>Messages handled without blocking, whose handler neither sends messages nor asks to stop the
  actor: \<open>f\<close> is its effect on the user state.\<close>

definition plain_worker ::
    "('d, 'u, 's) actor_env \<Rightarrow> path \<Rightarrow> ('d actor_message \<Rightarrow> 's \<Rightarrow> 's) \<Rightarrow> bool" where
  "plain_worker env p f \<longleftrightarrow>
     (\<forall>m st. \<exists>r. r \<noteq> Value True \<and> do_work env p m st = (Work_done r, [], [], f m st))"

lemma process_mailbox_plain:
  assumes w: "plain_worker env p f"
  shows "objs s p = Some a \<Longrightarrow> mailbox a = ms \<Longrightarrow> \<forall>m \<in> set ms. m_type (msg_hdr m) = USER \<Longrightarrow> yields s = [] \<Longrightarrow>
    process_mailbox env p s = Some (Inr (set_obj p (a\<lparr>mailbox := []\<rparr>) (s\<lparr>user_state := fold f ms (user_state s)\<rparr>)))"
proof (induction ms arbitrary: a s)
  case Nil
  then have "set_obj p (a\<lparr>mailbox := []\<rparr>) s = s"
    by (cases s; cases a) (auto simp: set_obj_def)
  then show ?case using Nil by (subst process_mailbox.simps) (simp add: get_obj_def)
next
  case (Cons m ms)
  obtain r where r: "r \<noteq> Value True" "do_work env p m (user_state s) = (Work_done r, [], [], f m (user_state s))"
    using w unfolding plain_worker_def by blast
  let ?s1 = "set_obj p (a\<lparr>mailbox := ms\<rparr>) s"
  let ?s2 = "set_obj p (a\<lparr>mailbox := ms\<rparr>) (s\<lparr>user_state := f m (user_state s)\<rparr>)"
  have "process_message env p m ?s1 = Some (Inr (False, ?s2))"
    using r Cons.prems(3) by (cases r) (auto simp: process_message_def apply_user_def set_obj_user_state)
  moreover have "deque_message p s = Inr (m, ?s1)" using Cons.prems(1,2) by (simp add: deque_message_def get_obj_def)
  moreover have "need_yield ?s2 = (False, ?s2)" using Cons.prems(4) by (simp add: need_yield_def)
  moreover have "get_obj p s = Inr a" using Cons.prems(1) by (simp add: get_obj_def)
  ultimately have "process_mailbox env p s = process_mailbox env p ?s2"
    using Cons.prems(2) by (subst process_mailbox.simps) simp
  then show ?case using Cons.IH [of ?s2 "a\<lparr>mailbox := ms\<rparr>"] Cons.prems by (simp add: set_obj_user_state)
qed


definition example_mailbox :: "(nat, unit, nat list) shard" where
  "example_mailbox = (shard_new (pr_manager_new Unresolved id) [])\<lparr>engine_q := [7], objs := [[7] \<mapsto>
     \<lparr>sched_status = SCHEDULED, stop_status = RUNNING, mailbox = [example_message 1, example_message 2],
      part = Actor \<lparr>actor_tasks = [], max_concurrency = 1, cur_concurrency = 0\<rparr>\<rparr>]\<rparr>"


section \<open>Stopping\<close>


definition example_stop :: "(nat, unit, nat list) shard" where
  "example_stop = (shard_new (pr_manager_new Unresolved id) [])\<lparr>engine_q := [7], live_count := 1,
     root_children := children_new\<lparr>inst_map := [(7, True)], num_managed := 1\<rparr>, objs := [[7] \<mapsto>
     \<lparr>sched_status = SCHEDULED, stop_status = RUNNING, mailbox = [stop_message example_env True, example_message 2],
      part = Actor \<lparr>actor_tasks = [], max_concurrency = 1, cur_concurrency = 0\<rparr>\<rparr>]\<rparr>"


text \<open>C31: A request whose destination has stopped is answered: the shard that sent it gets an exception
  response for the promise of the request, and nothing else of the receiving shard changes.\<close>

theorem stopped_actor_answers_request:
  assumes "child_id_at 4 (hdr_addr (msg_hdr m)) = Inr c" and "addr_length (hdr_addr (msg_hdr m)) \<noteq> 4"
    and "map_of (inst_map (root_children s)) c = Some False" and "hdr_pr_id (msg_hdr m) \<noteq> 0"
    and "src_shard_id (msg_hdr m) \<noteq> this_gsid env" and "length (addr_junk env) = GMaxAddrLength"
  shows "\<exists>r. receive env m s = Some (Inr (s\<lparr>outbox := outbox s @ [r]\<rparr>)) \<and>
    m_type (msg_hdr r) = EXCEPTION_RESPONSE \<and> hdr_pr_id (msg_hdr r) = hdr_pr_id (msg_hdr m) \<and>
    get_shard_id (hdr_addr (msg_hdr r)) = Inr (src_shard_id (msg_hdr m))"
proof -
  obtain addr where addr: "response_address (addr_junk env) (src_shard_id (msg_hdr m)) = Inr addr"
    "get_shard_id addr = Inr (src_shard_id (msg_hdr m))"
    using assms(6)
    by (simp add: response_address_def set_data_def address_default_def mem_store_def get_shard_id_def
        load_unaligned_int_def mem_load_def addr_consts int_bytes_decode)
  then show ?thesis
    using assms(1-5)
    by (intro exI [of _ "With_payload (local_header addr 0 0 (hdr_pr_id (msg_hdr m)) EXCEPTION_RESPONSE) (canceled_text env)"])
      (simp add: receive_def receive_actor_def Let_def example_lengths stopped_actor_enqueue_def
        make_response_with_data_def send_response_def make_with_payload_def local_header_def)
qed

theorem stopped_actor_answers_request_witness:
  "\<exists>r. receive (example_env\<lparr>this_gsid := 3, addr_junk := replicate 52 0\<rparr>) (With_payload (local_header example_addr 0 1 9 USER) 4)
      (example_start\<lparr>root_children := children_new\<lparr>inst_map := [(327682, False)]\<rparr>\<rparr>) =
      Some (Inr ((example_start\<lparr>root_children := children_new\<lparr>inst_map := [(327682, False)]\<rparr>\<rparr>)
        \<lparr>outbox := outbox (example_start\<lparr>root_children := children_new\<lparr>inst_map := [(327682, False)]\<rparr>\<rparr>) @ [r]\<rparr>)) \<and>
    m_type (msg_hdr r) = EXCEPTION_RESPONSE \<and>
    hdr_pr_id (msg_hdr r) = hdr_pr_id (msg_hdr (With_payload (local_header example_addr 0 1 9 USER) (4 :: nat))) \<and>
    get_shard_id (hdr_addr (msg_hdr r)) = Inr (src_shard_id (msg_hdr (With_payload (local_header example_addr 0 1 9 USER) (4 :: nat))))"
  by (rule stopped_actor_answers_request) (simp_all add: local_header_def example_ids addr_consts)

section \<open>Responses\<close>

text \<open>An exception response that arrived over the network is not an object of the type the root
  takes it for: the handler reads the string of a message with an in-memory string payload out of a
  message that holds serialised payloads.\<close>

theorem network_exception_response_type_confusion:
  assumes "is_active (hdr_pr_id h) (response_prs s) = Inr True" and "m_type h = EXCEPTION_RESPONSE"
    and "addr_length (hdr_addr h) = 4"
  shows "receive env (From_network h q) s = Some (Inl Bad_cast)"
  using assms by (simp add: receive_def receive_response_def message_type_defs example_lengths Let_def)

section \<open>The concurrency limit\<close>

text \<open>The concurrency limit is compared with \<open>==\<close>: an actor whose limit was lowered below the number
  of messages it has in progress is not held back, it starts one more message in every turn.\<close>

theorem lowered_limit_not_enforced:
  assumes "get_actor [c] s0 = Inr k0" and "set_max_concurrency [c] n s0 = Inr s" and "0 < n"
    and "n < cur_concurrency k0" and "actor_tasks k0 = []" and "objs s0 [c] = Some a" and "mailbox a = [m]"
    and "m_type (msg_hdr m) = USER" and "do_work env [c] m (user_state s0) = (Work_pending, [], [], st)"
    and "\<not> stopping a" and "yields s0 = []" and "cur_concurrency k0 + 1 \<noteq> 0"
  shows "\<exists>s'. actor_run env [c] s = Some (Inr s') \<and>
    get_actor [c] s' = Inr (k0\<lparr>max_concurrency := n, cur_concurrency := cur_concurrency k0 + 1\<rparr>)"
proof -
  let ?k = "k0\<lparr>max_concurrency := n\<rparr>" and ?k1 = "k0\<lparr>max_concurrency := n, cur_concurrency := cur_concurrency k0 + 1\<rparr>"
  let ?s1 = "set_obj [c] (a\<lparr>mailbox := [], part := Actor ?k\<rparr>) s0"
  let ?s2 = "set_obj [c] (a\<lparr>mailbox := [], part := Actor ?k1\<rparr>) (s0\<lparr>user_state := st\<rparr>)"
  have lim: "n \<noteq> cur_concurrency k0" "n \<noteq> cur_concurrency k0 + 1"
    using assms(4,12) unatSuc [of "cur_concurrency k0"] by (auto simp: word_less_nat_alt add.commute)
  have k0: "part a = Actor k0" using assms(1,6) by (auto simp: get_actor_def get_obj_def split: part.splits)
  have s: "s = set_obj [c] (a\<lparr>part := Actor ?k\<rparr>) s0"
    using assms(1-3,6) by (simp add: set_max_concurrency_def set_actor_def get_obj_def)
  have t: "run_ready_tasks env [c] s = Some (Inr (False, s))"
    using assms(5) by (subst run_ready_tasks.simps) (simp add: get_actor_def get_obj_def s)
  have "process_message env [c] m ?s1 = Some (Inr (False, ?s2))"
    using assms(8,9) lim
    by (simp add: process_message_def apply_user_def get_actor_def set_actor_def get_obj_def set_obj_user_state)
  moreover have "deque_message [c] s = Inr (m, ?s1)" using assms(7) by (cases a) (simp add: deque_message_def get_obj_def s)
  moreover have "need_yield ?s2 = (False, ?s2)" using assms(11) by (simp add: need_yield_def)
  moreover have "process_mailbox env [c] ?s2 = Some (Inr ?s2)"
    by (subst process_mailbox.simps) (simp add: get_obj_def)
  ultimately have m: "process_mailbox env [c] s = Some (Inr ?s2)"
    using assms(7) by (subst process_mailbox.simps) (simp add: get_obj_def s)
  have "actor_run env [c] s = Some (finish_actor_turn [c] ?s2)"
    using t m lim assms(10) by (simp add: actor_run_def get_obj_def get_actor_def set_actor_def stopping_def force_stopping_def s)
  moreover have "finish_actor_turn [c] ?s2 =
      Inr (set_obj [c] (a\<lparr>mailbox := [], part := Actor ?k1, sched_status := SCHEDULABLE\<rparr>) (s0\<lparr>user_state := st\<rparr>))"
    using assms(5,10) by (simp add: finish_actor_turn_def get_obj_def get_actor_def set_activatable_def stopping_def)
  ultimately show ?thesis by (simp add: get_actor_def get_obj_def)
qed

definition example_blocked :: "(nat, unit, nat list) shard" where
  "example_blocked = (shard_new (pr_manager_new Unresolved id) [])\<lparr>objs := [[7] \<mapsto>
     \<lparr>sched_status = SCHEDULED, stop_status = RUNNING, mailbox = [example_message 2],
      part = Actor \<lparr>actor_tasks = [], max_concurrency = 8, cur_concurrency = 5\<rparr>\<rparr>]\<rparr>"

theorem lowered_limit_not_enforced_witness:
  "\<exists>s s'. set_max_concurrency [7] 2 example_blocked = Inr s \<and>
    actor_run (example_env\<lparr>do_work := \<lambda>p m log. (Work_pending, [], [], log)\<rparr>) [7] s = Some (Inr s') \<and>
    get_actor [7] s' = Inr \<lparr>actor_tasks = [], max_concurrency = 2, cur_concurrency = 6\<rparr>"
proof -
  obtain s where s: "set_max_concurrency [7] 2 example_blocked = Inr s"
    by (simp add: set_max_concurrency_def example_blocked_def get_actor_def set_actor_def get_obj_def)
  have "\<exists>s'. actor_run (example_env\<lparr>do_work := \<lambda>p m log. (Work_pending, [], [], log)\<rparr>) [7] s = Some (Inr s') \<and>
    get_actor [7] s' = Inr (\<lparr>actor_tasks = [], max_concurrency = 8, cur_concurrency = 5\<rparr>
      \<lparr>max_concurrency := 2, cur_concurrency := cur_concurrency \<lparr>actor_tasks = [] :: unit task list, max_concurrency = 8, cur_concurrency = 5\<rparr> + 1\<rparr>)"
    by (rule lowered_limit_not_enforced [OF _ s, where st = "[]" and m = "example_message 2" and
          a = "\<lparr>sched_status = SCHEDULED, stop_status = RUNNING, mailbox = [example_message 2],
            part = Actor \<lparr>actor_tasks = [], max_concurrency = 8, cur_concurrency = 5\<rparr>\<rparr>"])
      (simp_all add: example_blocked_def shard_new_def get_actor_def get_obj_def example_message_hdr local_header_def stopping_def)
  then show ?thesis using s by auto
qed

theorem network_exception_response_type_confusion_witness:
  "receive example_env (From_network (local_header \<lparr>addr_length = 4, addr_data = replicate 52 0\<rparr> 0 1 1 EXCEPTION_RESPONSE) (sq_init empty_heap))
     (shard_new \<lparr>pr_array = [pr_node_new Unresolved, pr_node_new Unresolved], available = 0\<rparr> []) = Some (Inl Bad_cast)"
  by (rule network_exception_response_type_confusion) (simp_all add: local_header_def shard_new_def is_active_def get_node_def pr_node_new_def)

end
