(* ===== verification/Actor_Client.thy ===== *)
theory Actor_Client
  imports Actor_System
begin

text \<open>
  Requests and their responses (\<open>core/actor_client.hh\<close>, \<open>root_actor_group::cancel_scope_request\<close>): a
  request takes an id of the promise table, sends a message that carries the id and the shard to
  answer, and waits for its promise; the continuation gives the id back and unpacks the response.
  The last part composes the client with the root of its shard and with whoever answers: whatever
  the order in which requests are issued, responses arrive and continuations run, every request
  gets the response to its own message.

  The future of a request is the promise in its table entry. \<open>send\<close> of the root reports a failure
  through a future of its own; whether it failed is an argument of the continuation. The type
  \<open>retT\<close> of a request is a predicate on payloads, its \<open>load_from\<close> a parameter.
\<close>

section \<open>The client\<close>

definition client_send ::
    "('d, 'u, 's) actor_env \<Rightarrow> address \<Rightarrow> byte \<Rightarrow> message_type \<Rightarrow> ('d, 'u, 's) shard \<Rightarrow> ('d, 'u, 's) shard res option" where
  "client_send env addr behv_tid mt s =
     send env (make_one_way_request_message addr behv_tid (this_gsid env) mt) s"

definition client_send_data ::
    "('d, 'u, 's) actor_env \<Rightarrow> address \<Rightarrow> byte \<Rightarrow> 'd \<Rightarrow> message_type \<Rightarrow> ('d, 'u, 's) shard \<Rightarrow>
     ('d, 'u, 's) shard res option" where
  "client_send_data env addr behv_tid data mt s =
     send env (make_one_way_request_with_data addr behv_tid data (this_gsid env) mt) s"

text \<open>What the three kinds of request share: an id, a message made with it, and sending it. The
  result is the id the continuation waits for.\<close>

definition send_request ::
    "('d, 'u, 's) actor_env \<Rightarrow> (u32 \<Rightarrow> 'd actor_message res) \<Rightarrow> ('d, 'u, 's) shard \<Rightarrow>
     (u32 \<times> ('d, 'u, 's) shard) res option" where
  "send_request env make_msg s =
     bind_run (Some (acquire_pr Unresolved (response_prs s))) (\<lambda>(pr_id, prs).
     bind_run (Some (make_msg pr_id)) (\<lambda>m.
     bind_run (send env m (s\<lparr>response_prs := prs\<rparr>)) (\<lambda>s1. Some (Inr (pr_id, s1)))))"

definition request ::
    "('d, 'u, 's) actor_env \<Rightarrow> address \<Rightarrow> byte \<Rightarrow> message_type \<Rightarrow> ('d, 'u, 's) shard \<Rightarrow>
     (u32 \<times> ('d, 'u, 's) shard) res option" where
  "request env addr behv_tid mt s =
     send_request env (\<lambda>pr_id. Inr (make_request_message addr behv_tid (this_gsid env) pr_id mt)) s"

definition request_data ::
    "('d, 'u, 's) actor_env \<Rightarrow> address \<Rightarrow> byte \<Rightarrow> 'd \<Rightarrow> message_type \<Rightarrow> ('d, 'u, 's) shard \<Rightarrow>
     (u32 \<times> ('d, 'u, 's) shard) res option" where
  "request_data env addr behv_tid data mt s =
     send_request env (\<lambda>pr_id. Inr (make_request_with_data addr behv_tid data (this_gsid env) pr_id mt)) s"

datatype 'd reply = Reply 'd | Done | Send_failed | Reply_failed

text \<open>The response is taken for a message with a payload of type \<open>retT\<close>, or for one from the
  network when its header says so.\<close>

definition reply_data :: "(sq_state \<Rightarrow> 'd res) \<Rightarrow> ('d \<Rightarrow> bool) \<Rightarrow> 'd actor_message \<Rightarrow> 'd res" where
  "reply_data load_from is_ret m =
     (if \<not> from_network (msg_hdr m)
      then (case m of With_payload h d \<Rightarrow> if is_ret d then Inr d else Inl Bad_cast | _ \<Rightarrow> Inl Bad_cast)
      else (case m of From_network h q \<Rightarrow> load_from q | _ \<Rightarrow> Inl Bad_cast))"

text \<open>The continuation of \<open>when_all\<close>; \<open>None\<close> while the response has not arrived.\<close>

definition when_response ::
    "('d actor_message \<Rightarrow> 'd reply res) \<Rightarrow> bool \<Rightarrow> u32 \<Rightarrow> ('d, 'u, 's) shard \<Rightarrow>
     ('d reply \<times> ('d, 'u, 's) shard) option res" where
  "when_response unpack send_failed pr_id s =
     bind_res (get_future pr_id (response_prs s)) (\<lambda>res_fut.
       if res_fut = Unresolved then Inr None
       else bind_res (remove_pr pr_id (response_prs s)) (\<lambda>prs.
         let s1 = s\<lparr>response_prs := prs\<rparr>
         in if send_failed then Inr (Some (Send_failed, s1))
            else (case res_fut of
                Resolved res_msg \<Rightarrow> bind_res (unpack res_msg) (\<lambda>r. Inr (Some (r, s1)))
              | _ \<Rightarrow> Inr (Some (Reply_failed, s1)))))"

definition send_and_wait ::
    "(sq_state \<Rightarrow> 'd res) \<Rightarrow> ('d \<Rightarrow> bool) \<Rightarrow> bool \<Rightarrow> u32 \<Rightarrow> ('d, 'u, 's) shard \<Rightarrow>
     ('d reply \<times> ('d, 'u, 's) shard) option res" where
  "send_and_wait load_from is_ret =
     when_response (\<lambda>m. bind_res (reply_data load_from is_ret m) (\<lambda>d. Inr (Reply d)))"

section \<open>Cancelling a scope with an answer\<close>

definition cancel_shard_request ::
    "('d, 'u, 's) actor_env \<Rightarrow> address \<Rightarrow> bool \<Rightarrow> u32 \<Rightarrow> ('d, 'u, 's) shard \<Rightarrow>
     (u32 \<times> ('d, 'u, 's) shard) res option" where
  "cancel_shard_request env scope force dst_sid s =
     bind_run (Some (set_data 0 (int_bytes dst_sid) scope)) (\<lambda>dst_addr.
       send_request env
         (\<lambda>pr_id. Inr (make_request_message dst_addr 0 (this_gsid env) pr_id (if force then FORCE_STOP else PEACE_STOP))) s)"

text \<open>\<open>parallel_for_each\<close> starts the request of every shard before it waits for any.\<close>

fun cancel_scope_request ::
    "('d, 'u, 's) actor_env \<Rightarrow> address \<Rightarrow> bool \<Rightarrow> u32 list \<Rightarrow> ('d, 'u, 's) shard \<Rightarrow>
     (u32 list \<times> ('d, 'u, 's) shard) res option" where
  "cancel_scope_request env scope force [] s = Some (Inr ([], s))"
| "cancel_scope_request env scope force (sid # sids) s =
     bind_run (cancel_shard_request env scope force sid s) (\<lambda>(i, s1).
     bind_run (cancel_scope_request env scope force sids s1) (\<lambda>(is, s2). Some (Inr (i # is, s2))))"

definition cancel_answered ::
    "bool \<Rightarrow> u32 \<Rightarrow> ('d, 'u, 's) shard \<Rightarrow> ('d reply \<times> ('d, 'u, 's) shard) option res" where
  "cancel_answered = when_response (\<lambda>m. Inr Done)"

section \<open>Requests, answers and continuations together\<close>

datatype 'd call = Call address byte message_type | Call_data address byte 'd message_type | Cancel address bool u32

datatype 'd answer = Data 'd | Void | Exception

fun issue_call ::
    "('d, 'u, 's) actor_env \<Rightarrow> 'd call \<Rightarrow> ('d, 'u, 's) shard \<Rightarrow> (u32 \<times> ('d, 'u, 's) shard) res option" where
  "issue_call env (Call addr tid mt) s = request env addr tid mt s"
| "issue_call env (Call_data addr tid d mt) s = request_data env addr tid d mt s"
| "issue_call env (Cancel scope force sid) s = cancel_shard_request env scope force sid s"

fun complete_call ::
    "(sq_state \<Rightarrow> 'd res) \<Rightarrow> ('d \<Rightarrow> bool) \<Rightarrow> 'd call \<Rightarrow> u32 \<Rightarrow> ('d, 'u, 's) shard \<Rightarrow>
     ('d reply \<times> ('d, 'u, 's) shard) option res" where
  "complete_call load_from is_ret (Cancel scope force sid) i s = cancel_answered False i s"
| "complete_call load_from is_ret c i s = send_and_wait load_from is_ret False i s"

fun call_shard :: "'d call \<Rightarrow> u32 res" where
  "call_shard (Call addr tid mt) = get_shard_id addr"
| "call_shard (Call_data addr tid d mt) = get_shard_id addr"
| "call_shard (Cancel scope force sid) = bind_res (set_data 0 (int_bytes sid) scope) get_shard_id"

text \<open>A response is made from the header of the request it answers; a stop request is answered
  without a payload. On the way it may cross the network, where the payload becomes a queue of
  buffers from which \<open>load_from\<close> reads it back.\<close>

definition response_to :: "('d, 'u, 's) actor_env \<Rightarrow> 'd answer \<Rightarrow> 'd actor_message \<Rightarrow> 'd actor_message res" where
  "response_to env a m =
     (let sid = src_shard_id (msg_hdr m); i = hdr_pr_id (msg_hdr m)
      in case a of
           Data d \<Rightarrow> make_response_with_data (addr_junk env) sid d i RESPONSE
         | Void \<Rightarrow> make_response_message (addr_junk env) sid i RESPONSE
         | Exception \<Rightarrow> make_response_with_data (addr_junk env) sid (canceled_text env) i EXCEPTION_RESPONSE)"

inductive transported :: "(sq_state \<Rightarrow> 'd res) \<Rightarrow> 'd actor_message \<Rightarrow> 'd actor_message \<Rightarrow> bool" for load_from where
  local: "transported load_from m m"
| network: "m_type h = RESPONSE \<Longrightarrow> load_from q = Inr d \<Longrightarrow>
    transported load_from (With_payload h d) (From_network (h\<lparr>from_network := True\<rparr>) q)"

fun expected_reply :: "'d answer \<Rightarrow> 'd reply" where
  "expected_reply (Data d) = Reply d"
| "expected_reply Void = Done"
| "expected_reply Exception = Reply_failed"

fun answer_fits :: "('d \<Rightarrow> bool) \<Rightarrow> 'd call \<Rightarrow> 'd answer \<Rightarrow> bool" where
  "answer_fits is_ret c Exception = True"
| "answer_fits is_ret (Cancel scope force sid) a = (a = Void)"
| "answer_fits is_ret c (Data d) = is_ret d"
| "answer_fits is_ret c Void = False"

record ('d, 'u, 's) client_world =
  w_shard :: "('d, 'u, 's) shard"
  waiting :: "(nat \<times> u32) list"
  in_flight :: "(nat \<times> 'd actor_message) list"
  replies :: "(nat \<times> 'd reply) list"
  issued :: nat

text \<open>Request number \<open>n\<close> is \<open>calls n\<close> and is answered \<open>ans n\<close>. It goes to another shard; at most
  2^32 - 1 requests are outstanding at a time. Everything else the shard does that leaves the
  promise table alone may happen at any moment.\<close>

inductive client_step ::
    "('d, 'u, 's) actor_env \<Rightarrow> (sq_state \<Rightarrow> 'd res) \<Rightarrow> ('d \<Rightarrow> bool) \<Rightarrow> (nat \<Rightarrow> 'd call) \<Rightarrow> (nat \<Rightarrow> 'd answer) \<Rightarrow>
     ('d, 'u, 's) client_world \<Rightarrow> ('d, 'u, 's) client_world \<Rightarrow> bool"
  for env load_from is_ret calls ans where
  issue: "call_shard (calls (issued w)) = Inr sid \<Longrightarrow> sid \<noteq> this_gsid env \<Longrightarrow> length (waiting w) < 4294967295 \<Longrightarrow>
    issue_call env (calls (issued w)) (w_shard w) = Some (Inr (i, s)) \<Longrightarrow> outbox s = outbox (w_shard w) @ [m] \<Longrightarrow>
    client_step env load_from is_ret calls ans w
      (w\<lparr>w_shard := s, waiting := waiting w @ [(issued w, i)], in_flight := in_flight w @ [(issued w, m)],
         issued := Suc (issued w)\<rparr>)"
| answer: "in_flight w = fs @ (n, m) # gs \<Longrightarrow> response_to env (ans n) m = Inr r \<Longrightarrow> transported load_from r r' \<Longrightarrow>
    receive env r' (w_shard w) = Some (Inr s) \<Longrightarrow>
    client_step env load_from is_ret calls ans w (w\<lparr>w_shard := s, in_flight := fs @ gs\<rparr>)"
| complete: "waiting w = us @ (n, i) # vs \<Longrightarrow>
    complete_call load_from is_ret (calls n) i (w_shard w) = Inr (Some (r, s)) \<Longrightarrow>
    client_step env load_from is_ret calls ans w
      (w\<lparr>w_shard := s, waiting := us @ vs, replies := replies w @ [(n, r)]\<rparr>)"
| other: "response_prs s = response_prs (w_shard w) \<Longrightarrow>
    client_step env load_from is_ret calls ans w (w\<lparr>w_shard := s\<rparr>)"

definition client_start :: "('d, 'u, 's) shard \<Rightarrow> ('d, 'u, 's) client_world" where
  "client_start s = \<lparr>w_shard = s, waiting = [], in_flight = [], replies = [], issued = 0\<rparr>"

section \<open>What a request sends and what its answer does\<close>

lemma send_request_remote:
  assumes "get_shard_id (hdr_addr (msg_hdr (mk i))) = Inr sid" and "sid \<noteq> this_gsid env"
    and "acquire_pr Unresolved (response_prs s) = Inr (i, prs)"
    and "hdr_pr_id (msg_hdr (mk i)) = i" and "src_shard_id (msg_hdr (mk i)) = this_gsid env"
  shows "\<exists>m. send_request env (\<lambda>i. Inr (mk i)) s = Some (Inr (i, s\<lparr>response_prs := prs, outbox := outbox s @ [m]\<rparr>)) \<and>
    hdr_pr_id (msg_hdr m) = i \<and> src_shard_id (msg_hdr m) = this_gsid env"
  using assms by (intro exI [of _ "mk i"]) (simp add: send_request_def send_def)

lemmas request_message_defs = make_request_message_def make_request_with_data_def make_with_payload_def
  make_without_payload_def local_header_def

lemma issue_call_remote:
  assumes "call_shard c = Inr sid" and "sid \<noteq> this_gsid env" and "acquire_pr Unresolved (response_prs s) = Inr (i, prs)"
  shows "\<exists>m. issue_call env c s = Some (Inr (i, s\<lparr>response_prs := prs, outbox := outbox s @ [m]\<rparr>)) \<and>
    hdr_pr_id (msg_hdr m) = i \<and> src_shard_id (msg_hdr m) = this_gsid env"
proof (cases c)
  case (Call addr tid mt)
  with assms(1) show ?thesis unfolding Call issue_call.simps request_def
    by (intro send_request_remote [OF _ assms(2,3)]) (simp_all add: request_message_defs)
next
  case (Call_data addr tid d mt)
  with assms(1) show ?thesis unfolding Call_data issue_call.simps request_data_def
    by (intro send_request_remote [OF _ assms(2,3)]) (simp_all add: request_message_defs)
next
  case (Cancel scope force dst)
  then obtain a where a: "set_data 0 (int_bytes dst) scope = Inr a" "get_shard_id a = Inr sid"
    using assms(1) by (auto simp: bind_res_Inr_iff)
  show ?thesis unfolding Cancel issue_call.simps cancel_shard_request_def a(1) bind_run_simps
    by (intro send_request_remote [OF _ assms(2,3)]) (simp_all add: request_message_defs a(2))
qed

text \<open>The state of the promise once the answer has arrived.\<close>

fun answered :: "(sq_state \<Rightarrow> 'd res) \<Rightarrow> ('d \<Rightarrow> bool) \<Rightarrow> 'd answer \<Rightarrow> 'd actor_message promise \<Rightarrow> bool" where
  "answered load_from is_ret a (Resolved m) =
     (case a of Data d \<Rightarrow> reply_data load_from is_ret m = Inr d | Void \<Rightarrow> True | Exception \<Rightarrow> False)"
| "answered load_from is_ret a Broken = (a = Exception)"
| "answered load_from is_ret a Unresolved = False"

lemma response_address_root:
  assumes "GMaxAddrLength \<le> length junk"
  obtains addr where "response_address junk sid = Inr addr" and "addr_length addr = total_addr_length []"
  using assms by (simp add: response_address_def set_data_def address_default_def mem_store_def addr_consts total_addr_length_def)

lemma is_active_True: "i \<in> active_ids prs \<Longrightarrow> is_active i prs = Inr True"
  by (simp add: is_active_def get_node_def active_ids_def)

lemma receive_answer:
  assumes "response_to env a m = Inr r" and "transported load_from r r'" and "answer_fits is_ret c a"
    and "as_string env (canceled_text env)" and "hdr_pr_id (msg_hdr m) \<in> active_ids (response_prs s)"
    and "GMaxAddrLength \<le> length (addr_junk env)"
  shows "\<exists>v prs. set_pr (hdr_pr_id (msg_hdr m)) (\<lambda>_. v) (response_prs s) = Inr prs \<and>
    receive env r' s = Some (Inr (s\<lparr>response_prs := prs\<rparr>)) \<and> answered load_from is_ret a v"
proof -
  let ?i = "hdr_pr_id (msg_hdr m)"
  obtain addr where addr: "response_address (addr_junk env) (src_shard_id (msg_hdr m)) = Inr addr"
    "addr_length addr = total_addr_length []" by (rule response_address_root [OF assms(6)])
  have s: "\<exists>prs. set_pr ?i f (response_prs s) = Inr prs" for f using set_pr_ok [OF assms(5)] by blast
  have act: "is_active ?i (response_prs s) = Inr True" by (rule is_active_True [OF assms(5)])
  note defs = response_to_def Let_def make_response_with_data_def make_response_message_def make_with_payload_def
    make_without_payload_def local_header_def addr receive_def receive_response_def act reply_data_def message_type_defs
  show ?thesis
  proof (cases a)
    case (Data d)
    with assms(3) have "is_ret d" by (cases c) auto
    obtain prs where prs: "set_pr ?i (\<lambda>_. Resolved r') (response_prs s) = Inr prs" using s by blast
    from assms(2) have "receive env r' s = Some (Inr (s\<lparr>response_prs := prs\<rparr>)) \<and> answered load_from is_ret a (Resolved r')"
    proof cases
      case local
      with assms(1) Data \<open>is_ret d\<close> prs show ?thesis by (auto simp: defs)
    next
      case (network h q d')
      with assms(1) Data prs show ?thesis by (auto simp: defs)
    qed
    with prs show ?thesis by blast
  next
    case Void
    obtain prs where prs: "set_pr ?i (\<lambda>_. Resolved r') (response_prs s) = Inr prs" using s by blast
    have "r' = r" using assms(1,2) Void by (auto simp: defs elim: transported.cases)
    with assms(1) Void prs have "receive env r' s = Some (Inr (s\<lparr>response_prs := prs\<rparr>))" by (auto simp: defs)
    with prs Void show ?thesis by (intro exI [of _ "Resolved r'"] exI [of _ prs]) simp
  next
    case Exception
    obtain prs where prs: "set_pr ?i (\<lambda>_. Broken) (response_prs s) = Inr prs" using s by blast
    have "r' = r" using assms(1,2) Exception by (auto simp: defs elim: transported.cases)
    with assms(1,4) Exception prs have "receive env r' s = Some (Inr (s\<lparr>response_prs := prs\<rparr>))" by (auto simp: defs)
    with prs Exception show ?thesis by (intro exI [of _ Broken] exI [of _ prs]) simp
  qed
qed

lemma complete_call_answered:
  assumes "get_future i (response_prs s) = Inr v" and "answered load_from is_ret a v" and "answer_fits is_ret c a"
    and "remove_pr i (response_prs s) = Inr prs"
  shows "complete_call load_from is_ret c i s = Inr (Some (expected_reply a, s\<lparr>response_prs := prs\<rparr>))"
  using assms by (cases v; cases c; cases a)
    (simp_all add: cancel_answered_def send_and_wait_def when_response_def)

lemma complete_call_pending:
  "get_future i (response_prs s) = Inr Unresolved \<Longrightarrow> complete_call load_from is_ret c i s = Inr None"
  by (cases c) (simp_all add: cancel_answered_def send_and_wait_def when_response_def)

section \<open>The invariant\<close>

text \<open>The books of the requests: every number handed out is waiting or replied, exactly once, and a
  message in flight belongs to a waiting request and carries its id.\<close>

definition books :: "u32 \<Rightarrow> (nat \<times> u32) list \<Rightarrow> (nat \<times> 'd actor_message) list \<Rightarrow> (nat \<times> 'd reply) list \<Rightarrow> nat \<Rightarrow> bool" where
  "books gsid ws fs rs n \<longleftrightarrow> distinct (map fst fs) \<and> distinct (map fst ws @ map fst rs) \<and>
     set (map fst ws @ map fst rs) = {..<n} \<and>
     (\<forall>k m. (k, m) \<in> set fs \<longrightarrow> (k, hdr_pr_id (msg_hdr m)) \<in> set ws \<and> src_shard_id (msg_hdr m) = gsid)"

text \<open>The promises of the waiting requests: unresolved while the message is in flight.\<close>

definition prom_ok ::
    "(nat \<Rightarrow> 'd actor_message promise \<Rightarrow> bool) \<Rightarrow> nat set \<Rightarrow> nat \<times> u32 \<Rightarrow> 'd actor_message promise pr_manager \<Rightarrow> bool" where
  "prom_ok done F e prs \<longleftrightarrow>
     (\<exists>v. get_future (snd e) prs = Inr v \<and> (if fst e \<in> F then v = Unresolved else done (fst e) v))"

definition promises ::
    "(nat \<Rightarrow> 'd actor_message promise \<Rightarrow> bool) \<Rightarrow> 'd actor_message promise pr_manager \<Rightarrow> (nat \<times> u32) list \<Rightarrow> nat set \<Rightarrow> bool" where
  "promises done prs ws F \<longleftrightarrow> pr_room 0 prs \<and> distinct (map snd ws) \<and> set (map snd ws) = active_ids prs \<and>
     (\<forall>e \<in> set ws. prom_ok done F e prs)"

lemma promisesD:
  assumes "promises done prs ws F"
  shows "pr_room 0 prs" "distinct (map snd ws)" "active_ids prs = snd ` set ws" "\<And>e. e \<in> set ws \<Longrightarrow> prom_ok done F e prs"
  using assms by (auto simp: promises_def)

lemma promises_issue:
  assumes "promises done prs ws F" and "length ws < 4294967295" and "n \<notin> fst ` set ws"
  shows "\<exists>i prs'. acquire_pr Unresolved prs = Inr (i, prs') \<and> promises done prs' (ws @ [(n, i)]) (insert n F)"
proof -
  note p = promisesD [OF assms(1)]
  have "card (active_ids prs) = length ws" using distinct_card [OF p(2)] p(3) by simp
  then have "pr_room (Suc 0) prs" using p(1) assms(2) by (simp add: pr_room_def)
  from pool.acq_law [OF this, of Unresolved] obtain i prs' where a: "acquire_pr Unresolved prs = Inr (i, prs')"
    "pr_room 0 prs'" "i \<notin> active_ids prs" "active_ids prs' = insert i (active_ids prs)" "get_future i prs' = Inr Unresolved"
    "\<forall>j \<in> active_ids prs. get_future j prs' = get_future j prs" by blast
  have "prom_ok done (insert n F) e prs'" if "e \<in> set ws" for e
  proof -
    have "get_future (snd e) prs' = get_future (snd e) prs" using a(6) p(3) that by blast
    moreover have "fst e \<noteq> n" using that assms(3) by blast
    ultimately show ?thesis using p(4) [OF that] by (simp add: prom_ok_def)
  qed
  moreover have "prom_ok done (insert n F) (n, i) prs'" using a(5) by (simp add: prom_ok_def)
  ultimately have "promises done prs' (ws @ [(n, i)]) (insert n F)"
    using a(2-4) p(2,3) by (auto simp: promises_def)
  with a(1) show ?thesis by blast
qed

lemma distinct_pairs:
  assumes "distinct (map f xs)" and "x \<in> set xs" and "y \<in> set xs" and "x \<noteq> y"
  shows "f x \<noteq> f y"
  using assms by (auto simp: distinct_map inj_on_def)

lemma promises_answer:
  assumes "promises done prs ws F" and "(n, i) \<in> set ws" and "distinct (map fst ws)" and "done n v"
    and "set_pr i (\<lambda>_. v) prs = Inr prs'"
  shows "promises done prs' ws (F - {n})"
proof -
  note p = promisesD [OF assms(1)]
  have "i \<in> active_ids prs" using p(3) assms(2) by force
  moreover obtain u where "get_future i prs = Inr u" using p(4) [OF assms(2)] by (auto simp: prom_ok_def)
  ultimately have s: "pr_room 0 prs'" "active_ids prs' = active_ids prs" "get_future i prs' = Inr v"
    "\<forall>j \<in> active_ids prs - {i}. get_future j prs' = get_future j prs"
    using pool.put_law [OF p(1), of i u "\<lambda>_. v"] assms(5) by auto
  have "prom_ok done (F - {n}) e prs'" if e: "e \<in> set ws" for e
  proof (cases "e = (n, i)")
    case True
    then show ?thesis using s(3) assms(4) by (simp add: prom_ok_def)
  next
    case False
    from distinct_pairs [OF p(2) e assms(2) False] distinct_pairs [OF assms(3) e assms(2) False]
    have "snd e \<noteq> i" "fst e \<noteq> n" by simp_all
    moreover have "get_future (snd e) prs' = get_future (snd e) prs"
      using s(4) p(3) e \<open>snd e \<noteq> i\<close> by blast
    ultimately show ?thesis using p(4) [OF e] by (simp add: prom_ok_def)
  qed
  with s(1,2) p(2,3) show ?thesis by (auto simp: promises_def)
qed

lemma promises_complete:
  assumes "promises done prs (us @ (n, i) # vs) F"
  shows "\<exists>prs'. remove_pr i prs = Inr prs' \<and> promises done prs' (us @ vs) F"
proof -
  note p = promisesD [OF assms]
  have "i \<in> active_ids prs" using p(3) by simp
  from pool.rel_law [OF p(1) this] obtain prs' where r: "remove_pr i prs = Inr prs'" "pr_room 0 prs'"
    "active_ids prs' = active_ids prs - {i}" "\<forall>j \<in> active_ids prs - {i}. get_future j prs' = get_future j prs" by blast
  have i: "i \<notin> snd ` set (us @ vs)" using p(2) by auto
  have "prom_ok done F e prs'" if e: "e \<in> set (us @ vs)" for e
  proof -
    have "snd e \<noteq> i" using i e by blast
    moreover have "snd e \<in> active_ids prs" using p(3) e by auto
    ultimately have "get_future (snd e) prs' = get_future (snd e) prs" using r(4) by blast
    moreover have "prom_ok done F e prs" using p(4) e by simp
    ultimately show ?thesis by (simp add: prom_ok_def)
  qed
  with r i p(2,3) have "promises done prs' (us @ vs) F" by (auto simp: promises_def)
  with r(1) show ?thesis by blast
qed

definition client_inv ::
    "('d, 'u, 's) actor_env \<Rightarrow> (sq_state \<Rightarrow> 'd res) \<Rightarrow> ('d \<Rightarrow> bool) \<Rightarrow> (nat \<Rightarrow> 'd answer) \<Rightarrow> ('d, 'u, 's) client_world \<Rightarrow> bool" where
  "client_inv env load_from is_ret ans w \<longleftrightarrow>
     books (this_gsid env) (waiting w) (in_flight w) (replies w) (issued w) \<and>
     promises (\<lambda>n. answered load_from is_ret (ans n)) (response_prs (w_shard w)) (waiting w) (fst ` set (in_flight w)) \<and>
     (\<forall>n r. (n, r) \<in> set (replies w) \<longrightarrow> r = expected_reply (ans n))"

text \<open>What the answers rely on: the text of the exception is a string, memory for an address holds
  52 bytes, and a request is answered with data of its type, a stop request without data.\<close>

definition client_ok :: "('d, 'u, 's) actor_env \<Rightarrow> ('d \<Rightarrow> bool) \<Rightarrow> (nat \<Rightarrow> 'd call) \<Rightarrow> (nat \<Rightarrow> 'd answer) \<Rightarrow> bool" where
  "client_ok env is_ret calls ans \<longleftrightarrow> as_string env (canceled_text env) \<and> GMaxAddrLength \<le> length (addr_junk env) \<and>
     (\<forall>n. answer_fits is_ret (calls n) (ans n))"

lemma books_issue:
  assumes "books gsid ws fs rs n" and "hdr_pr_id (msg_hdr m) = i" and "src_shard_id (msg_hdr m) = gsid"
  shows "books gsid (ws @ [(n, i)]) (fs @ [(n, m)]) rs (Suc n)"
proof -
  have n: "distinct (map fst fs)" "distinct (map fst ws @ map fst rs)" "set (map fst ws @ map fst rs) = {..<n}"
    and f: "\<And>k m'. (k, m') \<in> set fs \<Longrightarrow> (k, hdr_pr_id (msg_hdr m')) \<in> set ws \<and> src_shard_id (msg_hdr m') = gsid"
    using assms(1) by (simp_all add: books_def)
  have w: "n \<notin> set (map fst ws)" "n \<notin> set (map fst rs)" using n(3) by (auto simp del: set_map)
  have "n \<notin> set (map fst fs)"
  proof
    assume "n \<in> set (map fst fs)"
    then obtain m' where "(n, m') \<in> set fs" by auto
    with f have "n \<in> set (map fst ws)" by force
    with w(1) show False ..
  qed
  with n(1) have "distinct (map fst (fs @ [(n, m)]))" by simp
  moreover have "distinct (map fst (ws @ [(n, i)]) @ map fst rs)" using n(2) w by simp
  moreover have "set (map fst (ws @ [(n, i)]) @ map fst rs) = {..<Suc n}" using n(3) by (simp add: lessThan_Suc)
  moreover have "(k, hdr_pr_id (msg_hdr m')) \<in> set (ws @ [(n, i)]) \<and> src_shard_id (msg_hdr m') = gsid"
    if "(k, m') \<in> set (fs @ [(n, m)])" for k m' using that f [of k m'] assms(2,3) by auto
  ultimately show ?thesis unfolding books_def by blast
qed

lemma books_answer:
  assumes "books gsid ws (fs @ (n, m) # gs) rs k"
  shows "books gsid ws (fs @ gs) rs k" and "fst ` set (fs @ gs) = fst ` set (fs @ (n, m) # gs) - {n}"
  using assms by (auto simp: books_def)

lemma books_complete:
  assumes "books gsid (us @ (n, i) # vs) fs rs k" and "n \<notin> fst ` set fs"
  shows "books gsid (us @ vs) fs (rs @ [(n, r)]) k"
proof -
  have "j \<noteq> n" if "(j, m) \<in> set fs" for j m using that assms(2) by force
  with assms(1) show ?thesis unfolding books_def by auto
qed

lemma books_distinct: "books gsid ws fs rs k \<Longrightarrow> distinct (map fst ws)"
  by (simp add: books_def)

lemma books_flight:
  "books gsid ws fs rs k \<Longrightarrow> (n, m) \<in> set fs \<Longrightarrow> (n, hdr_pr_id (msg_hdr m)) \<in> set ws"
  by (simp add: books_def)

lemma books_fresh: "books gsid ws fs rs k \<Longrightarrow> k \<notin> fst ` set ws"
  by (force simp: books_def)

text \<open>What the invariant gives at each step.\<close>

lemma client_inv_issue:
  assumes "client_inv env load_from is_ret ans w" and "call_shard c = Inr sid" and "sid \<noteq> this_gsid env"
    and "length (waiting w) < 4294967295"
  shows "\<exists>i s m. issue_call env c (w_shard w) = Some (Inr (i, s)) \<and> outbox s = outbox (w_shard w) @ [m] \<and>
    client_inv env load_from is_ret ans
      (w\<lparr>w_shard := s, waiting := waiting w @ [(issued w, i)], in_flight := in_flight w @ [(issued w, m)], issued := Suc (issued w)\<rparr>)"
proof -
  have b: "books (this_gsid env) (waiting w) (in_flight w) (replies w) (issued w)"
    and p: "promises (\<lambda>n. answered load_from is_ret (ans n)) (response_prs (w_shard w)) (waiting w) (fst ` set (in_flight w))"
    using assms(1) by (simp_all add: client_inv_def)
  from promises_issue [OF p assms(4) books_fresh [OF b]] obtain i prs where
    a: "acquire_pr Unresolved (response_prs (w_shard w)) = Inr (i, prs)"
    and p': "promises (\<lambda>n. answered load_from is_ret (ans n)) prs (waiting w @ [(issued w, i)]) (insert (issued w) (fst ` set (in_flight w)))"
    by blast
  from issue_call_remote [OF assms(2,3) a] obtain m where
    m: "issue_call env c (w_shard w) = Some (Inr (i, (w_shard w)\<lparr>response_prs := prs, outbox := outbox (w_shard w) @ [m]\<rparr>))"
      "hdr_pr_id (msg_hdr m) = i" "src_shard_id (msg_hdr m) = this_gsid env" by blast
  with assms(1) p' books_issue [OF b m(2,3)] show ?thesis
    by (intro exI [of _ i] exI [of _ "(w_shard w)\<lparr>response_prs := prs, outbox := outbox (w_shard w) @ [m]\<rparr>"] exI [of _ m])
      (simp add: client_inv_def)
qed

lemma client_inv_answer:
  assumes "client_inv env load_from is_ret ans w" and "client_ok env is_ret calls ans" and "in_flight w = fs @ (n, m) # gs"
    and "response_to env (ans n) m = Inr r" and "transported load_from r r'"
  shows "\<exists>s. receive env r' (w_shard w) = Some (Inr s) \<and>
    client_inv env load_from is_ret ans (w\<lparr>w_shard := s, in_flight := fs @ gs\<rparr>)"
proof -
  let ?prs = "response_prs (w_shard w)" and ?i = "hdr_pr_id (msg_hdr m)"
  have b: "books (this_gsid env) (waiting w) (fs @ (n, m) # gs) (replies w) (issued w)"
    and p: "promises (\<lambda>n. answered load_from is_ret (ans n)) ?prs (waiting w) (fst ` set (fs @ (n, m) # gs))"
    using assms(1,3) by (simp_all add: client_inv_def)
  have w: "(n, ?i) \<in> set (waiting w)" using books_flight [OF b] by simp
  then have act: "?i \<in> active_ids ?prs" using promisesD(3) [OF p] by force
  have ok: "answer_fits is_ret (calls n) (ans n)" "as_string env (canceled_text env)"
    "GMaxAddrLength \<le> length (addr_junk env)" using assms(2) by (simp_all add: client_ok_def)
  obtain v prs where v: "set_pr ?i (\<lambda>_. v) ?prs = Inr prs"
    "receive env r' (w_shard w) = Some (Inr ((w_shard w)\<lparr>response_prs := prs\<rparr>))" "answered load_from is_ret (ans n) v"
    using receive_answer [OF assms(4,5) ok(1,2) act ok(3)] by blast
  have "promises (\<lambda>n. answered load_from is_ret (ans n)) prs (waiting w) (fst ` set (fs @ gs))"
    unfolding books_answer(2) [OF b] by (rule promises_answer [OF p w books_distinct [OF b] v(3,1)])
  with v(2) books_answer(1) [OF b] assms(1) show ?thesis by (auto simp: client_inv_def)
qed

lemma client_inv_complete:
  assumes "client_inv env load_from is_ret ans w" and "client_ok env is_ret calls ans" and "waiting w = us @ (n, i) # vs"
    and "n \<notin> fst ` set (in_flight w)"
  shows "\<exists>s. complete_call load_from is_ret (calls n) i (w_shard w) = Inr (Some (expected_reply (ans n), s)) \<and>
    client_inv env load_from is_ret ans
      (w\<lparr>w_shard := s, waiting := us @ vs, replies := replies w @ [(n, expected_reply (ans n))]\<rparr>)"
proof -
  let ?prs = "response_prs (w_shard w)"
  have b: "books (this_gsid env) (us @ (n, i) # vs) (in_flight w) (replies w) (issued w)"
    and p: "promises (\<lambda>n. answered load_from is_ret (ans n)) ?prs (us @ (n, i) # vs) (fst ` set (in_flight w))"
    using assms(1,3) by (simp_all add: client_inv_def)
  obtain v where v: "get_future i ?prs = Inr v" "answered load_from is_ret (ans n) v"
    using promisesD(4) [OF p, of "(n, i)"] assms(4) by (auto simp: prom_ok_def)
  obtain prs where prs: "remove_pr i ?prs = Inr prs"
    "promises (\<lambda>n. answered load_from is_ret (ans n)) prs (us @ vs) (fst ` set (in_flight w))"
    using promises_complete [OF p] by blast
  have "answer_fits is_ret (calls n) (ans n)" using assms(2) by (simp add: client_ok_def)
  from complete_call_answered [OF v this prs(1)] prs(2) books_complete [OF b assms(4)] assms(1)
  show ?thesis by (auto simp: client_inv_def)
qed

lemma client_inv_pending:
  assumes "client_inv env load_from is_ret ans w" and "(n, i) \<in> set (waiting w)" and "n \<in> fst ` set (in_flight w)"
  shows "complete_call load_from is_ret c i (w_shard w) = Inr None"
proof -
  have "promises (\<lambda>n. answered load_from is_ret (ans n)) (response_prs (w_shard w)) (waiting w) (fst ` set (in_flight w))"
    using assms(1) by (simp add: client_inv_def)
  from promisesD(4) [OF this assms(2)] assms(3) show ?thesis by (auto simp: prom_ok_def complete_call_pending)
qed

lemma client_inv_start:
  "response_prs s = pr_manager_new p0 resolve \<Longrightarrow> client_inv env load_from is_ret ans (client_start s)"
  by (simp add: client_inv_def client_start_def books_def promises_def pr_room_def pr_inv_new)

lemma client_inv_step:
  assumes "client_step env load_from is_ret calls ans w w'" and "client_ok env is_ret calls ans"
    and inv: "client_inv env load_from is_ret ans w"
  shows "client_inv env load_from is_ret ans w'"
  using assms(1)
proof cases
  case (issue sid i s m)
  from client_inv_issue [OF inv issue(2-4)] issue(5,6) show ?thesis unfolding issue(1) by auto
next
  case (answer fs n m gs r r' s)
  from client_inv_answer [OF inv assms(2) answer(2-4)] answer(5) show ?thesis unfolding answer(1) by auto
next
  case (complete us n i vs r s)
  have "n \<notin> fst ` set (in_flight w)" using client_inv_pending [OF inv, of n i "calls n"] complete(2,3) by fastforce
  from client_inv_complete [OF inv assms(2) complete(2) this] complete(3) show ?thesis unfolding complete(1) by auto
next
  case (other s)
  with inv show ?thesis by (simp add: client_inv_def)
qed

lemma client_inv_reachable:
  assumes "(client_step env load_from is_ret calls ans)\<^sup>*\<^sup>* w w'" and "client_ok env is_ret calls ans"
    and "client_inv env load_from is_ret ans w"
  shows "client_inv env load_from is_ret ans w'"
  using assms by (induction rule: rtranclp_induct) (auto intro: client_inv_step)

lemma response_to_ok:
  assumes "GMaxAddrLength \<le> length (addr_junk env)"
  shows "\<exists>r. response_to env a m = Inr r"
proof -
  obtain addr where "response_address (addr_junk env) (src_shard_id (msg_hdr m)) = Inr addr"
    by (rule response_address_root [OF assms])
  then show ?thesis
    by (cases a) (simp_all add: response_to_def make_response_with_data_def make_response_message_def)
qed

text \<open>The table after the shard was told to stop with one request outstanding.\<close>

definition break_one :: "u32 \<Rightarrow> 'd actor_message promise pr_manager \<Rightarrow> 'd actor_message promise pr_manager res" where
  "break_one i prs = bind_res (is_active i prs) (\<lambda>act.
     if act then bind_res (set_pr i (\<lambda>_. Broken) prs) (remove_pr i) else Inr prs)"

lemma break_promises_eq: "break_promises m = fold_res break_one (map word_of_nat [0..<pr_size m]) m"
  by (simp add: break_promises_def break_one_def [abs_def])

lemma break_inactive:
  "(\<And>j. j \<in> set js \<Longrightarrow> unat j < pr_size m \<and> j \<notin> active_ids m) \<Longrightarrow> fold_res break_one js m = Inr m"
  by (induction js) (simp_all add: is_active_iff break_one_def)

lemma break_promises_single:
  assumes "pr_inv m" and "active_ids m = {i}"
  shows "\<exists>m'. break_promises m = Inr m' \<and> unat i < length (pr_array m') \<and> available m' = i \<and>
    get_future i m' = Inr Broken \<and> i \<noteq> 0"
proof -
  let ?n = "length (pr_array m)" and ?ids = "map word_of_nat [0..<length (pr_array m)] :: u32 list"
  have i: "i \<in> active_ids m" using assms(2) by simp
  then have l: "unat i < ?n" by (simp add: active_ids_def)
  have n: "?n \<le> 4294967296" and i0: "i \<noteq> 0" using assms by (auto simp: pr_inv_def)
  obtain m1 where m1: "set_pr i (\<lambda>_. Broken) m = Inr m1" using set_pr_ok [OF i] by blast
  then have l1: "pr_array m1 = (pr_array m)[unat i := (pr_array m ! unat i)\<lparr>pr := Broken\<rparr>]"
    using l by (auto simp: set_pr_def upd_node_def)
  define m2 where "m2 = m1\<lparr>pr_array := (pr_array m1)[unat i := (pr_array m1 ! unat i)\<lparr>active := False, next_avl := available m1\<rparr>],
    available := i\<rparr>"
  have r: "remove_pr i m1 = Inr m2" using l by (simp add: m2_def remove_pr_eq l1)
  have "active_ids m1 = {i}" using set_pr_inv [OF assms(1) m1] assms(2) by simp
  then have a2: "active_ids m2 = {}" using active_ids_upd [of i m1] l by (simp add: m2_def l1)
  have split: "?ids = map word_of_nat [0..<unat i] @ i # map word_of_nat [Suc (unat i)..<?n]"
    using l upt_add_eq_append [of 0 "unat i" "?n - unat i"] by (simp add: upt_conv_Cons)
  have lt: "unat (word_of_nat k :: u32) = k" if "k < ?n" for k using that n by (simp add: unat_of_nat)
  have "unat j < pr_size m \<and> j \<notin> active_ids m" if "j \<in> set (map word_of_nat [0..<unat i])" for j
  proof -
    from that obtain k where "j = word_of_nat k" "k < unat i" by auto
    then have "unat j = k" using lt [of k] l by simp
    with \<open>k < unat i\<close> l assms(2) show ?thesis by (auto simp: pr_size_def)
  qed
  then have before: "fold_res break_one (map word_of_nat [0..<unat i]) m = Inr m" by (rule break_inactive)
  have "unat j < pr_size m2 \<and> j \<notin> active_ids m2" if "j \<in> set (map word_of_nat [Suc (unat i)..<?n])" for j
    using that lt a2 by (auto simp: pr_size_def m2_def l1)
  then have after: "fold_res break_one (map word_of_nat [Suc (unat i)..<?n]) m2 = Inr m2" by (rule break_inactive)
  have "break_promises m = Inr m2"
    unfolding break_promises_eq pr_size_def split fold_res_append before
    by (simp add: break_one_def is_active_True [OF i] m1 r after)
  moreover have "get_future i m2 = Inr Broken" using l by (simp add: get_future_def get_node_def m2_def l1)
  ultimately show ?thesis using l i0 by (simp add: m2_def l1)
qed

section \<open>Properties\<close>


text \<open>Two requests to shard 1; the second is answered first and completes first.\<close>

definition remote_addr :: address where
  "remote_addr = \<lparr>addr_length = 10, addr_data = [1, 0, 0, 0, 1, 0, 7, 0, 0, 0] @ replicate 42 0\<rparr>"

definition example_calls :: "nat \<Rightarrow> nat call" where
  "example_calls n = Call_data remote_addr 0 n USER"

definition example_answers :: "nat \<Rightarrow> nat answer" where
  "example_answers n = Data (n + 5)"

lemma example_client_ok: "client_ok example_env (\<lambda>_. True) example_calls example_answers"
  by (simp add: client_ok_def example_calls_def example_answers_def example_env_def addr_consts)

abbreviation example_step :: "(nat, unit, nat list) client_world \<Rightarrow> (nat, unit, nat list) client_world \<Rightarrow> bool" where
  "example_step \<equiv> client_step example_env (\<lambda>_. Inl Bad_cast) (\<lambda>_. True) example_calls example_answers"

abbreviation example_inv :: "(nat, unit, nat list) client_world \<Rightarrow> bool" where
  "example_inv \<equiv> client_inv example_env (\<lambda>_. Inl Bad_cast) (\<lambda>_. True) example_answers"

lemma example_issue:
  assumes "example_inv w" and "length (waiting w) < 4294967295"
  shows "\<exists>w' i m. example_step w w' \<and> example_inv w' \<and> waiting w' = waiting w @ [(issued w, i)] \<and>
      in_flight w' = in_flight w @ [(issued w, m)] \<and> issued w' = Suc (issued w) \<and> replies w' = replies w"
proof -
  have dst: "call_shard (example_calls (issued w)) = Inr 1" "1 \<noteq> this_gsid example_env"
    by (simp_all add: example_calls_def remote_addr_def get_shard_id_def load_unaligned_int_def mem_load_def example_env_def)
  from client_inv_issue [OF assms(1) dst assms(2)] obtain i s m where
    s: "issue_call example_env (example_calls (issued w)) (w_shard w) = Some (Inr (i, s))" "outbox s = outbox (w_shard w) @ [m]"
    and inv: "example_inv (w\<lparr>w_shard := s, waiting := waiting w @ [(issued w, i)], in_flight := in_flight w @ [(issued w, m)],
      issued := Suc (issued w)\<rparr>)" by blast
  have "example_step w (w\<lparr>w_shard := s, waiting := waiting w @ [(issued w, i)], in_flight := in_flight w @ [(issued w, m)],
      issued := Suc (issued w)\<rparr>)"
    by (rule client_step.issue [where calls = example_calls, OF dst assms(2) s])
  with inv show ?thesis by fastforce
qed

lemma example_client_run:
  "\<exists>w. example_step\<^sup>*\<^sup>* (client_start example_start) w \<and> issued w = 2 \<and> replies w = [(1, Reply 6)] \<and> map fst (in_flight w) = [0]"
proof -
  have "example_inv (client_start example_start)"
    by (rule client_inv_start [of _ Unresolved id]) (simp add: example_start_def shard_new_def)
  from example_issue [OF this] obtain w1 i m where w1: "example_step (client_start example_start) w1" "example_inv w1"
    "waiting w1 = [(0, i)]" "in_flight w1 = [(0, m)]" "issued w1 = 1" "replies w1 = []"
    by (force simp: client_start_def)
  from example_issue [OF w1(2)] w1(3-6) obtain w2 i' m' where w2: "example_step w1 w2" "example_inv w2"
    "waiting w2 = [(0, i), (1, i')]" "in_flight w2 = [(0, m)] @ (1, m') # []" "issued w2 = 2" "replies w2 = []"
    by force
  obtain r where r: "response_to example_env (example_answers 1) m' = Inr r"
    using response_to_ok [of example_env] by (auto simp: example_env_def addr_consts)
  from client_inv_answer [OF w2(2) example_client_ok w2(4) r transported.local] obtain s where
    s: "receive example_env r (w_shard w2) = Some (Inr s)" "example_inv (w2\<lparr>w_shard := s, in_flight := [(0, m)] @ []\<rparr>)" by blast
  let ?w3 = "w2\<lparr>w_shard := s, in_flight := [(0, m)] @ []\<rparr>"
  have w3: "example_step w2 ?w3"
    by (rule client_step.answer [where ans = example_answers, OF w2(4) r transported.local s(1)])
  have "waiting ?w3 = [(0, i)] @ (1, i') # []" "1 \<notin> fst ` set (in_flight ?w3)" using w2(3) by simp_all
  from client_inv_complete [OF s(2) example_client_ok this] obtain s' where
    c: "complete_call (\<lambda>_. Inl Bad_cast) (\<lambda>_. True) (example_calls 1) i' (w_shard ?w3) =
          Inr (Some (expected_reply (example_answers 1), s'))" by blast
  let ?w4 = "?w3\<lparr>w_shard := s', waiting := [(0, i)] @ [], replies := replies ?w3 @ [(1, expected_reply (example_answers 1))]\<rparr>"
  have w4: "example_step ?w3 ?w4"
    by (rule client_step.complete [where calls = example_calls, OF _ c]) (simp add: w2(3))
  have "example_step\<^sup>*\<^sup>* (client_start example_start) ?w4"
    by (rule converse_rtranclp_into_rtranclp [where r = example_step, OF w1(1)], rule converse_rtranclp_into_rtranclp [where r = example_step, OF w2(1)],
        rule converse_rtranclp_into_rtranclp [where r = example_step, OF w3], rule r_into_rtranclp, rule w4)
  moreover have "issued ?w4 = 2" "replies ?w4 = [(1, Reply 6)]" "map fst (in_flight ?w4) = [0]"
    using w2(5,6) by (simp_all add: example_answers_def)
  ultimately show ?thesis by (intro exI [of _ ?w4] conjI)
qed


text \<open>Stopping a shard corrupts its promise table when a request is outstanding: \<open>stop_actor_system\<close>
  fails the promise and gives the id back, and the continuation of the failed request gives the same id
  back again. The free list then loops, and the next two requests, both outstanding, share the id.\<close>

theorem stopped_client_shares_id:
  assumes "pr_inv (response_prs s)" and "active_ids (response_prs s) = {i}" and "root_stop s = RUNNING"
    and "inst_map (root_children s) = []" and "get_shard_id addr = Inr sid" and "sid \<noteq> this_gsid env"
  shows "\<exists>s1 s2 s3 s4. stop_actor_system env force s = Some (Inr s1) \<and>
    send_and_wait load_from is_ret False i s1 = Inr (Some (Reply_failed, s2)) \<and>
    request env addr tid mt s2 = Some (Inr (i, s3)) \<and> request env addr tid mt s3 = Some (Inr (i, s4))"
proof -
  from break_promises_single [OF assms(1,2)] obtain m where m: "break_promises (response_prs s) = Inr m"
    "unat i < length (pr_array m)" "available m = i" "get_future i m = Inr Broken" "i \<noteq> 0" by blast
  obtain s1 where s1: "stop_actor_system env force s = Some (Inr s1)" "response_prs s1 = m"
    using assms(3,4) m(1) by (simp add: stop_actor_system_def wait_others_and_exit_def)
  let ?m2 = "m\<lparr>pr_array := (pr_array m)[unat i := (pr_array m ! unat i)\<lparr>active := False, next_avl := i\<rparr>]\<rparr>"
  have "remove_pr i m = Inr ?m2" using remove_pr_eq [OF m(2)] m(3) by simp
  then have s2: "send_and_wait load_from is_ret False i s1 = Inr (Some (Reply_failed, s1\<lparr>response_prs := ?m2\<rparr>))"
    using s1(2) m(4) by (simp add: send_and_wait_def when_response_def)
  obtain m3 where a3: "acquire_pr Unresolved ?m2 = Inr (i, m3)" and m3: "available m3 = i" "unat i < length (pr_array m3)"
    using acquire_pr_eq [of ?m2 Unresolved] m(2,3,5) by (auto simp: occupy_def)
  obtain m4 where a4: "acquire_pr Unresolved m3 = Inr (i, m4)" using acquire_pr_eq [of m3 Unresolved] m3 m(5) by auto
  have call: "call_shard (Call addr tid mt) = Inr sid" using assms(5) by simp
  from issue_call_remote [OF call assms(6), of "s1\<lparr>response_prs := ?m2\<rparr>" i m3] a3 obtain s3 where
    s3: "request env addr tid mt (s1\<lparr>response_prs := ?m2\<rparr>) = Some (Inr (i, s3))" "response_prs s3 = m3" by auto
  from issue_call_remote [OF call assms(6), of s3 i m4] a4 s3(2) obtain s4 where
    "request env addr tid mt s3 = Some (Inr (i, s4))" by auto
  with s1(1) s2 s3(1) show ?thesis by blast
qed

theorem stopped_client_shares_id_witness:
  "\<exists>s s1 s2 s3 s4. request example_env remote_addr 0 USER example_start = Some (Inr (1, s)) \<and>
    stop_actor_system example_env True s = Some (Inr s1) \<and>
    send_and_wait (\<lambda>_. Inl Bad_cast) (\<lambda>_. True) False 1 s1 = Inr (Some (Reply_failed, s2)) \<and>
    request example_env remote_addr 0 USER s2 = Some (Inr (1, s3)) \<and> request example_env remote_addr 0 USER s3 = Some (Inr (1, s4))"
proof -
  have dst: "get_shard_id remote_addr = Inr 1" "1 \<noteq> this_gsid example_env"
    by (simp_all add: remote_addr_def get_shard_id_def load_unaligned_int_def mem_load_def example_env_def)
  have new: "response_prs example_start = pr_manager_new Unresolved id" by (simp add: example_start_def shard_new_def)
  have "pr_inv (response_prs example_start)" "active_ids (response_prs example_start) = {}" unfolding new by (simp_all add: pr_inv_new)
  moreover have "available (response_prs example_start) = 0" "length (pr_array (response_prs example_start)) = 1"
    by (simp_all add: new pr_manager_new_def)
  ultimately obtain i prs where
    a: "acquire_pr Unresolved (response_prs example_start) = Inr (i, prs)" "unat i = 1" "pr_inv prs" "active_ids prs = {i}"
    using acquire_extend [of "response_prs example_start" Unresolved] by auto
  have i: "i = 1" using a(2) unat_u32_eq_iff [of i 1] by simp
  have "call_shard (Call remote_addr 0 USER) = Inr 1" using dst(1) by simp
  from issue_call_remote [OF this dst(2) a(1)] obtain s where
    s: "request example_env remote_addr 0 USER example_start = Some (Inr (1, s))" "response_prs s = prs"
      "root_stop s = RUNNING" "inst_map (root_children s) = []"
    by (auto simp: i example_start_def shard_new_def children_new_def)
  from stopped_client_shares_id [OF _ _ s(3,4) dst, of 1 "True" "\<lambda>_. Inl Bad_cast" "\<lambda>_. True" 0 USER] a(3,4) s(1,2)
  show ?thesis unfolding i by blast
qed

end
