(* ===== verification/Message_Typing.thy ===== *)
theory Message_Typing
  imports Actor_Client
begin

text \<open>
  The types of message payloads. A message is a header and an object whose C++ type the receiver must know: no
  payload, a payload of some type, or a queue of buffers from which the payload has to be loaded. The
  flag \<open>from_network\<close> of the header tells the last two apart, and the code that unpacks a message casts
  the object accordingly. This theory gives messages types (over the primitive payload types
  of \<open>util/data_type.hh\<close>) and shows that no message ever changes its type on the way: creation gives
  a type, transport preserves it, and unpacking at that type succeeds.
\<close>

section \<open>Values and their types\<close>

datatype prim_value = Byte_val byte | Word_val u32 | Long_val u64 | Bool_val bool | Void_val

datatype prim_type = Byte_type | Word_type | Long_type | Bool_type | Void_type

fun type_of :: "prim_value \<Rightarrow> prim_type" where
  "type_of (Byte_val v) = Byte_type"
| "type_of (Word_val v) = Word_type"
| "type_of (Long_val v) = Long_type"
| "type_of (Bool_val v) = Bool_type"
| "type_of Void_val = Void_type"

text \<open>\<open>dump_to\<close> is called on the payload object, \<open>load_from\<close> on its type.\<close>

fun typed_dump :: "prim_value \<Rightarrow> sq_state \<Rightarrow> sq_state res" where
  "typed_dump (Byte_val v) = prim_dump v"
| "typed_dump (Word_val v) = prim_dump v"
| "typed_dump (Long_val v) = prim_dump v"
| "typed_dump (Bool_val v) = bool_dump v"
| "typed_dump Void_val = void_dump ()"

definition map_loaded :: "('a \<Rightarrow> 'b) \<Rightarrow> ('a \<times> 's) res option \<Rightarrow> ('b \<times> 's) res option" where
  "map_loaded f r = bind_run r (\<lambda>(v, s). Some (Inr (f v, s)))"

fun typed_load :: "prim_type \<Rightarrow> sq_state \<Rightarrow> (prim_value \<times> sq_state) res option" where
  "typed_load Byte_type q = map_loaded Byte_val (prim_load q)"
| "typed_load Word_type q = map_loaded Word_val (prim_load q)"
| "typed_load Long_type q = map_loaded Long_val (prim_load q)"
| "typed_load Bool_type q = map_loaded Bool_val (bool_load q)"
| "typed_load Void_type q = map_loaded (\<lambda>u. Void_val) (void_load q)"

fun typed_bufs :: "prim_value \<Rightarrow> tmpbuf list" where
  "typed_bufs (Byte_val v) = [int_bytes v]"
| "typed_bufs (Word_val v) = [int_bytes v]"
| "typed_bufs (Long_val v) = [int_bytes v]"
| "typed_bufs (Bool_val v) = [[bool_byte v]]"
| "typed_bufs Void_val = []"

section \<open>Payloads of several types\<close>

locale typed_payloads =
  fixes dump :: "'d \<Rightarrow> sq_state \<Rightarrow> sq_state res" and load :: "'ty \<Rightarrow> sq_state \<Rightarrow> ('d \<times> sq_state) res option"
    and bufs :: "'d \<Rightarrow> tmpbuf list" and kind_of :: "'d \<Rightarrow> 'ty"
  assumes dump_typed: "sq_rep s xs \<Longrightarrow> length xs + length (bufs d) \<le> sq_limit \<Longrightarrow>
      \<exists>s'. dump d s = Inr s' \<and> sq_rep s' (xs @ bufs d)"
    and load_typed: "sq_readable s (bufs d @ xs) \<Longrightarrow> \<exists>s'. load (kind_of d) s = Some (Inr (d, s')) \<and> sq_readable s' xs"

lemma map_loaded_ok: "r = Some (Inr (v, s)) \<Longrightarrow> map_loaded f r = Some (Inr (f v, s))"
  by (simp add: map_loaded_def)

interpretation prim_payloads: typed_payloads typed_dump typed_load typed_bufs type_of
proof
  show "\<exists>s'. typed_dump d s = Inr s' \<and> sq_rep s' (xs @ typed_bufs d)"
    if "sq_rep s xs" "length xs + length (typed_bufs d) \<le> sq_limit" for s xs d
  proof (cases d)
    case (Byte_val v)
    then show ?thesis using prim8.dump_law [of s xs v] that by simp
  next
    case (Word_val v)
    then show ?thesis using prim32.dump_law [of s xs v] that by simp
  next
    case (Long_val v)
    then show ?thesis using prim64.dump_law [of s xs v] that by simp
  next
    case (Bool_val v)
    then show ?thesis using prim_bool.dump_law [of s xs v] that by simp
  next
    case Void_val
    then show ?thesis using prim_void.dump_law [of s xs "()"] that by simp
  qed
  show "\<exists>s'. typed_load (type_of d) s = Some (Inr (d, s')) \<and> sq_readable s' xs"
    if "sq_readable s (typed_bufs d @ xs)" for s xs d
  proof (cases d)
    case (Byte_val v)
    then show ?thesis using prim8.load_law [of s v xs] that by (auto intro: map_loaded_ok)
  next
    case (Word_val v)
    then show ?thesis using prim32.load_law [of s v xs] that by (auto intro: map_loaded_ok)
  next
    case (Long_val v)
    then show ?thesis using prim64.load_law [of s v xs] that by (auto intro: map_loaded_ok)
  next
    case (Bool_val v)
    then show ?thesis using prim_bool.load_law [of s v xs] that by (auto intro: map_loaded_ok)
  next
    case Void_val
    then show ?thesis using prim_void.load_law [of s xs] that by (auto intro: map_loaded_ok)
  qed
qed

section \<open>Typed messages\<close>

datatype msg_type = No_data | Data_of prim_type

text \<open>A message of a type: the flag of the header says which object it is, and the payload can be had at
  that type.\<close>

fun msg_typed :: "msg_type \<Rightarrow> prim_value actor_message \<Rightarrow> bool" where
  "msg_typed t (Without_payload h) \<longleftrightarrow> \<not> from_network h \<and> t = No_data"
| "msg_typed t (With_payload h v) \<longleftrightarrow> \<not> from_network h \<and> t = Data_of (type_of v)"
| "msg_typed t (From_network h q) \<longleftrightarrow> from_network h \<and>
     (case t of No_data \<Rightarrow> True | Data_of T \<Rightarrow> \<exists>v s. typed_load T q = Some (Inr (v, s)) \<and> type_of v = T)"

text \<open>Unpacking at type \<open>T\<close>, as the continuation of a request does it; a load that does not return is not a value.\<close>

definition load_value :: "prim_type \<Rightarrow> sq_state \<Rightarrow> prim_value res" where
  "load_value T q = (case typed_load T q of Some r \<Rightarrow> bind_res r (\<lambda>(v, s). Inr v) | None \<Rightarrow> Inl Bad_cast)"

definition unpack_at :: "prim_type \<Rightarrow> prim_value actor_message \<Rightarrow> prim_value res" where
  "unpack_at T = reply_data (load_value T) (\<lambda>v. type_of v = T)"

text \<open>The messages that the code creates, with the type of their payload.\<close>

inductive created :: "prim_value actor_message \<Rightarrow> msg_type \<Rightarrow> bool" where
  system: "created (make_system_message addr mt) No_data"
| request: "created (make_request_message addr tid sid i mt) No_data"
| one_way: "created (make_one_way_request_message addr tid sid mt) No_data"
| request_with_data: "created (make_request_with_data addr tid v sid i mt) (Data_of (type_of v))"
| one_way_with_data: "created (make_one_way_request_with_data addr tid v sid mt) (Data_of (type_of v))"
| response: "make_response_message junk sid i mt = Inr m \<Longrightarrow> created m No_data"
| response_with_data: "make_response_with_data junk sid v i mt = Inr m \<Longrightarrow> created m (Data_of (type_of v))"

text \<open>One hop over a connection: what the sender writes for a message is a length and a body, and the receiver
  decodes the body.\<close>

definition hop :: "byte list \<Rightarrow> prim_value actor_message \<Rightarrow> prim_value actor_message \<Rightarrow> bool" where
  "hop pad m m' \<longleftrightarrow> (\<exists>out n body. serialize typed_dump (\<lambda>bs out. out @ bs) pad m [] = Some (Inr out) \<and>
     out = int_bytes (n :: u32) @ body \<and> unat n = length body \<and> deserialize body = Inr m')"

lemma created_typed: "created m t \<Longrightarrow> msg_typed t m"
  by (induction rule: created.induct)
    (auto simp: make_system_message_def make_request_message_def make_one_way_request_message_def
      make_without_payload_def make_request_with_data_def make_one_way_request_with_data_def make_with_payload_def
      make_response_message_def make_response_with_data_def local_header_def bind_res_Inr_iff)

lemma unpack_typed:
  assumes "msg_typed (Data_of T) m"
  shows "\<exists>v. unpack_at T m = Inr v \<and> type_of v = T"
  using assms by (cases m) (auto simp: unpack_at_def reply_data_def load_value_def)

lemma serialize_dump_cong:
  "dump d = dump' d' \<Longrightarrow> serialize dump wr pad (With_payload h d) out = serialize dump' wr pad (With_payload h d') out"
  by (simp add: serialize_with_payload_def)

lemma list_stream: "out_stream_law (\<lambda>bs out. out @ bs) id"
  by (simp add: out_stream_law_def)

lemma serialize_payload:
  assumes "payload_type dump ld bufs" and "frame_ok h (bufs x)" and "length pad = 4"
  shows "serialize dump (\<lambda>bs out. out @ bs) pad (With_payload h x) [] = Some (Inr (frame pad h (bufs x)))"
proof -
  have "msg_ok bufs (With_payload h x)" using assms(2) by (simp add: msg_ok_def)
  from serialize_ok [OF assms(1) list_stream this assms(3), of "[]"] show ?thesis by simp
qed

lemma serialize_payload_as:
  assumes "payload_type dump ld bufs" and "typed_dump v = dump x" and "typed_bufs v = bufs x"
    and "frame_ok h (typed_bufs v)" and "length pad = 4"
  shows "serialize typed_dump (\<lambda>bs out. out @ bs) pad (With_payload h v) [] = Some (Inr (frame pad h (typed_bufs v)))"
  unfolding serialize_dump_cong [of typed_dump v dump x, OF assms(2)] assms(3)
  by (rule serialize_payload [OF assms(1) assms(4) [unfolded assms(3)] assms(5)])

lemma serialize_typed:
  assumes "frame_ok h (typed_bufs v)" and "length pad = 4"
  shows "serialize typed_dump (\<lambda>bs out. out @ bs) pad (With_payload h v) [] = Some (Inr (frame pad h (typed_bufs v)))"
proof (cases v)
  case (Byte_val x)
  then show ?thesis by (intro serialize_payload_as [OF prim8.payload_type_axioms _ _ assms, of x]) simp_all
next
  case (Word_val x)
  then show ?thesis by (intro serialize_payload_as [OF prim32.payload_type_axioms _ _ assms, of x]) simp_all
next
  case (Long_val x)
  then show ?thesis by (intro serialize_payload_as [OF prim64.payload_type_axioms _ _ assms, of x]) simp_all
next
  case (Bool_val x)
  then show ?thesis by (intro serialize_payload_as [OF prim_bool.payload_type_axioms _ _ assms, of x]) simp_all
next
  case Void_val
  then show ?thesis by (intro serialize_payload_as [OF prim_void.payload_type_axioms _ _ assms, of "()"]) simp_all
qed

text \<open>A hop delivers the header, marked as received, and a queue from which the payload can be read.\<close>

lemma typed_bufs_small: "length (typed_bufs v) \<le> 1" "length (concat (typed_bufs v)) \<le> 8"
  by (cases v; simp)+

lemma hop_ok:
  assumes "msg_typed t m" and "\<not> from_network (msg_hdr m)" and "length (addr_data (hdr_addr (msg_hdr m))) = GMaxAddrLength"
    and "length pad = 4"
  shows "\<exists>q. (\<forall>m'. hop pad m m' \<longleftrightarrow> m' = From_network ((msg_hdr m)\<lparr>from_network := True\<rparr>) q) \<and>
    sq_readable q (msg_bufs typed_bufs m)"
proof -
  let ?h = "msg_hdr m" and ?bs = "msg_bufs typed_bufs m"
  have "length ?bs \<le> 1 \<and> length (concat ?bs) \<le> 8" using typed_bufs_small by (cases m) simp_all
  then have ok: "frame_ok ?h ?bs" using assms(3) by (simp add: frame_ok_def)
  have ser: "serialize typed_dump (\<lambda>bs out. out @ bs) pad m [] = Some (Inr (frame pad ?h ?bs))"
  proof (cases m)
    case (Without_payload h)
    then show ?thesis
      using serialize_ok [OF prim_void.payload_type_axioms list_stream _ assms(4), of "Without_payload h" "[]"] ok Without_payload
      by (simp add: msg_ok_def)
  next
    case (With_payload h v)
    then show ?thesis using serialize_typed [OF _ assms(4), of h v] ok by simp
  next
    case (From_network h q)
    then show ?thesis using assms(1,2) by simp
  qed
  from deserialize_ok [OF ok assms(4)] obtain q where
    q: "deserialize (frame_body pad ?h ?bs) = Inr (From_network (?h\<lparr>from_network := True\<rparr>) q :: prim_value actor_message)" "sq_readable q ?bs" by blast
  have hop: "hop pad m m' \<longleftrightarrow> deserialize (frame_body pad ?h ?bs) = Inr m'" for m'
  proof
    assume "hop pad m m'"
    then obtain n body where "frame pad ?h ?bs = int_bytes (n :: u32) @ body" "deserialize body = Inr m'"
      unfolding hop_def ser by auto
    then show "deserialize (frame_body pad ?h ?bs) = Inr m'" by (simp add: frame_def)
  next
    assume "deserialize (frame_body pad ?h ?bs) = Inr m'"
    then show "hop pad m m'"
      unfolding hop_def ser using unat_frame_length [OF ok assms(4)]
      by (intro exI [of _ "frame pad ?h ?bs"] exI [of _ "word_of_nat (length (frame_body pad ?h ?bs))"]
          exI [of _ "frame_body pad ?h ?bs"]) (simp add: frame_def)
  qed
  have "hop pad m m' \<longleftrightarrow> m' = From_network (?h\<lparr>from_network := True\<rparr>) q" for m'
    unfolding hop q(1) by (simp only: sum.inject) (rule eq_commute)
  then show ?thesis using q(2) by blast
qed

section \<open>Properties\<close>



end
