(* ===== verification/Actor_Factory.thy ===== *)
theory Actor_Factory
  imports Actor_System
begin

text \<open>
  The directory of actor constructors (\<open>core/actor_factory.cc\<close>), which the actor model takes as the
  parameter \<open>factory\<close>, and what an actor knows of itself (\<open>core/actor_core.hh\<close>): its type and instance
  id, the scope it lives in, and its metadata. An actor keeps the six address bytes of its own layer;
  the ids of its path are those bytes read as an integer.
\<close>

section \<open>The directory\<close>

text \<open>A vector of function pointers; \<open>resize\<close> fills it with null pointers. A constructor is what the
  object it makes is, its \<open>kind\<close>.\<close>

type_synonym directory = "kind option list"

definition register_actor :: "u16 \<Rightarrow> kind \<Rightarrow> directory \<Rightarrow> directory" where
  "register_actor actor_tid func dir =
     (let reserved_size = unat actor_tid + 1;
          dir1 = (if reserved_size > length dir then dir @ replicate (reserved_size - length dir) None else dir)
      in dir1[unat actor_tid := Some func])"

text \<open>\<open>operator[]\<close> of the vector does not check the index, and the pointer is called as it is.\<close>

definition factory_create :: "directory \<Rightarrow> u16 \<Rightarrow> kind res" where
  "factory_create dir actor_tid =
     (if unat actor_tid < length dir
      then (case dir ! unat actor_tid of Some k \<Rightarrow> Inr k | None \<Rightarrow> Inl Null_deref)
      else Inl Out_of_bounds)"

fun register_all :: "(u16 \<times> kind) list \<Rightarrow> directory \<Rightarrow> directory" where
  "register_all [] dir = dir"
| "register_all ((tid, k) # regs) dir = register_all regs (register_actor tid k dir)"

text \<open>The two registrations the library itself makes.\<close>

definition default_registrations :: "(child_id \<Rightarrow> child_id \<Rightarrow> bool) \<Rightarrow> (u16 \<times> kind) list" where
  "default_registrations cmp = [(0xF000, Group_kind None), (0xF001, Group_kind (Some cmp))]"

lemma length_register_actor: "length (register_actor tid k dir) = max (length dir) (Suc (unat tid))"
  by (simp add: register_actor_def Let_def)

lemma nth_register_actor:
  "n < length (register_actor tid k dir) \<Longrightarrow>
   register_actor tid k dir ! n = (if n = unat tid then Some k else if n < length dir then dir ! n else None)"
  by (auto simp: register_actor_def Let_def nth_append nth_list_update split: if_splits)

lemma register_all_append: "register_all (xs @ ys) dir = register_all ys (register_all xs dir)"
  by (induction xs dir rule: register_all.induct) auto

lemma factory_create_register:
  "factory_create (register_actor tid k dir) t =
     (if t = tid then Inr k
      else case factory_create dir t of
             Inl Out_of_bounds \<Rightarrow> if unat t < unat tid then Inl Null_deref else Inl Out_of_bounds
           | r \<Rightarrow> r)"
  by (auto simp: factory_create_def length_register_actor nth_register_actor unat_u32_eq_iff word_unat_eq_iff
      split: option.splits)

lemma factory_create_all:
  "factory_create (register_all regs []) tid =
     (case map_of (rev regs) tid of
        Some k \<Rightarrow> Inr k
      | None \<Rightarrow> if list_ex (\<lambda>(t, k). tid < t) regs then Inl Null_deref else Inl Out_of_bounds)"
proof (induction regs rule: rev_induct)
  case Nil
  then show ?case by (simp add: factory_create_def)
next
  case (snoc r regs)
  obtain t k where r: "r = (t, k)" by (cases r)
  have "factory_create (register_all (regs @ [r]) []) tid =
      factory_create (register_actor t k (register_all regs [])) tid" by (simp add: register_all_append r)
  also have "\<dots> = (case map_of (rev (regs @ [r])) tid of Some k \<Rightarrow> Inr k
      | None \<Rightarrow> if list_ex (\<lambda>(t, k). tid < t) (regs @ [r]) then Inl Null_deref else Inl Out_of_bounds)"
    by (auto simp: factory_create_register snoc.IH r word_less_nat_alt split: option.splits)
  finally show ?case .
qed

section \<open>What an actor knows of itself\<close>

text \<open>\<open>_address\<close> of the object at a path.\<close>

definition actor_address :: "child_id \<Rightarrow> byte list" where
  "actor_address c = nat_to_le GLocalActorAddrLength (unat c)"

definition actor_type_id :: "path \<Rightarrow> u16 res" where
  "actor_type_id p = load_unaligned_int 0 (actor_address (hd p))"

definition actor_id :: "path \<Rightarrow> u32 res" where
  "actor_id p = load_unaligned_int GActorTypeInBytes (actor_address (hd p))"

text \<open>The loop of \<open>get_scope\<close>, up the execution contexts: one layer per ancestor, the innermost first.\<close>

fun copy_layers :: "path \<Rightarrow> address \<Rightarrow> address res" where
  "copy_layers [] a = Inr a"
| "copy_layers (c # q) a =
     bind_res (set_data (GShardIdInBytes + length q * GLocalActorAddrLength) (actor_address c) a) (copy_layers q)"

definition get_scope :: "byte list \<Rightarrow> u32 \<Rightarrow> path \<Rightarrow> address res" where
  "get_scope junk local_sid p =
     bind_res (scope_builder_new junk local_sid) (\<lambda>a.
     bind_res (copy_layers (tl p) a) (\<lambda>a1.
       Inr (a1\<lparr>addr_length := total_addr_length p - word_of_nat GLocalActorAddrLength\<rparr>)))"

text \<open>The metadata: \<open>boost::any\<close> values, each with its type.\<close>

type_synonym ('t, 'v) meta_map = "string \<Rightarrow> ('t \<times> 'v) option"

definition contains_meta :: "string \<Rightarrow> ('t, 'v) meta_map \<Rightarrow> bool" where
  "contains_meta key m \<longleftrightarrow> m key \<noteq> None"

definition meta_type_name :: "string \<Rightarrow> ('t, 'v) meta_map \<Rightarrow> 't res" where
  "meta_type_name key m = (case m key of None \<Rightarrow> Inl (Thrown ''out_of_range'') | Some (t, v) \<Rightarrow> Inr t)"

definition add_meta :: "'t \<Rightarrow> string \<Rightarrow> 'v \<Rightarrow> ('t, 'v) meta_map \<Rightarrow> ('t, 'v) meta_map" where
  "add_meta ty key val m = m(key \<mapsto> (ty, val))"

definition get_meta :: "'t \<Rightarrow> string \<Rightarrow> ('t, 'v) meta_map \<Rightarrow> 'v res" where
  "get_meta ty key m =
     (case m key of
        None \<Rightarrow> Inl (Thrown ''out_of_range'')
      | Some (t, v) \<Rightarrow> if t = ty then Inr v else Inl (Thrown ''bad_any_cast''))"

text \<open>\<open>any_cast\<close> on a pointer gives a null pointer where the other form throws.\<close>

definition get_meta_ptr :: "'t \<Rightarrow> string \<Rightarrow> ('t, 'v) meta_map \<Rightarrow> 'v option res" where
  "get_meta_ptr ty key m =
     (case m key of
        None \<Rightarrow> Inl (Thrown ''out_of_range'')
      | Some (t, v) \<Rightarrow> Inr (if t = ty then Some v else None))"

lemma actor_address_child: "actor_address (int_of_bytes (scope_bytes s)) = scope_bytes s"
proof -
  have "le_to_nat (scope_bytes s) < 18446744073709551616" using le_to_nat_bound [of "scope_bytes s"] by simp
  then have "unat (int_of_bytes (scope_bytes s) :: u64) = le_to_nat (scope_bytes s)"
    by (simp add: int_of_bytes_def unat_of_nat)
  then show ?thesis using nat_to_le_le_to_nat [of "scope_bytes s"] by (simp add: actor_address_def addr_consts)
qed

lemma copy_layers_scopes:
  assumes "4 + 6 * length ss \<le> length (addr_data a)"
  shows "copy_layers (rev (map (\<lambda>s. int_of_bytes (scope_bytes s)) ss)) a =
    Inr (a\<lparr>addr_data := take 4 (addr_data a) @ concat (map scope_bytes ss) @ drop (4 + 6 * length ss) (addr_data a)\<rparr>)"
  using assms
proof (induction ss arbitrary: a rule: rev_induct)
  case Nil
  then show ?case by (cases a) simp
next
  case (snoc s ss)
  let ?d = "take (4 + 6 * length ss) (addr_data a) @ scope_bytes s @ drop (10 + 6 * length ss) (addr_data a)"
  have "set_data (4 + 6 * length ss) (scope_bytes s) a = Inr (a\<lparr>addr_data := ?d\<rparr>)"
    using snoc.prems by (simp add: set_data_def mem_store_def add.commute)
  moreover have "copy_layers (rev (map (\<lambda>s. int_of_bytes (scope_bytes s)) ss)) (a\<lparr>addr_data := ?d\<rparr>) =
      Inr (a\<lparr>addr_data := take 4 ?d @ concat (map scope_bytes ss) @ drop (4 + 6 * length ss) ?d\<rparr>)"
    using snoc.IH [of "a\<lparr>addr_data := ?d\<rparr>"] snoc.prems by simp
  ultimately show ?case using snoc.prems by (simp add: actor_address_child addr_consts mult.commute min_def)
qed

section \<open>Properties\<close>

text \<open>After any sequence of registrations the directory creates, for every type id, an actor of the
  kind registered last for it; for a type that was never registered it calls a null pointer when a larger
  type id was registered, and reads past the vector otherwise. There is no other outcome.\<close>

theorem factory_creates_last_registered:
  "factory_create (register_all regs []) tid =
     (case map_of (rev regs) tid of
        Some k \<Rightarrow> Inr k
      | None \<Rightarrow> if list_ex (\<lambda>(t, k). tid < t) regs then Inl Null_deref else Inl Out_of_bounds)"
  by (rule factory_create_all)

text \<open>In the running system: a message whose first layer names a type below \<open>0xF000\<close> that nobody
  registered makes the shard that receives it call a null pointer, because the library's own
  registrations make the directory long enough for the index.\<close>

theorem unregistered_type_calls_null:
  assumes "factory env = factory_create (register_all (default_registrations cmp @ regs) [])"
    and "map_of (rev regs) tid = None" and "tid < 0xF000"
    and "child_id_at 4 (hdr_addr (msg_hdr m)) = Inr c" and "child_type_at 4 (hdr_addr (msg_hdr m)) = Inr tid"
    and "addr_length (hdr_addr (msg_hdr m)) = 10" and "map_of (inst_map (root_children s)) c = None" and "root_stop s = RUNNING"
  shows "receive env m s = Some (Inl Null_deref)"
proof -
  have "tid \<noteq> 0xF000" "tid \<noteq> 0xF001" using assms(3) by auto
  then have "map_of (rev (default_registrations cmp @ regs)) tid = None"
    using assms(2) by (auto simp: default_registrations_def map_of_append map_add_def)
  moreover have "list_ex (\<lambda>(t, k). tid < t) (default_registrations cmp @ regs)"
    using assms(3) by (simp add: default_registrations_def)
  ultimately have "factory env tid = Inl Null_deref" unfolding assms(1) factory_create_all
    by (simp only: option.case if_True)
  then show ?thesis
    using assms(4-8) by (simp add: receive_def receive_actor_def create_child_def example_lengths Let_def)
qed

text \<open>An actor finds out where it lives. For an actor created for a message address (its path is what
  the groups on the way read off the layers of the address), its type and instance id are those of the
  last layer, and \<open>get_scope\<close> returns the scope of the remaining layers, but with the number of the shard
  within the machine: it is the scope the message named exactly when that number is the global one.\<close>

theorem get_scope_of_actor:
  assumes "addr_rep addr sid (ss @ [s])" and "length p = Suc (length ss)" and "length junk = GMaxAddrLength"
    and "\<forall>i < length p. child_id_at (4 + 6 * i) addr = Inr (rev p ! i)"
  shows "actor_type_id p = Inr (scope_type s) \<and> actor_id p = Inr (scope_id s) \<and>
    (\<exists>a. get_scope junk local_sid p = Inr a \<and> addr_rep a local_sid ss \<and> (addr_rep a sid ss \<longleftrightarrow> local_sid = sid))"
proof -
  let ?c = "\<lambda>s. int_of_bytes (scope_bytes s) :: u64"
  have "rev p = map ?c (ss @ [s])"
    using child_id_at_rep [OF assms(1)] assms(2,4) by (intro nth_equalityI) (auto simp: nth_append)
  then have "rev (rev p) = rev (map ?c (ss @ [s]))" by (rule arg_cong)
  then have p: "p = ?c s # rev (map ?c ss)" by simp
  have ss: "length ss \<le> 7" using assms(1) by (simp add: addr_rep_def addr_consts)
  obtain a where a: "scope_builder_new junk local_sid = Inr a" "addr_rep a local_sid []"
    using scope_builder_new_rep [OF assms(3)] by blast
  then have len: "length (addr_data a) = 52" and sh: "take 4 (addr_data a) = int_bytes local_sid"
    by (simp_all add: addr_rep_def addr_consts path_bytes_def)
  let ?a = "a\<lparr>addr_data := take 4 (addr_data a) @ concat (map scope_bytes ss) @ drop (4 + 6 * length ss) (addr_data a),
    addr_length := total_addr_length p - word_of_nat GLocalActorAddrLength\<rparr>"
  have al: "unat (total_addr_length p - word_of_nat GLocalActorAddrLength) = 4 + 6 * length ss"
  proof -
    have "total_addr_length p - word_of_nat GLocalActorAddrLength = word_of_nat (4 + 6 * length ss)"
      by (simp add: total_addr_length_def p addr_consts)
    moreover have "unat (word_of_nat (4 + 6 * length ss) :: byte) = 4 + 6 * length ss"
      using ss by (simp only: unat_of_nat) simp
    ultimately show ?thesis by (simp only:)
  qed
  have "copy_layers (tl p) a = Inr (a\<lparr>addr_data := take 4 (addr_data a) @ concat (map scope_bytes ss) @ drop (4 + 6 * length ss) (addr_data a)\<rparr>)"
    unfolding p list.sel using copy_layers_scopes [of ss a] len ss by simp
  then have g: "get_scope junk local_sid p = Inr ?a" using a(1) by (simp add: get_scope_def)
  have rep: "addr_rep ?a local_sid ss"
    using len sh ss al by (simp add: addr_rep_def addr_consts path_bytes_def)
  have "addr_rep ?a sid ss \<longleftrightarrow> local_sid = sid"
  proof
    assume "addr_rep ?a sid ss"
    with rep have "path_bytes local_sid ss = path_bytes sid ss" by (simp add: addr_rep_def)
    then show "local_sid = sid" by (auto simp: path_bytes_def codec32.enc_inject)
  qed (use rep in simp)
  moreover have "actor_address (hd p) = int_bytes (scope_type s) @ int_bytes (scope_id s)"
    by (simp add: p actor_address_child) (simp add: scope_bytes_def)
  then have "actor_type_id p = Inr (scope_type s)" "actor_id p = Inr (scope_id s)"
    using codec16.dec_enc [of "scope_type s"] codec32.dec_enc [of "scope_id s"]
    by (simp_all add: actor_type_id_def actor_id_def load_unaligned_int_def mem_load_def int_of_bytes_def addr_consts)
  ultimately show ?thesis using g rep by blast
qed

theorem get_scope_of_actor_witness:
  "actor_id [458753, 327682] = Inr 7 \<and>
   (\<exists>a. get_scope (replicate 52 0) 3 [458753, 327682] = Inr a \<and> addr_rep a 3 [\<lparr>scope_type = 2, scope_id = 5\<rparr>] \<and>
     \<not> addr_rep a 0 [\<lparr>scope_type = 2, scope_id = 5\<rparr>])"
proof -
  have "addr_rep example_addr 0 ([\<lparr>scope_type = 2, scope_id = 5\<rparr>] @ [\<lparr>scope_type = 1, scope_id = 7\<rparr>])"
    by (simp add: addr_rep_def example_addr_def addr_consts path_bytes_def scope_bytes_def int_bytes_def nat_to_le_numeral)
  moreover have "\<forall>i < length [458753, 327682 :: u64]. child_id_at (4 + 6 * i) example_addr = Inr (rev [458753, 327682] ! i)"
    using example_ids(1,3) by (auto simp: less_Suc_eq)
  ultimately show ?thesis
    using get_scope_of_actor [of example_addr 0 "[\<lparr>scope_type = 2, scope_id = 5\<rparr>]" "\<lparr>scope_type = 1, scope_id = 7\<rparr>"
      "[458753, 327682]" "replicate 52 0" 3] by (auto simp: addr_consts)
qed

end
