(* ===== verification/Message_Queue.thy ===== *)
theory Message_Queue
  imports Hiactor_Prelude "HOL-Library.Multiset" "HOL-Library.Sublist"
begin

text \<open>
  The queue between two shards of a machine (\<open>actor_message_queue\<close> of \<open>core/local_channel.hh\<close> and
  \<open>core/local_channel.cc\<close>; \<open>network_message_queue\<close> of \<open>net/network_channel.hh\<close> has the same code for
  pairs of a machine id and a message). The sending shard collects messages in \<open>pending_fifo\<close> and
  moves them in batches into a lock-free queue of 128 entries, from which the receiving shard takes
  them. The lock-free queue is \<open>boost::lockfree::spsc_queue\<close>: its operations are a parameter, the
  record \<open>spsc\<close>, and its documented behaviour is the locale \<open>spsc_queue\<close>. The sender can run between
  the two \<open>pop\<close> calls of \<open>process_incoming\<close>; what it does there is an argument.
\<close>

section \<open>The lock-free queue\<close>

record ('m, 'q) spsc =
  spsc_push :: "'m list \<Rightarrow> 'q \<Rightarrow> nat \<times> 'q"
  spsc_pop_one :: "'q \<Rightarrow> ('m \<times> 'q) option"
  spsc_pop :: "nat \<Rightarrow> 'q \<Rightarrow> 'm list \<times> 'q"
  spsc_empty :: "'q \<Rightarrow> bool"

definition queue_length :: nat where "queue_length = 128"
definition batch_size :: nat where "batch_size = 16"
definition prefetch_cnt :: nat where "prefetch_cnt = 2"

lemmas queue_consts = queue_length_def batch_size_def prefetch_cnt_def

text \<open>\<open>items\<close> are the entries of the queue, oldest first. \<open>push\<close> of a range takes as many elements as
  there is space and returns how far it came, \<open>pop\<close> into an array takes as many as the array holds.\<close>

locale spsc_queue =
  fixes Q :: "('m, 'q) spsc" and items :: "'q \<Rightarrow> 'm list"
  assumes push_law: "length (items q) \<le> queue_length \<Longrightarrow>
      \<exists>q'. spsc_push Q xs q = (min (length xs) (queue_length - length (items q)), q') \<and>
        items q' = items q @ take (queue_length - length (items q)) xs"
    and pop_one_law: "case spsc_pop_one Q q of None \<Rightarrow> items q = [] | Some (m, q') \<Rightarrow> items q = m # items q'"
    and pop_law: "\<exists>q'. spsc_pop Q n q = (take n (items q), q') \<and> items q' = drop n (items q)"
    and empty_law: "spsc_empty Q q \<longleftrightarrow> items q = []"

section \<open>The queue of a pair of shards\<close>

text \<open>\<open>pending_fifo\<close> lives in a union and does not exist before \<open>start\<close>.\<close>

record ('m, 'q) msg_queue =
  mq_pending :: 'q
  pending_fifo :: "'m list option"
  mq_sent :: u64
  last_snt_batch :: u64
  current_queue_length :: u64
  mq_received :: u64
  last_rcv_batch :: u64

definition mq_new :: "'q \<Rightarrow> ('m, 'q) msg_queue" where
  "mq_new q = \<lparr>mq_pending = q, pending_fifo = None, mq_sent = 0, last_snt_batch = 0, current_queue_length = 0,
     mq_received = 0, last_rcv_batch = 0\<rparr>"

definition mq_start :: "('m, 'q) msg_queue \<Rightarrow> ('m, 'q) msg_queue" where
  "mq_start a = a\<lparr>pending_fifo := Some []\<rparr>"

definition the_fifo :: "('m, 'q) msg_queue \<Rightarrow> 'm list res" where
  "the_fifo a = (case pending_fifo a of None \<Rightarrow> Inl Uninitialised | Some f \<Rightarrow> Inr f)"

text \<open>The second component says that the remote reactor was told (\<open>maybe_wakeup\<close>).\<close>

definition move_pending :: "('m, 'q) spsc \<Rightarrow> ('m, 'q) msg_queue \<Rightarrow> (('m, 'q) msg_queue \<times> bool) res" where
  "move_pending Q a =
     bind_res (the_fifo a) (\<lambda>f.
       case spsc_push Q f (mq_pending a) of (nr, q) \<Rightarrow>
         if nr = 0 then Inr (a\<lparr>mq_pending := q\<rparr>, False)
         else Inr (a\<lparr>mq_pending := q, pending_fifo := Some (drop nr f),
                     current_queue_length := current_queue_length a + word_of_nat nr,
                     last_snt_batch := word_of_nat nr, mq_sent := mq_sent a + word_of_nat nr\<rparr>, True))"

definition move_full_batch :: "('m, 'q) spsc \<Rightarrow> 'm list \<Rightarrow> ('m, 'q) msg_queue \<Rightarrow> (('m, 'q) msg_queue \<times> bool) res" where
  "move_full_batch Q f a =
     (let a1 = a\<lparr>pending_fifo := Some f\<rparr> in if batch_size \<le> length f then move_pending Q a1 else Inr (a1, False))"

definition mq_send :: "('m, 'q) spsc \<Rightarrow> 'm \<Rightarrow> ('m, 'q) msg_queue \<Rightarrow> (('m, 'q) msg_queue \<times> bool) res" where
  "mq_send Q m a = bind_res (the_fifo a) (\<lambda>f. move_full_batch Q (f @ [m]) a)"

definition mq_send_urgent :: "('m, 'q) spsc \<Rightarrow> 'm \<Rightarrow> ('m, 'q) msg_queue \<Rightarrow> (('m, 'q) msg_queue \<times> bool) res" where
  "mq_send_urgent Q m a = bind_res (the_fifo a) (\<lambda>f. move_full_batch Q (m # f) a)"

definition flush_request_batch :: "('m, 'q) spsc \<Rightarrow> ('m, 'q) msg_queue \<Rightarrow> (('m, 'q) msg_queue \<times> bool) res" where
  "flush_request_batch Q a =
     bind_res (the_fifo a) (\<lambda>f. if f \<noteq> [] then move_pending Q a else Inr (a, False))"

definition pure_poll_rx :: "('m, 'q) spsc \<Rightarrow> ('m, 'q) msg_queue \<Rightarrow> bool" where
  "pure_poll_rx Q a \<longleftrightarrow> \<not> spsc_empty Q (mq_pending a)"

text \<open>The loop over the array: deliver \<open>tm\<close>, load the next entry, until \<open>nr\<close> entries were loaded. An
  entry that was not written is indeterminate.\<close>

function incoming_loop :: "'m option list \<Rightarrow> nat \<Rightarrow> nat \<Rightarrow> 'm \<Rightarrow> 'm list \<Rightarrow> 'm list res" where
  "incoming_loop messages nr i tm got =
     (if i < length messages then
        (if i + 1 \<le> nr then
           (case messages ! i of
              None \<Rightarrow> Inl Uninitialised
            | Some m \<Rightarrow> incoming_loop messages nr (i + 1) m (got @ [tm]))
         else Inr (got @ [tm]))
      else Inl Out_of_bounds)"
  by pat_completeness auto
termination
  by (relation "measure (\<lambda>(messages, nr, i, tm, got). nr - i)") auto

declare incoming_loop.simps [simp del]

text \<open>\<open>between\<close> is what the sending shard does between the two \<open>pop\<close>s.\<close>

definition process_incoming ::
    "('m, 'q) spsc \<Rightarrow> (('m, 'q) msg_queue \<Rightarrow> ('m, 'q) msg_queue res) \<Rightarrow> ('m, 'q) msg_queue \<Rightarrow>
     ('m list \<times> ('m, 'q) msg_queue) res" where
  "process_incoming Q between a =
     (case spsc_pop_one Q (mq_pending a) of
        None \<Rightarrow> Inr ([], a)
      | Some (tm, q) \<Rightarrow>
          bind_res (between (a\<lparr>mq_pending := q\<rparr>)) (\<lambda>a1.
            case spsc_pop Q (queue_length + prefetch_cnt) (mq_pending a1) of (ms, q1) \<Rightarrow>
              let nr = length ms
              in bind_res (mem_store 0 (map Some ms) (replicate (queue_length + prefetch_cnt) None)) (\<lambda>arr.
                 bind_res (mem_store nr (replicate prefetch_cnt (if nr \<noteq> 0 then arr ! (nr - 1) else Some tm)) arr) (\<lambda>arr1.
                 bind_res (incoming_loop arr1 nr 0 tm []) (\<lambda>got.
                   Inr (got, a1\<lparr>mq_pending := q1, mq_received := mq_received a1 + word_of_nat (nr + 1),
                                last_rcv_batch := word_of_nat (nr + 1)\<rparr>))))))"

section \<open>What the two sides do\<close>

datatype 'm tx_op = Tx_send 'm | Tx_urgent 'm | Tx_flush
text \<open>\<open>Rx ts\<close>: the receiver takes what there is, while the sender does \<open>ts\<close>; between the two \<open>pop\<close>s if the
  first one finds a message, and otherwise after the call returned.\<close>

datatype 'm mq_op = Tx "'m tx_op" | Rx "'m tx_op list"

fun tx_step :: "('m, 'q) spsc \<Rightarrow> 'm tx_op \<Rightarrow> ('m, 'q) msg_queue \<Rightarrow> ('m, 'q) msg_queue res" where
  "tx_step Q (Tx_send m) a = bind_res (mq_send Q m a) (\<lambda>(a1, woken). Inr a1)"
| "tx_step Q (Tx_urgent m) a = bind_res (mq_send_urgent Q m a) (\<lambda>(a1, woken). Inr a1)"
| "tx_step Q Tx_flush a = bind_res (flush_request_batch Q a) (\<lambda>(a1, woken). Inr a1)"

definition tx_steps :: "('m, 'q) spsc \<Rightarrow> 'm tx_op list \<Rightarrow> ('m, 'q) msg_queue \<Rightarrow> ('m, 'q) msg_queue res" where
  "tx_steps Q ops = fold_res (tx_step Q) ops"

fun mq_step :: "('m, 'q) spsc \<Rightarrow> 'm mq_op \<Rightarrow> ('m, 'q) msg_queue \<times> 'm list \<Rightarrow> (('m, 'q) msg_queue \<times> 'm list) res" where
  "mq_step Q (Tx t) (a, got) = bind_res (tx_step Q t a) (\<lambda>a1. Inr (a1, got))"
| "mq_step Q (Rx ts) (a, got) =
     bind_res (process_incoming Q (tx_steps Q ts) a) (\<lambda>(ms, a1).
       if ms = [] then bind_res (tx_steps Q ts a1) (\<lambda>a2. Inr (a2, got)) else Inr (a1, got @ ms))"

definition mq_run :: "('m, 'q) spsc \<Rightarrow> 'm mq_op list \<Rightarrow> ('m, 'q) msg_queue \<times> 'm list \<Rightarrow> (('m, 'q) msg_queue \<times> 'm list) res" where
  "mq_run Q ops = fold_res (mq_step Q) ops"

fun tx_msgs :: "'m tx_op \<Rightarrow> 'm list" where
  "tx_msgs (Tx_send m) = [m]"
| "tx_msgs (Tx_urgent m) = [m]"
| "tx_msgs Tx_flush = []"

fun tx_normal :: "'m tx_op \<Rightarrow> bool" where
  "tx_normal (Tx_urgent m) = False"
| "tx_normal (Tx_send m) = True"
| "tx_normal Tx_flush = True"

fun op_tx :: "'m mq_op \<Rightarrow> 'm tx_op list" where
  "op_tx (Tx t) = [t]"
| "op_tx (Rx ts) = ts"

definition sent_msgs :: "'m tx_op list \<Rightarrow> 'm list" where
  "sent_msgs ts = concat (map tx_msgs ts)"

section \<open>Delivery\<close>

definition mq_fifo :: "('m, 'q) msg_queue \<Rightarrow> 'm list" where
  "mq_fifo a = (case pending_fifo a of None \<Rightarrow> [] | Some f \<Rightarrow> f)"

lemma incoming_loop_ok:
  assumes "i \<le> length ms" and "take (length ms) messages = map Some ms" and "length ms < length messages"
  shows "incoming_loop messages (length ms) i tm got = Inr (got @ tm # drop i ms)"
  using assms(1)
proof (induction "length ms - i" arbitrary: i tm got)
  case 0
  then show ?case using assms(3) by (subst incoming_loop.simps) simp
next
  case (Suc n)
  then have i: "i < length ms" by simp
  then have "messages ! i = Some (ms ! i)" using assms(2) by (metis nth_map nth_take)
  moreover have "incoming_loop messages (length ms) (i + 1) (ms ! i) (got @ [tm]) = Inr ((got @ [tm]) @ ms ! i # drop (i + 1) ms)"
    using Suc i by simp
  ultimately show ?case
    using i assms(3) by (subst incoming_loop.simps) (simp add: Cons_nth_drop_Suc)
qed

context spsc_queue
begin

text \<open>\<open>mq_ok n r a\<close>: \<open>n\<close> messages have left the lock-free queue, \<open>r\<close> are counted as received.\<close>

definition mq_ok :: "nat \<Rightarrow> nat \<Rightarrow> ('m, 'q) msg_queue \<Rightarrow> bool" where
  "mq_ok n r a \<longleftrightarrow> length (items (mq_pending a)) \<le> queue_length \<and> pending_fifo a \<noteq> None \<and>
     mq_sent a = word_of_nat (n + length (items (mq_pending a))) \<and> current_queue_length a = mq_sent a \<and>
     mq_received a = word_of_nat r"

definition in_flight :: "('m, 'q) msg_queue \<Rightarrow> 'm list" where
  "in_flight a = items (mq_pending a) @ mq_fifo a"

lemma move_pending_ok:
  assumes "mq_ok n r a"
  shows "\<exists>a' w. move_pending Q a = Inr (a', w) \<and> mq_ok n r a' \<and> in_flight a' = in_flight a \<and>
    items (mq_pending a') = take queue_length (in_flight a) \<and> mq_fifo a' = drop queue_length (in_flight a) \<and>
    prefix (items (mq_pending a)) (items (mq_pending a'))"
proof -
  from assms obtain f where f: "pending_fifo a = Some f" by (auto simp: mq_ok_def)
  let ?k = "queue_length - length (items (mq_pending a))"
  have len: "length (items (mq_pending a)) \<le> queue_length" using assms by (simp add: mq_ok_def)
  from push_law [OF len, of f] obtain q where q: "spsc_push Q f (mq_pending a) = (min (length f) ?k, q)"
    "items q = items (mq_pending a) @ take ?k f" by blast
  have t: "take queue_length (in_flight a) = items q" "drop queue_length (in_flight a) = drop ?k f"
    using len f q(2) by (simp_all add: in_flight_def mq_fifo_def)
  have d: "drop (min (length f) ?k) f = drop ?k f" by (simp add: min_def)
  show ?thesis
  proof (cases "min (length f) ?k = 0")
    case True
    then have "take ?k f = []" "drop ?k f = f" by (auto simp: min_def split: if_splits)
    then show ?thesis
      using True f q t assms len by (auto simp: move_pending_def the_fifo_def mq_ok_def in_flight_def mq_fifo_def)
  next
    case False
    then show ?thesis
      using f q t d assms len
      by (auto simp: move_pending_def the_fifo_def mq_ok_def in_flight_def mq_fifo_def min.commute)
  qed
qed

lemma move_full_batch_ok:
  assumes "mq_ok n r a"
  shows "\<exists>a' w. move_full_batch Q f a = Inr (a', w) \<and> mq_ok n r a' \<and> in_flight a' = items (mq_pending a) @ f \<and>
    prefix (items (mq_pending a)) (items (mq_pending a'))"
proof -
  have "mq_ok n r (a\<lparr>pending_fifo := Some f\<rparr>)" using assms by (simp add: mq_ok_def)
  moreover from move_pending_ok [OF this] obtain a' w where
    "move_pending Q (a\<lparr>pending_fifo := Some f\<rparr>) = Inr (a', w)" "mq_ok n r a'"
    "in_flight a' = in_flight (a\<lparr>pending_fifo := Some f\<rparr>)"
    "prefix (items (mq_pending (a\<lparr>pending_fifo := Some f\<rparr>))) (items (mq_pending a'))" by blast
  ultimately show ?thesis by (auto simp: move_full_batch_def Let_def in_flight_def mq_fifo_def)
qed

lemma tx_step_ok:
  assumes "mq_ok n r a"
  shows "\<exists>a'. tx_step Q t a = Inr a' \<and> mq_ok n r a' \<and> mset (in_flight a') = mset (in_flight a) + mset (tx_msgs t) \<and>
    (tx_normal t \<longrightarrow> in_flight a' = in_flight a @ tx_msgs t) \<and>
    prefix (items (mq_pending a)) (items (mq_pending a'))"
proof -
  from assms obtain f where f: "pending_fifo a = Some f" by (auto simp: mq_ok_def)
  then have fl: "in_flight a = items (mq_pending a) @ f" by (simp add: in_flight_def mq_fifo_def)
  show ?thesis
  proof (cases t)
    case (Tx_send m)
    from move_full_batch_ok [OF assms, of "f @ [m]"] show ?thesis
      using f Tx_send fl by (auto simp: mq_send_def the_fifo_def)
  next
    case (Tx_urgent m)
    from move_full_batch_ok [OF assms, of "m # f"] show ?thesis
      using f Tx_urgent fl by (auto simp: mq_send_urgent_def the_fifo_def)
  next
    case Tx_flush
    from move_pending_ok [OF assms] show ?thesis
      using f Tx_flush assms by (auto simp: flush_request_batch_def the_fifo_def)
  qed
qed

lemma tx_steps_ok:
  "mq_ok n r a \<Longrightarrow> \<exists>a'. tx_steps Q ts a = Inr a' \<and> mq_ok n r a' \<and>
    mset (in_flight a') = mset (in_flight a) + mset (sent_msgs ts) \<and>
    (list_all tx_normal ts \<longrightarrow> in_flight a' = in_flight a @ sent_msgs ts) \<and>
    prefix (items (mq_pending a)) (items (mq_pending a'))"
proof (induction ts arbitrary: a)
  case Nil
  then show ?case by (simp add: tx_steps_def sent_msgs_def)
next
  case (Cons t ts)
  from tx_step_ok [OF Cons.prems] obtain a1 where a1: "tx_step Q t a = Inr a1" "mq_ok n r a1"
    "mset (in_flight a1) = mset (in_flight a) + mset (tx_msgs t)"
    "tx_normal t \<longrightarrow> in_flight a1 = in_flight a @ tx_msgs t"
    "prefix (items (mq_pending a)) (items (mq_pending a1))" by blast
  from Cons.IH [OF a1(2)] show ?case
    using a1 by (auto simp: tx_steps_def sent_msgs_def intro: prefix_order.trans)
qed

lemma process_incoming_ok:
  assumes "mq_ok n n a"
  shows "\<exists>ms a'. process_incoming Q (tx_steps Q ts) a = Inr (ms, a') \<and> mq_ok (n + length ms) (n + length ms) a' \<and>
    (if ms = [] then a' = a \<and> items (mq_pending a) = []
     else mset (ms @ in_flight a') = mset (in_flight a) + mset (sent_msgs ts) \<and>
       (list_all tx_normal ts \<longrightarrow> ms @ in_flight a' = in_flight a @ sent_msgs ts) \<and>
       items (mq_pending a') = [] \<and> prefix (items (mq_pending a)) ms)"
proof (cases "spsc_pop_one Q (mq_pending a)")
  case None
  then show ?thesis using assms pop_one_law [of "mq_pending a"] by (simp add: process_incoming_def)
next
  case (Some x)
  obtain tm q where x: "x = (tm, q)" by force
  have it: "items (mq_pending a) = tm # items q" using pop_one_law [of "mq_pending a"] Some x by simp
  let ?a = "a\<lparr>mq_pending := q\<rparr>"
  have ok: "mq_ok (Suc n) n ?a" using assms it by (simp add: mq_ok_def)
  have fl: "in_flight a = tm # in_flight ?a" using it by (simp add: in_flight_def mq_fifo_def)
  from tx_steps_ok [OF ok, of ts] obtain a1 where a1: "tx_steps Q ts ?a = Inr a1" "mq_ok (Suc n) n a1"
    "mset (in_flight a1) = mset (in_flight ?a) + mset (sent_msgs ts)"
    "list_all tx_normal ts \<longrightarrow> in_flight a1 = in_flight ?a @ sent_msgs ts"
    "prefix (items q) (items (mq_pending a1))" by fastforce
  let ?ms = "items (mq_pending a1)"
  have len: "length ?ms \<le> queue_length" using a1(2) by (simp add: mq_ok_def)
  obtain q1 where q1: "spsc_pop Q (queue_length + prefetch_cnt) (mq_pending a1) = (?ms, q1)" "items q1 = []"
    using pop_law [of "queue_length + prefetch_cnt" "mq_pending a1"] len by auto
  let ?arr = "map Some ?ms @ replicate (queue_length + prefetch_cnt - length ?ms) None"
  have s1: "mem_store 0 (map Some ?ms) (replicate (queue_length + prefetch_cnt) None) = Inr ?arr"
    using len by (simp add: mem_store_def)
  let ?v = "if length ?ms \<noteq> 0 then ?arr ! (length ?ms - 1) else Some tm"
  obtain arr1 where arr1: "mem_store (length ?ms) (replicate prefetch_cnt ?v) ?arr = Inr arr1"
    "take (length ?ms) arr1 = map Some ?ms" "length arr1 = queue_length + prefetch_cnt"
    using len by (simp add: mem_store_def)
  have got: "incoming_loop arr1 (length ?ms) 0 tm [] = Inr (tm # ?ms)"
    using incoming_loop_ok [of 0 ?ms arr1 tm "[]"] arr1 len by (simp add: prefetch_cnt_def)
  let ?a2 = "a1\<lparr>mq_pending := q1, mq_received := mq_received a1 + word_of_nat (length ?ms + 1),
     last_rcv_batch := word_of_nat (length ?ms + 1)\<rparr>"
  have "process_incoming Q (tx_steps Q ts) a = Inr (tm # ?ms, ?a2)"
    using Some x a1(1) q1(1) s1 arr1(1) got by (simp add: process_incoming_def Let_def)
  moreover have "mq_ok (n + length (tm # ?ms)) (n + length (tm # ?ms)) ?a2"
    using a1(2) q1(2) by (simp add: mq_ok_def)
  moreover have "(tm # ?ms) @ in_flight ?a2 = tm # in_flight a1" using q1(2) by (simp add: in_flight_def mq_fifo_def)
  moreover have "prefix (items (mq_pending a)) (tm # ?ms)" using it a1(5) by simp
  ultimately show ?thesis using a1(3,4) fl q1(2) by auto
qed

lemma mq_step_ok:
  assumes "mq_ok (length got) (length got) a"
  shows "\<exists>a' ms. mq_step Q x (a, got) = Inr (a', got @ ms) \<and>
    mq_ok (length (got @ ms)) (length (got @ ms)) a' \<and>
    mset (ms @ in_flight a') = mset (in_flight a) + mset (sent_msgs (op_tx x)) \<and>
    (list_all tx_normal (op_tx x) \<longrightarrow> ms @ in_flight a' = in_flight a @ sent_msgs (op_tx x))"
proof (cases x)
  case (Tx t)
  from tx_step_ok [OF assms, of t] show ?thesis using Tx by (force simp: sent_msgs_def)
next
  case (Rx ts)
  from process_incoming_ok [OF assms, of ts] obtain ms a1 where
    p: "process_incoming Q (tx_steps Q ts) a = Inr (ms, a1)"
    "mq_ok (length got + length ms) (length got + length ms) a1"
    "if ms = [] then a1 = a \<and> items (mq_pending a) = []
     else mset (ms @ in_flight a1) = mset (in_flight a) + mset (sent_msgs ts) \<and>
       (list_all tx_normal ts \<longrightarrow> ms @ in_flight a1 = in_flight a @ sent_msgs ts) \<and>
       items (mq_pending a1) = [] \<and> prefix (items (mq_pending a)) ms" by blast
  show ?thesis
  proof (cases "ms = []")
    case True
    then have a1: "a1 = a" using p(3) by simp
    from tx_steps_ok [OF assms, of ts] obtain a2 where a2: "tx_steps Q ts a = Inr a2"
      "mq_ok (length got) (length got) a2" "mset (in_flight a2) = mset (in_flight a) + mset (sent_msgs ts)"
      "list_all tx_normal ts \<longrightarrow> in_flight a2 = in_flight a @ sent_msgs ts" by blast
    have "mq_step Q x (a, got) = Inr (a2, got @ [])" using True a1 p(1) a2(1) Rx by simp
    then show ?thesis using a2 Rx by fastforce
  next
    case False
    then have "mq_step Q x (a, got) = Inr (a1, got @ ms)" using p(1) Rx by simp
    then show ?thesis using False p(2,3) Rx by auto
  qed
qed

lemma mq_run_ok:
  "mq_ok (length got) (length got) a \<Longrightarrow>
   \<exists>a' ms. mq_run Q xs (a, got) = Inr (a', got @ ms) \<and>
     mq_ok (length (got @ ms)) (length (got @ ms)) a' \<and>
     mset (ms @ in_flight a') = mset (in_flight a) + mset (sent_msgs (concat (map op_tx xs))) \<and>
     (list_all tx_normal (concat (map op_tx xs)) \<longrightarrow>
        ms @ in_flight a' = in_flight a @ sent_msgs (concat (map op_tx xs)))"
proof (induction xs arbitrary: a got)
  case Nil
  then show ?case by (simp add: mq_run_def sent_msgs_def)
next
  case (Cons x xs)
  from mq_step_ok [OF Cons.prems, of x] obtain a1 ms1 where 1: "mq_step Q x (a, got) = Inr (a1, got @ ms1)"
    "mq_ok (length (got @ ms1)) (length (got @ ms1)) a1"
    "mset (ms1 @ in_flight a1) = mset (in_flight a) + mset (sent_msgs (op_tx x))"
    "list_all tx_normal (op_tx x) \<longrightarrow> ms1 @ in_flight a1 = in_flight a @ sent_msgs (op_tx x)" by blast
  from Cons.IH [OF 1(2)] obtain a2 ms2 where 2: "mq_run Q xs (a1, got @ ms1) = Inr (a2, (got @ ms1) @ ms2)"
    "mq_ok (length ((got @ ms1) @ ms2)) (length ((got @ ms1) @ ms2)) a2"
    "mset (ms2 @ in_flight a2) = mset (in_flight a1) + mset (sent_msgs (concat (map op_tx xs)))"
    "list_all tx_normal (concat (map op_tx xs)) \<longrightarrow>
       ms2 @ in_flight a2 = in_flight a1 @ sent_msgs (concat (map op_tx xs))" by blast
  have "mq_run Q (x # xs) (a, got) = Inr (a2, got @ (ms1 @ ms2))" using 1(1) 2(1) by (simp add: mq_run_def)
  moreover have "mset ((ms1 @ ms2) @ in_flight a2) = mset (in_flight a) + mset (sent_msgs (concat (map op_tx (x # xs))))"
    using 1(3) 2(3) by (simp add: sent_msgs_def)
  moreover have "list_all tx_normal (concat (map op_tx (x # xs))) \<longrightarrow>
      (ms1 @ ms2) @ in_flight a2 = in_flight a @ sent_msgs (concat (map op_tx (x # xs)))"
    using 1(4) 2(4) by (auto simp: sent_msgs_def)
  ultimately show ?case using 2(2) by (metis append.assoc)
qed

lemma mq_start_ok: "items q = [] \<Longrightarrow> mq_ok 0 0 (mq_start (mq_new q))"
  by (simp add: mq_ok_def mq_start_def mq_new_def)

lemma in_flight_start [simp]: "items q = [] \<Longrightarrow> in_flight (mq_start (mq_new q)) = []"
  by (simp add: in_flight_def mq_fifo_def mq_start_def mq_new_def)

text \<open>The statistics: \<open>_sent\<close> counts what entered the lock-free queue, \<open>_current_queue_length\<close> is the same
  number, and \<open>_received\<close> what was delivered.\<close>

theorem started_queue_run:
  assumes "items q = []"
  shows "\<exists>a got. mq_run Q xs (mq_start (mq_new q), []) = Inr (a, got) \<and>
    mset got + mset (items (mq_pending a)) + mset (mq_fifo a) = mset (sent_msgs (concat (map op_tx xs))) \<and>
    (list_all tx_normal (concat (map op_tx xs)) \<longrightarrow>
       got @ items (mq_pending a) @ mq_fifo a = sent_msgs (concat (map op_tx xs))) \<and>
    mq_sent a = word_of_nat (length got + length (items (mq_pending a))) \<and>
    mq_received a = word_of_nat (length got) \<and> current_queue_length a = mq_sent a \<and>
    length (items (mq_pending a)) \<le> queue_length"
proof -
  have ok: "mq_ok (length []) (length []) (mq_start (mq_new q))" using mq_start_ok [OF assms] by simp
  obtain a got where "mq_run Q xs (mq_start (mq_new q), []) = Inr (a, [] @ got)"
    "mq_ok (length ([] @ got)) (length ([] @ got)) a"
    "mset (got @ in_flight a) = mset (sent_msgs (concat (map op_tx xs)))"
    "list_all tx_normal (concat (map op_tx xs)) \<longrightarrow> got @ in_flight a = sent_msgs (concat (map op_tx xs))"
    using mq_run_ok [OF ok, of xs] unfolding in_flight_start [OF assms] mset.simps add_0 append_Nil by blast
  then show ?thesis by (auto simp: mq_ok_def in_flight_def add.assoc)
qed

text \<open>A flush by the sender and a poll by the receiver make progress.\<close>

lemma drain_round:
  assumes "mq_ok (length got) (length got) a"
  shows "\<exists>a' ms. mq_run Q [Tx Tx_flush, Rx []] (a, got) = Inr (a', got @ ms) \<and>
    mq_ok (length (got @ ms)) (length (got @ ms)) a' \<and> ms @ in_flight a' = in_flight a \<and> (in_flight a \<noteq> [] \<longrightarrow> ms \<noteq> [])"
proof -
  from assms obtain f where f: "pending_fifo a = Some f" by (auto simp: mq_ok_def)
  have "\<exists>a1. tx_step Q Tx_flush a = Inr a1 \<and> mq_ok (length got) (length got) a1 \<and> in_flight a1 = in_flight a \<and>
      (in_flight a \<noteq> [] \<longrightarrow> items (mq_pending a1) \<noteq> [])"
  proof (cases "f = []")
    case True
    then show ?thesis
      using f assms by (simp add: flush_request_batch_def the_fifo_def in_flight_def mq_fifo_def)
  next
    case False
    then show ?thesis
      using move_pending_ok [OF assms] f by (auto simp: flush_request_batch_def the_fifo_def queue_length_def)
  qed
  then obtain a1 where a1: "tx_step Q Tx_flush a = Inr a1" "mq_ok (length got) (length got) a1"
    "in_flight a1 = in_flight a" "in_flight a \<noteq> [] \<longrightarrow> items (mq_pending a1) \<noteq> []" by blast
  from process_incoming_ok [OF a1(2), of "[]"] obtain ms a2 where
    p: "process_incoming Q (tx_steps Q []) a1 = Inr (ms, a2)" "mq_ok (length got + length ms) (length got + length ms) a2"
    "if ms = [] then a2 = a1 \<and> items (mq_pending a1) = []
     else mset (ms @ in_flight a2) = mset (in_flight a1) + mset (sent_msgs []) \<and>
       (list_all tx_normal ([] :: 'm tx_op list) \<longrightarrow> ms @ in_flight a2 = in_flight a1 @ sent_msgs []) \<and>
       items (mq_pending a2) = [] \<and> prefix (items (mq_pending a1)) ms" by blast
  have "mq_run Q [Tx Tx_flush, Rx []] (a, got) = Inr (a2, got @ ms)"
    using a1(1) p(1,3) by (auto simp: mq_run_def tx_steps_def)
  moreover have "ms @ in_flight a2 = in_flight a" using p(3) a1(3) by (cases "ms = []") (simp_all add: sent_msgs_def)
  moreover have "in_flight a \<noteq> [] \<longrightarrow> ms \<noteq> []" using p(3) a1(4) by auto
  ultimately show ?thesis using p(2) by auto
qed

lemma mq_run_append: "mq_run Q (xs @ ys) ag = bind_res (mq_run Q xs ag) (mq_run Q ys)"
  by (simp add: mq_run_def fold_res_append)

lemma drain_ok:
  "mq_ok (length got) (length got) a \<Longrightarrow> length (in_flight a) \<le> k \<Longrightarrow>
   \<exists>a'. mq_run Q (concat (replicate k [Tx Tx_flush, Rx []])) (a, got) = Inr (a', got @ in_flight a) \<and> in_flight a' = []"
proof (induction k arbitrary: a got)
  case 0
  then show ?case by (simp add: mq_run_def)
next
  case (Suc k)
  from drain_round [OF Suc.prems(1)] obtain a1 ms where 1: "mq_run Q [Tx Tx_flush, Rx []] (a, got) = Inr (a1, got @ ms)"
    "mq_ok (length (got @ ms)) (length (got @ ms)) a1" "ms @ in_flight a1 = in_flight a" "in_flight a \<noteq> [] \<longrightarrow> ms \<noteq> []"
    by blast
  have "length (in_flight a) = length ms + length (in_flight a1)" using arg_cong [OF 1(3), of length] by simp
  moreover have "length ms \<noteq> 0 \<or> length (in_flight a) = 0" using 1(4) by auto
  ultimately have "length (in_flight a1) \<le> k" using Suc.prems(2) by linarith
  from Suc.IH [OF 1(2) this] obtain a2 where
    "mq_run Q (concat (replicate k [Tx Tx_flush, Rx []])) (a1, got @ ms) = Inr (a2, (got @ ms) @ in_flight a1)"
    "in_flight a2 = []" by blast
  then show ?case
    unfolding replicate_Suc concat.simps mq_run_append 1(1) bind_res_simps 1(3) [symmetric] append.assoc by blast
qed

theorem started_queue_drains:
  assumes "items q = []" and "length (sent_msgs (concat (map op_tx xs))) \<le> k"
  shows "\<exists>a got. mq_run Q (xs @ concat (replicate k [Tx Tx_flush, Rx []])) (mq_start (mq_new q), []) = Inr (a, got) \<and>
    mset got = mset (sent_msgs (concat (map op_tx xs))) \<and>
    (list_all tx_normal (concat (map op_tx xs)) \<longrightarrow> got = sent_msgs (concat (map op_tx xs)))"
proof -
  have ok: "mq_ok (length []) (length []) (mq_start (mq_new q))" using mq_start_ok [OF assms(1)] by simp
  obtain a got where 1: "mq_run Q xs (mq_start (mq_new q), []) = Inr (a, [] @ got)"
    "mq_ok (length ([] @ got)) (length ([] @ got)) a"
    "mset (got @ in_flight a) = mset (sent_msgs (concat (map op_tx xs)))"
    "list_all tx_normal (concat (map op_tx xs)) \<longrightarrow> got @ in_flight a = sent_msgs (concat (map op_tx xs))"
    using mq_run_ok [OF ok, of xs] unfolding in_flight_start [OF assms(1)] mset.simps add_0 append_Nil by blast
  have "length (got @ in_flight a) \<le> k" using assms(2) arg_cong [OF 1(3), of size] unfolding size_mset by simp
  then have "length (in_flight a) \<le> k" by simp
  with drain_ok [of got a k] 1(2) obtain a' where
    "mq_run Q (concat (replicate k [Tx Tx_flush, Rx []])) (a, got) = Inr (a', got @ in_flight a)" by auto
  then show ?thesis using 1 mq_run_append by auto
qed

end

section \<open>A bounded list is such a queue\<close>

definition list_spsc :: "('m, 'm list) spsc" where
  "list_spsc = \<lparr>
     spsc_push = (\<lambda>xs q. let n = min (length xs) (queue_length - length q) in (n, q @ take n xs)),
     spsc_pop_one = (\<lambda>q. case q of [] \<Rightarrow> None | m # q' \<Rightarrow> Some (m, q')),
     spsc_pop = (\<lambda>n q. (take n q, drop n q)),
     spsc_empty = (\<lambda>q. q = [])\<rparr>"

interpretation lq: spsc_queue list_spsc "\<lambda>q. q"
  by unfold_locales (auto simp: list_spsc_def Let_def min_def split: list.split)

text \<open>A message queue between two shards loses nothing and duplicates nothing. Whatever the two
  shards do after \<open>start\<close>, in whatever order (sends, urgent sends, flushes, and \<open>process_incoming\<close> calls
  that the sender interrupts between their two \<open>pop\<close>s), no operation reads memory that does not exist,
  the messages delivered to the receiving shard together with those still in the two queues are exactly
  the messages sent, and if no message was urgent they are delivered in the order they were sent. The
  hypothesis is the documented behaviour of \<open>boost::lockfree::spsc_queue\<close>.\<close>

theorem queue_delivers_exactly_once:
  assumes "spsc_queue Q items" and "items q = []"
  shows "\<exists>a got. mq_run Q xs (mq_start (mq_new q), []) = Inr (a, got) \<and>
    mset got + mset (items (mq_pending a)) + mset (mq_fifo a) = mset (sent_msgs (concat (map op_tx xs))) \<and>
    (list_all tx_normal (concat (map op_tx xs)) \<longrightarrow>
       got @ items (mq_pending a) @ mq_fifo a = sent_msgs (concat (map op_tx xs)))"
  using spsc_queue.started_queue_run [OF assms, of xs] by blast

theorem queue_delivers_exactly_once_witness:
  "\<exists>a got. mq_run list_spsc [Tx (Tx_send (1::nat)), Rx [], Tx Tx_flush, Tx (Tx_send 2), Rx [Tx_send 3, Tx_flush]]
      (mq_start (mq_new []), []) = Inr (a, got) \<and>
    got @ mq_pending a @ mq_fifo a = [1, 2, 3]"
  using queue_delivers_exactly_once [OF lq.spsc_queue_axioms, of "[]"
      "[Tx (Tx_send (1::nat)), Rx [], Tx Tx_flush, Tx (Tx_send 2), Rx [Tx_send 3, Tx_flush]]"]
  by (auto simp: sent_msgs_def)

text \<open>C32: Whatever was sent arrives. After any history, as many rounds of a flush by the sender and a
  \<open>process_incoming\<close> by the receiver as there are messages are enough for the receiver to have got every
  message ever sent, in the order of the sends if none was urgent.\<close>

theorem queue_drains:
  assumes "spsc_queue Q items" and "items q = []" and "length (sent_msgs (concat (map op_tx xs))) \<le> k"
  shows "\<exists>a got. mq_run Q (xs @ concat (replicate k [Tx Tx_flush, Rx []])) (mq_start (mq_new q), []) = Inr (a, got) \<and>
    mset got = mset (sent_msgs (concat (map op_tx xs))) \<and>
    (list_all tx_normal (concat (map op_tx xs)) \<longrightarrow> got = sent_msgs (concat (map op_tx xs)))"
  by (rule spsc_queue.started_queue_drains [OF assms])

theorem queue_drains_witness:
  "\<exists>a. mq_run list_spsc ([Tx (Tx_send (1::nat)), Tx (Tx_send 2)] @ concat (replicate 2 [Tx Tx_flush, Rx []]))
      (mq_start (mq_new []), []) = Inr (a, [1, 2])"
  using queue_drains [OF lq.spsc_queue_axioms, of "[]" "[Tx (Tx_send (1::nat)), Tx (Tx_send 2)]" 2]
  by (auto simp: sent_msgs_def)

text \<open>\<open>_current_queue_length\<close>, exported as the metric \<open>send_queue_length\<close>, is not the length of a
  queue: it always equals the total number of messages ever put into the lock-free queue, because no
  operation decreases it; \<open>_received\<close> counts the delivered messages.\<close>

theorem queue_length_metric_only_grows:
  assumes "spsc_queue Q items" and "items q = []"
  shows "\<exists>a got. mq_run Q xs (mq_start (mq_new q), []) = Inr (a, got) \<and>
    current_queue_length a = word_of_nat (length got + length (items (mq_pending a))) \<and>
    mq_received a = word_of_nat (length got)"
  using spsc_queue.started_queue_run [OF assms, of xs] by auto

theorem queue_length_metric_only_grows_witness:
  "\<exists>a got. mq_run list_spsc [Tx (Tx_send (1::nat)), Tx Tx_flush, Rx []] (mq_start (mq_new []), []) = Inr (a, got) \<and>
    current_queue_length a = word_of_nat (length got + length (mq_pending a)) \<and>
    mq_received a = word_of_nat (length got)"
  using queue_length_metric_only_grows [OF lq.spsc_queue_axioms, of "[]" "[Tx (Tx_send (1::nat)), Tx Tx_flush, Rx []]"]
  by blast

end
