(* ===== verification/Channel_Matrix.thy ===== *)
theory Channel_Matrix
  imports Message_Queue
begin

text \<open>
  The queues between all shards of a machine: the matrix \<open>_qs\<close> of \<open>local_channel\<close> and of
  \<open>network_channel\<close>, whose entry \<open>_qs[i][j]\<close> carries what shard \<open>j\<close> sends to shard \<open>i\<close>, with the
  operations that the two classes share (\<open>create_qs\<close>, the sends, the body of \<open>poll_queues\<close>). What a
  shard does when it receives a message is an argument: the sends \<open>h m\<close> it makes while it receives
  \<open>m\<close>. Every operation also returns the events that happened, which the theorems speak about.
\<close>

section \<open>The matrix\<close>

type_synonym ('m, 'q) qmatrix = "('m, 'q) msg_queue list list"

definition q_at :: "('m, 'q) qmatrix \<Rightarrow> nat \<Rightarrow> nat \<Rightarrow> ('m, 'q) msg_queue res" where
  "q_at qs i j = (if i < length qs \<and> j < length (qs ! i) then Inr (qs ! i ! j) else Inl Out_of_bounds)"

definition q_put :: "nat \<Rightarrow> nat \<Rightarrow> ('m, 'q) msg_queue \<Rightarrow> ('m, 'q) qmatrix \<Rightarrow> ('m, 'q) qmatrix" where
  "q_put i j a qs = qs[i := (qs ! i)[j := a]]"

definition create_qs :: "'q \<Rightarrow> nat \<Rightarrow> ('m, 'q) qmatrix" where
  "create_qs q0 nr_cpu = map (\<lambda>i. map (\<lambda>j. mq_new q0) [0..<nr_cpu]) [0..<nr_cpu]"

definition start_queue :: "nat \<Rightarrow> nat \<Rightarrow> ('m, 'q) qmatrix \<Rightarrow> ('m, 'q) qmatrix res" where
  "start_queue s c qs = bind_res (q_at qs c s) (\<lambda>a. Inr (q_put c s (mq_start a) qs))"

text \<open>\<open>start_all_queues\<close> on shard \<open>s\<close>: the shard opens the sending side of its queues to the others.\<close>

definition start_all_queues :: "nat \<Rightarrow> nat \<Rightarrow> ('m, 'q) qmatrix \<Rightarrow> ('m, 'q) qmatrix res" where
  "start_all_queues n s qs = fold_res (\<lambda>c qs. if c \<noteq> s then start_queue s c qs else Inr qs) [0..<n] qs"

section \<open>Sending and polling\<close>

datatype 'm ch_event =
    Ev_sent nat nat bool 'm
  | Ev_got nat nat 'm

text \<open>\<open>_qs[t][s].send\<close> or \<open>send_urgent\<close> on shard \<open>s\<close>.\<close>

definition q_send ::
    "('m, 'q) spsc \<Rightarrow> bool \<Rightarrow> nat \<Rightarrow> nat \<Rightarrow> 'm \<Rightarrow> ('m, 'q) qmatrix \<Rightarrow> ('m ch_event list \<times> ('m, 'q) qmatrix) res" where
  "q_send Q urgent t s m qs =
     bind_res (q_at qs t s) (\<lambda>a.
     bind_res ((if urgent then mq_send_urgent else mq_send) Q m a) (\<lambda>(a1, woken).
       Inr ([Ev_sent s t urgent m], q_put t s a1 qs)))"

definition ch_send ::
    "('m, 'q) spsc \<Rightarrow> ('m \<Rightarrow> nat res) \<Rightarrow> nat \<Rightarrow> bool \<times> 'm \<Rightarrow> ('m, 'q) qmatrix \<Rightarrow>
     ('m ch_event list \<times> ('m, 'q) qmatrix) res" where
  "ch_send Q route s um qs = bind_res (route (snd um)) (\<lambda>t. q_send Q (fst um) t s (snd um) qs)"

fun ch_sends ::
    "('m, 'q) spsc \<Rightarrow> ('m \<Rightarrow> nat res) \<Rightarrow> nat \<Rightarrow> (bool \<times> 'm) list \<Rightarrow> ('m, 'q) qmatrix \<Rightarrow>
     ('m ch_event list \<times> ('m, 'q) qmatrix) res" where
  "ch_sends Q route s [] qs = Inr ([], qs)"
| "ch_sends Q route s (um # ums) qs =
     bind_res (ch_send Q route s um qs) (\<lambda>(e, qs1).
     bind_res (ch_sends Q route s ums qs1) (\<lambda>(es, qs2). Inr (e @ es, qs2)))"

definition flush_to :: "('m, 'q) spsc \<Rightarrow> nat \<Rightarrow> nat \<Rightarrow> ('m, 'q) qmatrix \<Rightarrow> ('m, 'q) qmatrix res" where
  "flush_to Q s i qs =
     bind_res (q_at qs i s) (\<lambda>txq. bind_res (flush_request_batch Q txq) (\<lambda>(txq1, woken). Inr (q_put i s txq1 qs)))"

fun tx_events :: "nat \<Rightarrow> nat \<Rightarrow> 'm tx_op \<Rightarrow> 'm ch_event list" where
  "tx_events s t (Tx_send m) = [Ev_sent s t False m]"
| "tx_events s t (Tx_urgent m) = [Ev_sent s t True m]"
| "tx_events s t Tx_flush = []"

text \<open>One round of the loop of \<open>poll_queues\<close> on shard \<open>s\<close>: take what shard \<open>i\<close> sent, while shard \<open>i\<close> does
  \<open>ts\<close> on that queue, receive it, and flush what is to go to shard \<open>i\<close>.\<close>

definition poll_one ::
    "('m, 'q) spsc \<Rightarrow> ('m \<Rightarrow> nat res) \<Rightarrow> ('m \<Rightarrow> (bool \<times> 'm) list) \<Rightarrow> nat \<Rightarrow> nat \<Rightarrow> 'm tx_op list \<Rightarrow>
     ('m, 'q) qmatrix \<Rightarrow> (nat \<times> 'm ch_event list \<times> ('m, 'q) qmatrix) res" where
  "poll_one Q route h s i ts qs =
     bind_res (q_at qs s i) (\<lambda>rxq.
     bind_res (process_incoming Q (tx_steps Q ts) rxq) (\<lambda>(ms, rxq1).
     bind_res (ch_sends Q route s (concat (map h ms)) (q_put s i rxq1 qs)) (\<lambda>(es, qs1).
     bind_res (flush_to Q s i qs1) (\<lambda>qs2.
       Inr (length ms,
            (if ms = [] then [] else concat (map (tx_events i s) ts)) @ map (Ev_got s i) ms @ es, qs2)))))"

fun poll_loop ::
    "('m, 'q) spsc \<Rightarrow> ('m \<Rightarrow> nat res) \<Rightarrow> ('m \<Rightarrow> (bool \<times> 'm) list) \<Rightarrow> nat \<Rightarrow> nat list \<Rightarrow>
     (nat \<Rightarrow> 'm tx_op list) \<Rightarrow> ('m, 'q) qmatrix \<Rightarrow> (nat \<times> 'm ch_event list \<times> ('m, 'q) qmatrix) res" where
  "poll_loop Q route h s [] bt qs = Inr (0, [], qs)"
| "poll_loop Q route h s (i # is) bt qs =
     (if s \<noteq> i then
        bind_res (poll_one Q route h s i (bt i) qs) (\<lambda>(nr, e, qs1).
        bind_res (poll_loop Q route h s is bt qs1) (\<lambda>(got, es, qs2). Inr (nr + got, e @ es, qs2)))
      else poll_loop Q route h s is bt qs)"

definition poll_queues ::
    "('m, 'q) spsc \<Rightarrow> ('m \<Rightarrow> nat res) \<Rightarrow> ('m \<Rightarrow> (bool \<times> 'm) list) \<Rightarrow> nat \<Rightarrow> nat \<Rightarrow>
     (nat \<Rightarrow> 'm tx_op list) \<Rightarrow> ('m, 'q) qmatrix \<Rightarrow> (bool \<times> 'm ch_event list \<times> ('m, 'q) qmatrix) res" where
  "poll_queues Q route h n s bt qs =
     bind_res (poll_loop Q route h s [0..<n] bt qs) (\<lambda>(got, es, qs1). Inr (got \<noteq> 0, es, qs1))"

section \<open>Runs\<close>

datatype 'm ch_op =
    Ch_send nat bool 'm
  | Ch_poll nat nat "'m tx_op list" "'m \<Rightarrow> (bool \<times> 'm) list"
  | Ch_flush nat nat

fun ch_step ::
    "('m, 'q) spsc \<Rightarrow> ('m \<Rightarrow> nat res) \<Rightarrow> 'm ch_op \<Rightarrow> ('m, 'q) qmatrix \<Rightarrow> ('m ch_event list \<times> ('m, 'q) qmatrix) res" where
  "ch_step Q route (Ch_send s u m) qs = ch_send Q route s (u, m) qs"
| "ch_step Q route (Ch_poll s i ts h) qs = bind_res (poll_one Q route h s i ts qs) (\<lambda>(nr, es, qs1). Inr (es, qs1))"
| "ch_step Q route (Ch_flush s i) qs = bind_res (flush_to Q s i qs) (\<lambda>qs1. Inr ([], qs1))"

fun ch_run ::
    "('m, 'q) spsc \<Rightarrow> ('m \<Rightarrow> nat res) \<Rightarrow> 'm ch_op list \<Rightarrow> ('m, 'q) qmatrix \<Rightarrow> ('m ch_event list \<times> ('m, 'q) qmatrix) res" where
  "ch_run Q route [] qs = Inr ([], qs)"
| "ch_run Q route (x # xs) qs =
     bind_res (ch_step Q route x qs) (\<lambda>(e, qs1).
     bind_res (ch_run Q route xs qs1) (\<lambda>(es, qs2). Inr (e @ es, qs2)))"

definition route_ok :: "('m \<Rightarrow> nat res) \<Rightarrow> nat \<Rightarrow> nat \<Rightarrow> 'm \<Rightarrow> bool" where
  "route_ok route n s m \<longleftrightarrow> (case route m of Inr t \<Rightarrow> t < n \<and> t \<noteq> s | Inl e \<Rightarrow> False)"

fun ch_op_ok :: "('m \<Rightarrow> nat res) \<Rightarrow> nat \<Rightarrow> 'm ch_op \<Rightarrow> bool" where
  "ch_op_ok route n (Ch_send s u m) \<longleftrightarrow> s < n \<and> route_ok route n s m"
| "ch_op_ok route n (Ch_poll s i ts h) \<longleftrightarrow> s < n \<and> i < n \<and> s \<noteq> i \<and> list_all (\<lambda>m. route m = Inr s) (sent_msgs ts) \<and>
     (\<forall>m. list_all (\<lambda>um. route_ok route n s (snd um)) (h m))"
| "ch_op_ok route n (Ch_flush s i) \<longleftrightarrow> s < n \<and> i < n \<and> s \<noteq> i"

text \<open>The messages that shard \<open>s\<close> sent to shard \<open>t\<close>, and those that \<open>t\<close> received from \<open>s\<close>, in order.\<close>

fun ev_pair :: "'m ch_event \<Rightarrow> nat \<times> nat" where
  "ev_pair (Ev_sent s t u m) = (t, s)"
| "ev_pair (Ev_got t s m) = (t, s)"

fun ev_sent :: "'m ch_event \<Rightarrow> 'm list" where
  "ev_sent (Ev_sent s t u m) = [m]"
| "ev_sent (Ev_got t s m) = []"

fun ev_got :: "'m ch_event \<Rightarrow> 'm list" where
  "ev_got (Ev_sent s t u m) = []"
| "ev_got (Ev_got t s m) = [m]"

fun ev_normal :: "'m ch_event \<Rightarrow> bool" where
  "ev_normal (Ev_sent s t u m) \<longleftrightarrow> \<not> u"
| "ev_normal (Ev_got t s m) \<longleftrightarrow> True"

definition pair_events :: "nat \<Rightarrow> nat \<Rightarrow> 'm ch_event list \<Rightarrow> 'm ch_event list" where
  "pair_events t s evs = filter (\<lambda>e. ev_pair e = (t, s)) evs"

definition sent_to :: "nat \<Rightarrow> nat \<Rightarrow> 'm ch_event list \<Rightarrow> 'm list" where
  "sent_to t s evs = concat (map ev_sent (pair_events t s evs))"

definition got_from :: "nat \<Rightarrow> nat \<Rightarrow> 'm ch_event list \<Rightarrow> 'm list" where
  "got_from t s evs = concat (map ev_got (pair_events t s evs))"

definition no_urgent :: "nat \<Rightarrow> nat \<Rightarrow> 'm ch_event list \<Rightarrow> bool" where
  "no_urgent t s evs \<longleftrightarrow> list_all ev_normal (pair_events t s evs)"

section \<open>Facts about the matrix and the events\<close>

lemmas event_defs = sent_to_def got_from_def no_urgent_def pair_events_def

lemma events_append [simp]:
  "sent_to t s (es @ fs) = sent_to t s es @ sent_to t s fs"
  "got_from t s (es @ fs) = got_from t s es @ got_from t s fs"
  "no_urgent t s (es @ fs) \<longleftrightarrow> no_urgent t s es \<and> no_urgent t s fs"
  by (simp_all add: event_defs)

lemma events_Nil [simp]: "sent_to t s [] = []" "got_from t s [] = []" "no_urgent t s []"
  by (simp_all add: event_defs)

lemma events_other:
  assumes "\<And>e. e \<in> set es \<Longrightarrow> ev_pair e = (t, s)" and "(t', s') \<noteq> (t, s)"
  shows "sent_to t' s' es = []" "got_from t' s' es = []" "no_urgent t' s' es"
proof -
  have "pair_events t' s' es = []" using assms by (auto simp: pair_events_def filter_empty_conv)
  then show "sent_to t' s' es = []" "got_from t' s' es = []" "no_urgent t' s' es"
    by (simp_all add: sent_to_def got_from_def no_urgent_def)
qed

lemma tx_events_pair: "e \<in> set (concat (map (tx_events s t) ts)) \<Longrightarrow> ev_pair e = (t, s)"
proof (induction ts)
  case (Cons x ts) then show ?case by (cases x) auto
qed simp

lemma tx_events_sent [simp]: "sent_to t s (concat (map (tx_events s t) ts)) = sent_msgs ts"
proof (induction ts)
  case (Cons x ts) then show ?case by (cases x) (simp_all add: event_defs sent_msgs_def)
qed (simp add: sent_msgs_def)

lemma tx_events_got [simp]: "got_from t s (concat (map (tx_events s t) ts)) = []"
proof (induction ts)
  case (Cons x ts) then show ?case by (cases x) (simp_all add: event_defs)
qed simp

lemma tx_events_normal [simp]: "no_urgent t s (concat (map (tx_events s t) ts)) \<longleftrightarrow> list_all tx_normal ts"
proof (induction ts)
  case (Cons x ts) then show ?case by (cases x) (simp_all add: event_defs)
qed simp

lemma got_events [simp]:
  "sent_to t s (map (Ev_got t s) ms) = []" "got_from t s (map (Ev_got t s) ms) = ms" "no_urgent t s (map (Ev_got t s) ms)"
  by (induction ms) (simp_all add: event_defs)

definition square :: "nat \<Rightarrow> ('m, 'q) qmatrix \<Rightarrow> bool" where
  "square n qs \<longleftrightarrow> length qs = n \<and> (\<forall>i<n. length (qs ! i) = n)"

lemma q_at_square: "square n qs \<Longrightarrow> i < n \<Longrightarrow> j < n \<Longrightarrow> q_at qs i j = Inr (qs ! i ! j)"
  by (simp add: q_at_def square_def)

lemma square_put: "square n qs \<Longrightarrow> square n (q_put i j a qs)"
  by (cases "i < length qs") (auto simp: square_def q_put_def nth_list_update)

lemma nth_q_put:
  "square n qs \<Longrightarrow> i < n \<Longrightarrow> j < n \<Longrightarrow> i' < n \<Longrightarrow> j' < n \<Longrightarrow>
   q_put i j a qs ! i' ! j' = (if i' = i \<and> j' = j then a else qs ! i' ! j')"
  by (auto simp: square_def q_put_def nth_list_update)

lemma square_create: "square n (create_qs q0 n)"
  by (simp add: square_def create_qs_def)

lemma nth_create [simp]: "i < n \<Longrightarrow> j < n \<Longrightarrow> create_qs q0 n ! i ! j = mq_new q0"
  by (simp add: create_qs_def)

lemma start_all_queues_upto:
  assumes "square n qs" and "s < n" and "k \<le> n"
  shows "\<exists>qs'. fold_res (\<lambda>c qs. if c \<noteq> s then start_queue s c qs else Inr qs) [0..<k] qs = Inr qs' \<and> square n qs' \<and>
    (\<forall>i<n. \<forall>j<n. qs' ! i ! j = (if j = s \<and> i \<noteq> s \<and> i < k then mq_start (qs ! i ! j) else qs ! i ! j))"
  using assms(3)
proof (induction k)
  case 0
  then show ?case using assms by simp
next
  case (Suc k)
  then have "k \<le> n" by simp
  from Suc.IH [OF this] obtain qs1 where qs1: "fold_res (\<lambda>c qs. if c \<noteq> s then start_queue s c qs else Inr qs) [0..<k] qs = Inr qs1"
    "square n qs1" "\<forall>i<n. \<forall>j<n. qs1 ! i ! j = (if j = s \<and> i \<noteq> s \<and> i < k then mq_start (qs ! i ! j) else qs ! i ! j)"
    by blast
  show ?case
  proof (cases "k = s")
    case True
    then show ?thesis using qs1 by (auto simp: fold_res_append)
  next
    case False
    then have "start_queue s k qs1 = Inr (q_put k s (mq_start (qs ! k ! s)) qs1)"
      using qs1 Suc.prems assms(2) by (simp add: start_queue_def q_at_square)
    moreover have "q_put k s (mq_start (qs ! k ! s)) qs1 ! i ! j =
        (if j = s \<and> i \<noteq> s \<and> i < Suc k then mq_start (qs ! i ! j) else qs ! i ! j)" if "i < n" "j < n" for i j
      using that qs1(2,3) False Suc.prems assms(2) nth_q_put [OF qs1(2) _ assms(2) that, of k]
      by (cases "i = k \<and> j = s") (auto simp: less_Suc_eq)
    ultimately show ?thesis
      using qs1(1) False square_put [OF qs1(2), of k s "mq_start (qs ! k ! s)"] by (simp add: fold_res_append)
  qed
qed

text \<open>What \<open>start_all_queues\<close> on every shard leaves: every queue between two different shards is started,
  the queues of a shard to itself are not.\<close>

lemma start_all_shards:
  assumes "square n qs" and "k \<le> n"
  shows "\<exists>qs'. fold_res (start_all_queues n) [0..<k] qs = Inr qs' \<and> square n qs' \<and>
    (\<forall>i<n. \<forall>j<n. qs' ! i ! j = (if j < k \<and> i \<noteq> j then mq_start (qs ! i ! j) else qs ! i ! j))"
  using assms(2)
proof (induction k)
  case 0
  then show ?case using assms by simp
next
  case (Suc k)
  then have "k \<le> n" by simp
  from Suc.IH [OF this] obtain qs1 where qs1: "fold_res (start_all_queues n) [0..<k] qs = Inr qs1" "square n qs1"
    "\<forall>i<n. \<forall>j<n. qs1 ! i ! j = (if j < k \<and> i \<noteq> j then mq_start (qs ! i ! j) else qs ! i ! j)" by blast
  have "k < n" using Suc.prems by simp
  from start_all_queues_upto [OF qs1(2) this order_refl] obtain qs2 where
    "start_all_queues n k qs1 = Inr qs2" "square n qs2"
    "\<forall>i<n. \<forall>j<n. qs2 ! i ! j = (if j = k \<and> i \<noteq> k \<and> i < n then mq_start (qs1 ! i ! j) else qs1 ! i ! j)"
    unfolding start_all_queues_def by blast
  then show ?case using qs1 by (auto simp: fold_res_append less_Suc_eq)
qed

section \<open>Messages go where they are routed\<close>

definition routed :: "('m \<Rightarrow> nat res) \<Rightarrow> 'm ch_event list \<Rightarrow> bool" where
  "routed route es \<longleftrightarrow> (\<forall>s t u m. Ev_sent s t u m \<in> set es \<longrightarrow> route m = Inr t)"

lemma routed_append: "routed route (es @ fs) \<longleftrightarrow> routed route es \<and> routed route fs"
  by (auto simp: routed_def)

lemma sent_to_routed: "routed route es \<Longrightarrow> m \<in> set (sent_to t s es) \<Longrightarrow> route m = Inr t"
  unfolding routed_def sent_to_def pair_events_def by (auto elim!: ev_pair.elims)

lemma q_send_events: "q_send Q u t s m qs = Inr (es, qs') \<Longrightarrow> es = [Ev_sent s t u m]"
  by (auto simp: q_send_def bind_res_Inr_iff split: prod.splits)

lemma ch_send_routed: "ch_send Q route s um qs = Inr (es, qs') \<Longrightarrow> routed route es"
  by (auto simp: ch_send_def bind_res_Inr_iff routed_def dest!: q_send_events)

lemma ch_sends_routed: "ch_sends Q route s ums qs = Inr (es, qs') \<Longrightarrow> routed route es"
proof (induction ums arbitrary: qs es)
  case Nil
  then show ?case by (simp add: routed_def)
next
  case (Cons um ums)
  from Cons.prems obtain e qs1 es1 where 1: "ch_send Q route s um qs = Inr (e, qs1)"
    "ch_sends Q route s ums qs1 = Inr (es1, qs')" "es = e @ es1"
    by (auto simp: bind_res_Inr_iff)
  show ?case using Cons.IH [OF 1(2)] ch_send_routed [OF 1(1)] unfolding 1(3) routed_append by blast
qed

lemma tx_event_routed: "list_all (\<lambda>m. route m = Inr t) (tx_msgs x) \<Longrightarrow> routed route (tx_events s t x)"
  by (cases x) (simp_all add: routed_def)

lemma tx_events_routed: "list_all (\<lambda>m. route m = Inr t) (sent_msgs ts) \<Longrightarrow> routed route (concat (map (tx_events s t) ts))"
proof (induction ts)
  case Nil
  then show ?case by (simp add: routed_def)
next
  case (Cons x ts)
  then have "list_all (\<lambda>m. route m = Inr t) (tx_msgs x)" "list_all (\<lambda>m. route m = Inr t) (sent_msgs ts)"
    by (simp_all add: sent_msgs_def)
  from tx_event_routed [OF this(1)] Cons.IH [OF this(2)] show ?case by (simp only: list.map concat.simps routed_append)
qed

lemma ch_step_routed:
  assumes "ch_step Q route x qs = Inr (es, qs')" and "ch_op_ok route n x"
  shows "routed route es"
proof (cases x)
  case (Ch_send s u m)
  then show ?thesis using assms(1) ch_send_routed by simp
next
  case (Ch_poll s i ts h)
  then obtain ms es1 rxq1 qs1 where es: "ch_sends Q route s (concat (map h ms)) (q_put s i rxq1 qs) = Inr (es1, qs1)"
    "es = (if ms = [] then [] else concat (map (tx_events i s) ts)) @ map (Ev_got s i) ms @ es1"
    using assms(1) by (auto simp: poll_one_def bind_res_Inr_iff simp del: concat_eq_Nil_conv)
  have "routed route (concat (map (tx_events i s) ts))" "routed route []" "routed route (map (Ev_got s i) ms)"
    using Ch_poll assms(2) by (simp add: tx_events_routed, auto simp: routed_def)
  then show ?thesis using ch_sends_routed [OF es(1)] unfolding es(2) by (simp add: routed_append)
next
  case (Ch_flush s i)
  then show ?thesis using assms(1) by (auto simp: bind_res_Inr_iff routed_def)
qed

lemma ch_run_routed: "ch_run Q route xs qs = Inr (es, qs') \<Longrightarrow> list_all (ch_op_ok route n) xs \<Longrightarrow> routed route es"
proof (induction xs arbitrary: qs es)
  case Nil
  then show ?case by (simp add: routed_def)
next
  case (Cons x xs)
  from Cons.prems(1) obtain e qs1 es1 where 1: "ch_step Q route x qs = Inr (e, qs1)"
    "ch_run Q route xs qs1 = Inr (es1, qs')" "es = e @ es1"
    by (auto simp: bind_res_Inr_iff)
  have "ch_op_ok route n x" "list_all (ch_op_ok route n) xs" using Cons.prems(2) by simp_all
  then show ?case using Cons.IH [OF 1(2)] ch_step_routed [OF 1(1)] unfolding 1(3) routed_append by blast
qed

section \<open>Every pair of shards\<close>

context spsc_queue
begin

definition pair_ok :: "'m ch_event list \<Rightarrow> nat \<Rightarrow> nat \<Rightarrow> ('m, 'q) msg_queue \<Rightarrow> bool" where
  "pair_ok evs t s a \<longleftrightarrow>
     mq_ok (length (got_from t s evs)) (length (got_from t s evs)) a \<and>
     mset (got_from t s evs @ in_flight a) = mset (sent_to t s evs) \<and>
     (no_urgent t s evs \<longrightarrow> got_from t s evs @ in_flight a = sent_to t s evs)"

definition ch_ok :: "nat \<Rightarrow> 'm ch_event list \<Rightarrow> ('m, 'q) qmatrix \<Rightarrow> bool" where
  "ch_ok n evs qs \<longleftrightarrow> square n qs \<and> (\<forall>t<n. \<forall>s<n. t \<noteq> s \<longrightarrow> pair_ok evs t s (qs ! t ! s))"

lemma pair_ok_extend:
  assumes "pair_ok evs t s a"
    and "mq_ok (length (got_from t s evs) + length ms) (length (got_from t s evs) + length ms) a'"
    and "mset (ms @ in_flight a') = mset (in_flight a) + mset (sent_to t s es)" and "got_from t s es = ms"
    and "no_urgent t s es \<Longrightarrow> ms @ in_flight a' = in_flight a @ sent_to t s es"
  shows "pair_ok (evs @ es) t s a'"
proof -
  have "mset (got_from t s (evs @ es) @ in_flight a') = mset (got_from t s evs) + mset (ms @ in_flight a')"
    using assms(4) by simp
  also have "\<dots> = mset (got_from t s evs @ in_flight a) + mset (sent_to t s es)" using assms(3) by simp
  finally have "mset (got_from t s (evs @ es) @ in_flight a') = mset (sent_to t s (evs @ es))"
    using assms(1) by (simp only: pair_ok_def events_append mset_append)
  moreover have "no_urgent t s (evs @ es) \<longrightarrow> got_from t s (evs @ es) @ in_flight a' = sent_to t s (evs @ es)"
    using assms(1,4,5) unfolding pair_ok_def by (metis append.assoc events_append)
  ultimately show ?thesis using assms(2,4) by (simp add: pair_ok_def)
qed

lemma pair_ok_other: "pair_ok evs t s a \<Longrightarrow> pair_events t s es = [] \<Longrightarrow> pair_ok (evs @ es) t s a"
  unfolding pair_ok_def events_append by (simp add: sent_to_def got_from_def no_urgent_def)

lemma ch_ok_put:
  assumes "ch_ok n evs qs" "t < n" "s < n" "t \<noteq> s" "pair_ok (evs @ es) t s a"
    and "\<And>e. e \<in> set es \<Longrightarrow> ev_pair e = (t, s)"
  shows "ch_ok n (evs @ es) (q_put t s a qs)"
proof -
  have "pair_ok (evs @ es) t' s' (q_put t s a qs ! t' ! s')" if "t' < n" "s' < n" "t' \<noteq> s'" for t' s'
  proof (cases "t' = t \<and> s' = s")
    case True
    then show ?thesis using assms nth_q_put [of n qs t s t s a] by (simp add: ch_ok_def)
  next
    case False
    then have "pair_events t' s' es = []" using assms(6) by (auto simp: pair_events_def filter_empty_conv)
    then show ?thesis
      using assms(1-3) False that nth_q_put [of n qs t s t' s' a] pair_ok_other by (auto simp: ch_ok_def)
  qed
  then show ?thesis using assms(1) square_put by (auto simp: ch_ok_def)
qed

lemma pair_at:
  assumes "ch_ok n evs qs" "t < n" "s < n" "t \<noteq> s"
  obtains a where "q_at qs t s = Inr a" "pair_ok evs t s a"
  using assms q_at_square [of n qs t s] by (auto simp: ch_ok_def)

lemma tx_step_pair_ok:
  assumes "pair_ok evs t s a" and "tx_step Q x a = Inr a'"
  shows "pair_ok (evs @ tx_events s t x) t s a'"
proof (rule pair_ok_extend [where ms = "[]", OF assms(1)])
  have ok: "mq_ok (length (got_from t s evs)) (length (got_from t s evs)) a" using assms(1) by (simp add: pair_ok_def)
  have ev: "sent_to t s (tx_events s t x) = tx_msgs x" "got_from t s (tx_events s t x) = []"
    "no_urgent t s (tx_events s t x) \<longleftrightarrow> tx_normal x"
    by (cases x; simp add: event_defs)+
  from tx_step_ok [OF ok, of x] assms(2) ev
  show "mq_ok (length (got_from t s evs) + length []) (length (got_from t s evs) + length []) a'"
    "mset ([] @ in_flight a') = mset (in_flight a) + mset (sent_to t s (tx_events s t x))"
    "got_from t s (tx_events s t x) = []"
    "no_urgent t s (tx_events s t x) \<Longrightarrow> [] @ in_flight a' = in_flight a @ sent_to t s (tx_events s t x)"
    by auto
qed

lemma q_send_ok:
  assumes "ch_ok n evs qs" "t < n" "s < n" "t \<noteq> s"
  shows "\<exists>qs'. q_send Q u t s m qs = Inr ([Ev_sent s t u m], qs') \<and> ch_ok n (evs @ [Ev_sent s t u m]) qs'"
proof -
  from pair_at [OF assms] obtain a where a: "q_at qs t s = Inr a" "pair_ok evs t s a" .
  let ?x = "if u then Tx_urgent m else Tx_send m"
  have "mq_ok (length (got_from t s evs)) (length (got_from t s evs)) a" using a(2) by (simp add: pair_ok_def)
  from tx_step_ok [OF this, of ?x] obtain a' where a': "tx_step Q ?x a = Inr a'" by blast
  have ev: "tx_events s t ?x = [Ev_sent s t u m]" by simp
  have "pair_ok (evs @ [Ev_sent s t u m]) t s a'" using tx_step_pair_ok [OF a(2) a'] unfolding ev .
  from ch_ok_put [OF assms this] have "ch_ok n (evs @ [Ev_sent s t u m]) (q_put t s a' qs)" by simp
  moreover obtain w where "(if u then mq_send_urgent else mq_send) Q m a = Inr (a', w)"
    using a' by (cases u) (auto simp: bind_res_Inr_iff)
  ultimately show ?thesis using a(1) by (simp add: q_send_def)
qed

lemma flush_to_ok:
  assumes "ch_ok n evs qs" "i < n" "s < n" "i \<noteq> s"
  shows "\<exists>qs'. flush_to Q s i qs = Inr qs' \<and> ch_ok n evs qs'"
proof -
  from pair_at [OF assms] obtain a where a: "q_at qs i s = Inr a" "pair_ok evs i s a" .
  have "mq_ok (length (got_from i s evs)) (length (got_from i s evs)) a" using a(2) by (simp add: pair_ok_def)
  from tx_step_ok [OF this, of Tx_flush] obtain a' where a': "tx_step Q Tx_flush a = Inr a'" by blast
  have "pair_ok (evs @ []) i s a'" using tx_step_pair_ok [OF a(2) a'] by simp
  from ch_ok_put [OF assms this] have "ch_ok n evs (q_put i s a' qs)" by simp
  moreover obtain w where "flush_request_batch Q a = Inr (a', w)" using a' by (auto simp: bind_res_Inr_iff)
  ultimately show ?thesis using a(1) by (simp add: flush_to_def)
qed

lemma ch_send_ok:
  assumes "ch_ok n evs qs" "s < n" "route_ok route n s (snd um)"
  shows "\<exists>es qs'. ch_send Q route s um qs = Inr (es, qs') \<and> ch_ok n (evs @ es) qs'"
proof -
  from assms(3) obtain t where t: "route (snd um) = Inr t" "t < n" "t \<noteq> s"
    by (auto simp: route_ok_def split: sum.splits)
  from q_send_ok [OF assms(1) t(2) assms(2) t(3), of "fst um" "snd um"] show ?thesis
    using t(1) by (auto simp: ch_send_def)
qed

lemma ch_sends_ok:
  "ch_ok n evs qs \<Longrightarrow> s < n \<Longrightarrow> list_all (\<lambda>um. route_ok route n s (snd um)) ums \<Longrightarrow>
   \<exists>es qs'. ch_sends Q route s ums qs = Inr (es, qs') \<and> ch_ok n (evs @ es) qs'"
proof (induction ums arbitrary: evs qs)
  case Nil
  then show ?case by simp
next
  case (Cons um ums)
  from Cons.prems(3) have r: "route_ok route n s (snd um)" "list_all (\<lambda>um. route_ok route n s (snd um)) ums" by simp_all
  from ch_send_ok [OF Cons.prems(1,2) r(1)] obtain e qs1 where 1: "ch_send Q route s um qs = Inr (e, qs1)"
    "ch_ok n (evs @ e) qs1" by blast
  from Cons.IH [OF 1(2) Cons.prems(2) r(2)] obtain es qs2 where "ch_sends Q route s ums qs1 = Inr (es, qs2)"
    "ch_ok n ((evs @ e) @ es) qs2" by blast
  then show ?case using 1(1) by simp
qed

lemma rx_ok:
  assumes "ch_ok n evs qs" "s < n" "i < n" "s \<noteq> i"
  shows "\<exists>rxq ms rxq1. q_at qs s i = Inr rxq \<and> process_incoming Q (tx_steps Q ts) rxq = Inr (ms, rxq1) \<and>
    ch_ok n (evs @ (if ms = [] then [] else concat (map (tx_events i s) ts)) @ map (Ev_got s i) ms) (q_put s i rxq1 qs)"
proof -
  from pair_at [OF assms] obtain a where a: "q_at qs s i = Inr a" "pair_ok evs s i a" .
  have "mq_ok (length (got_from s i evs)) (length (got_from s i evs)) a" using a(2) by (simp add: pair_ok_def)
  from process_incoming_ok [OF this, of ts] obtain ms a' where p: "process_incoming Q (tx_steps Q ts) a = Inr (ms, a')"
    "mq_ok (length (got_from s i evs) + length ms) (length (got_from s i evs) + length ms) a'"
    "if ms = [] then a' = a \<and> items (mq_pending a) = []
     else mset (ms @ in_flight a') = mset (in_flight a) + mset (sent_msgs ts) \<and>
       (list_all tx_normal ts \<longrightarrow> ms @ in_flight a' = in_flight a @ sent_msgs ts) \<and>
       items (mq_pending a') = [] \<and> prefix (items (mq_pending a)) ms" by blast
  let ?es = "(if ms = [] then [] else concat (map (tx_events i s) ts)) @ map (Ev_got s i) ms"
  have ev: "sent_to s i ?es = (if ms = [] then [] else sent_msgs ts)" "got_from s i ?es = ms"
    "no_urgent s i ?es \<longleftrightarrow> ms = [] \<or> list_all tx_normal ts"
    by (simp_all only: events_append got_events) (auto simp del: concat_map_singleton)
  have "pair_ok (evs @ ?es) s i a'"
  proof (rule pair_ok_extend [OF a(2) p(2)])
    show "mset (ms @ in_flight a') = mset (in_flight a) + mset (sent_to s i ?es)"
      unfolding ev using p(3) by (cases "ms = []") simp_all
    show "ms @ in_flight a' = in_flight a @ sent_to s i ?es" if "no_urgent s i ?es"
      using that p(3) unfolding ev by (cases "ms = []") simp_all
  qed (rule ev)
  then have "ch_ok n (evs @ ?es) (q_put s i a' qs)"
  proof (rule ch_ok_put [OF assms])
    show "ev_pair e = (s, i)" if "e \<in> set ?es" for e
      using that tx_events_pair [of e i s ts] by (auto split: if_splits)
  qed
  then show ?thesis using a(1) p(1) by blast
qed

lemma poll_one_ok:
  assumes "ch_ok n evs qs" "s < n" "i < n" "s \<noteq> i" "\<And>m. list_all (\<lambda>um. route_ok route n s (snd um)) (h m)"
  shows "\<exists>nr es qs'. poll_one Q route h s i ts qs = Inr (nr, es, qs') \<and> ch_ok n (evs @ es) qs'"
proof -
  from rx_ok [OF assms(1-4), of ts] obtain rxq ms rxq1 where 1: "q_at qs s i = Inr rxq"
    "process_incoming Q (tx_steps Q ts) rxq = Inr (ms, rxq1)"
    "ch_ok n (evs @ (if ms = [] then [] else concat (map (tx_events i s) ts)) @ map (Ev_got s i) ms) (q_put s i rxq1 qs)"
    by blast
  have "list_all (\<lambda>um. route_ok route n s (snd um)) (concat (map h ms))"
    using assms(5) by (auto simp: list_all_iff)
  from ch_sends_ok [OF 1(3) assms(2) this] obtain es qs1 where
    2: "ch_sends Q route s (concat (map h ms)) (q_put s i rxq1 qs) = Inr (es, qs1)"
    "ch_ok n ((evs @ (if ms = [] then [] else concat (map (tx_events i s) ts)) @ map (Ev_got s i) ms) @ es) qs1" by blast
  from flush_to_ok [OF 2(2) assms(3,2)] assms(4) obtain qs2 where "flush_to Q s i qs1 = Inr qs2"
    "ch_ok n ((evs @ (if ms = [] then [] else concat (map (tx_events i s) ts)) @ map (Ev_got s i) ms) @ es) qs2" by metis
  then show ?thesis using 1(1,2) 2(1) by (simp add: poll_one_def)
qed

lemma ch_step_ok:
  assumes "ch_ok n evs qs" "ch_op_ok route n x"
  shows "\<exists>es qs'. ch_step Q route x qs = Inr (es, qs') \<and> ch_ok n (evs @ es) qs'"
proof (cases x)
  case (Ch_send s u m)
  then show ?thesis using ch_send_ok [OF assms(1), of s route "(u, m)"] assms(2) by simp
next
  case (Ch_poll s i ts h)
  then show ?thesis using poll_one_ok [OF assms(1), of s i route h ts] assms(2) by auto
next
  case (Ch_flush s i)
  then show ?thesis using flush_to_ok [OF assms(1), of i s] assms(2) by auto
qed

lemma ch_run_ok:
  "ch_ok n evs qs \<Longrightarrow> list_all (ch_op_ok route n) xs \<Longrightarrow>
   \<exists>es qs'. ch_run Q route xs qs = Inr (es, qs') \<and> ch_ok n (evs @ es) qs'"
proof (induction xs arbitrary: evs qs)
  case Nil
  then show ?case by simp
next
  case (Cons x xs)
  from Cons.prems(2) have "ch_op_ok route n x" and xs: "list_all (ch_op_ok route n) xs" by simp_all
  with ch_step_ok [OF Cons.prems(1)] obtain e qs1 where 1: "ch_step Q route x qs = Inr (e, qs1)" "ch_ok n (evs @ e) qs1"
    by blast
  from Cons.IH [OF 1(2) xs] obtain es qs2 where "ch_run Q route xs qs1 = Inr (es, qs2)" "ch_ok n ((evs @ e) @ es) qs2"
    by blast
  then show ?case using 1(1) by simp
qed

lemma started_ok:
  assumes "items q0 = []"
  shows "\<exists>qs. fold_res (start_all_queues n) [0..<n] (create_qs q0 n) = Inr qs \<and> ch_ok n [] qs"
proof -
  from start_all_shards [OF square_create [of n q0], of n] obtain qs :: "('m, 'q) qmatrix" where
    qs: "fold_res (start_all_queues n) [0..<n] (create_qs q0 n) = Inr qs" "square n qs"
    "\<forall>i<n. \<forall>j<n. qs ! i ! j = (if j < n \<and> i \<noteq> j then mq_start (create_qs q0 n ! i ! j) else create_qs q0 n ! i ! j)"
    by blast
  have "pair_ok [] t s (qs ! t ! s)" if "t < n" "s < n" "t \<noteq> s" for t s
    using qs(3) that assms mq_start_ok [of q0] by (simp add: pair_ok_def)
  then show ?thesis using qs by (auto simp: ch_ok_def)
qed

end

end
