(* ===== verification/Network_Config.thy ===== *)
theory Network_Config
  imports Hiactor_Prelude
begin

text \<open>
  The cluster configuration: the worker node list file and its validation (\<open>load_worker_node_list\<close>), the
  connection plan that every machine derives from it (\<open>set_network_config\<close>), the global shard numbering
  (\<open>machine_info\<close>, \<open>shard-config.hh\<close>), \<open>start_network\<close> of \<open>core/actor-app.cc\<close>, and the shard that a
  server gives an accepted connection to (\<open>network_config::get_client_target_shard\<close>). The contents of
  the file and the parser of an address (seastar's \<open>ipv4_addr\<close>) are arguments.
\<close>

section \<open>Reading the node list\<close>

text \<open>An address is an IPv4 address in host order and a port.\<close>

type_synonym socket_address = "u32 \<times> u16"

record worker_node_info =
  wn_machine_id :: u32
  nr_cores :: u32
  wn_addr :: socket_address

definition is_ws :: "char \<Rightarrow> bool" where
  "is_ws c \<longleftrightarrow> c \<in> {CHR '' '', CHR 0x09, CHR 0x0A, CHR 0x0B, CHR 0x0C, CHR 0x0D}"

definition digit_val :: "char \<Rightarrow> nat option" where
  "digit_val c = (if 48 \<le> (of_char c :: nat) \<and> (of_char c :: nat) \<le> 57 then Some (of_char c - 48) else None)"

text \<open>\<open>in >> x\<close> for an unsigned number: skip white space, an optional sign, at least one digit, and the
  stream fails when the value does not fit. A minus sign negates the unsigned value.\<close>

fun read_digits :: "nat \<Rightarrow> string \<Rightarrow> nat \<times> string" where
  "read_digits acc [] = (acc, [])"
| "read_digits acc (c # cs) =
     (case digit_val c of None \<Rightarrow> (acc, c # cs) | Some d \<Rightarrow> read_digits (10 * acc + d) cs)"

definition has_digit :: "string \<Rightarrow> bool" where
  "has_digit s = (case s of [] \<Rightarrow> False | c # cs \<Rightarrow> digit_val c \<noteq> None)"

definition read_sign :: "string \<Rightarrow> bool \<times> string" where
  "read_sign s = (case s of [] \<Rightarrow> (False, [])
     | c # cs \<Rightarrow> if c = CHR ''-'' then (True, cs) else if c = CHR ''+'' then (False, cs) else (False, s))"

definition read_u32 :: "string \<Rightarrow> (u32 \<times> string) option" where
  "read_u32 s =
     (case read_sign (dropWhile is_ws s) of (neg, s1) \<Rightarrow>
        if has_digit s1 then
          (case read_digits 0 s1 of (n, s2) \<Rightarrow>
             if n < 2 ^ 32 then Some (if neg then - word_of_nat n else word_of_nat n, s2) else None)
        else None)"

text \<open>\<open>in >> ip\<close> for a string.\<close>

definition read_word :: "string \<Rightarrow> (string \<times> string) option" where
  "read_word s =
     (let s1 = dropWhile is_ws s
      in if s1 = [] then None else Some (takeWhile (\<lambda>c. \<not> is_ws c) s1, dropWhile (\<lambda>c. \<not> is_ws c) s1))"

lemma read_digits_length: "read_digits acc s = (n, s') \<Longrightarrow> length s' \<le> length s"
  by (induction acc s rule: read_digits.induct) (auto split: option.splits)

lemma read_sign_length: "length (snd (read_sign s)) \<le> length s"
  by (auto simp: read_sign_def split: list.split)

lemma read_u32_length: "read_u32 s = Some (w, s') \<Longrightarrow> length s' \<le> length s"
  using length_dropWhile_le [of is_ws s] read_sign_length [of "dropWhile is_ws s"]
  by (auto simp: read_u32_def split: prod.splits if_splits dest!: read_digits_length)

lemma read_word_length: "read_word s = Some (w, s') \<Longrightarrow> length s' < length s"
proof -
  assume r: "read_word s = Some (w, s')"
  obtain c cs where s1: "dropWhile is_ws s = c # cs" using r by (cases "dropWhile is_ws s") (auto simp: read_word_def)
  then have "\<not> is_ws c" using hd_dropWhile [of is_ws s] by simp
  then have "length s' \<le> length cs" using r s1 length_dropWhile_le [of "\<lambda>c. \<not> is_ws c" cs] by (auto simp: read_word_def)
  moreover have "length (c # cs) \<le> length s" using length_dropWhile_le [of is_ws s] s1 by simp
  ultimately show "length s' < length s" by simp
qed

function read_nodes :: "(string \<Rightarrow> socket_address res) \<Rightarrow> string \<Rightarrow> worker_node_info list \<Rightarrow> worker_node_info list res" where
  "read_nodes ipv4 s configs =
     (case read_u32 s of None \<Rightarrow> Inr configs
      | Some (mach, s1) \<Rightarrow>
     (case read_u32 s1 of None \<Rightarrow> Inr configs
      | Some (nr_core, s2) \<Rightarrow>
     (case read_word s2 of None \<Rightarrow> Inr configs
      | Some (ip, s3) \<Rightarrow>
          bind_res (ipv4 ip) (\<lambda>a.
            read_nodes ipv4 s3 (configs @ [\<lparr>wn_machine_id = mach, nr_cores = nr_core, wn_addr = a\<rparr>])))))"
  by pat_completeness auto
termination
  by (relation "measure (\<lambda>(ipv4, s, configs). length s)")
    (auto dest!: read_u32_length read_word_length)

declare read_nodes.simps [simp del]

definition first_line_dropped :: "string \<Rightarrow> string" where
  "first_line_dropped s = drop 1 (dropWhile (\<lambda>c. c \<noteq> CHR 0x0A) s)"

definition check_nodes :: "u32 \<Rightarrow> u32 \<Rightarrow> worker_node_info list \<Rightarrow> worker_node_info list res" where
  "check_nodes local_shard_count this_mid configs =
     (if length configs \<le> unat this_mid then Inl (Thrown ''wrong machine_id'')
      else if local_shard_count \<noteq> nr_cores (configs ! unat this_mid) then Inl (Thrown ''incorrect number of cores'')
      else if list_all (\<lambda>i. wn_machine_id (configs ! i) = word_of_nat i) [0..<length configs] then Inr configs
      else Inl (Thrown ''machine ids must be range''))"

definition load_worker_node_list ::
    "(string \<Rightarrow> socket_address res) \<Rightarrow> u32 \<Rightarrow> string \<Rightarrow> u32 \<Rightarrow> worker_node_info list res" where
  "load_worker_node_list ipv4 local_shard_count file this_mid =
     bind_res (read_nodes ipv4 (first_line_dropped file) []) (check_nodes local_shard_count this_mid)"

section \<open>The connection plan\<close>

record network_config =
  p2p_conn_count :: u32
  wait_conn_count :: u32
  machine_id :: u32
  num_machines :: u32
  listen_port :: u16
  addr_lsid_map :: "u32 \<rightharpoonup> u32"
  server_lists :: "(socket_address \<times> u32) list list"
  node_list :: "worker_node_info list"
  timeout_seconds :: u32

definition default_network_config :: network_config where
  "default_network_config = \<lparr>p2p_conn_count = 1, wait_conn_count = 0, machine_id = 0, num_machines = 1,
     listen_port = 0, addr_lsid_map = Map.empty, server_lists = [], node_list = [], timeout_seconds = 60\<rparr>"

definition timeout_limit :: u32 where "timeout_limit = 600"

record machine_info =
  num_shards :: u32
  sid_anchor :: u32
  min_sid :: u32
  max_sid :: u32

definition is_local :: "machine_info \<Rightarrow> u32 \<Rightarrow> bool" where
  "is_local mi shard_id \<longleftrightarrow> min_sid mi \<le> shard_id \<and> shard_id \<le> max_sid mi"

definition global_shard_id :: "machine_info \<Rightarrow> u32 \<Rightarrow> u32" where
  "global_shard_id mi local_shard_id = sid_anchor mi + local_shard_id"

definition umod :: "u32 \<Rightarrow> u32 \<Rightarrow> u32 res" where
  "umod a b = (if b = 0 then Inl Division_by_zero else Inr (a mod b))"

text \<open>The locals of the loop of \<open>set_network_config\<close>.\<close>

record plan =
  pl_nc :: network_config
  pl_num_global_shards :: u32
  pl_sid_anchor :: u32
  dst_shard :: u32

definition connect_once :: "u32 \<Rightarrow> socket_address \<times> u32 \<Rightarrow> plan \<Rightarrow> plan res" where
  "connect_once cores dst p =
     (let d = unat (dst_shard p); sl = server_lists (pl_nc p)
      in if d < length sl then
           bind_res (umod (dst_shard p + 1) cores) (\<lambda>d1.
             Inr (p\<lparr>pl_nc := (pl_nc p)\<lparr>server_lists := sl[d := sl ! d @ [dst]]\<rparr>, dst_shard := d1\<rparr>))
         else Inl Out_of_bounds)"

definition plan_step :: "u32 \<Rightarrow> u32 \<Rightarrow> u32 \<Rightarrow> worker_node_info \<Rightarrow> plan \<Rightarrow> plan res" where
  "plan_step this_mid p2p cores conf p =
     bind_res
       (if this_mid = wn_machine_id conf then Inr p
        else if this_mid < wn_machine_id conf then
          (let nc = pl_nc p; ia = fst (wn_addr conf); m = addr_lsid_map nc;
               nc1 = nc\<lparr>wait_conn_count := wait_conn_count nc + p2p,
                        addr_lsid_map := (if m ia = None then m(ia \<mapsto> dst_shard p) else m)\<rparr>
           in bind_res (umod (dst_shard p + p2p) cores) (\<lambda>d. Inr (p\<lparr>pl_nc := nc1, dst_shard := d\<rparr>)))
        else
          fold_res (\<lambda>i. connect_once cores (wn_addr conf, wn_machine_id conf)) [0..<unat p2p]
            (p\<lparr>pl_sid_anchor := pl_sid_anchor p + nr_cores conf\<rparr>))
       (\<lambda>p1. Inr (p1\<lparr>pl_num_global_shards := pl_num_global_shards p1 + nr_cores conf\<rparr>))"

definition set_network_config :: "u32 \<Rightarrow> u32 \<Rightarrow> u32 \<Rightarrow> network_config \<Rightarrow> (network_config \<times> u32 \<times> u32) res" where
  "set_network_config this_mach_cores this_mid p2p nc =
     (let configs = node_list nc
      in if unat this_mid < length configs then
           (let nc1 = nc\<lparr>machine_id := this_mid, wait_conn_count := 0, p2p_conn_count := p2p,
                  listen_port := snd (wn_addr (configs ! unat this_mid)),
                  num_machines := word_of_nat (length configs),
                  server_lists := take (unat this_mach_cores) (server_lists nc) @
                    replicate (unat this_mach_cores - length (server_lists nc)) []\<rparr>
            in bind_res (fold_res (plan_step this_mid p2p this_mach_cores) configs
                 \<lparr>pl_nc = nc1, pl_num_global_shards = 0, pl_sid_anchor = 0, dst_shard = 0\<rparr>) (\<lambda>p.
                 Inr (pl_nc p, pl_num_global_shards p, pl_sid_anchor p)))
         else Inl Out_of_bounds)"

section \<open>Start of the network\<close>

text \<open>The command line; \<open>p2p-connection-count\<close> and \<open>network-timeout-sec\<close> have default values.\<close>

record app_options =
  opt_worker_node_list :: "string option"
  opt_machine_id :: "u32 option"
  opt_p2p_connection_count :: u32
  opt_network_timeout_sec :: u32

definition make_machine_info :: "u32 \<Rightarrow> u32 \<Rightarrow> u32 \<Rightarrow> machine_info" where
  "make_machine_info local_shard_count num anchor =
     \<lparr>num_shards = num, sid_anchor = anchor, min_sid = anchor, max_sid = anchor + local_shard_count - 1\<rparr>"

definition checked_timeout :: "u32 \<Rightarrow> u32 res" where
  "checked_timeout t =
     (if t = 0 then Inl (Thrown ''Network connection timeout seconds cannot be set to 0.'') else Inr (min t timeout_limit))"

text \<open>The last component says that \<open>network_io::start_and_connect\<close> is called. \<open>read_file\<close> gives the contents
  of a file, the empty string for a file that cannot be opened.\<close>

definition start_network ::
    "(string \<Rightarrow> string) \<Rightarrow> (string \<Rightarrow> socket_address res) \<Rightarrow> u32 \<Rightarrow> app_options \<Rightarrow>
     (network_config \<times> machine_info \<times> bool) res" where
  "start_network read_file ipv4 local_shard_count opts =
     (case opt_worker_node_list opts of
        None \<Rightarrow> Inr (default_network_config, make_machine_info local_shard_count local_shard_count 0,
                  1 < num_machines default_network_config)
      | Some list_file \<Rightarrow>
         (case opt_machine_id opts of
            None \<Rightarrow> Inl (Thrown ''command line argument --machine-id must be specified in distributed mode.'')
          | Some mid \<Rightarrow>
              bind_res (load_worker_node_list ipv4 local_shard_count (read_file list_file) mid) (\<lambda>nodes.
              bind_res (set_network_config local_shard_count mid (opt_p2p_connection_count opts)
                          (default_network_config\<lparr>node_list := nodes\<rparr>)) (\<lambda>(nc, num, anchor).
              bind_res (checked_timeout (opt_network_timeout_sec opts)) (\<lambda>t.
                Inr (nc\<lparr>timeout_seconds := t\<rparr>, make_machine_info local_shard_count num anchor, 1 < num_machines nc))))))"

section \<open>The shard of an accepted connection\<close>

text \<open>\<open>hiactor_lba_policy::get_cpu\<close> forwards to it.\<close>

definition get_client_target_shard :: "u32 \<Rightarrow> u32 \<Rightarrow> network_config \<Rightarrow> (u32 \<times> network_config) res" where
  "get_client_target_shard local_shard_count ia nc =
     (case addr_lsid_map nc ia of
        None \<Rightarrow> Inr (0, nc)
      | Some sid \<Rightarrow>
          bind_res (umod (sid + 1) local_shard_count) (\<lambda>d.
            Inr (sid, nc\<lparr>addr_lsid_map := (addr_lsid_map nc)(ia \<mapsto> d)\<rparr>)))"

definition get_cpu :: "u32 \<Rightarrow> u32 \<Rightarrow> u16 \<Rightarrow> network_config \<Rightarrow> (u32 \<times> network_config) res" where
  "get_cpu local_shard_count addr port nc = get_client_target_shard local_shard_count addr nc"

section \<open>Validation\<close>

definition nodes_ok :: "u32 \<Rightarrow> u32 \<Rightarrow> worker_node_info list \<Rightarrow> bool" where
  "nodes_ok local_shard_count this_mid nodes \<longleftrightarrow>
     unat this_mid < length nodes \<and> nr_cores (nodes ! unat this_mid) = local_shard_count \<and>
     (\<forall>i<length nodes. wn_machine_id (nodes ! i) = word_of_nat i)"

lemma check_nodes_Inr: "check_nodes lsc mid nodes = Inr nodes' \<longleftrightarrow> nodes' = nodes \<and> nodes_ok lsc mid nodes"
  by (auto simp: check_nodes_def nodes_ok_def list_all_iff not_le)

lemma load_worker_node_list_Inr:
  "load_worker_node_list ipv4 lsc file mid = Inr nodes \<longleftrightarrow>
     read_nodes ipv4 (first_line_dropped file) [] = Inr nodes \<and> nodes_ok lsc mid nodes"
  by (auto simp: load_worker_node_list_def bind_res_Inr_iff check_nodes_Inr)

section \<open>The plan\<close>

definition cores_of :: "worker_node_info list \<Rightarrow> nat" where
  "cores_of nodes = sum_list (map (\<lambda>n. unat (nr_cores n)) nodes)"

text \<open>How many connections to machine \<open>m\<close> the shards of this machine open.\<close>

definition conns_to :: "u32 \<Rightarrow> (socket_address \<times> u32) list list \<Rightarrow> nat" where
  "conns_to m sl = sum_list (map (\<lambda>l. length (filter (\<lambda>x. snd x = m) l)) sl)"

definition plan_ok :: "u32 \<Rightarrow> plan \<Rightarrow> bool" where
  "plan_ok cores p \<longleftrightarrow> length (server_lists (pl_nc p)) = unat cores \<and> dst_shard p < cores"

lemma umod_lt: "b > (0 :: u32) \<Longrightarrow> umod a b = Inr (a mod b) \<and> a mod b < b"
  using unat_mod_distrib [of a b] by (auto simp: umod_def word_less_nat_alt)

lemma conns_to_update:
  assumes "d < length sl"
  shows "conns_to m (sl[d := sl ! d @ [x]]) = conns_to m sl + (if snd x = m then 1 else 0)"
proof -
  have "conns_to m sl = conns_to m (take d sl @ sl ! d # drop (Suc d) sl)"
    by (rule arg_cong [where f = "conns_to m", OF id_take_nth_drop [OF assms]])
  then show ?thesis using assms by (simp add: conns_to_def upd_conv_take_nth_drop)
qed

lemma connect_once_ok:
  assumes "plan_ok cores p"
  shows "\<exists>p'. connect_once cores x p = Inr p' \<and> plan_ok cores p' \<and>
    (\<forall>m. conns_to m (server_lists (pl_nc p')) = conns_to m (server_lists (pl_nc p)) + (if snd x = m then 1 else 0)) \<and>
    pl_num_global_shards p' = pl_num_global_shards p \<and> pl_sid_anchor p' = pl_sid_anchor p \<and>
    wait_conn_count (pl_nc p') = wait_conn_count (pl_nc p)"
proof -
  have d: "unat (dst_shard p) < length (server_lists (pl_nc p))" and c: "cores > 0"
    using assms by (auto simp: plan_ok_def word_less_nat_alt)
  show ?thesis
    using assms d umod_lt [OF c, of "dst_shard p + 1"] conns_to_update [OF d, of _ x]
    by (simp add: connect_once_def Let_def plan_ok_def)
qed

lemma connect_all_ok:
  "plan_ok cores p \<Longrightarrow> \<exists>p'. fold_res (\<lambda>i. connect_once cores x) [0..<k] p = Inr p' \<and> plan_ok cores p' \<and>
    (\<forall>m. conns_to m (server_lists (pl_nc p')) = conns_to m (server_lists (pl_nc p)) + (if snd x = m then k else 0)) \<and>
    pl_num_global_shards p' = pl_num_global_shards p \<and> pl_sid_anchor p' = pl_sid_anchor p \<and>
    wait_conn_count (pl_nc p') = wait_conn_count (pl_nc p)"
proof (induction k)
  case (Suc k)
  then obtain p1 where p1: "fold_res (\<lambda>i. connect_once cores x) [0..<k] p = Inr p1" "plan_ok cores p1"
    "\<forall>m. conns_to m (server_lists (pl_nc p1)) = conns_to m (server_lists (pl_nc p)) + (if snd x = m then k else 0)"
    "pl_num_global_shards p1 = pl_num_global_shards p" "pl_sid_anchor p1 = pl_sid_anchor p"
    "wait_conn_count (pl_nc p1) = wait_conn_count (pl_nc p)" by blast
  from connect_once_ok [OF p1(2), of x] p1 show ?case by (auto simp: fold_res_append)
qed simp

lemma plan_step_ok:
  assumes "plan_ok cores p"
  shows "\<exists>p'. plan_step mid p2p cores conf p = Inr p' \<and> plan_ok cores p' \<and>
    pl_num_global_shards p' = pl_num_global_shards p + nr_cores conf \<and>
    pl_sid_anchor p' = pl_sid_anchor p + (if wn_machine_id conf < mid then nr_cores conf else 0) \<and>
    wait_conn_count (pl_nc p') = wait_conn_count (pl_nc p) + (if mid < wn_machine_id conf then p2p else 0) \<and>
    (\<forall>m. conns_to m (server_lists (pl_nc p')) = conns_to m (server_lists (pl_nc p)) +
       (if wn_machine_id conf = m \<and> m < mid then unat p2p else 0))"
proof -
  have c: "cores > 0" using assms by (auto simp: plan_ok_def word_less_nat_alt)
  consider "mid = wn_machine_id conf" | "mid < wn_machine_id conf" | "wn_machine_id conf < mid" by fastforce
  then show ?thesis
  proof cases
    case 1
    then show ?thesis using assms by (auto simp: plan_step_def plan_ok_def)
  next
    case 2
    then show ?thesis using assms umod_lt [OF c, of "dst_shard p + p2p"] by (auto simp: plan_step_def plan_ok_def Let_def)
  next
    case 3
    let ?p = "p\<lparr>pl_sid_anchor := pl_sid_anchor p + nr_cores conf\<rparr>"
    have "plan_ok cores ?p" using assms by (simp add: plan_ok_def)
    from connect_all_ok [OF this, of "(wn_addr conf, wn_machine_id conf)" "unat p2p"] 3 show ?thesis
      by (auto simp: plan_step_def plan_ok_def)
  qed
qed

definition num_above :: "u32 \<Rightarrow> worker_node_info list \<Rightarrow> nat" where
  "num_above mid nodes = length (filter (\<lambda>c. mid < wn_machine_id c) nodes)"

lemma plan_steps_ok:
  "plan_ok cores p \<Longrightarrow> \<exists>p'. fold_res (plan_step mid p2p cores) nodes p = Inr p' \<and> plan_ok cores p' \<and>
    pl_num_global_shards p' = pl_num_global_shards p + word_of_nat (cores_of nodes) \<and>
    pl_sid_anchor p' = pl_sid_anchor p + word_of_nat (cores_of (filter (\<lambda>c. wn_machine_id c < mid) nodes)) \<and>
    wait_conn_count (pl_nc p') = wait_conn_count (pl_nc p) + word_of_nat (num_above mid nodes) * p2p \<and>
    (\<forall>m. conns_to m (server_lists (pl_nc p')) = conns_to m (server_lists (pl_nc p)) +
       (if m < mid then unat p2p * length (filter (\<lambda>c. wn_machine_id c = m) nodes) else 0))"
proof (induction nodes arbitrary: p)
  case Nil
  then show ?case by (simp add: cores_of_def num_above_def)
next
  case (Cons c nodes)
  from plan_step_ok [OF Cons.prems, of mid p2p c] obtain p1 where
    p1: "plan_step mid p2p cores c p = Inr p1" "plan_ok cores p1"
    "pl_num_global_shards p1 = pl_num_global_shards p + nr_cores c"
    "pl_sid_anchor p1 = pl_sid_anchor p + (if wn_machine_id c < mid then nr_cores c else 0)"
    "wait_conn_count (pl_nc p1) = wait_conn_count (pl_nc p) + (if mid < wn_machine_id c then p2p else 0)"
    "\<forall>m. conns_to m (server_lists (pl_nc p1)) = conns_to m (server_lists (pl_nc p)) +
       (if wn_machine_id c = m \<and> m < mid then unat p2p else 0)" by blast
  from Cons.IH [OF p1(2)] obtain p2 where
    p2: "fold_res (plan_step mid p2p cores) nodes p1 = Inr p2" "plan_ok cores p2"
    "pl_num_global_shards p2 = pl_num_global_shards p1 + word_of_nat (cores_of nodes)"
    "pl_sid_anchor p2 = pl_sid_anchor p1 + word_of_nat (cores_of (filter (\<lambda>c. wn_machine_id c < mid) nodes))"
    "wait_conn_count (pl_nc p2) = wait_conn_count (pl_nc p1) + word_of_nat (num_above mid nodes) * p2p"
    "\<forall>m. conns_to m (server_lists (pl_nc p2)) = conns_to m (server_lists (pl_nc p1)) +
       (if m < mid then unat p2p * length (filter (\<lambda>c. wn_machine_id c = m) nodes) else 0)" by blast
  show ?case
    using p1 p2 by (auto simp: cores_of_def num_above_def algebra_simps)
qed

section \<open>Every machine of the cluster\<close>

definition ids_in_order :: "worker_node_info list \<Rightarrow> bool" where
  "ids_in_order nodes \<longleftrightarrow> length nodes < 2 ^ 32 \<and> (\<forall>i<length nodes. wn_machine_id (nodes ! i) = word_of_nat i)"

lemma unat_of_nat_small: "k < 2 ^ 32 \<Longrightarrow> unat (word_of_nat k :: u32) = k"
  by (simp add: unat_of_nat take_bit_eq_mod)

lemma ids_at: "ids_in_order nodes \<Longrightarrow> i < length nodes \<Longrightarrow> unat (wn_machine_id (nodes ! i)) = i"
  using unat_of_nat_small [of i] by (auto simp: ids_in_order_def)

lemma filter_below:
  assumes "ids_in_order nodes" and "unat mid \<le> length nodes"
  shows "filter (\<lambda>c. wn_machine_id c < mid) nodes = take (unat mid) nodes"
proof -
  let ?P = "\<lambda>c. wn_machine_id c < mid"
  have "filter ?P (take (unat mid) nodes) = take (unat mid) nodes"
    by (rule filter_True) (auto simp: in_set_conv_nth word_less_nat_alt ids_at [OF assms(1)])
  moreover have "filter ?P (drop (unat mid) nodes) = []"
    using assms by (auto simp: filter_empty_conv in_set_conv_nth word_less_nat_alt ids_at [OF assms(1)])
  ultimately show ?thesis by (metis append_Nil2 append_take_drop_id filter_append)
qed

lemma num_above_ids:
  assumes "ids_in_order nodes" and "unat mid < length nodes"
  shows "num_above mid nodes = length nodes - unat mid - 1"
proof -
  let ?P = "\<lambda>c. mid < wn_machine_id c"
  have "filter ?P (take (Suc (unat mid)) nodes) = []"
    using assms by (auto simp: filter_empty_conv in_set_conv_nth word_less_nat_alt ids_at [OF assms(1)])
  moreover have "filter ?P (drop (Suc (unat mid)) nodes) = drop (Suc (unat mid)) nodes"
    using assms by (intro filter_True) (auto simp: in_set_conv_nth word_less_nat_alt ids_at [OF assms(1)])
  ultimately have "filter ?P nodes = drop (Suc (unat mid)) nodes"
    by (metis append_Nil append_take_drop_id filter_append)
  then show ?thesis by (simp add: num_above_def)
qed

lemma one_with_id:
  assumes "ids_in_order nodes" and "unat m < length nodes"
  shows "length (filter (\<lambda>c. wn_machine_id c = m) nodes) = 1"
proof -
  have "{i. i < length nodes \<and> wn_machine_id (nodes ! i) = m} = {unat m}"
    using assms ids_at [OF assms(1)] by (auto simp: ids_in_order_def)
  then show ?thesis by (simp add: length_filter_conv_card)
qed

definition fresh_config :: "worker_node_info list \<Rightarrow> network_config" where
  "fresh_config nodes = default_network_config\<lparr>node_list := nodes\<rparr>"

lemma fold_res_keeps:
  assumes "\<And>x s s'. f x s = Inr s' \<Longrightarrow> g s' = g s"
  shows "fold_res f xs s = Inr s' \<Longrightarrow> g s' = g s"
  by (induction xs arbitrary: s) (auto simp: bind_res_Inr_iff dest!: assms)

lemma connect_once_num_machines: "connect_once c x q = Inr q' \<Longrightarrow> num_machines (pl_nc q') = num_machines (pl_nc q)"
  by (auto simp: connect_once_def Let_def bind_res_Inr_iff split: if_splits)

lemma connect_all_num_machines:
  "fold_res (\<lambda>i. connect_once c x) xs q = Inr q' \<Longrightarrow> num_machines (pl_nc q') = num_machines (pl_nc q)"
  by (rule fold_res_keeps [where g = "\<lambda>p. num_machines (pl_nc p)"]) (auto dest: connect_once_num_machines)

lemma plan_step_num_machines: "plan_step a b c x q = Inr q' \<Longrightarrow> num_machines (pl_nc q') = num_machines (pl_nc q)"
  by (auto simp: plan_step_def Let_def bind_res_Inr_iff split: if_splits
      dest: connect_all_num_machines)

text \<open>What \<open>set_network_config\<close> computes on machine \<open>mid\<close>.\<close>

lemma set_network_config_ok:
  assumes ids: "ids_in_order nodes" and mid: "unat mid < length nodes" and "0 < lsc"
  shows "\<exists>nc. set_network_config lsc mid p2p (fresh_config nodes) =
      Inr (nc, word_of_nat (cores_of nodes), word_of_nat (cores_of (take (unat mid) nodes))) \<and>
    wait_conn_count nc = word_of_nat (length nodes - unat mid - 1) * p2p \<and>
    (\<forall>m. unat m < length nodes \<longrightarrow> conns_to m (server_lists nc) = (if m < mid then unat p2p else 0)) \<and>
    num_machines nc = word_of_nat (length nodes) \<and> length (server_lists nc) = unat lsc"
proof -
  let ?nc = "(fresh_config nodes)\<lparr>machine_id := mid, wait_conn_count := 0, p2p_conn_count := p2p,
     listen_port := snd (wn_addr (nodes ! unat mid)), num_machines := word_of_nat (length nodes),
     server_lists := replicate (unat lsc) []\<rparr>"
  let ?p = "\<lparr>pl_nc = ?nc, pl_num_global_shards = 0, pl_sid_anchor = 0, dst_shard = 0\<rparr>"
  have p: "plan_ok lsc ?p" using assms by (simp add: plan_ok_def)
  have zero: "conns_to m (replicate k []) = 0" for m k by (simp add: conns_to_def sum_list_replicate)
  from plan_steps_ok [OF p, of mid p2p nodes] obtain p' where
    p': "fold_res (plan_step mid p2p lsc) nodes ?p = Inr p'" "plan_ok lsc p'"
    "pl_num_global_shards p' = word_of_nat (cores_of nodes)"
    "pl_sid_anchor p' = word_of_nat (cores_of (take (unat mid) nodes))"
    "wait_conn_count (pl_nc p') = word_of_nat (length nodes - unat mid - 1) * p2p"
    "\<forall>m. conns_to m (server_lists (pl_nc p')) =
       (if m < mid then unat p2p * length (filter (\<lambda>c. wn_machine_id c = m) nodes) else 0)"
    using zero mid by (auto simp: filter_below [OF ids] num_above_ids [OF ids mid])
  have "num_machines (pl_nc p') = num_machines (pl_nc ?p)"
    by (rule fold_res_keeps [OF _ p'(1)]) (rule plan_step_num_machines)
  then have "num_machines (pl_nc p') = word_of_nat (length nodes)" by simp
  then show ?thesis
    using p' mid one_with_id [OF ids]
    by (auto simp: set_network_config_def fresh_config_def default_network_config_def Let_def plan_ok_def)
qed

definition cluster_opts :: "string \<Rightarrow> u32 \<Rightarrow> u32 \<Rightarrow> nat \<Rightarrow> app_options" where
  "cluster_opts f p2p t i = \<lparr>opt_worker_node_list = Some f, opt_machine_id = Some (word_of_nat i),
     opt_p2p_connection_count = p2p, opt_network_timeout_sec = t\<rparr>"

definition cluster_ok :: "worker_node_info list \<Rightarrow> bool" where
  "cluster_ok nodes \<longleftrightarrow> (\<forall>i<length nodes. wn_machine_id (nodes ! i) = word_of_nat i) \<and>
     list_all (\<lambda>n. 0 < nr_cores n) nodes \<and> cores_of nodes < 2 ^ 32"

lemma length_le_cores: "list_all (\<lambda>n. 0 < nr_cores n) nodes \<Longrightarrow> length nodes \<le> cores_of nodes"
  by (induction nodes) (auto simp: cores_of_def word_less_nat_alt)

lemma cluster_ids: "cluster_ok nodes \<Longrightarrow> ids_in_order nodes"
  using length_le_cores [of nodes] by (auto simp: cluster_ok_def ids_in_order_def)

lemma cluster_cores: "cluster_ok nodes \<Longrightarrow> i < length nodes \<Longrightarrow> 0 < nr_cores (nodes ! i)"
  by (auto simp: cluster_ok_def list_all_length)

lemma cores_of_take_Suc: "i < length nodes \<Longrightarrow> cores_of (take (Suc i) nodes) = cores_of (take i nodes) + unat (nr_cores (nodes ! i))"
  by (simp add: cores_of_def take_Suc_conv_app_nth)

lemma cores_of_take_mono: "i \<le> j \<Longrightarrow> cores_of (take i nodes) \<le> cores_of (take j nodes)"
  using le_Suc_ex [of i j] by (auto simp: cores_of_def take_add)

lemma start_network_ok:
  assumes f: "read_nodes ipv4 (first_line_dropped (read_file f)) [] = Inr nodes" and c: "cluster_ok nodes"
    and "t \<noteq> 0" and i: "i < length nodes"
  shows "\<exists>nc. start_network read_file ipv4 (nr_cores (nodes ! i)) (cluster_opts f p2p t i) =
      Inr (nc, make_machine_info (nr_cores (nodes ! i)) (word_of_nat (cores_of nodes)) (word_of_nat (cores_of (take i nodes))),
           1 < length nodes) \<and>
    wait_conn_count nc = word_of_nat (length nodes - i - 1) * p2p \<and>
    (\<forall>m. m < length nodes \<longrightarrow> conns_to (word_of_nat m) (server_lists nc) = (if m < i then unat p2p else 0))"
proof -
  note ids = cluster_ids [OF c]
  have len: "length nodes < 2 ^ 32" using ids by (simp add: ids_in_order_def)
  then have ui: "unat (word_of_nat m :: u32) = m" if "m \<le> length nodes" for m using that unat_of_nat_small by simp
  have "nodes_ok (nr_cores (nodes ! i)) (word_of_nat i) nodes"
    using c i ui [of i] by (simp add: nodes_ok_def cluster_ok_def)
  then have load: "load_worker_node_list ipv4 (nr_cores (nodes ! i)) (read_file f) (word_of_nat i) = Inr nodes"
    using f by (simp add: load_worker_node_list_Inr)
  have m: "unat (word_of_nat i :: u32) < length nodes" using i ui [of i] by simp
  from set_network_config_ok [OF ids m cluster_cores [OF c i], of p2p] obtain nc where
    nc: "set_network_config (nr_cores (nodes ! i)) (word_of_nat i) p2p (fresh_config nodes) =
      Inr (nc, word_of_nat (cores_of nodes), word_of_nat (cores_of (take i nodes)))"
    "wait_conn_count nc = word_of_nat (length nodes - i - 1) * p2p"
    "\<forall>m. unat m < length nodes \<longrightarrow> conns_to m (server_lists nc) = (if m < word_of_nat i then unat p2p else 0)"
    "num_machines nc = word_of_nat (length nodes)"
    using i ui [of i] by auto
  have "1 < num_machines nc \<longleftrightarrow> 1 < length nodes"
    unfolding nc(4) using ui [of "length nodes"] by (simp add: word_less_nat_alt)
  then have "start_network read_file ipv4 (nr_cores (nodes ! i)) (cluster_opts f p2p t i) =
      Inr (nc\<lparr>timeout_seconds := min t timeout_limit\<rparr>,
        make_machine_info (nr_cores (nodes ! i)) (word_of_nat (cores_of nodes)) (word_of_nat (cores_of (take i nodes))),
        1 < length nodes)"
    using load nc(1) \<open>t \<noteq> 0\<close> by (simp add: start_network_def cluster_opts_def fresh_config_def checked_timeout_def)
  moreover have "conns_to (word_of_nat m) (server_lists nc) = (if m < i then unat p2p else 0)" if "m < length nodes" for m
    using nc(3) that ui [of m] ui [of i] i by (simp add: word_less_nat_alt)
  ultimately show ?thesis using nc(2) by auto
qed

lemma is_local_iff:
  assumes "a + unat lsc \<le> 2 ^ 32" and "0 < lsc" and "g < 2 ^ 32"
  shows "is_local (make_machine_info lsc num (word_of_nat a)) (word_of_nat g) \<longleftrightarrow> a \<le> g \<and> g < a + unat lsc"
proof -
  have l: "0 < unat lsc" using assms(2) by (simp add: word_less_nat_alt)
  have a: "unat (word_of_nat a :: u32) = a" using assms(1) l by (intro unat_of_nat_small) simp
  have "word_of_nat a + lsc - 1 = (word_of_nat (a + unat lsc - 1) :: u32)" using l by (simp add: of_nat_diff)
  moreover have "unat (word_of_nat (a + unat lsc - 1) :: u32) = a + unat lsc - 1"
    using assms(1) l by (intro unat_of_nat_small) simp
  ultimately show ?thesis
    using a l unat_of_nat_small [OF assms(3)] by (auto simp: is_local_def make_machine_info_def word_le_nat_alt)
qed

text \<open>The machine of a global shard: the first one whose shards reach beyond it.\<close>

lemma machine_of_shard:
  assumes "g < cores_of nodes"
  shows "\<exists>!i. i < length nodes \<and> cores_of (take i nodes) \<le> g \<and> g < cores_of (take (Suc i) nodes)"
proof -
  let ?i = "LEAST k. g < cores_of (take (Suc k) nodes)"
  have n: "nodes \<noteq> []" using assms by (auto simp: cores_of_def)
  then have ex: "g < cores_of (take (Suc (length nodes - 1)) nodes)" using assms by simp
  then have "?i \<le> length nodes - 1" by (rule Least_le)
  then have "?i < length nodes" using n by (cases nodes) auto
  moreover have up: "g < cores_of (take (Suc ?i) nodes)" using ex by (rule LeastI)
  moreover have "cores_of (take ?i nodes) \<le> g"
  proof (cases ?i)
    case 0
    then show ?thesis by (simp add: cores_of_def)
  next
    case (Suc k)
    then show ?thesis using not_less_Least [of k "\<lambda>k. g < cores_of (take (Suc k) nodes)"] by simp
  qed
  moreover have "i = j" if "cores_of (take i nodes) \<le> g" "g < cores_of (take (Suc i) nodes)"
      "cores_of (take j nodes) \<le> g" "g < cores_of (take (Suc j) nodes)" for i j
  proof (rule ccontr)
    assume "i \<noteq> j"
    then consider "Suc i \<le> j" | "Suc j \<le> i" by linarith
    then show False
      using cores_of_take_mono [of "Suc i" j nodes] cores_of_take_mono [of "Suc j" i nodes] that by cases simp_all
  qed
  ultimately show ?thesis by blast
qed

section \<open>Writing a node list\<close>

definition digit :: "nat \<Rightarrow> char" where "digit d = char_of (48 + d)"

fun show_nat :: "nat \<Rightarrow> string" where
  "show_nat n = (if n < 10 then [digit n] else show_nat (n div 10) @ [digit (n mod 10)])"

declare show_nat.simps [simp del]

definition node_line :: "worker_node_info \<times> string \<Rightarrow> string" where
  "node_line x = show_nat (unat (wn_machine_id (fst x))) @ '' '' @ show_nat (unat (nr_cores (fst x))) @ '' '' @ snd x @ [CHR 0x0A]"

definition node_file :: "string \<Rightarrow> (worker_node_info \<times> string) list \<Rightarrow> string" where
  "node_file title xs = title @ [CHR 0x0A] @ concat (map node_line xs)"

definition line_ok :: "(string \<Rightarrow> socket_address res) \<Rightarrow> worker_node_info \<times> string \<Rightarrow> bool" where
  "line_ok ipv4 x \<longleftrightarrow> snd x \<noteq> [] \<and> list_all (\<lambda>c. \<not> is_ws c) (snd x) \<and> ipv4 (snd x) = Inr (wn_addr (fst x))"

lemma digit_val_digit: "d < 10 \<Longrightarrow> digit_val (digit d) = Some d"
  by (simp add: digit_val_def digit_def)

lemma digit_not_special: "d < 10 \<Longrightarrow> \<not> is_ws (digit d) \<and> digit d \<noteq> CHR ''-'' \<and> digit d \<noteq> CHR ''+''"
proof -
  assume "d < 10"
  then have d: "(of_char (digit d) :: nat) = 48 + d" by (simp add: digit_def)
  then show ?thesis unfolding is_ws_def by (auto dest!: arg_cong [where f = "of_char :: char \<Rightarrow> nat"])
qed

lemma show_nat_shape: "\<exists>d cs. d < 10 \<and> show_nat n = digit d # cs"
proof (induction n rule: show_nat.induct)
  case (1 n)
  show ?case
  proof (cases "n < 10")
    case False
    with 1 obtain d cs where "d < 10" "show_nat (n div 10) = digit d # cs" by blast
    then show ?thesis using False by (subst show_nat.simps) auto
  qed (subst show_nat.simps, auto)
qed

lemma read_digits_show: "read_digits acc (show_nat n @ rest) = read_digits (10 ^ length (show_nat n) * acc + n) rest"
proof (induction n arbitrary: acc rest rule: show_nat.induct)
  case (1 n)
  show ?case
  proof (cases "n < 10")
    case True
    then show ?thesis by (simp add: show_nat.simps [of n] digit_val_digit)
  next
    case False
    have e: "show_nat n = show_nat (n div 10) @ [digit (n mod 10)]" using False by (simp add: show_nat.simps [of n])
    show ?thesis using 1 [OF False] unfolding e by (simp add: digit_val_digit mult.assoc add.commute)
  qed
qed

lemma read_u32_show:
  assumes "rest = [] \<or> digit_val (hd rest) = None" and "list_all is_ws ws"
  shows "read_u32 (ws @ show_nat (unat (w :: u32)) @ rest) = Some (w, rest)"
proof -
  obtain d cs where s: "d < 10" "show_nat (unat w) = digit d # cs" using show_nat_shape by blast
  have "dropWhile is_ws (ws @ show_nat (unat w) @ rest) = show_nat (unat w) @ rest"
    using assms(2) s digit_not_special [OF s(1)] by (simp add: dropWhile_append2 list_all_iff)
  moreover have "read_sign (show_nat (unat w) @ rest) = (False, show_nat (unat w) @ rest)"
    using s digit_not_special [OF s(1)] by (simp add: read_sign_def)
  moreover have "has_digit (show_nat (unat w) @ rest)" using s by (simp add: has_digit_def digit_val_digit)
  moreover have "read_digits 0 (show_nat (unat w) @ rest) = (unat w, rest)"
    using assms(1) read_digits_show [of 0 "unat w" rest] by (cases rest) simp_all
  moreover have "unat w < 2 ^ 32" using unsigned_less [of w] by simp
  ultimately show ?thesis by (simp add: read_u32_def)
qed

lemma read_word_token:
  assumes "w \<noteq> []" "list_all (\<lambda>c. \<not> is_ws c) w" "is_ws c" "list_all is_ws ws"
  shows "read_word (ws @ w @ c # rest) = Some (w, c # rest)"
proof -
  obtain x xs where w: "w = x # xs" using assms(1) by (cases w) auto
  have "dropWhile is_ws (ws @ w @ c # rest) = w @ c # rest"
    using assms(2,4) w by (simp add: dropWhile_append2 list_all_iff)
  then show ?thesis using assms(1-3) by (simp add: read_word_def list_all_iff takeWhile_append2 dropWhile_append2)
qed

lemma ws_chars: "is_ws (CHR '' '')" "is_ws (CHR 0x0A)" "digit_val (CHR '' '') = None" "digit_val (CHR 0x0A) = None"
  by (simp_all add: is_ws_def digit_val_def)

lemma read_nodes_written:
  "list_all (line_ok ipv4) xs \<Longrightarrow> list_all is_ws ws \<Longrightarrow>
   read_nodes ipv4 (ws @ concat (map node_line xs)) acc = Inr (acc @ map fst xs)"
proof (induction xs arbitrary: acc ws)
  case Nil
  then have "dropWhile is_ws ws = []" by (simp add: list_all_iff)
  then have "read_u32 ws = None" unfolding read_u32_def by (simp only:) (simp add: read_sign_def has_digit_def)
  then show ?case by (simp add: read_nodes.simps [of ipv4 ws])
next
  case (Cons x xs)
  let ?l = "show_nat (unat (nr_cores (fst x))) @ '' '' @ snd x @ [CHR 0x0A] @ concat (map node_line xs)"
  have ok: "line_ok ipv4 x" "list_all (line_ok ipv4) xs" using Cons.prems by simp_all
  have 1: "read_u32 (ws @ concat (map node_line (x # xs))) = Some (wn_machine_id (fst x), '' '' @ ?l)"
    using read_u32_show [of "'' '' @ ?l" ws "wn_machine_id (fst x)"] Cons.prems by (simp add: node_line_def ws_chars)
  have 2: "read_u32 ('' '' @ ?l) = Some (nr_cores (fst x), '' '' @ snd x @ [CHR 0x0A] @ concat (map node_line xs))"
    using read_u32_show [of "'' '' @ snd x @ [CHR 0x0A] @ concat (map node_line xs)" "'' ''" "nr_cores (fst x)"]
    by (simp add: ws_chars)
  have 3: "read_word ('' '' @ snd x @ [CHR 0x0A] @ concat (map node_line xs)) = Some (snd x, [CHR 0x0A] @ concat (map node_line xs))"
    using read_word_token [of "snd x" "CHR 0x0A" "'' ''" "concat (map node_line xs)"] ok(1)
    by (simp add: line_ok_def ws_chars)
  have 4: "read_nodes ipv4 ([CHR 0x0A] @ concat (map node_line xs)) (acc @ [fst x]) = Inr ((acc @ [fst x]) @ map fst xs)"
    using Cons.IH [OF ok(2), of "[CHR 0x0A]"] by (simp add: ws_chars)
  have node: "\<lparr>wn_machine_id = wn_machine_id (fst x), nr_cores = nr_cores (fst x), wn_addr = wn_addr (fst x)\<rparr> = fst x" by simp
  then show ?case
    using 1 2 3 4 ok(1) unfolding read_nodes.simps [of ipv4 "ws @ concat (map node_line (x # xs))"]
    by (simp add: line_ok_def node del: worker_node_info.surjective)
qed

lemma first_line_of_file:
  "CHR 0x0A \<notin> set title \<Longrightarrow> first_line_dropped (node_file title xs) = concat (map node_line xs)"
  by (induction title) (auto simp: first_line_dropped_def node_file_def)

section \<open>Properties\<close>

definition two_nodes :: "(worker_node_info \<times> string) list" where
  "two_nodes = [(\<lparr>wn_machine_id = 0, nr_cores = 2, wn_addr = (1, 7)\<rparr>, ''a:7''),
                (\<lparr>wn_machine_id = 1, nr_cores = 3, wn_addr = (2, 7)\<rparr>, ''b:7'')]"

definition two_ipv4 :: "string \<Rightarrow> socket_address res" where
  "two_ipv4 s = (if s = ''a:7'' then Inr (1, 7) else if s = ''b:7'' then Inr (2, 7) else Inl (Thrown ''bad address''))"

lemma two_nodes_file: "read_nodes two_ipv4 (first_line_dropped (node_file ''id cores addr'' two_nodes)) [] = Inr (map fst two_nodes)"
proof -
  have "list_all (line_ok two_ipv4) two_nodes" by (simp add: two_nodes_def line_ok_def two_ipv4_def is_ws_def)
  from read_nodes_written [OF this, of "[]" "[]"] show ?thesis by (simp add: first_line_of_file)
qed

lemma two_nodes_ok: "cluster_ok (map fst two_nodes)"
  by (auto simp: cluster_ok_def two_nodes_def cores_of_def less_Suc_eq)

text \<open>C34: Reading a node list file returns exactly the nodes that were written into it: for every list of
  nodes whose address strings have no white space and are understood by the address parser, the file
  with any title line and one line per node is read back as that list, and the list is accepted exactly
  if the machine's id is below the number of nodes, its number of cores is the number of local shards,
  and the ids are 0, 1, 2, ... in order.\<close>

theorem node_list_round_trip:
  assumes "list_all (line_ok ipv4) xs" and "CHR 0x0A \<notin> set title"
  shows "case load_worker_node_list ipv4 lsc (node_file title xs) mid of
      Inr nodes \<Rightarrow> nodes = map fst xs \<and> nodes_ok lsc mid (map fst xs)
    | Inl e \<Rightarrow> \<not> nodes_ok lsc mid (map fst xs) \<and> (\<exists>what. e = Thrown what)"
proof -
  have "read_nodes ipv4 (first_line_dropped (node_file title xs)) [] = Inr (map fst xs)"
    using read_nodes_written [OF assms(1), of "[]" "[]"] assms(2) by (simp add: first_line_of_file)
  then have l: "load_worker_node_list ipv4 lsc (node_file title xs) mid = check_nodes lsc mid (map fst xs)"
    by (simp add: load_worker_node_list_def)
  show ?thesis
  proof (cases "check_nodes lsc mid (map fst xs)")
    case (Inl e)
    then show ?thesis
      unfolding l using check_nodes_Inr [of lsc mid "map fst xs" "map fst xs"] by (auto simp: check_nodes_def split: if_splits)
  next
    case (Inr nodes)
    then have "nodes = map fst xs \<and> nodes_ok lsc mid (map fst xs)" by (simp add: check_nodes_Inr)
    then show ?thesis unfolding l Inr by simp
  qed
qed

theorem node_list_round_trip_witness:
  "load_worker_node_list two_ipv4 3 (node_file ''id cores addr'' two_nodes) 1 = Inr (map fst two_nodes)"
proof -
  have l: "list_all (line_ok two_ipv4) two_nodes" by (simp add: two_nodes_def line_ok_def two_ipv4_def is_ws_def)
  have "nodes_ok 3 1 (map fst two_nodes)" by (auto simp: nodes_ok_def two_nodes_def less_Suc_eq)
  then show ?thesis
    using node_list_round_trip [OF l, of "''id cores addr''" 3 1] by (auto split: sum.splits)
qed

text \<open>C33: The machines of a cluster divide the global shards among themselves. When every machine starts with
  the same node list (machines numbered in order, at least one core each, fewer than 2^32 cores in all),
  every machine starts, all of them agree on the number of shards, and every global shard id below that
  number is local (\<open>machine_info::is_local\<close>) on exactly one machine, where it is the global id of the
  local shard \<open>g\<close> minus the machine's anchor, which is below the machine's number of cores.\<close>

theorem machines_partition_shards:
  assumes f: "read_nodes ipv4 (first_line_dropped (read_file f)) [] = Inr nodes" and c: "cluster_ok nodes"
    and "t \<noteq> 0" and g: "g < cores_of nodes"
  shows "\<exists>!i. i < length nodes \<and> (\<exists>nc mi b.
      start_network read_file ipv4 (nr_cores (nodes ! i)) (cluster_opts f p2p t i) = Inr (nc, mi, b) \<and>
      num_shards mi = word_of_nat (cores_of nodes) \<and> is_local mi (word_of_nat g) \<and>
      (\<exists>k<unat (nr_cores (nodes ! i)). global_shard_id mi (word_of_nat k) = word_of_nat g))"
    (is "\<exists>!i. i < length nodes \<and> ?L i")
proof -
  have L: "?L i \<longleftrightarrow> cores_of (take i nodes) \<le> g \<and> g < cores_of (take (Suc i) nodes)" if i: "i < length nodes" for i
  proof -
    let ?a = "cores_of (take i nodes)" and ?n = "nr_cores (nodes ! i)"
    have S: "cores_of (take (Suc i) nodes) = ?a + unat ?n" using i by (rule cores_of_take_Suc)
    have tot: "cores_of nodes < 2 ^ 32" using c by (simp add: cluster_ok_def)
    have "?a + unat ?n \<le> cores_of nodes" using cores_of_take_mono [of "Suc i" "length nodes" nodes] i S by simp
    with tot have b: "?a + unat ?n \<le> 2 ^ 32" "g < 2 ^ 32" using g by simp_all
    from start_network_ok [where read_file = read_file and f = f, OF f c \<open>t \<noteq> 0\<close> i] obtain nc where
      "start_network read_file ipv4 ?n (cluster_opts f p2p t i) =
       Inr (nc, make_machine_info ?n (word_of_nat (cores_of nodes)) (word_of_nat ?a), 1 < length nodes)" by blast
    moreover have "global_shard_id (make_machine_info ?n m (word_of_nat ?a)) (word_of_nat (g - ?a)) = word_of_nat g"
      if "?a \<le> g" for m
      using that by (simp add: global_shard_id_def make_machine_info_def flip: of_nat_add)
    ultimately show ?thesis
      using is_local_iff [OF b(1) cluster_cores [OF c i] b(2)] S
      by (auto simp: make_machine_info_def less_diff_conv2 intro!: exI [of _ "g - ?a"])
  qed
  have "i < length nodes \<and> ?L i \<longleftrightarrow>
      i < length nodes \<and> cores_of (take i nodes) \<le> g \<and> g < cores_of (take (Suc i) nodes)" for i
    by (rule conj_cong [OF refl L])
  then show ?thesis using machine_of_shard [OF g] by (simp only:)
qed

theorem machines_partition_shards_witness:
  "\<exists>!i. i < 2 \<and> (\<exists>nc mi b.
      start_network (\<lambda>f. node_file ''id cores addr'' two_nodes) two_ipv4 (nr_cores (map fst two_nodes ! i))
        (cluster_opts ''nodes'' 1 60 i) = Inr (nc, mi, b) \<and>
      num_shards mi = 5 \<and> is_local mi 4 \<and>
      (\<exists>k<unat (nr_cores (map fst two_nodes ! i)). global_shard_id mi (word_of_nat k) = 4))"
proof -
  have "cores_of (map fst two_nodes) = 5" "length (map fst two_nodes) = 2" by (simp_all add: cores_of_def two_nodes_def)
  then show ?thesis
    using machines_partition_shards [where f = "''nodes''" and read_file = "\<lambda>f. node_file ''id cores addr'' two_nodes",
        OF two_nodes_file two_nodes_ok, of 60 4 1] by simp
qed

text \<open>The connection plans of two machines fit together. In a cluster that starts with the same node list
  and \<open>p2p-connection-count\<close> everywhere, the machine with the larger id opens exactly
  \<open>p2p-connection-count\<close> connections to the one with the smaller id, over all its shards, the other opens
  none, and the number of connections a machine waits for is the number of those that the machines above
  it open to it, modulo 2^32.\<close>

theorem connection_plans_match:
  assumes f: "read_nodes ipv4 (first_line_dropped (read_file f)) [] = Inr nodes" and c: "cluster_ok nodes" and t: "t \<noteq> 0"
  shows "\<exists>nc. (\<forall>i<length nodes. \<exists>mi b.
        start_network read_file ipv4 (nr_cores (nodes ! i)) (cluster_opts f p2p t i) = Inr (nc i, mi, b)) \<and>
      (\<forall>i<length nodes. \<forall>j<length nodes. conns_to (word_of_nat i) (server_lists (nc j)) = (if i < j then unat p2p else 0)) \<and>
      (\<forall>i<length nodes. wait_conn_count (nc i) =
         word_of_nat (sum (\<lambda>j. conns_to (word_of_nat i) (server_lists (nc j))) {Suc i..<length nodes}))"
proof -
  have "\<forall>i. \<exists>nc. i < length nodes \<longrightarrow>
      (\<exists>mi b. start_network read_file ipv4 (nr_cores (nodes ! i)) (cluster_opts f p2p t i) = Inr (nc, mi, b)) \<and>
      wait_conn_count nc = word_of_nat (length nodes - i - 1) * p2p \<and>
      (\<forall>m. m < length nodes \<longrightarrow> conns_to (word_of_nat m) (server_lists nc) = (if m < i then unat p2p else 0))"
    using start_network_ok [where read_file = read_file and f = f and p2p = p2p, OF f c t] by metis
  then obtain nc where nc: "i < length nodes \<Longrightarrow>
      (\<exists>mi b. start_network read_file ipv4 (nr_cores (nodes ! i)) (cluster_opts f p2p t i) = Inr (nc i, mi, b)) \<and>
      wait_conn_count (nc i) = word_of_nat (length nodes - i - 1) * p2p \<and>
      (\<forall>m. m < length nodes \<longrightarrow> conns_to (word_of_nat m) (server_lists (nc i)) = (if m < i then unat p2p else 0))" for i
    by metis
  have "sum (\<lambda>j. conns_to (word_of_nat i) (server_lists (nc j))) {Suc i..<length nodes} = (length nodes - i - 1) * unat p2p"
    if "i < length nodes" for i
    using nc that by simp
  then have "\<forall>i<length nodes. wait_conn_count (nc i) =
      word_of_nat (sum (\<lambda>j. conns_to (word_of_nat i) (server_lists (nc j))) {Suc i..<length nodes})"
    using nc by simp
  then show ?thesis using nc by blast
qed

theorem connection_plans_match_witness:
  "\<exists>nc. (\<forall>i<2. \<exists>mi b. start_network (\<lambda>f. node_file ''id cores addr'' two_nodes) two_ipv4 (nr_cores (map fst two_nodes ! i))
        (cluster_opts ''nodes'' 4 60 i) = Inr (nc i, mi, b)) \<and>
      conns_to 0 (server_lists (nc 1)) = 4 \<and> wait_conn_count (nc 0) = 4"
proof -
  have n: "length (map fst two_nodes) = 2" by (simp add: two_nodes_def)
  obtain nc where "\<forall>i<2. \<exists>mi b. start_network (\<lambda>f. node_file ''id cores addr'' two_nodes) two_ipv4 (nr_cores (map fst two_nodes ! i))
        (cluster_opts ''nodes'' 4 60 i) = Inr (nc i, mi, b)"
    "\<forall>i<2. \<forall>j<2. conns_to (word_of_nat i) (server_lists (nc j)) = (if i < j then 4 else 0)"
    "\<forall>i<2. wait_conn_count (nc i) = word_of_nat (sum (\<lambda>j. conns_to (word_of_nat i) (server_lists (nc j))) {Suc i..<2})"
    using connection_plans_match [where f = "''nodes''" and read_file = "\<lambda>f. node_file ''id cores addr'' two_nodes",
        OF two_nodes_file two_nodes_ok, of 60 4] unfolding n by auto
  moreover from this(2) [rule_format, of 0 1] have "conns_to 0 (server_lists (nc 1)) = 4" by simp
  ultimately show ?thesis by (intro exI [of _ nc]) simp
qed

end
