(* ===== verification/Local_Channel.thy ===== *)
theory Local_Channel
  imports Channel_Matrix Network_Config Actor_Message
begin

text \<open>
  \<open>local_channel\<close> of \<open>core/local_channel.hh\<close> and \<open>core/local_channel.cc\<close>: the messages between the shards
  of one machine. The target of a message is the shard of its address minus the machine's anchor.
\<close>

section \<open>Sending\<close>

definition local_target :: "machine_info \<Rightarrow> 'd actor_message \<Rightarrow> nat res" where
  "local_target mi msg =
     bind_res (get_shard_id (hdr_addr (msg_hdr msg))) (\<lambda>sid. Inr (unat (sid - sid_anchor mi)))"

definition local_send ::
    "('d actor_message, 'q) spsc \<Rightarrow> machine_info \<Rightarrow> nat \<Rightarrow> 'd actor_message \<Rightarrow> ('d actor_message, 'q) qmatrix \<Rightarrow>
     ('d actor_message ch_event list \<times> ('d actor_message, 'q) qmatrix) res" where
  "local_send Q mi local_shard_id msg qs =
     bind_res (local_target mi msg) (\<lambda>target_cpu. q_send Q False target_cpu local_shard_id msg qs)"

definition local_send_urgent ::
    "('d actor_message, 'q) spsc \<Rightarrow> machine_info \<Rightarrow> nat \<Rightarrow> 'd actor_message \<Rightarrow> ('d actor_message, 'q) qmatrix \<Rightarrow>
     ('d actor_message ch_event list \<times> ('d actor_message, 'q) qmatrix) res" where
  "local_send_urgent Q mi local_shard_id msg qs =
     bind_res (local_target mi msg) (\<lambda>target_cpu. q_send Q True target_cpu local_shard_id msg qs)"

section \<open>Polling without receiving\<close>

text \<open>\<open>pure_poll_queues\<close> flushes the outgoing queues up to the first shard that sent something.\<close>

fun local_pure_poll_loop :: "('m, 'q) spsc \<Rightarrow> nat \<Rightarrow> nat list \<Rightarrow> ('m, 'q) qmatrix \<Rightarrow> (bool \<times> ('m, 'q) qmatrix) res" where
  "local_pure_poll_loop Q s [] qs = Inr (False, qs)"
| "local_pure_poll_loop Q s (i # is) qs =
     (if s \<noteq> i then
        bind_res (flush_to Q s i qs) (\<lambda>qs1.
        bind_res (q_at qs1 s i) (\<lambda>rxq.
          if pure_poll_rx Q rxq then Inr (True, qs1) else local_pure_poll_loop Q s is qs1))
      else local_pure_poll_loop Q s is qs)"

definition local_pure_poll_queues :: "('m, 'q) spsc \<Rightarrow> nat \<Rightarrow> nat \<Rightarrow> ('m, 'q) qmatrix \<Rightarrow> (bool \<times> ('m, 'q) qmatrix) res" where
  "local_pure_poll_queues Q n s qs = local_pure_poll_loop Q s [0..<n] qs"

section \<open>The sends are the steps of a run\<close>

lemma local_send_step:
  "local_send Q mi s msg qs = ch_step Q (local_target mi) (Ch_send s False msg) qs"
  "local_send_urgent Q mi s msg qs = ch_step Q (local_target mi) (Ch_send s True msg) qs"
  by (simp_all add: local_send_def local_send_urgent_def ch_send_def)

text \<open>A message whose address names another shard of this machine is routed to that shard.\<close>

lemma local_route_ok:
  assumes "get_shard_id (hdr_addr (msg_hdr msg)) = Inr (word_of_nat g)"
    and "is_local (make_machine_info lsc num (word_of_nat a)) (word_of_nat g)"
    and "a + unat lsc \<le> 2 ^ 32" and "0 < lsc" and "g < 2 ^ 32" and "g \<noteq> a + s"
  shows "route_ok (local_target (make_machine_info lsc num (word_of_nat a))) (unat lsc) s msg"
proof -
  have g: "a \<le> g" "g < a + unat lsc" using is_local_iff [OF assms(3-5)] assms(2) by simp_all
  then have "word_of_nat g - word_of_nat a = (word_of_nat (g - a) :: u32)" by (simp add: of_nat_diff)
  moreover have "unat (word_of_nat (g - a) :: u32) = g - a" using g assms(5) by (intro unat_of_nat_small) simp
  ultimately have "local_target (make_machine_info lsc num (word_of_nat a)) msg = Inr (g - a)"
    using assms(1) by (simp add: local_target_def make_machine_info_def)
  then show ?thesis using g assms(6) by (auto simp: route_ok_def)
qed

context spsc_queue
begin

text \<open>\<open>poll_queues\<close> and \<open>pure_poll_queues\<close> of a started channel do not fault, and \<open>pure_poll_queues\<close> says
  whether some shard sent something that is not received yet.\<close>

lemma poll_loop_ok:
  assumes "s < n" and "\<And>m. list_all (\<lambda>um. route_ok route n s (snd um)) (h m)"
  shows "ch_ok n evs qs \<Longrightarrow> list_all (\<lambda>i. i < n) is \<Longrightarrow>
    \<exists>got es qs'. poll_loop Q route h s is bt qs = Inr (got, es, qs') \<and> ch_ok n (evs @ es) qs'"
proof (induction "is" arbitrary: evs qs)
  case (Cons i "is")
  then have i: "i < n" "list_all (\<lambda>i. i < n) is" by simp_all
  show ?case
  proof (cases "s = i")
    case True
    then show ?thesis using Cons.IH [OF Cons.prems(1) i(2)] by simp
  next
    case False
    from poll_one_ok [where h = h and ts = "bt i", OF Cons.prems(1) assms(1) i(1) False assms(2)] obtain nr e qs1 where
      1: "poll_one Q route h s i (bt i) qs = Inr (nr, e, qs1)" "ch_ok n (evs @ e) qs1" by blast
    from Cons.IH [OF 1(2) i(2)] 1(1) False show ?thesis by auto
  qed
qed simp

lemma pure_poll_loop_ok:
  assumes "s < n"
  shows "ch_ok n evs qs \<Longrightarrow> list_all (\<lambda>i. i < n) is \<Longrightarrow>
    \<exists>b qs'. local_pure_poll_loop Q s is qs = Inr (b, qs') \<and> ch_ok n evs qs' \<and>
      (b \<longleftrightarrow> (\<exists>i\<in>set is. i \<noteq> s \<and> items (mq_pending (qs ! s ! i)) \<noteq> []))"
proof (induction "is" arbitrary: qs)
  case (Cons i "is")
  then have i: "i < n" "list_all (\<lambda>i. i < n) is" by simp_all
  show ?case
  proof (cases "s = i")
    case True
    then show ?thesis using Cons.IH [OF Cons.prems(1) i(2)] by simp
  next
    case False
    from flush_to_ok [OF Cons.prems(1) i(1) assms] False obtain qs1 where
      1: "flush_to Q s i qs = Inr qs1" "ch_ok n evs qs1" by metis
    have sq: "square n qs" "square n qs1" using Cons.prems(1) 1(2) by (simp_all add: ch_ok_def)
    have same: "qs1 ! s ! j = qs ! s ! j" if "j < n" for j
      using 1(1) sq(1) assms i(1) that False
      by (auto simp: flush_to_def bind_res_Inr_iff nth_q_put split: prod.splits)
    have at: "q_at qs1 s i = Inr (qs ! s ! i)" using q_at_square [OF sq(2) assms i(1)] same [OF i(1)] by simp
    show ?thesis
    proof (cases "items (mq_pending (qs ! s ! i)) = []")
      case True
      then have "\<not> pure_poll_rx Q (qs ! s ! i)" using empty_law by (simp add: pure_poll_rx_def)
      moreover have "j < n" if "j \<in> set is" for j using i(2) that by (simp add: list_all_iff)
      ultimately show ?thesis
        using Cons.IH [OF 1(2) i(2)] 1(1) at False True same by auto
    next
      case nonempty: False
      then have "pure_poll_rx Q (qs ! s ! i)" using empty_law by (simp add: pure_poll_rx_def)
      then show ?thesis using 1 at False nonempty by auto
    qed
  qed
qed (intro exI [of _ False], simp)

end

section \<open>Properties\<close>

text \<open>C2: The local channel of a machine with \<open>n\<close> shards delivers every message exactly once, to the shard that
  its address names. After \<open>create_qs\<close> and \<open>start_all_queues\<close> on every shard, for every interleaving of
  sends, urgent sends, flushes and polls of the shards (whose receivers may send in turn), nothing
  faults; for every pair of shards, what the receiver got together with what is still in the queues is
  what the sender sent to it, in the same order when nothing was urgent; and every message got by
  shard \<open>t\<close> is addressed to the shard with the machine's anchor plus \<open>t\<close>. The operations are those of the
  program: a shard sends only to other shards of the machine (a message to the own shard does not
  go through the channel). The first hypothesis is the contract of the lock-free queue.\<close>

theorem local_channel_exactly_once:
  assumes "spsc_queue Q items" and "items q0 = []" and "list_all (ch_op_ok (local_target mi) n) xs"
  shows "\<exists>qs0 evs qs. fold_res (start_all_queues n) [0..<n] (create_qs q0 n) = Inr qs0 \<and>
    ch_run Q (local_target mi) xs qs0 = Inr (evs, qs) \<and>
    (\<forall>t<n. \<forall>s<n. t \<noteq> s \<longrightarrow>
      mset (got_from t s evs) + mset (items (mq_pending (qs ! t ! s))) + mset (mq_fifo (qs ! t ! s)) = mset (sent_to t s evs) \<and>
      (no_urgent t s evs \<longrightarrow>
         got_from t s evs @ items (mq_pending (qs ! t ! s)) @ mq_fifo (qs ! t ! s) = sent_to t s evs) \<and>
      list_all (\<lambda>m. local_target mi m = Inr t) (got_from t s evs))"
proof -
  from spsc_queue.started_ok [OF assms(1,2), of n] obtain qs0 where
    0: "fold_res (start_all_queues n) [0..<n] (create_qs q0 n) = Inr qs0" "spsc_queue.ch_ok items n [] qs0" by blast
  from spsc_queue.ch_run_ok [OF assms(1) 0(2) assms(3)] obtain evs qs where
    1: "ch_run Q (local_target mi) xs qs0 = Inr (evs, qs)" "spsc_queue.ch_ok items n evs qs" by auto
  note routed = ch_run_routed [OF 1(1) assms(3)]
  have pair: "spsc_queue.pair_ok items evs t s (qs ! t ! s)" if "t < n" "s < n" "t \<noteq> s" for t s
    using 1(2) that by (simp add: spsc_queue.ch_ok_def [OF assms(1)])
  have "mset (got_from t s evs) + mset (items (mq_pending (qs ! t ! s))) + mset (mq_fifo (qs ! t ! s)) = mset (sent_to t s evs)"
    "no_urgent t s evs \<longrightarrow> got_from t s evs @ items (mq_pending (qs ! t ! s)) @ mq_fifo (qs ! t ! s) = sent_to t s evs"
    "list_all (\<lambda>m. local_target mi m = Inr t) (got_from t s evs)"
    if "t < n" "s < n" "t \<noteq> s" for t s
  proof -
    note p = pair [OF that, unfolded spsc_queue.pair_ok_def [OF assms(1)] spsc_queue.in_flight_def [OF assms(1)]]
    then show m: "mset (got_from t s evs) + mset (items (mq_pending (qs ! t ! s))) + mset (mq_fifo (qs ! t ! s)) = mset (sent_to t s evs)"
      by (simp add: add.assoc)
    show "no_urgent t s evs \<longrightarrow> got_from t s evs @ items (mq_pending (qs ! t ! s)) @ mq_fifo (qs ! t ! s) = sent_to t s evs"
      using p by blast
    have "set (got_from t s evs) \<subseteq> set (sent_to t s evs)"
      using arg_cong [OF m, of set_mset] by auto
    then show "list_all (\<lambda>m. local_target mi m = Inr t) (got_from t s evs)"
      using sent_to_routed [OF routed] by (auto simp: list_all_iff)
  qed
  then show ?thesis using 0(1) 1(1) by blast
qed

definition shard_message :: "u32 \<Rightarrow> nat \<Rightarrow> nat actor_message" where
  "shard_message sid d = make_one_way_request_with_data
     \<lparr>addr_length = 4, addr_data = int_bytes sid @ replicate 48 0\<rparr> 0 d 0 USER"

lemma shard_message_target: "local_target mi (shard_message sid d) = Inr (unat (sid - sid_anchor mi))"
proof -
  have "addr_rep (hdr_addr (msg_hdr (shard_message sid d))) sid []"
    by (simp add: shard_message_def addr_rep_def path_bytes_def make_one_way_request_with_data_def make_with_payload_def
        local_header_def addr_consts)
  then show ?thesis by (simp add: local_target_def get_shard_id_rep)
qed

definition two_shards :: machine_info where "two_shards = make_machine_info 2 5 3"

theorem local_channel_exactly_once_witness:
  "\<exists>qs0 evs qs. fold_res (start_all_queues 2) [0..<2] (create_qs [] 2) = Inr qs0 \<and>
    ch_run list_spsc (local_target two_shards)
      [Ch_send 0 False (shard_message 4 7), Ch_poll 1 0 [] (\<lambda>m. []), Ch_flush 0 1,
       Ch_poll 1 0 [Tx_send (shard_message 4 8)] (\<lambda>m. [(False, shard_message 3 9)])] qs0 = Inr (evs, qs) \<and>
    mset (got_from 1 0 evs) + mset (mq_pending (qs ! 1 ! 0)) + mset (mq_fifo (qs ! 1 ! 0)) = mset (sent_to 1 0 evs)"
proof -
  let ?xs = "[Ch_send 0 False (shard_message 4 7), Ch_poll 1 0 [] (\<lambda>m. []), Ch_flush 0 1,
       Ch_poll 1 0 [Tx_send (shard_message 4 8)] (\<lambda>m. [(False, shard_message 3 9)])]"
  have "list_all (ch_op_ok (local_target two_shards) 2) ?xs"
    by (simp add: route_ok_def shard_message_target sent_msgs_def two_shards_def make_machine_info_def)
  from local_channel_exactly_once [OF lq.spsc_queue_axioms _ this, of "[]"] obtain qs0 evs qs where
    "fold_res (start_all_queues 2) [0..<2] (create_qs [] 2) = Inr qs0"
    "ch_run list_spsc (local_target two_shards) ?xs qs0 = Inr (evs, qs)"
    "\<forall>t<2. \<forall>s<2. t \<noteq> s \<longrightarrow>
      mset (got_from t s evs) + mset (mq_pending (qs ! t ! s)) + mset (mq_fifo (qs ! t ! s)) = mset (sent_to t s evs)"
    by blast
  then show ?thesis by (intro exI [of _ qs0] exI [of _ evs] exI [of _ qs]) simp
qed

end
