(* ===== verification/Dynamic_Queue.thy ===== *)
theory Dynamic_Queue
  imports Hiactor_Prelude "HOL-Library.Sublist"
begin

text \<open>
  \<open>dynamic_queue\<close> of \<open>core/dynamic-queue.hh\<close>: the buffer between the shards that send to a machine and the
  loop that writes to the connection. A consumer that finds the queue empty waits for a promise; the
  continuation of \<open>pop_eventually\<close> runs some time after the promise was resolved, and other operations may
  run before it.
\<close>

section \<open>State\<close>

text \<open>\<open>dq_wake\<close> is the outcome of a promise whose waiting continuation has not run yet.\<close>

record ('a, 'e) dynamic_queue =
  dq_q :: "'a list"
  dq_not_empty :: bool
  dq_ex :: "'e option"
  dq_wake :: "('e + unit) option"

definition dq_new :: "('a, 'e) dynamic_queue" where
  "dq_new = \<lparr>dq_q = [], dq_not_empty = False, dq_ex = None, dq_wake = None\<rparr>"

text \<open>What the future returned by \<open>pop_eventually\<close> is: a value, an exception, or not resolved yet.\<close>

datatype ('a, 'e) popped = Popped 'a | Pop_failed 'e | Pop_waits

section \<open>Operations\<close>

definition notify_not_empty :: "('a, 'e) dynamic_queue \<Rightarrow> ('a, 'e) dynamic_queue" where
  "notify_not_empty q = (if dq_not_empty q then q\<lparr>dq_wake := Some (Inr ()), dq_not_empty := False\<rparr> else q)"

definition dq_push :: "'a \<Rightarrow> ('a, 'e) dynamic_queue \<Rightarrow> bool \<times> ('a, 'e) dynamic_queue" where
  "dq_push a q = (True, notify_not_empty (q\<lparr>dq_q := dq_q q @ [a]\<rparr>))"

definition dq_pop :: "('a, 'e) dynamic_queue \<Rightarrow> ('a \<times> ('a, 'e) dynamic_queue) res" where
  "dq_pop q = (case dq_q q of [] \<Rightarrow> Inl Out_of_bounds | a # as \<Rightarrow> Inr (a, q\<lparr>dq_q := as\<rparr>))"

definition dq_empty :: "('a, 'e) dynamic_queue \<Rightarrow> bool" where
  "dq_empty q = (dq_q q = [])"

definition dq_size :: "('a, 'e) dynamic_queue \<Rightarrow> nat" where
  "dq_size q = length (dq_q q)"

text \<open>\<open>not_empty\<close>: \<open>None\<close> is a promise that is not resolved.\<close>

definition dq_wait_not_empty :: "('a, 'e) dynamic_queue \<Rightarrow> ('e + unit) option \<times> ('a, 'e) dynamic_queue" where
  "dq_wait_not_empty q =
     (case dq_ex q of Some e \<Rightarrow> (Some (Inl e), q)
      | None \<Rightarrow> if \<not> dq_empty q then (Some (Inr ()), q) else (None, q\<lparr>dq_not_empty := True\<rparr>))"

text \<open>The continuation of \<open>pop_eventually\<close>.\<close>

definition pop_continue :: "'e + unit \<Rightarrow> ('a, 'e) dynamic_queue \<Rightarrow> (('a, 'e) popped \<times> ('a, 'e) dynamic_queue) res" where
  "pop_continue outcome q =
     (case outcome of Inl e \<Rightarrow> Inr (Pop_failed e, q)
      | Inr u \<Rightarrow>
         (case dq_ex q of Some e \<Rightarrow> Inr (Pop_failed e, q)
          | None \<Rightarrow> bind_res (dq_pop q) (\<lambda>(a, q1). Inr (Popped a, q1))))"

definition pop_eventually :: "('a, 'e) dynamic_queue \<Rightarrow> (('a, 'e) popped \<times> ('a, 'e) dynamic_queue) res" where
  "pop_eventually q =
     (case dq_ex q of Some e \<Rightarrow> Inr (Pop_failed e, q)
      | None \<Rightarrow>
          if dq_empty q then
            (case dq_wait_not_empty q of
               (None, q1) \<Rightarrow> Inr (Pop_waits, q1)
             | (Some outcome, q1) \<Rightarrow> pop_continue outcome q1)
          else bind_res (dq_pop q) (\<lambda>(a, q1). Inr (Popped a, q1)))"

text \<open>The reactor runs the continuation of a consumer that waited.\<close>

definition pop_resume :: "('a, 'e) dynamic_queue \<Rightarrow> (('a, 'e) popped \<times> ('a, 'e) dynamic_queue) res" where
  "pop_resume q =
     (case dq_wake q of None \<Rightarrow> Inr (Pop_waits, q) | Some outcome \<Rightarrow> pop_continue outcome (q\<lparr>dq_wake := None\<rparr>))"

definition push_eventually :: "'a \<Rightarrow> ('a, 'e) dynamic_queue \<Rightarrow> ('e + unit) \<times> ('a, 'e) dynamic_queue" where
  "push_eventually a q =
     (case dq_ex q of Some e \<Rightarrow> (Inl e, q)
      | None \<Rightarrow> (Inr (), notify_not_empty (q\<lparr>dq_q := dq_q q @ [a]\<rparr>)))"

definition dq_abort :: "'e \<Rightarrow> ('a, 'e) dynamic_queue \<Rightarrow> ('a, 'e) dynamic_queue" where
  "dq_abort e q =
     (let q1 = q\<lparr>dq_q := [], dq_ex := Some e\<rparr>
      in if dq_not_empty q then q1\<lparr>dq_wake := Some (Inl e), dq_not_empty := False\<rparr> else q1)"

text \<open>\<open>consume\<close> hands the elements to \<open>func\<close> until it returns false; the element it refuses is gone too.\<close>

fun consume_loop :: "('a \<Rightarrow> bool) \<Rightarrow> 'a list \<Rightarrow> bool \<times> 'a list \<times> 'a list" where
  "consume_loop func [] = (True, [], [])"
| "consume_loop func (a # as) =
     (if func a then (case consume_loop func as of (b, used, rest) \<Rightarrow> (b, a # used, rest)) else (False, [a], as))"

definition dq_consume :: "('a \<Rightarrow> bool) \<Rightarrow> ('a, 'e) dynamic_queue \<Rightarrow> ('e + bool \<times> 'a list) \<times> ('a, 'e) dynamic_queue" where
  "dq_consume func q =
     (case dq_ex q of Some e \<Rightarrow> (Inl e, q)
      | None \<Rightarrow> (case consume_loop func (dq_q q) of (b, used, rest) \<Rightarrow> (Inr (b, used), q\<lparr>dq_q := rest\<rparr>)))"

section \<open>A producer, a consumer and the shutdown\<close>

text \<open>The consumer is one loop: it calls \<open>pop_eventually\<close> only when its last call is resolved. \<open>Q_stop\<close> is
  \<open>buffers_helper::abort\<close>: consume everything, then \<open>abort\<close>.\<close>

datatype ('a, 'e) q_op = Q_push 'a | Q_pop | Q_resume | Q_stop 'e

record ('a, 'e) q_run =
  run_q :: "('a, 'e) dynamic_queue"
  run_pushed :: "'a list"
  run_popped :: "'a list"
  run_deleted :: "'a list"
  run_leaked :: "'a list"

definition consumer_busy :: "('a, 'e) dynamic_queue \<Rightarrow> bool" where
  "consumer_busy q \<longleftrightarrow> dq_not_empty q \<or> dq_wake q \<noteq> None"

fun log_pop :: "('a, 'e) popped \<times> ('a, 'e) dynamic_queue \<Rightarrow> ('a, 'e) q_run \<Rightarrow> ('a, 'e) q_run" where
  "log_pop (Popped a, q) r = r\<lparr>run_q := q, run_popped := run_popped r @ [a]\<rparr>"
| "log_pop (Pop_failed e, q) r = r\<lparr>run_q := q\<rparr>"
| "log_pop (Pop_waits, q) r = r\<lparr>run_q := q\<rparr>"

fun q_step :: "('a, 'e) q_op \<Rightarrow> ('a, 'e) q_run \<Rightarrow> ('a, 'e) q_run res" where
  "q_step (Q_push a) r =
     (case push_eventually a (run_q r) of
        (Inr u, q) \<Rightarrow> Inr (r\<lparr>run_q := q, run_pushed := run_pushed r @ [a]\<rparr>)
      | (Inl e, q) \<Rightarrow> Inr (r\<lparr>run_q := q, run_leaked := run_leaked r @ [a]\<rparr>))"
| "q_step Q_pop r =
     (if consumer_busy (run_q r) then Inr r else bind_res (pop_eventually (run_q r)) (\<lambda>p. Inr (log_pop p r)))"
| "q_step Q_resume r = bind_res (pop_resume (run_q r)) (\<lambda>p. Inr (log_pop p r))"
| "q_step (Q_stop e) r =
     (case dq_consume (\<lambda>a. True) (run_q r) of
        (Inl ex, q) \<Rightarrow> Inr (r\<lparr>run_q := q\<rparr>)
      | (Inr (b, used), q) \<Rightarrow> Inr (r\<lparr>run_q := dq_abort e q, run_deleted := run_deleted r @ used\<rparr>))"

definition q_start :: "('a, 'e) q_run" where
  "q_start = \<lparr>run_q = dq_new, run_pushed = [], run_popped = [], run_deleted = [], run_leaked = []\<rparr>"

definition q_runs :: "('a, 'e) q_op list \<Rightarrow> ('a, 'e) q_run \<Rightarrow> ('a, 'e) q_run res" where
  "q_runs ops r = fold_res q_step ops r"

section \<open>The invariant\<close>

definition dq_inv :: "('a, 'e) dynamic_queue \<Rightarrow> bool" where
  "dq_inv q \<longleftrightarrow> (dq_not_empty q \<longrightarrow> dq_q q = [] \<and> dq_ex q = None \<and> dq_wake q = None) \<and>
     (dq_wake q = Some (Inr ()) \<longrightarrow> dq_q q \<noteq> [] \<or> dq_ex q \<noteq> None) \<and>
     (dq_ex q \<noteq> None \<longrightarrow> dq_q q = []) \<and> (\<forall>e. dq_wake q = Some (Inl e) \<longrightarrow> dq_ex q \<noteq> None)"

definition q_inv :: "('a, 'e) q_run \<Rightarrow> bool" where
  "q_inv r \<longleftrightarrow> dq_inv (run_q r) \<and> run_popped r @ run_deleted r @ dq_q (run_q r) = run_pushed r \<and>
     (dq_ex (run_q r) = None \<longrightarrow> run_deleted r = [] \<and> run_leaked r = [])"

lemmas dq_defs = dq_inv_def notify_not_empty_def dq_pop_def dq_empty_def dq_wait_not_empty_def pop_continue_def
  pop_eventually_def pop_resume_def push_eventually_def dq_abort_def dq_consume_def Let_def

lemma consume_all: "consume_loop (\<lambda>a. True) xs = (True, xs, [])"
  by (induction xs) simp_all

lemma q_step_ok: "q_inv r \<Longrightarrow> \<exists>r'. q_step x r = Inr r' \<and> q_inv r'"
proof -
  assume inv: "q_inv r"
  show "\<exists>r'. q_step x r = Inr r' \<and> q_inv r'"
  proof (cases x)
    case (Q_push a)
    then show ?thesis using inv by (auto simp: q_inv_def dq_defs split: option.splits)
  next
    case Q_pop
    then show ?thesis
    proof (cases "consumer_busy (run_q r)")
      case False
      then show ?thesis
        using inv Q_pop by (cases "dq_ex (run_q r)"; cases "dq_q (run_q r)") (simp_all add: q_inv_def dq_defs consumer_busy_def)
    qed (use inv in simp)
  next
    case Q_resume
    show ?thesis
    proof (cases "dq_wake (run_q r)")
      case None
      then show ?thesis using inv Q_resume by (simp add: pop_resume_def q_inv_def)
    next
      case (Some w)
      then show ?thesis
        using inv Q_resume
        by (cases w; cases "dq_ex (run_q r)"; cases "dq_q (run_q r)") (simp_all add: q_inv_def dq_defs)
    qed
  next
    case (Q_stop e)
    then show ?thesis using inv by (auto simp: q_inv_def dq_defs consume_all split: option.splits)
  qed
qed

lemma q_runs_ok: "q_inv r \<Longrightarrow> \<exists>r'. q_runs xs r = Inr r' \<and> q_inv r'"
proof (induction xs arbitrary: r)
  case (Cons x xs)
  from q_step_ok [OF Cons.prems, of x] Cons.IH show ?case by (auto simp: q_runs_def)
qed (simp add: q_runs_def)

lemma q_start_inv: "q_inv q_start"
  by (simp add: q_inv_def q_start_def dq_new_def dq_inv_def)

text \<open>C36: The buffer of a connection is a FIFO queue that loses nothing before it is shut down, and its consumer
  never sleeps over a message. For every sequence of pushes, \<open>pop_eventually\<close> calls, late continuations
  and shutdowns: nothing pops from an empty queue; what the consumer got, then what the shutdown deleted,
  then what is still in the queue is exactly what was pushed, in order; while the queue is not shut down
  nothing is deleted and no push fails; and while the consumer waits for an unresolved promise the queue is empty.\<close>

theorem dynamic_queue_fifo:
  "\<exists>r. q_runs ops (q_start :: ('a, 'e) q_run) = Inr r \<and>
    run_popped r @ run_deleted r @ dq_q (run_q r) = run_pushed r \<and>
    (dq_ex (run_q r) = None \<longrightarrow> run_deleted r = [] \<and> run_leaked r = []) \<and>
    (dq_not_empty (run_q r) \<longrightarrow> dq_q (run_q r) = [] \<and> dq_ex (run_q r) = None)"
  using q_runs_ok [OF q_start_inv, of ops] by (auto simp: q_inv_def dq_inv_def)

theorem dynamic_queue_fifo_witness:
  "\<exists>r. q_runs [Q_pop, Q_push (1::nat), Q_push 2, Q_resume, Q_stop ''closed'', Q_push 3] q_start = Inr r \<and>
    run_popped r @ run_deleted r @ dq_q (run_q r) = [1, 2]"
proof -
  let ?ops = "[Q_pop, Q_push (1::nat), Q_push 2, Q_resume, Q_stop ''closed'', Q_push 3]"
  obtain r where "q_runs ?ops q_start = Inr r" "run_popped r @ run_deleted r @ dq_q (run_q r) = run_pushed r"
    using dynamic_queue_fifo [of ?ops] by blast
  moreover from this(1) have "run_pushed r = [1, 2]"
    by (simp add: q_runs_def q_start_def dq_new_def consumer_busy_def dq_defs)
      (auto simp: q_runs_def q_start_def dq_new_def consumer_busy_def dq_defs)
  ultimately show ?thesis by auto
qed

text \<open>A message that is pushed after the shutdown is leaked: \<open>push_eventually\<close> fails without taking it, and
  \<open>push_to_buffer\<close> ignores the failure, so nobody deletes the message.\<close>

theorem push_after_abort_leaks:
  "push_eventually a (dq_abort e q) = (Inl e, dq_abort e q)"
  by (simp add: dq_defs)

end
