(* ===== verification/Network_Channel.thy ===== *)
theory Network_Channel
  imports Local_Channel Dynamic_Queue
begin

text \<open>
  Sending to other machines (\<open>net/network_channel.hh\<close>, \<open>net/network_channel.cc\<close>): the routing table that
  says which local shard has a connection to the machine of a global shard, the queues that carry
  messages to that shard, and the buffer of the connection. The tables of connections that the routing
  table is built from are \<open>connection_table\<close> of \<open>net/connection.hh\<close>.
\<close>

section \<open>The queues\<close>

record 'd message_item =
  mach_id :: u32
  mi_msg :: "'d actor_message"

text \<open>\<open>network_message_queue\<close> is a second copy of \<open>actor_message_queue\<close>; its operations are translated on their
  own and compared with those of the first below.\<close>

definition net_move_pending :: "('m, 'q) spsc \<Rightarrow> ('m, 'q) msg_queue \<Rightarrow> (('m, 'q) msg_queue \<times> bool) res" where
  "net_move_pending Q a =
     (case pending_fifo a of None \<Rightarrow> Inl Uninitialised
      | Some f \<Rightarrow>
         (let (nr, q) = spsc_push Q f (mq_pending a)
          in if nr = 0 then Inr (a\<lparr>mq_pending := q\<rparr>, False)
             else Inr (a\<lparr>mq_pending := q, pending_fifo := Some (drop nr f),
                         mq_sent := mq_sent a + word_of_nat nr, last_snt_batch := word_of_nat nr,
                         current_queue_length := current_queue_length a + word_of_nat nr\<rparr>, True)))"

definition net_send_normal :: "('m, 'q) spsc \<Rightarrow> 'm \<Rightarrow> ('m, 'q) msg_queue \<Rightarrow> (('m, 'q) msg_queue \<times> bool) res" where
  "net_send_normal Q mi a =
     (case pending_fifo a of None \<Rightarrow> Inl Uninitialised
      | Some f \<Rightarrow>
         (let a1 = a\<lparr>pending_fifo := Some (f @ [mi])\<rparr>
          in if length (f @ [mi]) \<ge> batch_size then net_move_pending Q a1 else Inr (a1, False)))"

definition net_send_urgent :: "('m, 'q) spsc \<Rightarrow> 'm \<Rightarrow> ('m, 'q) msg_queue \<Rightarrow> (('m, 'q) msg_queue \<times> bool) res" where
  "net_send_urgent Q mi a =
     (case pending_fifo a of None \<Rightarrow> Inl Uninitialised
      | Some f \<Rightarrow>
         (let a1 = a\<lparr>pending_fifo := Some (mi # f)\<rparr>
          in if length (mi # f) \<ge> batch_size then net_move_pending Q a1 else Inr (a1, False)))"

definition net_flush_request_batch :: "('m, 'q) spsc \<Rightarrow> ('m, 'q) msg_queue \<Rightarrow> (('m, 'q) msg_queue \<times> bool) res" where
  "net_flush_request_batch Q a =
     (case pending_fifo a of None \<Rightarrow> Inl Uninitialised
      | Some f \<Rightarrow> if f = [] then Inr (a, False) else net_move_pending Q a)"

definition net_pure_poll_rx :: "('m, 'q) spsc \<Rightarrow> ('m, 'q) msg_queue \<Rightarrow> bool" where
  "net_pure_poll_rx Q a = (\<not> spsc_empty Q (mq_pending a))"

definition net_start :: "('m, 'q) msg_queue \<Rightarrow> ('m, 'q) msg_queue" where
  "net_start a = a\<lparr>pending_fifo := Some []\<rparr>"

text \<open>Here the loop keeps a pointer: to \<open>tm\<close> (\<open>None\<close>) or to an element of the array. The pointer past the
  last message is formed and not followed.\<close>

definition mi_deref :: "'m \<Rightarrow> 'm option list \<Rightarrow> nat option \<Rightarrow> 'm res" where
  "mi_deref tm messages p =
     (case p of None \<Rightarrow> Inr tm
      | Some j \<Rightarrow> if j < length messages then
           (case messages ! j of None \<Rightarrow> Inl Uninitialised | Some m \<Rightarrow> Inr m) else Inl Out_of_bounds)"

function net_incoming_loop :: "'m \<Rightarrow> 'm option list \<Rightarrow> nat \<Rightarrow> nat \<Rightarrow> nat option \<Rightarrow> 'm list \<Rightarrow> 'm list res" where
  "net_incoming_loop tm messages nr i mi_ptr got =
     bind_res (mi_deref tm messages mi_ptr) (\<lambda>m.
       if i + 1 \<le> nr then net_incoming_loop tm messages nr (i + 1) (Some i) (got @ [m]) else Inr (got @ [m]))"
  by pat_completeness auto
termination
  by (relation "measure (\<lambda>(tm, messages, nr, i, p, got). nr - i)") auto

declare net_incoming_loop.simps [simp del]

definition net_process_incoming ::
    "('m, 'q) spsc \<Rightarrow> (('m, 'q) msg_queue \<Rightarrow> ('m, 'q) msg_queue res) \<Rightarrow> ('m, 'q) msg_queue \<Rightarrow>
     ('m list \<times> ('m, 'q) msg_queue) res" where
  "net_process_incoming Q between a =
     (case spsc_pop_one Q (mq_pending a) of
        None \<Rightarrow> Inr ([], a)
      | Some (tm, q) \<Rightarrow>
          bind_res (between (a\<lparr>mq_pending := q\<rparr>)) (\<lambda>a1.
            case spsc_pop Q (queue_length + prefetch_cnt) (mq_pending a1) of (ms, q1) \<Rightarrow>
              let nr = length ms
              in bind_res (mem_store 0 (map Some ms) (replicate (queue_length + prefetch_cnt) None)) (\<lambda>arr.
                 bind_res (mem_store nr (replicate prefetch_cnt (if nr \<noteq> 0 then arr ! (nr - 1) else Some tm)) arr) (\<lambda>arr1.
                 bind_res (net_incoming_loop tm arr1 nr 0 None []) (\<lambda>got.
                   Inr (got, a1\<lparr>mq_pending := q1, mq_received := mq_received a1 + word_of_nat (nr + 1),
                                last_rcv_batch := word_of_nat (nr + 1)\<rparr>))))))"

lemma net_move_pending_eq: "net_move_pending = move_pending"
  by (intro ext) (simp add: net_move_pending_def move_pending_def the_fifo_def Let_def split: option.split prod.split)

lemma net_ops_eq:
  "net_send_normal = mq_send" "net_send_urgent = mq_send_urgent" "net_flush_request_batch = flush_request_batch"
  "net_pure_poll_rx = pure_poll_rx" "net_start = mq_start"
  by (intro ext; simp add: net_send_normal_def mq_send_def net_send_urgent_def mq_send_urgent_def
      net_flush_request_batch_def flush_request_batch_def net_pure_poll_rx_def pure_poll_rx_def net_start_def mq_start_def
      net_move_pending_eq move_full_batch_def the_fifo_def Let_def split: option.split)+

lemma net_incoming_loop_eq:
  assumes "mi_deref tm messages p = Inr t" and "i \<le> nr" and "nr < length messages"
  shows "net_incoming_loop tm messages nr i p got = incoming_loop messages nr i t got"
  using assms(1,2)
proof (induction "nr - i" arbitrary: i p t got)
  case 0
  then show ?case using assms(3) by (subst net_incoming_loop.simps, subst incoming_loop.simps) simp
next
  case (Suc k)
  then have i: "i < nr" by simp
  show ?case
  proof (cases "messages ! i")
    case None
    then show ?thesis
      using Suc.prems i assms(3)
      by (simp add: net_incoming_loop.simps [of tm messages nr i] net_incoming_loop.simps [of tm messages nr "Suc i"]
          incoming_loop.simps [of messages nr i] mi_deref_def)
  next
    case (Some m)
    have "net_incoming_loop tm messages nr (i + 1) (Some i) (got @ [t]) = incoming_loop messages nr (i + 1) m (got @ [t])"
      using Suc i assms(3) Some by (intro Suc.hyps(1)) (simp_all add: mi_deref_def)
    then show ?thesis
      using Suc.prems i assms(3) Some
      by (simp add: net_incoming_loop.simps [of tm messages nr i] incoming_loop.simps [of messages nr i])
  qed
qed

lemma net_process_incoming_eq: "net_process_incoming = process_incoming"
proof (intro ext)
  fix Q :: "('m, 'q) spsc" and between and a :: "('m, 'q) msg_queue"
  have loop: "bind_res (mem_store nr (replicate prefetch_cnt v) arr) (\<lambda>arr1. bind_res (net_incoming_loop tm arr1 nr 0 None []) k) =
      bind_res (mem_store nr (replicate prefetch_cnt v) arr) (\<lambda>arr1. bind_res (incoming_loop arr1 nr 0 tm []) k)"
    for nr v and arr :: "'m option list" and tm and k :: "'m list \<Rightarrow> ('m list \<times> ('m, 'q) msg_queue) res"
  proof (cases "nr + prefetch_cnt \<le> length arr")
    case True
    then show ?thesis by (simp add: mem_store_def net_incoming_loop_eq mi_deref_def prefetch_cnt_def)
  qed (simp add: mem_store_def)
  show "net_process_incoming Q between a = process_incoming Q between a"
    unfolding net_process_incoming_def process_incoming_def loop Let_def ..
qed


section \<open>The routing table\<close>

text \<open>One block of memory: for every global shard its machine, then for every machine a cell with the number
  of its proxy shards, the position of the next one to use, and the proxies. The block comes from
  \<open>new uint32_t[]\<close>: an element that was not written is \<open>None\<close>.\<close>

record routing_table =
  rt_mem :: "u32 option list"
  cells_head :: nat
  cell_size :: u32

definition rt_get :: "nat \<Rightarrow> routing_table \<Rightarrow> u32 res" where
  "rt_get i rt = (if i < length (rt_mem rt) then
       (case rt_mem rt ! i of None \<Rightarrow> Inl Uninitialised | Some w \<Rightarrow> Inr w) else Inl Out_of_bounds)"

definition rt_set :: "nat \<Rightarrow> u32 \<Rightarrow> routing_table \<Rightarrow> routing_table res" where
  "rt_set i w rt = (if i < length (rt_mem rt) then Inr (rt\<lparr>rt_mem := (rt_mem rt)[i := Some w]\<rparr>) else Inl Out_of_bounds)"

definition cell_ptr :: "routing_table \<Rightarrow> u32 \<Rightarrow> nat" where
  "cell_ptr rt mach = cells_head rt + unat (cell_size rt * mach)"

definition rt_insert :: "u32 \<Rightarrow> u32 \<Rightarrow> routing_table \<Rightarrow> routing_table res" where
  "rt_insert mach local_sid rt =
     (let c = cell_ptr rt mach
      in bind_res (rt_get c rt) (\<lambda>n.
         bind_res (rt_set (c + unat (n + 2)) local_sid rt) (\<lambda>rt1.
           rt_set c (n + 1) rt1)))"

definition populate_machine :: "worker_node_info list \<Rightarrow> nat \<Rightarrow> nat \<times> routing_table \<Rightarrow> (nat \<times> routing_table) res" where
  "populate_machine nodes j pr =
     (if j < length nodes then
        fold_res (\<lambda>k (pos, rt). bind_res (rt_set pos (word_of_nat j) rt) (\<lambda>rt1. Inr (pos + 1, rt1)))
          [0..<unat (nr_cores (nodes ! j))] pr
      else Inl Out_of_bounds)"

definition init_cell :: "nat \<Rightarrow> routing_table \<Rightarrow> routing_table res" where
  "init_cell i rt =
     (let c = cell_ptr rt (word_of_nat i) in bind_res (rt_set c 0 rt) (\<lambda>rt1. rt_set (c + 1) 2 rt1))"

definition rt_build :: "network_config \<Rightarrow> machine_info \<Rightarrow> u32 \<Rightarrow> u32 list list \<Rightarrow> routing_table res" where
  "rt_build nc mi local_shard_count sharded_mids =
     assert_res (word_of_nat (length sharded_mids) = local_shard_count)
       (let cs = 2 + local_shard_count; num_g_shards = num_shards mi; num_machs = num_machines nc;
            rt = \<lparr>rt_mem = replicate (unat (num_g_shards + cs * num_machs)) None, cells_head = unat num_g_shards, cell_size = cs\<rparr>
        in bind_res (fold_res (populate_machine (node_list nc)) [0..<unat num_machs] (0, rt)) (\<lambda>(pos, rt1).
           bind_res (fold_res init_cell [0..<unat num_machs] rt1) (\<lambda>rt2.
             fold_res (\<lambda>i rt.
               if i < length sharded_mids then fold_res (\<lambda>mid. rt_insert mid (word_of_nat i)) (sharded_mids ! i) rt
               else Inl Out_of_bounds) [0..<unat local_shard_count] rt2)))"

record dest_info =
  di_machine_id :: u32
  target_sid :: u32

text \<open>\<open>get_destination\<close> with a fixed proxy per shard.\<close>

definition get_destination :: "u32 \<Rightarrow> routing_table \<Rightarrow> dest_info res" where
  "get_destination g_shard_id rt =
     bind_res (rt_get (unat g_shard_id) rt) (\<lambda>mid.
       let c = cell_ptr rt mid
       in bind_res (rt_get c rt) (\<lambda>n.
          bind_res (umod g_shard_id n) (\<lambda>r.
          bind_res (rt_get (c + unat (r + 2)) rt) (\<lambda>t. Inr \<lparr>di_machine_id = mid, target_sid = t\<rparr>))))"

text \<open>\<open>get_destination\<close> when the library is built without \<open>Hiactor_FIFO_NETWORK_MESSAGE\<close>.\<close>

definition get_destination_rr :: "u32 \<Rightarrow> routing_table \<Rightarrow> (dest_info \<times> routing_table) res" where
  "get_destination_rr g_shard_id rt =
     bind_res (rt_get (unat g_shard_id) rt) (\<lambda>mid.
       let c = cell_ptr rt mid
       in bind_res (rt_get (c + 1) rt) (\<lambda>cur.
          bind_res (rt_get (c + unat cur) rt) (\<lambda>t.
          bind_res (rt_get c rt) (\<lambda>n.
          bind_res (umod (cur + 1) n) (\<lambda>r.
          bind_res (rt_set (c + 1) (r + 2) rt) (\<lambda>rt1. Inr (\<lparr>di_machine_id = mid, target_sid = t\<rparr>, rt1)))))))"

section \<open>What the table represents\<close>

text \<open>\<open>rt_rep rt lsc owner P M\<close>: the table maps the global shard \<open>g\<close> to \<open>owner ! g\<close>, and machine \<open>j < M\<close> has the
  proxies \<open>P j\<close>, at most \<open>lsc\<close> of them.\<close>

definition cell_rep :: "u32 option list \<Rightarrow> nat \<Rightarrow> u32 list \<Rightarrow> bool" where
  "cell_rep mem c ps \<longleftrightarrow> mem ! c = Some (word_of_nat (length ps)) \<and> mem ! (c + 1) = Some 2 \<and>
     (\<forall>k<length ps. mem ! (c + 2 + k) = Some (ps ! k))"

definition rt_rep :: "routing_table \<Rightarrow> nat \<Rightarrow> u32 list \<Rightarrow> (nat \<Rightarrow> u32 list) \<Rightarrow> nat \<Rightarrow> bool" where
  "rt_rep rt lsc owner P M \<longleftrightarrow>
     length (rt_mem rt) = length owner + (2 + lsc) * M \<and> length owner + (2 + lsc) * M < 2 ^ 32 \<and> lsc + 2 < 2 ^ 32 \<and>
     cells_head rt = length owner \<and> cell_size rt = word_of_nat (2 + lsc) \<and>
     take (length owner) (rt_mem rt) = map Some owner \<and>
     (\<forall>j<M. length (P j) \<le> lsc \<and> cell_rep (rt_mem rt) (length owner + (2 + lsc) * j) (P j))"

lemma cell_bound:
  fixes c j M k :: nat
  assumes "j < M" "k < c"
  shows "c * j + k < c * M"
proof -
  have "c * Suc j \<le> c * M" using assms(1) by (intro mult_le_mono2) simp
  then show ?thesis using assms(2) by simp
qed

lemma cell_index_inj:
  fixes c :: nat
  assumes "c * j + k = c * j' + k'" "k < c" "k' < c"
  shows "j = j' \<and> k = k'"
proof -
  have "(c * j + k) div c = j" "(c * j' + k') div c = j'" using assms(2,3) by simp_all
  then have "j = j'" using assms(1) by metis
  then show ?thesis using assms(1) by simp
qed

lemma cell_ptr_eq:
  assumes "cells_head rt = G" "cell_size rt = word_of_nat c" "G + c * M < 2 ^ 32" "j < M" "0 < c"
  shows "cell_ptr rt (word_of_nat j) = G + c * j"
proof -
  have "c * j + 0 < c * M" using assms(4,5) by (rule cell_bound)
  then have "c * j < 2 ^ 32" using assms(3) by linarith
  then have "unat (word_of_nat (c * j) :: u32) = c * j" by (rule unat_of_nat_small)
  then show ?thesis using assms(1,2) by (simp add: cell_ptr_def)
qed

lemma rt_rep_cell:
  assumes "rt_rep rt lsc owner P M" "j < M"
  shows "cell_ptr rt (word_of_nat j) = length owner + (2 + lsc) * j"
    and "rt_get (length owner + (2 + lsc) * j) rt = Inr (word_of_nat (length (P j)))"
    and "rt_get (length owner + (2 + lsc) * j + 1) rt = Inr 2"
    and "k < length (P j) \<Longrightarrow> rt_get (length owner + (2 + lsc) * j + 2 + k) rt = Inr (P j ! k)"
proof -
  note r = assms(1) [unfolded rt_rep_def]
  have c: "cell_rep (rt_mem rt) (length owner + (2 + lsc) * j) (P j)" and l: "length (P j) \<le> lsc" using r assms(2) by auto
  show "cell_ptr rt (word_of_nat j) = length owner + (2 + lsc) * j" using r assms(2) by (intro cell_ptr_eq) auto
  show "rt_get (length owner + (2 + lsc) * j) rt = Inr (word_of_nat (length (P j)))"
    using r c cell_bound [OF assms(2), of 0 "2 + lsc"] by (simp add: rt_get_def cell_rep_def)
  show "rt_get (length owner + (2 + lsc) * j + 1) rt = Inr 2"
    using r c cell_bound [OF assms(2), of 1 "2 + lsc"] by (simp add: rt_get_def cell_rep_def)
  show "rt_get (length owner + (2 + lsc) * j + 2 + k) rt = Inr (P j ! k)" if "k < length (P j)"
    using r c that l cell_bound [OF assms(2), of "2 + k" "2 + lsc"] by (simp add: rt_get_def cell_rep_def add.assoc)
qed

lemma rt_rep_owner:
  assumes "rt_rep rt lsc owner P M" "g < length owner"
  shows "rt_get g rt = Inr (owner ! g)"
proof -
  have "rt_mem rt ! g = take (length owner) (rt_mem rt) ! g" using assms(2) by simp
  also have "\<dots> = Some (owner ! g)" using assms by (simp add: rt_rep_def)
  finally show ?thesis using assms by (simp add: rt_get_def rt_rep_def)
qed

lemma cell_rep_cong:
  assumes "cell_rep mem c ps" and "\<And>r. r < 2 + length ps \<Longrightarrow> mem' ! (c + r) = mem ! (c + r)"
  shows "cell_rep mem' c ps"
  using assms(1) assms(2) [of 0] assms(2) [of 1] assms(2) [of "2 + k" for k] by (simp add: cell_rep_def add.assoc)

lemma rt_insert_ok:
  assumes rep: "rt_rep rt lsc owner P M" and j: "j < M" and room: "length (P j) < lsc"
  shows "\<exists>rt'. rt_insert (word_of_nat j) sid rt = Inr rt' \<and> rt_rep rt' lsc owner (P(j := P j @ [sid])) M"
proof -
  let ?c = "2 + lsc" and ?G = "length owner" and ?n = "length (P j)" and ?mem = "rt_mem rt"
  note r = rep [unfolded rt_rep_def]
  let ?b = "?G + ?c * j"
  let ?mem' = "?mem[?b + (?n + 2) := Some sid, ?b := Some (word_of_nat (?n + 1))]"
  have un: "unat (word_of_nat ?n + 2 :: u32) = ?n + 2"
    using unat_of_nat_small [of "?n + 2"] room r by (simp add: add.commute)
  have i0: "?b < length ?mem" using cell_bound [OF j, of 0 ?c] r by simp
  have in2: "?b + (?n + 2) < length ?mem" using cell_bound [OF j, of "?n + 2" ?c] r room by simp
  have "rt_insert (word_of_nat j) sid rt = Inr (rt\<lparr>rt_mem := ?mem'\<rparr>)"
    using rt_rep_cell(1,2) [OF rep j] i0 in2 un by (simp add: rt_insert_def rt_set_def Let_def ac_simps)
  moreover have "rt_rep (rt\<lparr>rt_mem := ?mem'\<rparr>) lsc owner (P(j := P j @ [sid])) M"
    unfolding rt_rep_def
  proof (intro conjI allI impI)
    show "take ?G (rt_mem (rt\<lparr>rt_mem := ?mem'\<rparr>)) = map Some owner"
      using r by simp
    show "length ((P(j := P j @ [sid])) j') \<le> lsc" if "j' < M" for j' using r room that by simp
    show "cell_rep (rt_mem (rt\<lparr>rt_mem := ?mem'\<rparr>)) (?G + ?c * j') ((P(j := P j @ [sid])) j')" if j': "j' < M" for j'
    proof (cases "j' = j")
      case True
      have c: "cell_rep ?mem ?b (P j)" using r j by blast
      have "?mem' ! (?b + 1) = Some 2" using c by (simp add: cell_rep_def)
      moreover have "?mem' ! ?b = Some (word_of_nat (?n + 1))" using i0 by simp
      moreover have "?mem' ! (?b + 2 + k) = Some ((P j @ [sid]) ! k)" if "k < length (P j @ [sid])" for k
        using c that in2 by (cases "k = ?n") (simp_all add: cell_rep_def nth_append)
      ultimately show ?thesis using True by (simp add: cell_rep_def)
    next
      case False
      have "length (P j') \<le> lsc" and c: "cell_rep ?mem (?G + ?c * j') (P j')" using r j' by blast+
      have "?mem' ! (?G + ?c * j' + k) = ?mem ! (?G + ?c * j' + k)" if "k < 2 + length (P j')" for k
      proof -
        have k: "k < ?c" using that \<open>length (P j') \<le> lsc\<close> by simp
        have "?c * j' + k \<noteq> ?c * j + (?n + 2)" using cell_index_inj [of ?c j' k j "?n + 2"] k room False by linarith
        moreover have "?c * j' + k \<noteq> ?c * j + 0" using cell_index_inj [of ?c j' k j 0] k False by linarith
        ultimately show ?thesis by (simp only: nth_list_update_neq add.assoc add_left_cancel add_0_right)
      qed
      then show ?thesis using False cell_rep_cong [OF c] by simp
    qed
  qed (use r in simp_all)
  ultimately show ?thesis by blast
qed

text \<open>All the inserts of \<open>build\<close>.\<close>

definition proxies :: "u32 list list \<Rightarrow> nat \<Rightarrow> nat \<Rightarrow> u32 list" where
  "proxies mids k j = map word_of_nat (filter (\<lambda>i. word_of_nat j \<in> set (mids ! i)) [0..<k])"

text \<open>The global shards in order, with their machines.\<close>

definition owners :: "worker_node_info list \<Rightarrow> nat \<Rightarrow> u32 list" where
  "owners nodes k = concat (map (\<lambda>j. replicate (unat (nr_cores (nodes ! j))) (word_of_nat j)) [0..<k])"

lemma owners_Suc: "owners nodes (Suc k) = owners nodes k @ replicate (unat (nr_cores (nodes ! k))) (word_of_nat k)"
  by (simp add: owners_def)

lemma length_owners: "k \<le> length nodes \<Longrightarrow> length (owners nodes k) = cores_of (take k nodes)"
proof (induction k)
  case (Suc k)
  then show ?case using cores_of_take_Suc [of k nodes] by (simp add: owners_Suc)
qed (simp add: owners_def cores_of_def)

lemma owners_nth:
  assumes "cores_of (take i nodes) \<le> g" "g < cores_of (take (Suc i) nodes)" "i < k" "k \<le> length nodes"
  shows "owners nodes k ! g = word_of_nat i"
  using assms(3,4)
proof (induction k)
  case (Suc k)
  have li: "length (owners nodes k) = cores_of (take k nodes)" using Suc.prems by (intro length_owners) simp
  show ?case
  proof (cases "i = k")
    case True
    then show ?thesis using assms(1,2) li Suc.prems cores_of_take_Suc [of k nodes] by (simp add: owners_Suc nth_append)
  next
    case False
    then have "g < cores_of (take k nodes)"
      using assms(2) Suc.prems cores_of_take_mono [of "Suc i" k nodes] by simp
    then show ?thesis using Suc False li by (simp add: owners_Suc nth_append)
  qed
qed simp

lemma populate_run:
  assumes "pos + k \<le> length (rt_mem rt)"
  shows "fold_res (\<lambda>i (pos, rt). bind_res (rt_set pos w rt) (\<lambda>rt1. Inr (pos + 1, rt1))) [0..<k] (pos, rt) =
    Inr (pos + k, rt\<lparr>rt_mem := take pos (rt_mem rt) @ replicate k (Some w) @ drop (pos + k) (rt_mem rt)\<rparr>)"
  using assms
proof (induction k)
  case (Suc k)
  let ?m = "take pos (rt_mem rt) @ replicate k (Some w) @ drop (pos + k) (rt_mem rt)"
  have "drop (pos + k) (rt_mem rt) = rt_mem rt ! (pos + k) # drop (pos + Suc k) (rt_mem rt)"
    using Suc.prems by (simp add: Cons_nth_drop_Suc)
  then have "?m[pos + k := Some w] = take pos (rt_mem rt) @ replicate (Suc k) (Some w) @ drop (pos + Suc k) (rt_mem rt)"
    using Suc.prems by (simp add: list_update_append replicate_append_same [symmetric] del: replicate_append_same)
  then show ?case using Suc by (simp add: fold_res_append rt_set_def)
qed simp

lemma populate_all:
  assumes "cores_of nodes \<le> length mem" and "k \<le> length nodes"
  shows "fold_res (populate_machine nodes) [0..<k] (0, rt\<lparr>rt_mem := mem\<rparr>) =
    Inr (cores_of (take k nodes), rt\<lparr>rt_mem := map Some (owners nodes k) @ drop (cores_of (take k nodes)) mem\<rparr>)"
  using assms(2)
proof (induction k)
  case 0
  then show ?case by (simp add: cores_of_def owners_def)
next
  case (Suc k)
  let ?p = "cores_of (take k nodes)" and ?n = "unat (nr_cores (nodes ! k))"
  have S: "cores_of (take (Suc k) nodes) = ?p + ?n" using Suc.prems by (intro cores_of_take_Suc) simp
  have le: "?p + ?n \<le> length mem" using cores_of_take_mono [of "Suc k" "length nodes" nodes] Suc.prems assms(1) S by simp
  have lo: "length (owners nodes k) = ?p" using Suc.prems by (intro length_owners) simp
  show ?case
    using Suc populate_run [of ?p ?n "rt\<lparr>rt_mem := map Some (owners nodes k) @ drop ?p mem\<rparr>" "word_of_nat k"] le lo S
    by (simp add: fold_res_append populate_machine_def owners_Suc ac_simps)
qed

lemma init_cells:
  assumes "cells_head rt = G" "cell_size rt = word_of_nat c" "length (rt_mem rt) = G + c * M" "G + c * M < 2 ^ 32"
    and "1 < c" "k \<le> M"
  shows "\<exists>mem. fold_res init_cell [0..<k] rt = Inr (rt\<lparr>rt_mem := mem\<rparr>) \<and> length mem = length (rt_mem rt) \<and>
    take G mem = take G (rt_mem rt) \<and> (\<forall>j<k. cell_rep mem (G + c * j) [])"
  using assms(6)
proof (induction k)
  case 0
  then show ?case by (intro exI [of _ "rt_mem rt"]) simp
next
  case (Suc k)
  then have k: "k < M" by simp
  from Suc obtain mem where mem: "fold_res init_cell [0..<k] rt = Inr (rt\<lparr>rt_mem := mem\<rparr>)" "length mem = length (rt_mem rt)"
    "take G mem = take G (rt_mem rt)" "\<forall>j<k. cell_rep mem (G + c * j) []" by auto
  let ?b = "G + c * k"
  let ?mem = "mem[?b := Some 0, ?b + 1 := Some 2]"
  have b: "?b < length mem" "?b + 1 < length mem"
    using cell_bound [OF k, of 0 c] cell_bound [OF k, of 1 c] assms(3,5) mem(2) by simp_all
  have "cell_ptr (rt\<lparr>rt_mem := mem\<rparr>) (word_of_nat k) = ?b"
    using assms(1,2,4,5) k by (intro cell_ptr_eq) simp_all
  then have "init_cell k (rt\<lparr>rt_mem := mem\<rparr>) = Inr (rt\<lparr>rt_mem := ?mem\<rparr>)"
    using b by (simp add: init_cell_def rt_set_def Let_def)
  moreover have "cell_rep ?mem (G + c * j) []" if "j < Suc k" for j
  proof (cases "j = k")
    case True
    then show ?thesis using b by (simp add: cell_rep_def)
  next
    case False
    have ne: "c * j + r \<noteq> c * k + q" if "r < 2" "q < 2" for r q
      using cell_index_inj [of c j r k q] that assms(5) False by linarith
    have "cell_rep mem (G + c * j) []" using mem(4) that False by simp
    then show ?thesis
      using ne [of 0 0] ne [of 0 1] ne [of 1 0] ne [of 1 1] by (simp add: cell_rep_def)
  qed
  ultimately show ?case using mem by (intro exI [of _ ?mem]) (simp add: fold_res_append)
qed

lemma rt_rep_cong: "rt_rep rt lsc owner P M \<Longrightarrow> (\<And>j. j < M \<Longrightarrow> P' j = P j) \<Longrightarrow> rt_rep rt lsc owner P' M"
  by (simp add: rt_rep_def)

lemma insert_list_ok:
  assumes "M < 2 ^ 32"
  shows "rt_rep rt lsc owner P M \<Longrightarrow> distinct ms \<Longrightarrow> (\<And>m. m \<in> set ms \<Longrightarrow> unat m < M \<and> length (P (unat m)) < lsc) \<Longrightarrow>
    \<exists>rt'. fold_res (\<lambda>mid. rt_insert mid sid) ms rt = Inr rt' \<and>
      rt_rep rt' lsc owner (\<lambda>j. P j @ (if word_of_nat j \<in> set ms then [sid] else [])) M"
proof (induction ms arbitrary: rt P)
  case (Cons m ms)
  have m: "unat m < M" "length (P (unat m)) < lsc" using Cons.prems(3) by simp_all
  from rt_insert_ok [OF Cons.prems(1) m] obtain rt1 where
    1: "rt_insert m sid rt = Inr rt1" "rt_rep rt1 lsc owner (P(unat m := P (unat m) @ [sid])) M" by auto
  have "\<exists>rt'. fold_res (\<lambda>mid. rt_insert mid sid) ms rt1 = Inr rt' \<and> rt_rep rt' lsc owner
      (\<lambda>j. (P(unat m := P (unat m) @ [sid])) j @ (if word_of_nat j \<in> set ms then [sid] else [])) M"
  proof (rule Cons.IH [OF 1(2)])
    show "distinct ms" using Cons.prems(2) by simp
    fix x assume x: "x \<in> set ms"
    then have "x \<noteq> m" using Cons.prems(2) by auto
    then have "unat x \<noteq> unat m" by (simp add: word_unat_eq_iff)
    then show "unat x < M \<and> length ((P(unat m := P (unat m) @ [sid])) (unat x)) < lsc" using Cons.prems(3) x by simp
  qed
  then obtain rt2 where 2: "fold_res (\<lambda>mid. rt_insert mid sid) ms rt1 = Inr rt2" "rt_rep rt2 lsc owner
      (\<lambda>j. (P(unat m := P (unat m) @ [sid])) j @ (if word_of_nat j \<in> set ms then [sid] else [])) M" by blast
  have "rt_rep rt2 lsc owner (\<lambda>j. P j @ (if word_of_nat j \<in> set (m # ms) then [sid] else [])) M"
  proof (rule rt_rep_cong [OF 2(2)])
    fix j assume "j < M"
    then have "unat (word_of_nat j :: u32) = j" using assms by (intro unat_of_nat_small) simp
    then have "word_of_nat j = m \<longleftrightarrow> j = unat m" by auto
    then show "P j @ (if word_of_nat j \<in> set (m # ms) then [sid] else []) =
        (P(unat m := P (unat m) @ [sid])) j @ (if word_of_nat j \<in> set ms then [sid] else [])"
      using Cons.prems(2) by auto
  qed
  then show ?case using 1(1) 2(1) by simp
qed simp

lemma proxies_Suc:
  "proxies mids (Suc k) j = proxies mids k j @ (if word_of_nat j \<in> set (mids ! k) then [word_of_nat k] else [])"
  by (simp add: proxies_def)

lemma length_proxies: "length (proxies mids k j) \<le> k"
  using length_filter_le [of "\<lambda>i. word_of_nat j \<in> set (mids ! i)" "[0..<k]"] by (simp add: proxies_def)

lemma insert_all_ok:
  assumes M: "M < 2 ^ 32" and rep: "rt_rep rt lsc owner (\<lambda>j. []) M" and len: "length mids = lsc"
    and mids: "\<And>ms. ms \<in> set mids \<Longrightarrow> distinct ms \<and> (\<forall>m\<in>set ms. unat m < M)" and "k \<le> lsc"
  shows "\<exists>rt'. fold_res (\<lambda>i rt. if i < length mids then fold_res (\<lambda>mid. rt_insert mid (word_of_nat i)) (mids ! i) rt
      else Inl Out_of_bounds) [0..<k] rt = Inr rt' \<and> rt_rep rt' lsc owner (proxies mids k) M"
  using assms(5)
proof (induction k)
  case 0
  then show ?case using rep by (simp add: proxies_def [abs_def])
next
  case (Suc k)
  then obtain rt1 where 1: "fold_res (\<lambda>i rt. if i < length mids then fold_res (\<lambda>mid. rt_insert mid (word_of_nat i)) (mids ! i) rt
      else Inl Out_of_bounds) [0..<k] rt = Inr rt1" "rt_rep rt1 lsc owner (proxies mids k) M" by auto
  have k: "mids ! k \<in> set mids" using Suc.prems len by simp
  have room: "unat m < M \<and> length (proxies mids k (unat m)) < lsc" if "m \<in> set (mids ! k)" for m
    using mids [OF k] that le_less_trans [OF length_proxies [of mids k "unat m"]] Suc.prems by simp
  from insert_list_ok [OF M 1(2), of "mids ! k" "word_of_nat k"] mids [OF k] room obtain rt2 where
    "fold_res (\<lambda>mid. rt_insert mid (word_of_nat k)) (mids ! k) rt1 = Inr rt2"
    "rt_rep rt2 lsc owner (\<lambda>j. proxies mids k j @ (if word_of_nat j \<in> set (mids ! k) then [word_of_nat k] else [])) M"
    by blast
  then show ?case using 1(1) Suc.prems len by (simp add: fold_res_append proxies_Suc [abs_def])
qed

definition routing_input_ok :: "worker_node_info list \<Rightarrow> u32 \<Rightarrow> u32 list list \<Rightarrow> bool" where
  "routing_input_ok nodes lsc mids \<longleftrightarrow>
     nodes \<noteq> [] \<and> cores_of nodes + (2 + unat lsc) * length nodes < 2 ^ 32 \<and> length mids = unat lsc \<and>
     list_all (\<lambda>ms. distinct ms \<and> list_all (\<lambda>m. unat m < length nodes) ms) mids"

lemma rt_build_ok:
  assumes ok: "routing_input_ok nodes lsc mids" and nc: "node_list nc = nodes" "num_machines nc = word_of_nat (length nodes)"
    and mi: "num_shards mi = word_of_nat (cores_of nodes)"
  shows "\<exists>rt. rt_build nc mi lsc mids = Inr rt \<and>
    rt_rep rt (unat lsc) (owners nodes (length nodes)) (proxies mids (unat lsc)) (length nodes)"
proof -
  let ?M = "length nodes" and ?G = "cores_of nodes" and ?c = "2 + unat lsc"
  note o = ok [unfolded routing_input_ok_def]
  have M: "0 < ?M" using o by simp
  then have c1: "?c * 1 \<le> ?c * ?M" by (intro mult_le_mono) (simp_all only: Suc_leI One_nat_def order_refl)
  have M1: "1 * ?M \<le> ?c * ?M" by (intro mult_le_mono) simp_all
  have tot: "?G + ?c * ?M < 2 ^ 32" using o by blast
  then have cM: "?c * ?M < 2 ^ 32" by linarith
  have b: "?M < 2 ^ 32" "?c < 2 ^ 32"
    using le_less_trans [OF M1 cM] le_less_trans [OF c1 cM] unfolding mult_1 mult_1_right .
  have bG: "?G < 2 ^ 32" using tot by linarith
  have u: "unat (num_machines nc) = ?M" "unat (num_shards mi) = ?G" using nc mi b bG by (simp_all add: unat_of_nat_small)
  have "num_shards mi + (2 + lsc) * num_machines nc = word_of_nat (?G + ?c * ?M)" unfolding nc mi by (simp add: distrib_right)
  then have sz: "unat (num_shards mi + (2 + lsc) * num_machines nc) = ?G + ?c * ?M"
    using unat_of_nat_small [OF tot] by simp
  let ?mem = "replicate (?G + ?c * ?M) None :: u32 option list"
  let ?rt = "\<lparr>rt_mem = ?mem, cells_head = ?G, cell_size = 2 + lsc\<rparr>"
  let ?rt1 = "?rt\<lparr>rt_mem := map Some (owners nodes ?M) @ drop ?G ?mem\<rparr>"
  have lo: "length (owners nodes ?M) = ?G" using length_owners [of ?M nodes] by simp
  have pop: "fold_res (populate_machine nodes) [0..<?M] (0, ?rt) = Inr (?G, ?rt1)"
    using populate_all [of nodes ?mem ?M ?rt] by simp
  obtain mem2 where init: "fold_res init_cell [0..<?M] ?rt1 = Inr (?rt1\<lparr>rt_mem := mem2\<rparr>)"
    "length mem2 = ?G + ?c * ?M" "take ?G mem2 = map Some (owners nodes ?M)" "\<forall>j<?M. cell_rep mem2 (?G + ?c * j) []"
    using init_cells [of ?rt1 ?G ?c ?M ?M] tot lo by auto
  let ?rt2 = "?rt1\<lparr>rt_mem := mem2\<rparr>"
  have rep: "rt_rep ?rt2 (unat lsc) (owners nodes ?M) (\<lambda>j. []) ?M"
    unfolding rt_rep_def lo using init b tot by (simp add: add.commute)
  have "distinct ms \<and> (\<forall>m\<in>set ms. unat m < ?M)" if "ms \<in> set mids" for ms using o that by (simp add: list_all_iff)
  from insert_all_ok [OF b(1) rep _ this order_refl] o obtain rt' where
    ins: "fold_res (\<lambda>i rt. if i < length mids then fold_res (\<lambda>mid. rt_insert mid (word_of_nat i)) (mids ! i) rt
       else Inl Out_of_bounds) [0..<unat lsc] ?rt2 = Inr rt'"
    "rt_rep rt' (unat lsc) (owners nodes ?M) (proxies mids (unat lsc)) ?M" by blast
  have l: "word_of_nat (length mids) = lsc" using o by simp
  have "rt_build nc mi lsc mids = Inr rt'"
    unfolding rt_build_def Let_def u sz nc(1) pop l
    by (simp only: assert_res_simps bind_res_simps prod.case init(1) ins(1) simp_thms)
  then show ?thesis using ins(2) by blast
qed

lemma get_destination_ok:
  assumes rep: "rt_rep rt lsc owner P M" and g: "g < length owner" "owner ! g = word_of_nat j" and j: "j < M"
  shows "get_destination (word_of_nat g) rt =
    (if P j = [] then Inl Division_by_zero
     else Inr \<lparr>di_machine_id = word_of_nat j, target_sid = P j ! (g mod length (P j))\<rparr>)"
proof -
  note r = rep [unfolded rt_rep_def]
  have lt: "length owner < 2 ^ 32" "length (P j) < 2 ^ 32" "length (P j) + 2 < 2 ^ 32" using r j by auto
  have ug: "unat (word_of_nat g :: u32) = g" using g(1) lt by (intro unat_of_nat_small) simp
  have un: "unat (word_of_nat (length (P j)) :: u32) = length (P j)" using lt(2) by (rule unat_of_nat_small)
  note c = rt_rep_cell [OF rep j]
  show ?thesis
  proof (cases "P j = []")
    case True
    then show ?thesis
      using rt_rep_owner [OF rep g(1)] g(2) ug c by (simp add: get_destination_def Let_def umod_def)
  next
    case False
    then have n0: "0 < length (P j)" by simp
    have w0: "(word_of_nat (length (P j)) :: u32) \<noteq> 0" using un n0 by (metis unsigned_0 less_numeral_extra(3))
    let ?r = "g mod length (P j)"
    have rl: "?r < length (P j)" using n0 by simp
    have "word_of_nat g mod word_of_nat (length (P j)) = (word_of_nat ?r :: u32)"
      using ug un rl lt by (intro word_unat_eq_iff [THEN iffD2]) (simp add: unat_mod_distrib unat_of_nat_small)
    moreover have "unat (word_of_nat ?r + 2 :: u32) = ?r + 2"
      using unat_of_nat_small [of "?r + 2"] rl lt by (simp add: add.commute)
    ultimately show ?thesis
      using rt_rep_owner [OF rep g(1)] g(2) ug c(1,2) c(4) [OF rl] w0 False
      by (simp add: get_destination_def Let_def umod_def ac_simps)
  qed
qed

section \<open>The connections of a shard\<close>

text \<open>\<open>connection_table\<close>: a multimap from machine ids to connections, and the ids in the order of their first
  connection. Which of several connections to a machine \<open>find\<close> returns is left open by \<open>unordered_multimap\<close>;
  it is the argument \<open>pick\<close>.\<close>

record 'c connection_table =
  mc_map :: "(u32 \<times> 'c) list"
  managed_mach_ids :: "u32 list"

definition ct_empty :: "'c connection_table" where
  "ct_empty = \<lparr>mc_map = [], managed_mach_ids = []\<rparr>"

definition ct_add :: "u32 \<times> 'c \<Rightarrow> 'c connection_table \<Rightarrow> 'c connection_table" where
  "ct_add mc ct =
     (let ct1 = (if list_all (\<lambda>x. fst x \<noteq> fst mc) (mc_map ct)
                 then ct\<lparr>managed_mach_ids := managed_mach_ids ct @ [fst mc]\<rparr> else ct)
      in ct1\<lparr>mc_map := mc_map ct1 @ [mc]\<rparr>)"

definition ct_find :: "nat \<Rightarrow> u32 \<Rightarrow> 'c connection_table \<Rightarrow> 'c res" where
  "ct_find pick mid ct =
     (let cs = filter (\<lambda>x. fst x = mid) (mc_map ct)
      in if cs = [] then Inl Null_deref else Inr (snd (cs ! (pick mod length cs))))"

definition ct_of :: "(u32 \<times> 'c) list \<Rightarrow> 'c connection_table" where
  "ct_of mcs = fold ct_add mcs ct_empty"

lemma ct_add_inv:
  assumes "distinct (managed_mach_ids ct)" "set (managed_mach_ids ct) = fst ` set (mc_map ct)"
  shows "distinct (managed_mach_ids (ct_add mc ct))"
    "set (managed_mach_ids (ct_add mc ct)) = fst ` set (mc_map (ct_add mc ct))"
    "mc_map (ct_add mc ct) = mc_map ct @ [mc]"
  using assms by (auto simp: ct_add_def Let_def list_all_iff intro: rev_image_eqI)

lemma ct_fold_ok:
  "distinct (managed_mach_ids ct) \<Longrightarrow> set (managed_mach_ids ct) = fst ` set (mc_map ct) \<Longrightarrow>
   distinct (managed_mach_ids (fold ct_add mcs ct)) \<and>
   set (managed_mach_ids (fold ct_add mcs ct)) = fst ` set (mc_map (fold ct_add mcs ct)) \<and>
   mc_map (fold ct_add mcs ct) = mc_map ct @ mcs"
  by (induction mcs arbitrary: ct) (simp_all add: ct_add_inv)

lemma ct_of_ok:
  "distinct (managed_mach_ids (ct_of mcs))" "set (managed_mach_ids (ct_of mcs)) = fst ` set mcs" "mc_map (ct_of mcs) = mcs"
  using ct_fold_ok [of ct_empty mcs] by (simp_all add: ct_of_def ct_empty_def)

lemma ct_find_ok: "mid \<in> fst ` set mcs \<Longrightarrow> \<exists>c. ct_find pick mid (ct_of mcs) = Inr c \<and> (mid, c) \<in> set mcs"
proof -
  assume "mid \<in> fst ` set mcs"
  let ?cs = "filter (\<lambda>x. fst x = mid) mcs"
  have "?cs \<noteq> []" using \<open>mid \<in> fst ` set mcs\<close> by (auto simp: filter_empty_conv)
  moreover obtain y where y: "y = ?cs ! (pick mod length ?cs)" by simp
  ultimately have "y \<in> set ?cs" unfolding y by (intro nth_mem) simp
  then have "(mid, snd y) \<in> set mcs" by auto
  then show ?thesis using \<open>?cs \<noteq> []\<close> y by (auto simp: ct_find_def ct_of_ok Let_def)
qed

section \<open>Sending to another machine\<close>

text \<open>The buffers of a shard's connection manager, one per machine; \<open>push_to_buffer\<close> ignores a failure.\<close>

type_synonym 'd net_buffers = "('d actor_message, string) dynamic_queue list list"

record ('d, 'q) net_state =
  net_qs :: "('d message_item, 'q) qmatrix"
  net_bufs :: "'d net_buffers"

definition push_to_buffer :: "nat \<Rightarrow> u32 \<Rightarrow> 'd actor_message \<Rightarrow> 'd net_buffers \<Rightarrow> 'd net_buffers res" where
  "push_to_buffer local_shard_id mach msg bufs =
     (if local_shard_id < length bufs \<and> unat mach < length (bufs ! local_shard_id) then
        Inr (bufs[local_shard_id := (bufs ! local_shard_id)[unat mach :=
          snd (push_eventually msg (bufs ! local_shard_id ! unat mach))]])
      else Inl Out_of_bounds)"

definition network_send ::
    "('d message_item, 'q) spsc \<Rightarrow> bool \<Rightarrow> routing_table \<Rightarrow> nat \<Rightarrow> 'd actor_message \<Rightarrow> ('d, 'q) net_state \<Rightarrow> ('d, 'q) net_state res" where
  "network_send Q urgent rt local_shard_id msg st =
     bind_res (get_shard_id (hdr_addr (msg_hdr msg))) (\<lambda>sid.
     bind_res (get_destination sid rt) (\<lambda>dst.
       if unat (target_sid dst) = local_shard_id then
         bind_res (push_to_buffer local_shard_id (di_machine_id dst) msg (net_bufs st)) (\<lambda>b. Inr (st\<lparr>net_bufs := b\<rparr>))
       else
         bind_res (q_send Q urgent (unat (target_sid dst)) local_shard_id
           \<lparr>mach_id = di_machine_id dst, mi_msg = msg\<rparr> (net_qs st)) (\<lambda>(es, qs). Inr (st\<lparr>net_qs := qs\<rparr>))))"

text \<open>One round of \<open>network_channel::poll_queues\<close>: what was received goes to the buffers of this shard.\<close>

definition network_poll_one ::
    "('d message_item, 'q) spsc \<Rightarrow> nat \<Rightarrow> nat \<Rightarrow> 'd message_item tx_op list \<Rightarrow> ('d, 'q) net_state \<Rightarrow> (nat \<times> ('d, 'q) net_state) res" where
  "network_poll_one Q s i ts st =
     bind_res (q_at (net_qs st) s i) (\<lambda>rxq.
     bind_res (net_process_incoming Q (tx_steps Q ts) rxq) (\<lambda>(ms, rxq1).
     bind_res (fold_res (\<lambda>m. push_to_buffer s (mach_id m) (mi_msg m)) ms (net_bufs st)) (\<lambda>bufs.
     bind_res (flush_to Q s i (q_put s i rxq1 (net_qs st))) (\<lambda>qs.
       Inr (length ms, st\<lparr>net_qs := qs, net_bufs := bufs\<rparr>)))))"

fun network_poll_loop ::
    "('d message_item, 'q) spsc \<Rightarrow> nat \<Rightarrow> nat list \<Rightarrow> (nat \<Rightarrow> 'd message_item tx_op list) \<Rightarrow> ('d, 'q) net_state \<Rightarrow>
     (nat \<times> ('d, 'q) net_state) res" where
  "network_poll_loop Q s [] bt st = Inr (0, st)"
| "network_poll_loop Q s (i # is) bt st =
     (if s \<noteq> i then
        bind_res (network_poll_one Q s i (bt i) st) (\<lambda>(nr, st1).
        bind_res (network_poll_loop Q s is bt st1) (\<lambda>(got, st2). Inr (nr + got, st2)))
      else network_poll_loop Q s is bt st)"

definition network_poll_queues ::
    "('d message_item, 'q) spsc \<Rightarrow> nat \<Rightarrow> nat \<Rightarrow> (nat \<Rightarrow> 'd message_item tx_op list) \<Rightarrow> ('d, 'q) net_state \<Rightarrow>
     (bool \<times> ('d, 'q) net_state) res" where
  "network_poll_queues Q n s bt st =
     bind_res (network_poll_loop Q s [0..<n] bt st) (\<lambda>(got, st1). Inr (got \<noteq> 0, st1))"

text \<open>\<open>network_channel::pure_poll_queues\<close>, unlike the one of the local channel, does not skip the shard itself.\<close>

fun network_pure_poll_loop :: "('m, 'q) spsc \<Rightarrow> nat \<Rightarrow> nat list \<Rightarrow> ('m, 'q) qmatrix \<Rightarrow> (bool \<times> ('m, 'q) qmatrix) res" where
  "network_pure_poll_loop Q s [] qs = Inr (False, qs)"
| "network_pure_poll_loop Q s (i # is) qs =
     bind_res (flush_to Q s i qs) (\<lambda>qs1.
     bind_res (q_at qs1 s i) (\<lambda>rxq.
       if net_pure_poll_rx Q rxq then Inr (True, qs1) else network_pure_poll_loop Q s is qs1))"

definition network_pure_poll_queues :: "('m, 'q) spsc \<Rightarrow> nat \<Rightarrow> nat \<Rightarrow> ('m, 'q) qmatrix \<Rightarrow> (bool \<times> ('m, 'q) qmatrix) res" where
  "network_pure_poll_queues Q n s qs = network_pure_poll_loop Q s [0..<n] qs"

section \<open>Properties\<close>

text \<open>The tables of all shards, and what the routing table is built from.\<close>

definition cluster_conns_ok :: "worker_node_info list \<Rightarrow> u32 \<Rightarrow> (u32 \<times> 'c) list list \<Rightarrow> bool" where
  "cluster_conns_ok nodes lsc conns \<longleftrightarrow>
     nodes \<noteq> [] \<and> cores_of nodes + (2 + unat lsc) * length nodes < 2 ^ 32 \<and> length conns = unat lsc \<and>
     list_all (list_all (\<lambda>mc. unat (fst mc) < length nodes)) conns"

definition mids_of :: "(u32 \<times> 'c) list list \<Rightarrow> u32 list list" where
  "mids_of conns = map (\<lambda>mcs. managed_mach_ids (ct_of mcs)) conns"

lemma routing_input_of_conns: "cluster_conns_ok nodes lsc conns \<Longrightarrow> routing_input_ok nodes lsc (mids_of conns)"
  by (auto simp: cluster_conns_ok_def routing_input_ok_def mids_of_def list_all_iff ct_of_ok)

lemma proxies_mem:
  assumes "t \<in> set (proxies mids k j)"
  shows "\<exists>i<k. t = word_of_nat i \<and> word_of_nat j \<in> set (mids ! i)"
  using assms by (auto simp: proxies_def)

lemma proxies_Nil: "proxies mids k j = [] \<longleftrightarrow> (\<forall>i<k. word_of_nat j \<notin> set (mids ! i))"
  by (auto simp: proxies_def filter_empty_conv)

lemma routing_connected:
  assumes conns: "cluster_conns_ok nodes lsc conns" and nc: "node_list nc = nodes" "num_machines nc = word_of_nat (length nodes)"
    and mi: "num_shards mi = word_of_nat (cores_of nodes)" and i: "i < length nodes"
    and g: "cores_of (take i nodes) \<le> g" "g < cores_of (take (Suc i) nodes)"
  shows "\<exists>rt. rt_build nc mi lsc (mids_of conns) = Inr rt \<and>
    (if \<exists>t<unat lsc. word_of_nat i \<in> fst ` set (conns ! t)
     then \<exists>t<unat lsc. get_destination (word_of_nat g) rt = Inr \<lparr>di_machine_id = word_of_nat i, target_sid = word_of_nat t\<rparr> \<and>
       (\<forall>pick. \<exists>c. ct_find pick (word_of_nat i) (ct_of (conns ! t)) = Inr c)
     else get_destination (word_of_nat g) rt = Inl Division_by_zero)"
proof -
  let ?P = "proxies (mids_of conns) (unat lsc)" and ?n = "length nodes"
  from rt_build_ok [OF routing_input_of_conns [OF conns] nc mi] obtain rt where
    rt: "rt_build nc mi lsc (mids_of conns) = Inr rt" "rt_rep rt (unat lsc) (owners nodes ?n) ?P ?n" by blast
  have l: "length conns = unat lsc" using conns by (simp add: cluster_conns_ok_def)
  have mem: "word_of_nat i \<in> set (mids_of conns ! t) \<longleftrightarrow> word_of_nat i \<in> fst ` set (conns ! t)" if "t < unat lsc" for t
    using that l by (simp add: mids_of_def ct_of_ok)
  have "cores_of (take (Suc i) nodes) \<le> cores_of nodes" using cores_of_take_mono [of "Suc i" ?n nodes] i by simp
  then have "g < length (owners nodes ?n)" using g(2) length_owners [of ?n nodes] by simp
  note dest = get_destination_ok [OF rt(2) this owners_nth [OF g i order_refl] i]
  show ?thesis
  proof (cases "?P i = []")
    case True
    then have "\<not> (\<exists>t<unat lsc. word_of_nat i \<in> fst ` set (conns ! t))" using mem by (auto simp: proxies_Nil)
    then show ?thesis unfolding if_not_P [OF \<open>\<not> (\<exists>t<unat lsc. word_of_nat i \<in> fst ` set (conns ! t))\<close>] using rt(1) dest True by simp
  next
    case False
    then have "?P i ! (g mod length (?P i)) \<in> set (?P i)" by (intro nth_mem) simp
    then obtain t where t: "t < unat lsc" "?P i ! (g mod length (?P i)) = word_of_nat t" "word_of_nat i \<in> fst ` set (conns ! t)"
      using proxies_mem mem by metis
    have ex: "\<exists>t<unat lsc. word_of_nat i \<in> fst ` set (conns ! t)" using t(1,3) by blast
    have "get_destination (word_of_nat g) rt = Inr \<lparr>di_machine_id = word_of_nat i, target_sid = word_of_nat t\<rparr>"
      using dest False t(2) by simp
    moreover have "\<forall>pick. \<exists>c. ct_find pick (word_of_nat i) (ct_of (conns ! t)) = Inr c" using ct_find_ok [OF t(3)] by blast
    ultimately show ?thesis unfolding if_P [OF ex] using rt(1) t(1) by blast
  qed
qed

text \<open>A message to another machine is routed to a shard that has a connection to that machine. Build the
  routing table from the connection tables of all local shards, whatever connections they hold: the
  construction never writes outside its memory block, and for every global shard \<open>g\<close>, which belongs to
  machine \<open>i\<close>, \<open>get_destination\<close> names machine \<open>i\<close> and a local shard in whose table \<open>find\<close> succeeds for \<open>i\<close>,
  always the same shard for the same \<open>g\<close>; if no shard has a connection to machine \<open>i\<close>, it divides by zero.\<close>

theorem routing_reaches_connected_shard:
  assumes conns: "cluster_conns_ok nodes lsc conns" and nc: "node_list nc = nodes" "num_machines nc = word_of_nat (length nodes)"
    and mi: "num_shards mi = word_of_nat (cores_of nodes)" and i: "i < length nodes"
    and g: "cores_of (take i nodes) \<le> g" "g < cores_of (take (Suc i) nodes)"
  shows "\<exists>rt. rt_build nc mi lsc (mids_of conns) = Inr rt \<and>
    (if \<exists>t<unat lsc. word_of_nat i \<in> fst ` set (conns ! t)
     then \<exists>t<unat lsc. get_destination (word_of_nat g) rt = Inr \<lparr>di_machine_id = word_of_nat i, target_sid = word_of_nat t\<rparr> \<and>
       (\<forall>pick. \<exists>c. ct_find pick (word_of_nat i) (ct_of (conns ! t)) = Inr c)
     else get_destination (word_of_nat g) rt = Inl Division_by_zero)"
  using assms by (rule routing_connected)

definition two_conns :: "(u32 \<times> nat) list list" where "two_conns = [[(1, 10), (1, 11)], []]"

theorem routing_reaches_connected_shard_witness:
  "\<exists>rt. rt_build (fresh_config (map fst two_nodes)\<lparr>num_machines := 2\<rparr>) (make_machine_info 2 5 0) 2 (mids_of two_conns) = Inr rt \<and>
    (\<exists>t<2. get_destination 3 rt = Inr \<lparr>di_machine_id = 1, target_sid = word_of_nat t\<rparr>)"
proof -
  let ?nodes = "map fst two_nodes" and ?nc = "fresh_config (map fst two_nodes)\<lparr>num_machines := 2\<rparr>"
  have c: "cores_of ?nodes = 5" "cores_of (take 1 ?nodes) = 2" "cores_of (take (Suc 1) ?nodes) = 5" "length ?nodes = 2"
    by (simp_all add: cores_of_def two_nodes_def)
  have ok: "cluster_conns_ok ?nodes 2 two_conns"
    unfolding cluster_conns_ok_def c by (simp add: two_conns_def two_nodes_def)
  have nc: "node_list ?nc = ?nodes" "num_machines ?nc = word_of_nat (length ?nodes)"
    "num_shards (make_machine_info 2 5 0) = word_of_nat (cores_of ?nodes)"
    unfolding c by (simp_all add: fresh_config_def make_machine_info_def)
  have "\<exists>t<unat (2 :: u32). word_of_nat 1 \<in> fst ` set (two_conns ! t)" by (rule exI [of _ 0]) (simp add: two_conns_def)
  then show ?thesis
    using routing_reaches_connected_shard [OF ok nc, of 1 3] unfolding c by (auto simp: if_P)
qed

text \<open>The round-robin variant of \<open>get_destination\<close> does not go round. It advances the position by three
  instead of one, because the offset 2 of the first proxy is counted twice; with exactly three proxies it
  returns the same proxy for ever, and the other two connections are never used.\<close>

theorem round_robin_sticks_with_three_proxies:
  assumes "rt_rep rt lsc owner P M" and "g < length owner" and "owner ! g = word_of_nat j" and "j < M" and "length (P j) = 3"
  shows "get_destination_rr (word_of_nat g) rt = Inr (\<lparr>di_machine_id = word_of_nat j, target_sid = P j ! 0\<rparr>, rt)"
proof -
  note c = rt_rep_cell [OF assms(1,4)] and r = assms(1) [unfolded rt_rep_def]
  have "unat (word_of_nat g :: u32) = g" using assms(2) r by (intro unat_of_nat_small) simp
  moreover have "rt_set (length owner + (2 + lsc) * j + 1) 2 rt = Inr rt"
  proof -
    have "rt_mem rt ! (length owner + (2 + lsc) * j + 1) = Some 2"
      using r assms(4) unfolding cell_rep_def by blast
    moreover have "length owner + (2 + lsc) * j + 1 < length (rt_mem rt)"
      using cell_bound [OF assms(4), of 1 "2 + lsc"] r by simp
    ultimately have "(rt_mem rt)[length owner + (2 + lsc) * j + 1 := Some 2] = rt_mem rt"
      "length owner + (2 + lsc) * j + 1 < length (rt_mem rt)" by (simp_all only: list_update_same_conv)
    then show ?thesis by (simp only: rt_set_def if_True) simp
  qed
  ultimately show ?thesis
    using rt_rep_owner [OF assms(1,2)] assms(3,5) c(1,2,3) c(4) [of 0]
    by (simp add: get_destination_rr_def Let_def umod_def)
qed

lemma three_proxies_exist:
  "\<exists>rt. rt_rep rt 3 (owners (map fst two_nodes) 2) (proxies [[1], [1], [1]] 3) 2"
proof -
  let ?nodes = "map fst two_nodes"
  have c: "cores_of ?nodes = 5" "length ?nodes = 2" by (simp_all add: cores_of_def two_nodes_def)
  have "routing_input_ok ?nodes 3 [[1], [1], [1]]" unfolding routing_input_ok_def c by (simp add: two_nodes_def)
  from rt_build_ok [OF this, of "fresh_config ?nodes\<lparr>num_machines := 2\<rparr>" "make_machine_info 3 5 0"] show ?thesis
    unfolding c by (auto simp: fresh_config_def make_machine_info_def)
qed

theorem round_robin_sticks_with_three_proxies_witness:
  "\<exists>rt. get_destination_rr 3 rt = Inr (\<lparr>di_machine_id = 1, target_sid = 0\<rparr>, rt)"
proof -
  have P: "proxies [[1], [1], [1]] 3 1 = [0, 1, 2]" by (simp add: proxies_def upt_rec numeral_3_eq_3)
  have c: "cores_of (take 1 (map fst two_nodes)) = 2" "cores_of (take (Suc 1) (map fst two_nodes)) = 5"
    "cores_of (take 2 (map fst two_nodes)) = 5" "length (map fst two_nodes) = 2"
    by (simp_all add: cores_of_def two_nodes_def)
  have "owners (map fst two_nodes) 2 ! 3 = word_of_nat 1" using c by (intro owners_nth) simp_all
  moreover have "length (owners (map fst two_nodes) 2) = 5" using length_owners [of 2 "map fst two_nodes"] c by simp
  ultimately show ?thesis
    using three_proxies_exist round_robin_sticks_with_three_proxies [of _ 3 "owners (map fst two_nodes) 2"
        "proxies [[1], [1], [1]] 3" 2 3 1] P by auto
qed

context spsc_queue
begin

lemma flush_keeps_self:
  assumes "square n qs" "flush_to Q s i qs = Inr qs1" "i < n" "s < n" "i \<noteq> s"
  shows "qs1 ! s ! s = qs ! s ! s"
  using assms by (auto simp: flush_to_def bind_res_Inr_iff nth_q_put)

lemma network_pure_poll_unstarted:
  assumes "s < n"
  shows "ch_ok n [] qs \<Longrightarrow> pending_fifo (qs ! s ! s) = None \<Longrightarrow> k \<le> s \<Longrightarrow>
    network_pure_poll_loop Q s [k..<n] qs = Inl Uninitialised"
proof (induction "s - k" arbitrary: k qs)
  case 0
  then have "[k..<n] = s # [Suc s..<n]" using assms by (simp add: upt_conv_Cons)
  moreover have "q_at qs s s = Inr (qs ! s ! s)" using 0 assms by (intro q_at_square) (simp_all add: ch_ok_def)
  ultimately show ?case using 0 by (simp add: flush_to_def flush_request_batch_def the_fifo_def)
next
  case (Suc d)
  then have k: "k < n" "k \<noteq> s" and l: "[k..<n] = k # [Suc k..<n]" using assms by (simp_all add: upt_conv_Cons)
  from flush_to_ok [OF Suc.prems(1) k(1) assms k(2)] obtain qs1 where
    1: "flush_to Q s k qs = Inr qs1" "ch_ok n [] qs1" by blast
  have sq: "square n qs" "square n qs1" using Suc.prems(1) 1(2) by (simp_all add: ch_ok_def)
  have self: "pending_fifo (qs1 ! s ! s) = None" using flush_keeps_self [OF sq(1) 1(1) k(1) assms k(2)] Suc.prems(2) by simp
  have "pair_ok [] s k (qs1 ! s ! k)" using 1(2) assms k by (simp add: ch_ok_def)
  then have "items (mq_pending (qs1 ! s ! k)) = []" by (simp add: pair_ok_def in_flight_def)
  then have "\<not> net_pure_poll_rx Q (qs1 ! s ! k)" using empty_law by (simp add: net_pure_poll_rx_def)
  moreover have "q_at qs1 s k = Inr (qs1 ! s ! k)" using q_at_square [OF sq(2) assms k(1)] .
  moreover have "network_pure_poll_loop Q s [Suc k..<n] qs1 = Inl Uninitialised"
    using Suc.hyps(2) Suc.prems(3) by (intro Suc.hyps(1) 1(2) self) simp_all
  ultimately show ?case using 1(1) l by simp
qed

end

text \<open>\<open>network_channel::pure_poll_queues\<close> uses an object that was never constructed. It does not skip the
  shard's queue to itself, which \<open>start_all_queues\<close> does not start: on every shard of every machine, as long
  as nothing has arrived, it reads the \<open>pending_fifo\<close> of that queue, whose storage was never
  initialised. \<open>local_channel::pure_poll_queues\<close>, which skips it, returns \<open>false\<close> in the same state.\<close>

theorem network_pure_poll_reads_uninitialised:
  assumes q: "spsc_queue Q items" "items q0 = []" and s: "s < n"
  shows "\<exists>qs. fold_res (start_all_queues n) [0..<n] (create_qs q0 n) = Inr qs \<and>
    network_pure_poll_queues Q n s qs = Inl Uninitialised \<and>
    (\<exists>qs'. local_pure_poll_queues Q n s qs = Inr (False, qs'))"
proof -
  from start_all_shards [OF square_create [of n q0], of n] obtain qs :: "('a, 'b) qmatrix" where
    qs: "fold_res (start_all_queues n) [0..<n] (create_qs q0 n) = Inr qs"
    "\<forall>i<n. \<forall>j<n. qs ! i ! j = (if j < n \<and> i \<noteq> j then mq_start (create_qs q0 n ! i ! j) else create_qs q0 n ! i ! j)"
    by blast
  have ok: "spsc_queue.ch_ok items n [] qs" using spsc_queue.started_ok [OF q, of n] qs(1) by auto
  have "pending_fifo (qs ! s ! s) = None" using qs(2) s by (simp add: mq_new_def)
  from spsc_queue.network_pure_poll_unstarted [OF q(1) s ok this, of 0] have
    "network_pure_poll_queues Q n s qs = Inl Uninitialised" by (simp add: network_pure_poll_queues_def)
  moreover have "items (mq_pending (qs ! s ! i)) = []" if "i < n" for i
    using qs(2) s that q(2) by (simp add: mq_new_def mq_start_def)
  then have "\<exists>qs'. local_pure_poll_queues Q n s qs = Inr (False, qs')"
    using spsc_queue.pure_poll_loop_ok [OF q(1) s ok, of "[0..<n]"]
    by (auto simp: local_pure_poll_queues_def list_all_iff)
  ultimately show ?thesis using qs(1) by blast
qed

theorem network_pure_poll_reads_uninitialised_witness:
  "\<exists>qs. fold_res (start_all_queues 2) [0..<2] (create_qs [] 2) = Inr qs \<and>
    network_pure_poll_queues (list_spsc :: (nat, nat list) spsc) 2 1 qs = Inl Uninitialised"
  using network_pure_poll_reads_uninitialised [OF lq.spsc_queue_axioms, of "[]" 1 2] by auto

end
