(* ===== verification/Connection_Setup.thy ===== *)
theory Connection_Setup
  imports Network_Channel
begin

text \<open>
  Setting up and closing the connections of a machine (\<open>net/entry.hh\<close>, \<open>net/connection.hh\<close>,
  \<open>net/connection.cc\<close>, \<open>net/network_io.cc\<close>): storage for the connection managers of the shards, the
  loops that accept connections until the last expected one has arrived, the handshake in
  which a client tells its machine id, and the shutdown of the buffers. Sockets are a parameter: a
  connection is a value, with the bytes that arrive on it before its end. On which shard a
  connection is accepted, in which order connections are established and which of several connections to
  a machine \<open>unordered_multimap::find\<close> returns is left open.
\<close>

section \<open>Storage for an object that comes and goes\<close>

text \<open>The union of \<open>entry\<close> holds raw bytes or a constructed object.\<close>

datatype 'a storage = Raw | Object 'a

record 'a entry =
  e_storage :: "'a storage"
  e_empty :: bool

definition entry_new :: "'a entry" where
  "entry_new = \<lparr>e_storage = Raw, e_empty = True\<rparr>"

definition entry_init :: "'a \<Rightarrow> 'a entry \<Rightarrow> 'a entry" where
  "entry_init v e = (if e_empty e then \<lparr>e_storage = Object v, e_empty = False\<rparr> else e)"

text \<open>The access \<open>o.t\<close>.\<close>

definition entry_get :: "'a entry \<Rightarrow> 'a res" where
  "entry_get e = (case e_storage e of Object v \<Rightarrow> Inr v | Raw \<Rightarrow> Inl Uninitialised)"

definition entry_upd :: "('a \<Rightarrow> 'a res) \<Rightarrow> 'a entry \<Rightarrow> 'a entry res" where
  "entry_upd f e = bind_res (entry_get e) (\<lambda>v. bind_res (f v) (\<lambda>v'. Inr (e\<lparr>e_storage := Object v'\<rparr>)))"

text \<open>The destructor needs an object; the result is the one it destroyed.\<close>

definition entry_finalize :: "'a entry \<Rightarrow> ('a option \<times> 'a entry) res" where
  "entry_finalize e =
     (if \<not> e_empty e
      then bind_res (entry_get e) (\<lambda>v. Inr (Some v, \<lparr>e_storage = Raw, e_empty = True\<rparr>))
      else Inr (None, e))"

definition construct_entries :: "nat \<Rightarrow> 'a entry list" where
  "construct_entries n = replicate n entry_new"

text \<open>\<open>entries_deleter\<close> runs the destructor of every entry, which does not touch the union: the objects that
  are still there are the result, they are never destroyed.\<close>

definition entries_delete :: "'a entry list \<Rightarrow> 'a list" where
  "entries_delete es = concat (map (\<lambda>e. case e_storage e of Object v \<Rightarrow> [v] | Raw \<Rightarrow> []) es)"

section \<open>Accepting connections\<close>

text \<open>The listening loops of all shards of a machine and the counter they share. \<open>aborts\<close> are the calls of
  \<open>abort_accept\<close> that were submitted to other shards and have not run yet.\<close>

record 'c server_side =
  num_total_conns :: u32
  listening :: "bool list"
  aborts :: "nat list"
  holder :: "'c list list"

text \<open>\<open>optional_listen\<close> on every shard: no loop when no connection is expected.\<close>

definition optional_listen :: "u32 \<Rightarrow> nat \<Rightarrow> 'c server_side" where
  "optional_listen init_ntc shards =
     \<lparr>num_total_conns = init_ntc, listening = replicate shards (init_ntc \<noteq> 0), aborts = [], holder = replicate shards []\<rparr>"

text \<open>A connection \<open>c\<close> was accepted on shard \<open>s\<close>; the shard that takes the counter to 0 ends its loop and the others'.\<close>

definition on_accept :: "'c \<Rightarrow> nat \<Rightarrow> 'c server_side \<Rightarrow> 'c server_side" where
  "on_accept c s sv =
     (let sv1 = sv\<lparr>holder := (holder sv)[s := holder sv ! s @ [c]], num_total_conns := num_total_conns sv - 1\<rparr>;
          cur_total_remains = num_total_conns sv - 1
      in if cur_total_remains = 0
         then sv1\<lparr>listening := (listening sv)[s := False],
                  aborts := aborts sv @ filter (\<lambda>t. t \<noteq> s) [0..<length (listening sv)]\<rparr>
         else sv1)"

text \<open>\<open>accept\<close> fails on a listener that was aborted, and the loop ends.\<close>

definition on_abort :: "nat \<Rightarrow> 'c server_side \<Rightarrow> 'c server_side" where
  "on_abort t sv = sv\<lparr>listening := (listening sv)[t := False]\<rparr>"

inductive listen_step :: "'c server_side \<Rightarrow> 'c server_side \<Rightarrow> bool" where
  accepted: "s < length (listening sv) \<Longrightarrow> listening sv ! s \<Longrightarrow> listen_step sv (on_accept c s sv)"
| aborted: "aborts sv = us @ t # vs \<Longrightarrow> listen_step sv (on_abort t (sv\<lparr>aborts := us @ vs\<rparr>))"

section \<open>The handshake\<close>

text \<open>The bytes that arrive on a connection are the argument \<open>received\<close>; \<open>read_exactly\<close> returns fewer bytes than
  asked for at the end of the stream.\<close>

fun read_machine_ids :: "('c \<Rightarrow> byte list) \<Rightarrow> 'c list \<Rightarrow> (u32 \<times> 'c) list res" where
  "read_machine_ids received [] = Inr []"
| "read_machine_ids received (c # cs) =
     bind_res (load_unaligned_int 0 (take 4 (received c))) (\<lambda>peer_mid.
     bind_res (read_machine_ids received cs) (\<lambda>mcs. Inr ((peer_mid, c) # mcs)))"

definition collect_machine_ids :: "('c \<Rightarrow> byte list) \<Rightarrow> 'c list \<Rightarrow> 'c connection_table \<Rightarrow> 'c connection_table res" where
  "collect_machine_ids received hold ct =
     bind_res (read_machine_ids received hold) (\<lambda>mcs. Inr (fold ct_add mcs ct))"

text \<open>One connection to a server, once it is established or has failed; \<open>sent\<close> is what was written so far. The
  greeting goes to the connection that \<open>find\<close> returns.\<close>

record 'c clients_side =
  cs_table :: "'c connection_table"
  cs_sent :: "('c \<times> byte list) list"
  cs_failed :: bool

definition on_connected ::
    "('c connection_table \<Rightarrow> nat) \<Rightarrow> u32 \<Rightarrow> u32 \<times> 'c option \<Rightarrow> 'c clients_side \<Rightarrow> 'c clients_side res" where
  "on_connected pick this_mid x cs =
     (case snd x of
        None \<Rightarrow> Inr (cs\<lparr>cs_failed := True\<rparr>)
      | Some c \<Rightarrow>
          (let ct = ct_add (fst x, c) (cs_table cs)
           in bind_res (ct_find (pick ct) (fst x) ct) (\<lambda>out.
                Inr (cs\<lparr>cs_table := ct, cs_sent := cs_sent cs @ [(out, int_bytes this_mid)]\<rparr>))))"

definition clients_start ::
    "('c connection_table \<Rightarrow> nat) \<Rightarrow> u32 \<Rightarrow> (u32 \<times> 'c option) list \<Rightarrow> 'c connection_table \<Rightarrow> 'c clients_side res" where
  "clients_start pick this_mid results ct =
     fold_res (on_connected pick this_mid) results \<lparr>cs_table = ct, cs_sent = [], cs_failed = False\<rparr>"

definition bytes_on :: "'c \<Rightarrow> ('c \<times> byte list) list \<Rightarrow> byte list" where
  "bytes_on c sent = concat (map snd (filter (\<lambda>x. fst x = c) sent))"

section \<open>Running and stopping\<close>

type_synonym 'd buffers = "('d actor_message, string) dynamic_queue list"

definition buffers_build :: "u32 \<Rightarrow> 'd buffers" where
  "buffers_build nr_bufs = replicate (unat nr_bufs) dq_new"

text \<open>\<open>buffers_helper::abort\<close>: the messages still queued are deleted, they are part of the result.
  \<open>consume\<close> throws when the queue was aborted before.\<close>

definition buffer_abort :: "string \<Rightarrow> u32 \<Rightarrow> 'd buffers \<times> 'd actor_message list \<Rightarrow> ('d buffers \<times> 'd actor_message list) res" where
  "buffer_abort ex mid st =
     (case st of (bufs, deleted) \<Rightarrow>
        if unat mid < length bufs then
          (case dq_consume (\<lambda>m. True) (bufs ! unat mid) of
             (Inl e, q) \<Rightarrow> Inl (Thrown e)
           | (Inr (b, used), q) \<Rightarrow> Inr (bufs[unat mid := dq_abort ex q], deleted @ used))
        else Inl Out_of_bounds)"

record ('c, 'd) connection_manager =
  cm_buffers :: "'d buffers"
  cm_table :: "'c connection_table"
  cm_abort :: bool

definition cm_new :: "u32 \<Rightarrow> ('c, 'd) connection_manager" where
  "cm_new num_machs = \<lparr>cm_buffers = buffers_build num_machs, cm_table = ct_empty, cm_abort = False\<rparr>"

text \<open>\<open>run_loops\<close> reports the managed machine ids and starts one sender per id, on the connection that \<open>find\<close>
  returns, and one receiver per connection.\<close>

definition run_loops :: "(u32 \<Rightarrow> nat) \<Rightarrow> ('c, 'd) connection_manager \<Rightarrow> (u32 list \<times> (u32 \<times> 'c) list \<times> 'c list) res" where
  "run_loops pick cm =
     bind_res (fold_res (\<lambda>mid acc. bind_res (ct_find (pick mid) mid (cm_table cm)) (\<lambda>c. Inr (acc @ [(mid, c)])))
        (managed_mach_ids (cm_table cm)) []) (\<lambda>senders.
       Inr (managed_mach_ids (cm_table cm), senders, map snd (mc_map (cm_table cm))))"

definition cm_stop :: "('c, 'd) connection_manager \<Rightarrow> (('c, 'd) connection_manager \<times> 'd actor_message list) res" where
  "cm_stop cm =
     bind_res (fold_res (buffer_abort ''connection is closed'') (managed_mach_ids (cm_table cm)) (cm_buffers cm, []))
       (\<lambda>(bufs, deleted). Inr (cm\<lparr>cm_buffers := bufs, cm_abort := True\<rparr>, deleted))"

text \<open>\<open>network_io\<close>: the managers of all shards.\<close>

definition io_start_server :: "nat \<Rightarrow> u32 \<Rightarrow> ('c, 'd) connection_manager entry list" where
  "io_start_server shards num_machs = map (entry_init (cm_new num_machs)) (construct_entries shards)"

text \<open>One shard's part of \<open>network_io::stop\<close>.\<close>

definition io_stop_shard :: "('c, 'd) connection_manager entry \<Rightarrow> (('c, 'd) connection_manager entry \<times> 'd actor_message list) res" where
  "io_stop_shard e =
     (if \<not> e_empty e then
        bind_res (entry_get e) (\<lambda>cm.
        bind_res (cm_stop cm) (\<lambda>(cm', deleted).
        bind_res (entry_finalize (e\<lparr>e_storage := Object cm'\<rparr>)) (\<lambda>(gone, e'). Inr (e', deleted))))
      else Inr (e, []))"

definition io_stop :: "('c, 'd) connection_manager entry list \<Rightarrow> (('c, 'd) connection_manager entry list \<times> 'd actor_message list) res" where
  "io_stop es =
     fold_res (\<lambda>e st. bind_res (io_stop_shard e) (\<lambda>(e', deleted). Inr (fst st @ [e'], snd st @ deleted))) es ([], [])"

section \<open>The listening loops\<close>

definition total_accepted :: "'c server_side \<Rightarrow> nat" where
  "total_accepted sv = sum_list (map length (holder sv))"

definition listen_inv :: "u32 \<Rightarrow> nat \<Rightarrow> 'c server_side \<Rightarrow> bool" where
  "listen_inv init_ntc n sv \<longleftrightarrow> length (listening sv) = n \<and> length (holder sv) = n \<and>
     (total_accepted sv < unat init_ntc \<longrightarrow>
        unat (num_total_conns sv) = unat init_ntc - total_accepted sv \<and> (\<forall>t<n. listening sv ! t) \<and> aborts sv = []) \<and>
     (total_accepted sv = unat init_ntc \<longrightarrow>
        distinct (aborts sv) \<and> set (aborts sv) \<subseteq> {..<n} \<and> (\<forall>t<n. listening sv ! t \<longleftrightarrow> t \<in> set (aborts sv)))"

lemma total_accepted_add:
  assumes "s < length hs"
  shows "sum_list (map length (hs[s := hs ! s @ [c]])) = Suc (sum_list (map length hs))"
proof -
  have "sum_list (map length hs) = sum_list (map length (take s hs @ hs ! s # drop (Suc s) hs))"
    using arg_cong [OF id_take_nth_drop [OF assms], of "\<lambda>l. sum_list (map length l)"] .
  then show ?thesis using assms by (simp add: upd_conv_take_nth_drop)
qed

lemma listen_inv_accept:
  assumes "listen_inv init_ntc n sv" and "s < length (listening sv)"
  shows "listen_inv init_ntc n (on_accept c s sv)"
proof -
  let ?sv = "on_accept c s sv" and ?T = "total_accepted sv" and ?K = "unat init_ntc"
  have l: "length (listening sv) = n" "length (holder sv) = n" using assms(1) by (simp_all add: listen_inv_def)
  have h: "holder ?sv = (holder sv)[s := holder sv ! s @ [c]]" "num_total_conns ?sv = num_total_conns sv - 1"
    by (simp_all add: on_accept_def Let_def)
  have T: "total_accepted ?sv = Suc ?T"
    using total_accepted_add [of s "holder sv" c] assms(2) l by (simp add: total_accepted_def h)
  have len: "length (listening ?sv) = n" "length (holder ?sv) = n" using l h by (simp_all add: on_accept_def Let_def)
  consider "Suc ?T < ?K" | "Suc ?T = ?K" | "?K < Suc ?T" by linarith
  then show ?thesis
  proof cases
    case 1
    then have i: "unat (num_total_conns sv) = ?K - ?T" "\<forall>t<n. listening sv ! t" "aborts sv = []"
      using assms(1) by (simp_all add: listen_inv_def)
    have "1 \<le> num_total_conns sv" using i(1) 1 by (simp add: word_le_nat_alt)
    then have u: "unat (num_total_conns sv - 1) = ?K - Suc ?T" using i(1) by (simp add: unat_sub)
    then have "num_total_conns sv - 1 \<noteq> 0" using 1 by auto
    then have "listening ?sv = listening sv" "aborts ?sv = aborts sv" by (simp_all add: on_accept_def Let_def)
    with i u h(2) T len 1 show ?thesis by (simp add: listen_inv_def)
  next
    case 2
    then have i: "unat (num_total_conns sv) = 1" "\<forall>t<n. listening sv ! t" "aborts sv = []"
      using assms(1) by (auto simp: listen_inv_def)
    then have "num_total_conns sv = 1" by (simp add: word_unat_eq_iff)
    then have "listening ?sv = (listening sv)[s := False]" "aborts ?sv = filter (\<lambda>t. t \<noteq> s) [0..<n]"
      using i(3) l by (simp_all add: on_accept_def Let_def)
    with i(2) T len 2 l show ?thesis by (auto simp: listen_inv_def nth_list_update)
  next
    case 3
    with T len show ?thesis by (simp add: listen_inv_def)
  qed
qed

lemma listen_inv_abort:
  assumes "listen_inv init_ntc n sv" and "aborts sv = us @ t # vs"
  shows "listen_inv init_ntc n (on_abort t (sv\<lparr>aborts := us @ vs\<rparr>))"
proof -
  let ?sv = "on_abort t (sv\<lparr>aborts := us @ vs\<rparr>)"
  have e: "total_accepted ?sv = total_accepted sv" "listening ?sv = (listening sv)[t := False]" "aborts ?sv = us @ vs"
    "length (listening ?sv) = length (listening sv)" "holder ?sv = holder sv"
    by (simp_all add: on_abort_def total_accepted_def)
  have "\<not> total_accepted sv < unat init_ntc" using assms by (auto simp: listen_inv_def)
  moreover have "set (us @ vs) \<subseteq> {..<n}" "distinct (us @ vs)"
    "\<forall>u<n. (listening sv)[t := False] ! u \<longleftrightarrow> u \<in> set (us @ vs)" if "total_accepted sv = unat init_ntc"
  proof -
    have i: "distinct (us @ t # vs)" "set (us @ t # vs) \<subseteq> {..<n}" "\<forall>u<n. listening sv ! u \<longleftrightarrow> u \<in> set (us @ t # vs)"
      "length (listening sv) = n" using assms that by (simp_all add: listen_inv_def)
    show "set (us @ vs) \<subseteq> {..<n}" "distinct (us @ vs)" using i(1,2) by auto
    show "\<forall>u<n. (listening sv)[t := False] ! u \<longleftrightarrow> u \<in> set (us @ vs)"
      using i by (auto simp: nth_list_update)
  qed
  ultimately show ?thesis using assms(1) unfolding listen_inv_def e by simp
qed

lemma listen_inv_reachable:
  assumes "listen_step\<^sup>*\<^sup>* (optional_listen init_ntc n) sv" and "init_ntc \<noteq> 0"
  shows "listen_inv init_ntc n sv"
  using assms(1)
proof (induction rule: rtranclp_induct)
  case base
  have "0 < unat init_ntc" using assms(2) by (simp add: unat_gt_0)
  then show ?case
    using assms(2) by (simp add: listen_inv_def optional_listen_def total_accepted_def sum_list_replicate)
next
  case (step sv sv')
  from step(2) show ?case
    by cases (use step(3) in \<open>auto intro: listen_inv_accept listen_inv_abort\<close>)
qed

section \<open>Tables and greetings\<close>

lemma ct_of_snoc: "ct_of (mcs @ [mc]) = ct_add mc (ct_of mcs)"
  by (simp add: ct_of_def)

lemma ct_find_new:
  assumes "fst mc \<notin> fst ` set mcs"
  shows "ct_find pick (fst mc) (ct_of (mcs @ [mc])) = Inr (snd mc)"
proof -
  have "filter (\<lambda>x. fst x = fst mc) (mcs @ [mc]) = [mc]"
    using assms by (auto simp: filter_empty_conv image_iff)
  then show ?thesis by (simp add: ct_find_def ct_of_ok)
qed

lemma clients_start_run:
  assumes "distinct (map fst conns)" and "fst ` set mcs \<inter> fst ` set conns = {}"
  shows "fold_res (on_connected pick this_mid) (map (\<lambda>mc. (fst mc, Some (snd mc))) conns)
      \<lparr>cs_table = ct_of mcs, cs_sent = sent, cs_failed = b\<rparr> =
    Inr \<lparr>cs_table = ct_of (mcs @ conns), cs_sent = sent @ map (\<lambda>mc. (snd mc, int_bytes this_mid)) conns, cs_failed = b\<rparr>"
  using assms
proof (induction conns arbitrary: mcs sent)
  case (Cons mc conns)
  have "ct_find (pick (ct_of (mcs @ [mc]))) (fst mc) (ct_of (mcs @ [mc])) = Inr (snd mc)"
    using Cons.prems(2) by (intro ct_find_new) auto
  then have "on_connected pick this_mid (fst mc, Some (snd mc)) \<lparr>cs_table = ct_of mcs, cs_sent = sent, cs_failed = b\<rparr> =
      Inr \<lparr>cs_table = ct_of (mcs @ [mc]), cs_sent = sent @ [(snd mc, int_bytes this_mid)], cs_failed = b\<rparr>"
    by (simp add: on_connected_def ct_of_snoc)
  moreover have "fst ` set (mcs @ [mc]) \<inter> fst ` set conns = {}" using Cons.prems by auto
  ultimately show ?case using Cons.IH [of "mcs @ [mc]"] Cons.prems(1) by simp
qed simp

lemma bytes_on_one:
  assumes "distinct (map snd conns)" and "mc \<in> set conns"
  shows "bytes_on (snd mc) (map (\<lambda>mc. (snd mc, bs)) conns) = bs"
  using assms
proof (induction conns)
  case (Cons x conns)
  have none: "bytes_on c (map (\<lambda>mc. (snd mc, bs)) conns) = []" if "c \<notin> snd ` set conns" for c
    using that by (auto simp: bytes_on_def filter_empty_conv)
  show ?case
  proof (cases "mc = x")
    case True
    then show ?thesis using none [of "snd x"] Cons.prems(1) by (simp add: bytes_on_def)
  next
    case False
    then have "mc \<in> set conns" using Cons.prems(2) by simp
    moreover from this have "snd x \<noteq> snd mc" using Cons.prems(1) by force
    ultimately show ?thesis using Cons by (simp add: bytes_on_def)
  qed
qed simp

lemma read_machine_ids_greetings:
  assumes "\<And>c. c \<in> set cs \<Longrightarrow> take 4 (received c) = int_bytes (mid c)"
  shows "read_machine_ids received cs = Inr (map (\<lambda>c. (mid c, c)) cs)"
  using assms
proof (induction cs)
  case (Cons c cs)
  have "load_unaligned_int 0 (take 4 (received c)) = Inr (mid c)"
    using Cons.prems [of c] codec32.dec_enc [of "mid c"]
    by (simp add: load_unaligned_int_def mem_load_def int_of_bytes_def)
  then show ?case using Cons by simp
qed simp

section \<open>Shutdown\<close>

definition cm_ok :: "('c, 'd) connection_manager \<Rightarrow> bool" where
  "cm_ok cm \<longleftrightarrow> distinct (managed_mach_ids (cm_table cm)) \<and>
     (\<forall>mid \<in> set (managed_mach_ids (cm_table cm)). unat mid < length (cm_buffers cm) \<and> dq_ex (cm_buffers cm ! unat mid) = None)"

lemma buffer_abort_ok:
  assumes "unat mid < length bufs" and "dq_ex (bufs ! unat mid) = None"
  shows "buffer_abort ex mid (bufs, del) =
    Inr (bufs[unat mid := dq_abort ex ((bufs ! unat mid)\<lparr>dq_q := []\<rparr>)], del @ dq_q (bufs ! unat mid))"
  using assms by (simp add: buffer_abort_def dq_consume_def consume_all)

lemma buffers_abort_ok:
  assumes "distinct mids" and "\<forall>mid \<in> set mids. unat mid < length bufs \<and> dq_ex (bufs ! unat mid) = None"
  shows "\<exists>bufs'. fold_res (buffer_abort ex) mids (bufs, del) =
      Inr (bufs', del @ concat (map (\<lambda>mid. dq_q (bufs ! unat mid)) mids)) \<and> length bufs' = length bufs \<and>
    (\<forall>i < length bufs. bufs' ! i =
       (if i \<in> unat ` set mids then dq_abort ex ((bufs ! i)\<lparr>dq_q := []\<rparr>) else bufs ! i))"
  using assms
proof (induction mids arbitrary: bufs del)
  case (Cons mid mids)
  let ?b = "bufs[unat mid := dq_abort ex ((bufs ! unat mid)\<lparr>dq_q := []\<rparr>)]"
  have m: "unat mid < length bufs" "dq_ex (bufs ! unat mid) = None" using Cons.prems(2) by auto
  have ne: "unat mid \<noteq> unat k" if "k \<in> set mids" for k using that Cons.prems(1) word_unat_eq_iff [of k mid] by auto
  then have "\<forall>k \<in> set mids. unat k < length ?b \<and> dq_ex (?b ! unat k) = None" using Cons.prems(2) by auto
  from Cons.IH [OF _ this, of "del @ dq_q (bufs ! unat mid)"] Cons.prems(1) obtain bufs' where
    b: "fold_res (buffer_abort ex) mids (?b, del @ dq_q (bufs ! unat mid)) =
        Inr (bufs', (del @ dq_q (bufs ! unat mid)) @ concat (map (\<lambda>k. dq_q (?b ! unat k)) mids))"
      "length bufs' = length bufs"
      "\<forall>i < length bufs. bufs' ! i = (if i \<in> unat ` set mids then dq_abort ex ((?b ! i)\<lparr>dq_q := []\<rparr>) else ?b ! i)"
    by auto
  have same: "map (\<lambda>k. dq_q (?b ! unat k)) mids = map (\<lambda>k. dq_q (bufs ! unat k)) mids" using ne by auto
  have "unat mid \<notin> unat ` set mids" using ne by force
  then have "\<forall>i < length bufs. bufs' ! i =
      (if i \<in> unat ` set (mid # mids) then dq_abort ex ((bufs ! i)\<lparr>dq_q := []\<rparr>) else bufs ! i)"
    using b(3) ne by (auto simp: nth_list_update)
  then show ?case using b(1,2) buffer_abort_ok [OF m, of ex del] same by (intro exI [of _ bufs']) simp
qed simp

lemma cm_stop_ok:
  assumes "cm_ok cm"
  shows "\<exists>bufs. cm_stop cm = Inr (cm\<lparr>cm_buffers := bufs, cm_abort := True\<rparr>,
      concat (map (\<lambda>mid. dq_q (cm_buffers cm ! unat mid)) (managed_mach_ids (cm_table cm)))) \<and>
    (\<forall>mid \<in> set (managed_mach_ids (cm_table cm)). bufs ! unat mid =
      dq_abort ''connection is closed'' ((cm_buffers cm ! unat mid)\<lparr>dq_q := []\<rparr>))"
proof -
  from buffers_abort_ok [of "managed_mach_ids (cm_table cm)" "cm_buffers cm" "''connection is closed''" "[]"] assms
  obtain bufs where b: "fold_res (buffer_abort ''connection is closed'') (managed_mach_ids (cm_table cm)) (cm_buffers cm, []) =
      Inr (bufs, concat (map (\<lambda>mid. dq_q (cm_buffers cm ! unat mid)) (managed_mach_ids (cm_table cm))))"
    "\<forall>i < length (cm_buffers cm). bufs ! i = (if i \<in> unat ` set (managed_mach_ids (cm_table cm))
       then dq_abort ''connection is closed'' ((cm_buffers cm ! i)\<lparr>dq_q := []\<rparr>) else cm_buffers cm ! i)"
    unfolding cm_ok_def by auto
  show ?thesis using b assms by (intro exI [of _ bufs]) (auto simp: cm_stop_def cm_ok_def)
qed

text \<open>An entry is in order when its flag says whether there is an object.\<close>

definition entry_ok :: "'a entry \<Rightarrow> bool" where
  "entry_ok e \<longleftrightarrow> (e_empty e \<longleftrightarrow> e_storage e = Raw)"

lemma entry_ok_new: "entry_ok entry_new"
  by (simp add: entry_ok_def entry_new_def)

lemma entry_ok_init: "entry_ok e \<Longrightarrow> entry_ok (entry_init v e)"
  by (simp add: entry_ok_def entry_init_def)

lemma entry_ok_cases:
  assumes "entry_ok e"
  obtains "e = \<lparr>e_storage = Raw, e_empty = True\<rparr>" | v where "e = \<lparr>e_storage = Object v, e_empty = False\<rparr>"
  using assms by (cases e; cases "e_storage e") (auto simp: entry_ok_def)

text \<open>The messages a shard deletes when it stops.\<close>

definition undelivered :: "('c, 'd) connection_manager entry \<Rightarrow> 'd actor_message list" where
  "undelivered e = (case e_storage e of
     Object cm \<Rightarrow> concat (map (\<lambda>mid. dq_q (cm_buffers cm ! unat mid)) (managed_mach_ids (cm_table cm))) | Raw \<Rightarrow> [])"

definition stoppable :: "('c, 'd) connection_manager entry \<Rightarrow> bool" where
  "stoppable e \<longleftrightarrow> entry_ok e \<and> (case e_storage e of Object cm \<Rightarrow> cm_ok cm | Raw \<Rightarrow> True)"

lemma io_stop_shard_ok:
  assumes "stoppable e"
  shows "io_stop_shard e = Inr (entry_new, undelivered e)"
proof -
  have "entry_ok e" using assms by (simp add: stoppable_def)
  then show ?thesis
  proof (cases rule: entry_ok_cases)
    case 1
    then show ?thesis by (simp add: io_stop_shard_def undelivered_def entry_new_def)
  next
    case (2 cm)
    then have "cm_ok cm" using assms by (simp add: stoppable_def)
    from cm_stop_ok [OF this] obtain bufs where "cm_stop cm = Inr (cm\<lparr>cm_buffers := bufs, cm_abort := True\<rparr>, undelivered e)"
      by (auto simp: 2 undelivered_def)
    then show ?thesis by (simp add: io_stop_shard_def 2 entry_get_def entry_finalize_def entry_new_def)
  qed
qed

lemma io_stop_run:
  "list_all stoppable es \<Longrightarrow>
   fold_res (\<lambda>e st. bind_res (io_stop_shard e) (\<lambda>(e', deleted). Inr (fst st @ [e'], snd st @ deleted))) es (xs, ys) =
     Inr (xs @ replicate (length es) entry_new, ys @ concat (map undelivered es))"
  by (induction es arbitrary: xs ys) (simp_all add: io_stop_shard_ok replicate_append_same [symmetric])

section \<open>Properties\<close>



text \<open>When the connections a shard opens go to different machines (and to others than those already in its
  table), whichever connection \<open>find\<close> picks among several: every connection carries exactly one greeting,
  at its beginning, and the server that reads it, whatever follows on the stream, enters the connection
  under the machine id of the client.\<close>

lemma handshake_greetings:
  assumes "distinct (map fst conns)" and "distinct (map snd conns)" and "fst ` set mcs \<inter> fst ` set conns = {}"
  shows "\<exists>cs. clients_start pick this_mid (map (\<lambda>mc. (fst mc, Some (snd mc))) conns) (ct_of mcs) = Inr cs \<and>
    \<not> cs_failed cs \<and> cs_table cs = ct_of (mcs @ conns) \<and>
    (\<forall>mc \<in> set conns. bytes_on (snd mc) (cs_sent cs) = int_bytes this_mid) \<and>
    collect_machine_ids (\<lambda>c. bytes_on c (cs_sent cs) @ later c) (map snd conns) ct_empty =
      Inr (ct_of (map (\<lambda>mc. (this_mid, snd mc)) conns))"
proof -
  let ?sent = "map (\<lambda>mc. (snd mc, int_bytes this_mid)) conns"
  have b: "bytes_on (snd mc) ?sent = int_bytes this_mid" if "mc \<in> set conns" for mc
    by (rule bytes_on_one [OF assms(2) that])
  have "read_machine_ids (\<lambda>c. bytes_on c ?sent @ later c) (map snd conns) = Inr (map (\<lambda>c. (this_mid, c)) (map snd conns))"
  proof (rule read_machine_ids_greetings)
    show "take 4 (bytes_on c ?sent @ later c) = int_bytes this_mid" if "c \<in> set (map snd conns)" for c
      using that b by auto
  qed
  then have "collect_machine_ids (\<lambda>c. bytes_on c ?sent @ later c) (map snd conns) ct_empty =
      Inr (ct_of (map (\<lambda>mc. (this_mid, snd mc)) conns))"
    by (simp add: collect_machine_ids_def ct_of_def o_def)
  then show ?thesis
    using clients_start_run [OF assms(1,3), of pick this_mid "[]" False] b by (simp add: clients_start_def)
qed

text \<open>With two connections to the same machine \<open>find\<close> may return the first one both times. Then that one carries
  the greeting twice, the second copy in place of a message length, and the other carries none.\<close>

theorem greeting_on_wrong_connection:
  assumes "c1 \<noteq> c2"
  shows "\<exists>cs. clients_start (\<lambda>ct. 0) this_mid [(m, Some c1), (m, Some c2)] ct_empty = Inr cs \<and>
    bytes_on c1 (cs_sent cs) = int_bytes this_mid @ int_bytes this_mid \<and> bytes_on c2 (cs_sent cs) = []"
  using assms by (simp add: clients_start_def on_connected_def ct_add_def ct_find_def ct_empty_def bytes_on_def Let_def)



end
