(* ===== verification/Network_Start.thy ===== *)
theory Network_Start
  imports Connection_Setup
begin

text \<open>
  Start of the network of a whole cluster (\<open>network_io::establish_connections\<close> in \<open>net/network_io.cc\<close> and
  \<open>connection_manager::establish_connections\<close> in \<open>net/connection.hh\<close>): every shard opens the connections of its
  server list while its server collects the ids of the accepted ones, then the loops are started and the
  routing table is built. What the sockets do is an argument: for every shard the outcome of its
  connection attempts in the order they finish, the connections its server accepted, and when the
  server's part ran. The theorems compose the connection plan, the handshake and the routing table.
\<close>

section \<open>Establishing the connections\<close>

text \<open>\<open>ev_connects\<close> are finished attempts, as the index in the server list and the connection if there is one;
  \<open>ev_accepted\<close> is absent when listening or reading an id failed; the server enters its connections after
  \<open>ev_server_at\<close> attempts have finished.\<close>

record 'c shard_events =
  ev_pick :: "'c connection_table \<Rightarrow> nat"
  ev_connects :: "(nat \<times> 'c option) list"
  ev_accepted :: "'c list option"
  ev_server_at :: nat

fun connect_targets :: "(socket_address \<times> u32) list \<Rightarrow> (nat \<times> 'c option) list \<Rightarrow> (u32 \<times> 'c option) list res" where
  "connect_targets sv_list [] = Inr []"
| "connect_targets sv_list ((i, c) # xs) =
     (if i < length sv_list
      then bind_res (connect_targets sv_list xs) (\<lambda>ys. Inr ((snd (sv_list ! i), c) # ys))
      else Inl Out_of_bounds)"

text \<open>\<open>discard_result\<close> drops the failures of both sides.\<close>

definition cm_establish ::
    "('c \<Rightarrow> byte list) \<Rightarrow> u32 \<Rightarrow> (socket_address \<times> u32) list \<Rightarrow> 'c shard_events \<Rightarrow>
     ('c, 'd) connection_manager \<Rightarrow> ('c, 'd) connection_manager res" where
  "cm_establish received this_mid sv_list ev cm =
     bind_res (connect_targets sv_list (ev_connects ev)) (\<lambda>results.
     bind_res (clients_start (ev_pick ev) this_mid (take (ev_server_at ev) results) (cm_table cm)) (\<lambda>cs.
     bind_res (case ev_accepted ev of
         None \<Rightarrow> Inr (cs_table cs)
       | Some hold \<Rightarrow> collect_machine_ids received hold (cs_table cs)) (\<lambda>ct.
     bind_res (clients_start (ev_pick ev) this_mid (drop (ev_server_at ev) results) ct) (\<lambda>cs'.
       Inr (cm\<lparr>cm_table := cs_table cs'\<rparr>)))))"

text \<open>A call on every shard.\<close>

fun on_shards :: "(nat \<Rightarrow> 'a res) \<Rightarrow> nat \<Rightarrow> 'a list res" where
  "on_shards f 0 = Inr []"
| "on_shards f (Suc n) = bind_res (on_shards f n) (\<lambda>xs. bind_res (f n) (\<lambda>x. Inr (xs @ [x])))"

definition list_at :: "'a list \<Rightarrow> nat \<Rightarrow> 'a res" where
  "list_at xs i = (if i < length xs then Inr (xs ! i) else Inl Out_of_bounds)"

definition establish_shard ::
    "('c \<Rightarrow> byte list) \<Rightarrow> network_config \<Rightarrow> (nat \<Rightarrow> 'c shard_events) \<Rightarrow> ('c, 'd) connection_manager entry list \<Rightarrow> nat \<Rightarrow>
     ('c, 'd) connection_manager entry res" where
  "establish_shard received nc evs es t =
     bind_res (list_at es t) (\<lambda>e.
     bind_res (list_at (server_lists nc) t) (\<lambda>sv_list.
       entry_upd (cm_establish received (machine_id nc) sv_list (evs t)) e))"

definition run_shard :: "(nat \<Rightarrow> u32 \<Rightarrow> nat) \<Rightarrow> ('c, 'd) connection_manager entry list \<Rightarrow> nat \<Rightarrow> (u32 list \<times> (u32 \<times> 'c) list \<times> 'c list) res" where
  "run_shard pick es t = bind_res (list_at es t) (\<lambda>e. bind_res (entry_get e) (run_loops (pick t)))"

definition io_establish_connections ::
    "('c \<Rightarrow> byte list) \<Rightarrow> (nat \<Rightarrow> u32 \<Rightarrow> nat) \<Rightarrow> u32 \<Rightarrow> network_config \<Rightarrow> machine_info \<Rightarrow> (nat \<Rightarrow> 'c shard_events) \<Rightarrow>
     ('c, 'd) connection_manager entry list \<Rightarrow>
     (routing_table \<times> ('c, 'd) connection_manager entry list \<times> (u32 \<times> 'c) list list) res" where
  "io_establish_connections received pick local_shard_count nc mi evs es =
     bind_res (on_shards (establish_shard received nc evs es) (unat local_shard_count)) (\<lambda>es1.
     bind_res (on_shards (run_shard pick es1) (unat local_shard_count)) (\<lambda>loops.
     bind_res (rt_build nc mi local_shard_count (map fst loops)) (\<lambda>rt.
       Inr (rt, es1, map (\<lambda>l. fst (snd l)) loops))))"

section \<open>What a shard ends up with\<close>

lemma on_shards_ok: "(\<And>t. t < n \<Longrightarrow> f t = Inr (g t)) \<Longrightarrow> on_shards f n = Inr (map g [0..<n])"
  by (induction n) simp_all

definition established :: "(u32 \<times> 'c option) list \<Rightarrow> (u32 \<times> 'c) list" where
  "established rs = concat (map (\<lambda>r. case snd r of None \<Rightarrow> [] | Some c \<Rightarrow> [(fst r, c)]) rs)"

lemma established_simps [simp]:
  "established [] = []" "established ((m, None) # rs) = established rs"
  "established ((m, Some c) # rs) = (m, c) # established rs"
  by (simp_all add: established_def)

lemma established_mem: "(m, c) \<in> set (established rs) \<longleftrightarrow> (m, Some c) \<in> set rs"
  by (induction rs) (auto simp: established_def split: option.splits)

lemma on_connected_run:
  "\<exists>cs'. fold_res (on_connected pick mid) rs cs = Inr cs' \<and> cs_table cs' = ct_of (mcs @ established rs)"
  if "cs_table cs = ct_of mcs"
  using that
proof (induction rs arbitrary: cs mcs)
  case (Cons r rs)
  obtain m x where r: "r = (m, x)" by (cases r)
  show ?case
  proof (cases x)
    case None
    with Cons.IH [of "cs\<lparr>cs_failed := True\<rparr>" mcs] Cons.prems show ?thesis by (simp add: r on_connected_def)
  next
    case (Some c)
    have t: "ct_add (m, c) (cs_table cs) = ct_of (mcs @ [(m, c)])" using Cons.prems by (simp add: ct_of_snoc)
    obtain out where out: "ct_find (pick (ct_of (mcs @ [(m, c)]))) m (ct_of (mcs @ [(m, c)])) = Inr out"
      using ct_find_ok [of m "mcs @ [(m, c)]"] by auto
    let ?cs = "cs\<lparr>cs_table := ct_of (mcs @ [(m, c)]), cs_sent := cs_sent cs @ [(out, int_bytes mid)]\<rparr>"
    have "on_connected pick mid r cs = Inr ?cs" using t out by (simp add: r Some on_connected_def)
    with Cons.IH [of ?cs "mcs @ [(m, c)]"] show ?thesis by (simp add: r Some)
  qed
qed simp

lemma clients_start_any:
  "\<exists>cs. clients_start pick mid rs (ct_of mcs) = Inr cs \<and> cs_table cs = ct_of (mcs @ established rs)"
  unfolding clients_start_def by (rule on_connected_run) simp

lemma connect_targets_ok:
  "\<forall>x \<in> set xs. fst x < length sl \<Longrightarrow> connect_targets sl xs = Inr (map (\<lambda>x. (snd (sl ! fst x), snd x)) xs)"
  by (induction xs) auto

lemma collect_ok:
  assumes "\<And>c. c \<in> set hold \<Longrightarrow> take 4 (received c) = int_bytes (mid c)"
  shows "collect_machine_ids received hold (ct_of mcs) = Inr (ct_of (mcs @ map (\<lambda>c. (mid c, c)) hold))"
  using read_machine_ids_greetings [of hold received mid] assms by (simp add: collect_machine_ids_def ct_of_def)

text \<open>The connections of a shard in the order they were entered.\<close>

definition accepted_by :: "'c shard_events \<Rightarrow> 'c list" where
  "accepted_by ev = (case ev_accepted ev of None \<Rightarrow> [] | Some hold \<Rightarrow> hold)"

definition shard_conns :: "('c \<Rightarrow> u32) \<Rightarrow> (socket_address \<times> u32) list \<Rightarrow> 'c shard_events \<Rightarrow> (u32 \<times> 'c) list" where
  "shard_conns mid sl ev =
     (let rs = map (\<lambda>x. (snd (sl ! fst x), snd x)) (ev_connects ev)
      in established (take (ev_server_at ev) rs) @ map (\<lambda>c. (mid c, c)) (accepted_by ev) @
         established (drop (ev_server_at ev) rs))"

lemma established_append: "established (xs @ ys) = established xs @ established ys"
  by (simp add: established_def)

lemma shard_conns_set:
  "set (shard_conns mid sl ev) =
     set (established (map (\<lambda>x. (snd (sl ! fst x), snd x)) (ev_connects ev))) \<union> (\<lambda>c. (mid c, c)) ` set (accepted_by ev)"
proof -
  let ?rs = "map (\<lambda>x. (snd (sl ! fst x), snd x)) (ev_connects ev)" and ?k = "ev_server_at ev"
  have "set (established ?rs) = set (established (take ?k ?rs)) \<union> set (established (drop ?k ?rs))"
    unfolding set_append [symmetric] established_append [symmetric] append_take_drop_id ..
  then show ?thesis unfolding shard_conns_def Let_def set_append set_map by blast
qed

lemma shard_conns_mem:
  "(m, c) \<in> set (shard_conns mid sl ev) \<longleftrightarrow>
     (\<exists>a. (a, Some c) \<in> set (ev_connects ev) \<and> m = snd (sl ! a)) \<or> (c \<in> set (accepted_by ev) \<and> m = mid c)"
  unfolding shard_conns_set Un_iff established_mem set_map image_iff by force

lemma cm_establish_ok:
  assumes ids: "\<forall>x \<in> set (ev_connects ev). fst x < length sl"
    and greet: "\<And>c. c \<in> set (accepted_by ev) \<Longrightarrow> take 4 (received c) = int_bytes (mid c)"
    and "cm_table cm = ct_empty"
  shows "cm_establish received this_mid sl ev cm = Inr (cm\<lparr>cm_table := ct_of (shard_conns mid sl ev)\<rparr>)"
proof -
  let ?rs = "map (\<lambda>x. (snd (sl ! fst x), snd x)) (ev_connects ev)"
  let ?a = "established (take (ev_server_at ev) ?rs)" and ?b = "established (drop (ev_server_at ev) ?rs)"
  let ?h = "map (\<lambda>c. (mid c, c)) (accepted_by ev)"
  have e: "cm_table cm = ct_of []" using assms(3) by (simp add: ct_of_def)
  obtain cs1 where 1: "clients_start (ev_pick ev) this_mid (take (ev_server_at ev) ?rs) (cm_table cm) = Inr cs1"
    "cs_table cs1 = ct_of ?a" unfolding e using clients_start_any [of _ _ _ "[]"] by fastforce
  have 2: "(case ev_accepted ev of None \<Rightarrow> Inr (cs_table cs1) | Some hold \<Rightarrow> collect_machine_ids received hold (cs_table cs1)) =
      Inr (ct_of (?a @ ?h))"
    using collect_ok [of "accepted_by ev" received mid ?a] greet 1(2)
    by (auto simp: accepted_by_def split: option.splits)
  obtain cs2 where 3: "clients_start (ev_pick ev) this_mid (drop (ev_server_at ev) ?rs) (ct_of (?a @ ?h)) = Inr cs2"
    "cs_table cs2 = ct_of ((?a @ ?h) @ ?b)" using clients_start_any by blast
  show ?thesis
    unfolding cm_establish_def connect_targets_ok [OF ids] bind_res_simps 1(1) 2 3(1) 3(2)
    by (simp only: shard_conns_def Let_def append_assoc)
qed

lemma run_loops_ok:
  assumes "cm_table cm = ct_of mcs"
  shows "\<exists>senders. run_loops pick cm = Inr (managed_mach_ids (ct_of mcs), senders, map snd mcs) \<and>
    map fst senders = managed_mach_ids (ct_of mcs) \<and> set senders \<subseteq> set mcs"
proof -
  let ?f = "\<lambda>mid acc. bind_res (ct_find (pick mid) mid (ct_of mcs)) (\<lambda>c. Inr (acc @ [(mid, c)]))"
  have "\<exists>s. fold_res ?f ms acc = Inr (acc @ s) \<and> map fst s = ms \<and> set s \<subseteq> set mcs" if "set ms \<subseteq> fst ` set mcs" for ms acc
    using that
  proof (induction ms arbitrary: acc)
    case (Cons m ms)
    then obtain c where c: "ct_find (pick m) m (ct_of mcs) = Inr c" "(m, c) \<in> set mcs" using ct_find_ok [of m mcs "pick m"] by auto
    from Cons.IH [of "acc @ [(m, c)]"] Cons.prems obtain s where
      "fold_res ?f ms (acc @ [(m, c)]) = Inr ((acc @ [(m, c)]) @ s)" "map fst s = ms" "set s \<subseteq> set mcs" by auto
    with c show ?case by (intro exI [of _ "(m, c) # s"]) simp
  qed simp
  from this [of "managed_mach_ids (ct_of mcs)" "[]"] show ?thesis
    using assms by (auto simp: run_loops_def ct_of_ok)
qed

section \<open>What the plan says\<close>

lemma fold_res_inv:
  assumes "\<And>x s s'. x \<in> set xs \<Longrightarrow> P s \<Longrightarrow> f x s = Inr s' \<Longrightarrow> P s'"
  shows "fold_res f xs s = Inr s' \<Longrightarrow> P s \<Longrightarrow> P s'"
  using assms
proof (induction xs arbitrary: s)
  case (Cons x xs)
  then obtain s1 where "f x s = Inr s1" "fold_res f xs s1 = Inr s'" by (auto simp: bind_res_Inr_iff)
  moreover from this(1) have "P s1" using Cons.prems(2) Cons.prems(3) [of x s s1] by simp
  moreover have "P v" if "y \<in> set xs" "P u" "f y u = Inr v" for y u v using that Cons.prems(3) [of y u v] by simp
  ultimately show ?case using Cons.IH [of s1] by blast
qed simp

text \<open>The configuration that the loop leaves as it was, and the machines that are connected to.\<close>

definition planned :: "u32 \<Rightarrow> worker_node_info list \<Rightarrow> plan \<Rightarrow> bool" where
  "planned mid nodes p \<longleftrightarrow> node_list (pl_nc p) = nodes \<and> machine_id (pl_nc p) = mid \<and>
     num_machines (pl_nc p) = word_of_nat (length nodes) \<and>
     (\<forall>sl \<in> set (server_lists (pl_nc p)). \<forall>x \<in> set sl. snd x < mid)"

lemma connect_once_planned:
  assumes "planned mid nodes p" and "connect_once cores dst p = Inr p'" and "snd dst < mid"
  shows "planned mid nodes p'"
proof -
  let ?d = "unat (dst_shard p)" and ?sl = "server_lists (pl_nc p)"
  have d: "?d < length ?sl" and p': "pl_nc p' = (pl_nc p)\<lparr>server_lists := ?sl[?d := ?sl ! ?d @ [dst]]\<rparr>"
    using assms(2) by (auto simp: connect_once_def Let_def bind_res_Inr_iff split: if_splits)
  have "\<forall>x \<in> set (?sl ! ?d @ [dst]). snd x < mid" using assms(1,3) nth_mem [OF d] by (auto simp: planned_def)
  then have "\<forall>sl \<in> set (?sl[?d := ?sl ! ?d @ [dst]]). \<forall>x \<in> set sl. snd x < mid"
    using assms(1) set_update_subset_insert [of ?sl ?d "?sl ! ?d @ [dst]"] unfolding planned_def by blast
  then show ?thesis using assms(1) unfolding planned_def p' by simp
qed

lemma plan_step_planned:
  assumes "planned mid nodes p" and "plan_step mid p2p cores conf p = Inr p'"
  shows "planned mid nodes p'"
proof -
  consider "mid = wn_machine_id conf" | "mid < wn_machine_id conf" | "wn_machine_id conf < mid" by fastforce
  then show ?thesis
  proof cases
    case 1
    then have "pl_nc p' = pl_nc p" using assms(2) by (auto simp: plan_step_def)
    then show ?thesis using assms(1) by (simp add: planned_def)
  next
    case 2
    then have "mid \<noteq> wn_machine_id conf" by auto
    then have "node_list (pl_nc p') = node_list (pl_nc p) \<and> machine_id (pl_nc p') = machine_id (pl_nc p) \<and>
        num_machines (pl_nc p') = num_machines (pl_nc p) \<and> server_lists (pl_nc p') = server_lists (pl_nc p)"
      using assms(2) 2 by (auto simp: plan_step_def Let_def bind_res_Inr_iff)
    then show ?thesis using assms(1) by (auto simp: planned_def)
  next
    case 3
    let ?p = "p\<lparr>pl_sid_anchor := pl_sid_anchor p + nr_cores conf\<rparr>"
    have ne: "mid \<noteq> wn_machine_id conf" "\<not> mid < wn_machine_id conf" using 3 less_asym by (blast, blast)
    obtain p1 where p1: "fold_res (\<lambda>i. connect_once cores (wn_addr conf, wn_machine_id conf)) [0..<unat p2p] ?p = Inr p1"
      "pl_nc p' = pl_nc p1"
      using assms(2) ne by (auto simp: plan_step_def bind_res_Inr_iff)
    have "planned mid nodes p1"
    proof (rule fold_res_inv [OF _ p1(1)])
      show "planned mid nodes ?p" using assms(1) by (simp add: planned_def)
      show "planned mid nodes s'" if "planned mid nodes s" "connect_once cores (wn_addr conf, wn_machine_id conf) s = Inr s'" for s s'
        using connect_once_planned [OF that] 3 by simp
    qed
    then show ?thesis by (simp add: planned_def p1(2))
  qed
qed

lemma set_network_config_planned:
  assumes "set_network_config lsc mid p2p (fresh_config nodes) = Inr (nc, num, anchor)"
  shows "node_list nc = nodes \<and> machine_id nc = mid \<and> num_machines nc = word_of_nat (length nodes) \<and>
    (\<forall>sl \<in> set (server_lists nc). \<forall>x \<in> set sl. snd x < mid)"
proof -
  obtain p0 p where r: "fold_res (plan_step mid p2p lsc) nodes p0 = Inr p" "nc = pl_nc p" "planned mid nodes p0"
    using assms by (auto simp: set_network_config_def fresh_config_def default_network_config_def Let_def bind_res_Inr_iff
        planned_def split: if_splits)
  have "planned mid nodes p" using r(1,3) by (rule fold_res_inv [rotated]) (rule plan_step_planned)
  then show ?thesis by (simp add: planned_def r(2))
qed

lemma start_network_plan:
  assumes "read_nodes ipv4 (first_line_dropped (read_file f)) [] = Inr nodes"
    and "start_network read_file ipv4 lsc (cluster_opts f p2p t i) = Inr (nc, mi, b)"
  shows "\<exists>nc0 num anchor. set_network_config lsc (word_of_nat i) p2p (fresh_config nodes) = Inr (nc0, num, anchor) \<and>
    nc = nc0\<lparr>timeout_seconds := min t timeout_limit\<rparr>"
  using assms by (auto simp: start_network_def cluster_opts_def load_worker_node_list_Inr bind_res_Inr_iff
      fresh_config_def checked_timeout_def split: if_splits)

text \<open>Everything \<open>start_network\<close> gives to machine \<open>i\<close>.\<close>

lemma start_network_config:
  assumes f: "read_nodes ipv4 (first_line_dropped (read_file f)) [] = Inr nodes" and c: "cluster_ok nodes"
    and "t \<noteq> 0" and i: "i < length nodes"
    and s: "start_network read_file ipv4 (nr_cores (nodes ! i)) (cluster_opts f p2p t i) = Inr (nc, mi, b)"
  shows "node_list nc = nodes" "machine_id nc = word_of_nat i" "num_machines nc = word_of_nat (length nodes)"
    "num_shards mi = word_of_nat (cores_of nodes)" "length (server_lists nc) = unat (nr_cores (nodes ! i))"
    "\<forall>sl \<in> set (server_lists nc). \<forall>x \<in> set sl. unat (snd x) < i"
    "m < length nodes \<Longrightarrow> conns_to (word_of_nat m) (server_lists nc) = (if m < i then unat p2p else 0)"
proof -
  let ?n = "nr_cores (nodes ! i)"
  have len: "length nodes < 2 ^ 32" using cluster_ids [OF c] by (simp add: ids_in_order_def)
  then have ui: "unat (word_of_nat i :: u32) = i" using i by (intro unat_of_nat_small) simp
  from start_network_ok [where read_file = read_file and f = f and p2p = p2p, OF f c \<open>t \<noteq> 0\<close> i] s show
    "num_shards mi = word_of_nat (cores_of nodes)"
    "m < length nodes \<Longrightarrow> conns_to (word_of_nat m) (server_lists nc) = (if m < i then unat p2p else 0)"
    by (auto simp: make_machine_info_def)
  obtain nc0 num anchor where nc0: "set_network_config ?n (word_of_nat i) p2p (fresh_config nodes) = Inr (nc0, num, anchor)"
    "nc = nc0\<lparr>timeout_seconds := min t timeout_limit\<rparr>"
    using start_network_plan [where read_file = read_file and f = f, OF f s] by blast
  note p = set_network_config_planned [OF nc0(1)]
  show "node_list nc = nodes" "machine_id nc = word_of_nat i" "num_machines nc = word_of_nat (length nodes)"
    using p by (simp_all add: nc0(2))
  show "\<forall>sl \<in> set (server_lists nc). \<forall>x \<in> set sl. unat (snd x) < i"
    using p ui by (simp add: nc0(2) word_less_nat_alt)
  have "unat (word_of_nat i :: u32) < length nodes" using ui i by simp
  from set_network_config_ok [OF cluster_ids [OF c] this cluster_cores [OF c i], of p2p] nc0 show
    "length (server_lists nc) = unat ?n" by auto
qed

section \<open>At most one connection per shard and machine\<close>

definition targets_at :: "plan \<Rightarrow> nat \<Rightarrow> u32 list" where
  "targets_at p s = map snd (server_lists (pl_nc p) ! s)"

lemma connect_once_targets:
  assumes "plan_ok cores p" and "connect_once cores dst p = Inr p'" and "s < unat cores"
  shows "targets_at p' s = targets_at p s @ (if s = unat (dst_shard p) then [snd dst] else [])"
    "unat (dst_shard p') = Suc (unat (dst_shard p)) mod unat cores"
proof -
  have c: "0 < cores" "unat (dst_shard p) < unat cores" and l: "length (server_lists (pl_nc p)) = unat cores"
    using assms(1) by (auto simp: plan_ok_def word_less_nat_alt)
  have "unat (dst_shard p) < 4294967295" using c(2) unat_u32_less [of cores] by linarith
  then have u: "unat (dst_shard p + 1) = Suc (unat (dst_shard p))" using unat_Suc_word [of "dst_shard p"] by simp
  have p': "server_lists (pl_nc p') = (server_lists (pl_nc p))[unat (dst_shard p) := server_lists (pl_nc p) ! unat (dst_shard p) @ [dst]]"
    "dst_shard p' = (dst_shard p + 1) mod cores"
    using assms(2) c umod_lt [OF c(1), of "dst_shard p + 1"] l by (auto simp: connect_once_def Let_def)
  show "targets_at p' s = targets_at p s @ (if s = unat (dst_shard p) then [snd dst] else [])"
    using assms(3) l by (simp add: targets_at_def p'(1))
  show "unat (dst_shard p') = Suc (unat (dst_shard p)) mod unat cores" by (simp add: p'(2) unat_mod_distrib u)
qed

lemma mod_shift_less:
  assumes "q < r" and "r < (n :: nat)"
  shows "(d + q) mod n \<noteq> (d + r) mod n"
proof
  assume "(d + q) mod n = (d + r) mod n"
  then have "n dvd (d + r) - (d + q)" using assms(1) mod_eq_dvd_iff_nat [of "d + q" "d + r" n] by simp
  then show False using assms nat_dvd_not_less [of "r - q" n] by simp
qed

lemma connect_all_targets:
  assumes "plan_ok cores p" and "k \<le> unat cores"
    and "fold_res (\<lambda>i. connect_once cores dst) [0..<k] p = Inr p'" and "s < unat cores"
  shows "unat (dst_shard p') = (unat (dst_shard p) + k) mod unat cores \<and>
    targets_at p' s = targets_at p s @ (if \<exists>q<k. s = (unat (dst_shard p) + q) mod unat cores then [snd dst] else [])"
  using assms
proof (induction k arbitrary: p')
  case 0
  then show ?case by (simp add: plan_ok_def word_less_nat_alt)
next
  case (Suc k)
  let ?d = "unat (dst_shard p)" and ?n = "unat cores"
  obtain p1 where p1: "fold_res (\<lambda>i. connect_once cores dst) [0..<k] p = Inr p1" "connect_once cores dst p1 = Inr p'"
    using Suc.prems(3) by (auto simp: fold_res_append bind_res_Inr_iff)
  have ok: "plan_ok cores p1" using connect_all_ok [OF Suc.prems(1), of dst k] p1(1) by auto
  from Suc.IH [OF Suc.prems(1) _ p1(1) Suc.prems(4)] Suc.prems(2) have
    ih: "unat (dst_shard p1) = (?d + k) mod ?n"
      "targets_at p1 s = targets_at p s @ (if \<exists>q<k. s = (?d + q) mod ?n then [snd dst] else [])" by simp_all
  note once = connect_once_targets [OF ok p1(2) Suc.prems(4)]
  have d: "unat (dst_shard p') = (?d + Suc k) mod ?n" unfolding once(2) ih(1) by (simp add: mod_Suc_eq)
  have new: "(\<exists>q<Suc k. s = (?d + q) mod ?n) \<longleftrightarrow> s = (?d + k) mod ?n \<or> (\<exists>q<k. s = (?d + q) mod ?n)"
    using less_Suc_eq by auto
  have not: "\<not> (\<exists>q<k. (?d + k) mod ?n = (?d + q) mod ?n)"
    using mod_shift_less [of _ k ?n ?d] Suc.prems(2) by fastforce
  show ?case
  proof (cases "s = (?d + k) mod ?n")
    case True
    then show ?thesis using d not unfolding once(1) ih by auto
  next
    case False
    then show ?thesis using d new unfolding once(1) ih by auto
  qed
qed

text \<open>No shard has two connections to the same machine, and only to machines handled so far.\<close>

definition targets_ok :: "u32 \<Rightarrow> u32 set \<Rightarrow> plan \<Rightarrow> bool" where
  "targets_ok cores ms p \<longleftrightarrow> plan_ok cores p \<and> (\<forall>s<unat cores. distinct (targets_at p s) \<and> set (targets_at p s) \<subseteq> ms)"

lemma plan_step_targets:
  assumes "targets_ok cores ms p" and "plan_step mid p2p cores conf p = Inr p'" and "p2p \<le> cores" and "wn_machine_id conf \<notin> ms"
  shows "targets_ok cores (insert (wn_machine_id conf) ms) p'"
proof -
  have ok: "plan_ok cores p" using assms(1) by (simp add: targets_ok_def)
  have ok': "plan_ok cores p'" using plan_step_ok [OF ok, of mid p2p conf] assms(2) by auto
  consider "mid = wn_machine_id conf" | "mid \<noteq> wn_machine_id conf" "mid < wn_machine_id conf" |
    "mid \<noteq> wn_machine_id conf" "\<not> mid < wn_machine_id conf" by blast
  then show ?thesis
  proof cases
    case 1
    then have "server_lists (pl_nc p') = server_lists (pl_nc p)" using assms(2) by (auto simp: plan_step_def)
    then show ?thesis using assms(1) ok' by (auto simp: targets_ok_def targets_at_def)
  next
    case 2
    then have "server_lists (pl_nc p') = server_lists (pl_nc p)"
      using assms(2) by (auto simp: plan_step_def Let_def bind_res_Inr_iff)
    then show ?thesis using assms(1) ok' by (auto simp: targets_ok_def targets_at_def)
  next
    case 3
    let ?p = "p\<lparr>pl_sid_anchor := pl_sid_anchor p + nr_cores conf\<rparr>"
    obtain p1 where p1: "fold_res (\<lambda>i. connect_once cores (wn_addr conf, wn_machine_id conf)) [0..<unat p2p] ?p = Inr p1"
      "pl_nc p' = pl_nc p1"
      using assms(2) 3 by (auto simp: plan_step_def bind_res_Inr_iff)
    have at: "targets_at p' s = targets_at p1 s" "targets_at ?p s = targets_at p s" for s by (simp_all add: targets_at_def p1(2))
    have "plan_ok cores ?p" "unat p2p \<le> unat cores" using ok assms(3) by (simp_all add: plan_ok_def word_le_nat_alt)
    from connect_all_targets [OF this p1(1)] have
      "targets_at p' s = targets_at p s \<or> targets_at p' s = targets_at p s @ [wn_machine_id conf]" if "s < unat cores" for s
      unfolding at using that by auto
    then show ?thesis using assms(1,4) ok' unfolding targets_ok_def by fastforce
  qed
qed

lemma plan_steps_targets:
  assumes "targets_ok cores ms p" and "fold_res (plan_step mid p2p cores) nodes p = Inr p'" and "p2p \<le> cores"
    and "distinct (map wn_machine_id nodes)" and "wn_machine_id ` set nodes \<inter> ms = {}"
  shows "\<exists>ms'. targets_ok cores ms' p'"
  using assms
proof (induction nodes arbitrary: p ms)
  case (Cons conf nodes)
  obtain p1 where p1: "plan_step mid p2p cores conf p = Inr p1" "fold_res (plan_step mid p2p cores) nodes p1 = Inr p'"
    using Cons.prems(2) by (auto simp: bind_res_Inr_iff)
  have "targets_ok cores (insert (wn_machine_id conf) ms) p1"
    using plan_step_targets [OF Cons.prems(1) p1(1) assms(3)] Cons.prems(5) by auto
  from Cons.IH [OF this p1(2) assms(3)] Cons.prems(4,5) show ?case by auto
qed auto

lemma cluster_ids_distinct: "cluster_ok nodes \<Longrightarrow> distinct (map wn_machine_id nodes)"
  using ids_at [OF cluster_ids, of nodes] by (auto simp: distinct_conv_nth) metis

lemma planned_targets_distinct:
  assumes "cluster_ok nodes" and "i < length nodes" and "p2p \<le> nr_cores (nodes ! i)"
    and "set_network_config (nr_cores (nodes ! i)) mid p2p (fresh_config nodes) = Inr (nc, num, anchor)"
    and "s < unat (nr_cores (nodes ! i))"
  shows "distinct (map snd (server_lists nc ! s))"
proof -
  let ?n = "nr_cores (nodes ! i)"
  let ?nc = "(fresh_config nodes)\<lparr>machine_id := mid, wait_conn_count := 0, p2p_conn_count := p2p,
     listen_port := snd (wn_addr (nodes ! unat mid)), num_machines := word_of_nat (length nodes),
     server_lists := replicate (unat ?n) []\<rparr>"
  let ?p = "\<lparr>pl_nc = ?nc, pl_num_global_shards = 0, pl_sid_anchor = 0, dst_shard = 0\<rparr>"
  obtain p where p: "fold_res (plan_step mid p2p ?n) nodes ?p = Inr p" "nc = pl_nc p"
    using assms(4) by (auto simp: set_network_config_def fresh_config_def default_network_config_def Let_def bind_res_Inr_iff
        split: if_splits)
  have "targets_ok ?n {} ?p"
    using cluster_cores [OF assms(1,2)] by (simp add: targets_ok_def plan_ok_def targets_at_def)
  from plan_steps_targets [OF this p(1) assms(3) cluster_ids_distinct [OF assms(1)]] obtain ms where "targets_ok ?n ms p" by auto
  then show ?thesis using assms(5) p(2) by (simp add: targets_ok_def targets_at_def)
qed

section \<open>All shards together\<close>

text \<open>Every connection attempt of a shard succeeded, and so did its server.\<close>

definition all_connected :: "(socket_address \<times> u32) list \<Rightarrow> 'c shard_events \<Rightarrow> bool" where
  "all_connected sl ev \<longleftrightarrow> fst ` set (ev_connects ev) = {..<length sl} \<and> list_all (\<lambda>x. snd x \<noteq> None) (ev_connects ev)"

text \<open>How many connections the shards accepted from a machine.\<close>

definition accepted_from :: "('c \<Rightarrow> nat) \<Rightarrow> nat \<Rightarrow> 'c shard_events list \<Rightarrow> nat" where
  "accepted_from peer j evs = sum_list (map (\<lambda>ev. length (filter (\<lambda>c. peer c = j) (accepted_by ev))) evs)"

lemma sum_list_nonzero: "sum_list (map f xs) \<noteq> (0 :: nat) \<Longrightarrow> \<exists>x \<in> set xs. f x \<noteq> 0"
  by (induction xs) auto

lemma conns_to_nonzero:
  assumes "conns_to m sl \<noteq> 0"
  shows "\<exists>t<length sl. m \<in> snd ` set (sl ! t)"
proof -
  obtain l where l: "l \<in> set sl" "filter (\<lambda>x. snd x = m) l \<noteq> []"
    using sum_list_nonzero [of "\<lambda>l. length (filter (\<lambda>x. snd x = m) l)" sl] assms by (auto simp: conns_to_def)
  then have "m \<in> snd ` set l" by (auto simp: filter_empty_conv)
  then show ?thesis using l(1) by (auto simp: in_set_conv_nth)
qed

lemma accepted_nonzero:
  assumes "accepted_from peer j (map evs [0..<n]) \<noteq> 0"
  shows "\<exists>t<n. \<exists>c \<in> set (accepted_by (evs t)). peer c = j"
proof -
  obtain ev where "ev \<in> set (map evs [0..<n])" "filter (\<lambda>c. peer c = j) (accepted_by ev) \<noteq> []"
    using sum_list_nonzero [of "\<lambda>ev. length (filter (\<lambda>c. peer c = j) (accepted_by ev))"] assms
    by (auto simp: accepted_from_def)
  then show ?thesis by (auto simp: filter_empty_conv)
qed

lemma connected_targets:
  assumes "all_connected sl ev" and "m \<in> snd ` set sl"
  shows "m \<in> fst ` set (shard_conns mid sl ev)"
proof -
  obtain a where a: "a < length sl" "m = snd (sl ! a)" using assms(2) by (auto simp: in_set_conv_nth)
  have "a \<in> fst ` set (ev_connects ev)" using assms(1) a(1) unfolding all_connected_def by simp
  then obtain x where x: "(a, x) \<in> set (ev_connects ev)" by auto
  then obtain c where "x = Some c" using assms(1) by (cases x) (auto simp: all_connected_def list_all_iff)
  with x a(2) have "(m, c) \<in> set (shard_conns mid sl ev)" unfolding shard_conns_mem by blast
  then show ?thesis by (rule rev_image_eqI) simp
qed

text \<open>The managers and the loops when the connections of shard \<open>t\<close> are \<open>conns t\<close>.\<close>

definition managers :: "u32 \<Rightarrow> (nat \<Rightarrow> (u32 \<times> 'c) list) \<Rightarrow> nat \<Rightarrow> ('c, 'd) connection_manager entry list" where
  "managers num_machs conns n =
     map (\<lambda>t. \<lparr>e_storage = Object ((cm_new num_machs)\<lparr>cm_table := ct_of (conns t)\<rparr>), e_empty = False\<rparr>) [0..<n]"

lemma establish_shard_ok:
  assumes "t < n" and "t < length (server_lists nc)"
    and "\<forall>x \<in> set (ev_connects (evs t)). fst x < length (server_lists nc ! t)"
    and "\<And>c. c \<in> set (accepted_by (evs t)) \<Longrightarrow> take 4 (received c) = int_bytes (mid c)"
  shows "establish_shard received nc evs (io_start_server n k :: ('c, 'd) connection_manager entry list) t =
    Inr \<lparr>e_storage = Object ((cm_new k)\<lparr>cm_table := ct_of (shard_conns mid (server_lists nc ! t) (evs t))\<rparr>), e_empty = False\<rparr>"
proof -
  have "list_at (io_start_server n k :: ('c, 'd) connection_manager entry list) t = Inr \<lparr>e_storage = Object (cm_new k), e_empty = False\<rparr>"
    using assms(1) by (simp add: list_at_def io_start_server_def construct_entries_def entry_init_def entry_new_def)
  moreover have "cm_table (cm_new k :: ('c, 'd) connection_manager) = ct_empty" by (simp add: cm_new_def)
  note cm_establish_ok [of "evs t" _ received mid, OF assms(3,4) this]
  moreover have "list_at (server_lists nc) t = Inr (server_lists nc ! t)" using assms(2) by (simp add: list_at_def)
  ultimately show ?thesis by (simp add: establish_shard_def entry_upd_def entry_get_def)
qed

lemma run_shard_ok:
  assumes "t < n"
  shows "\<exists>senders. run_shard pick (managers k conns n :: ('c, 'd) connection_manager entry list) t = Inr (managed_mach_ids (ct_of (conns t)), senders, map snd (conns t)) \<and>
    map fst senders = managed_mach_ids (ct_of (conns t)) \<and> set senders \<subseteq> set (conns t)"
proof -
  let ?cm = "(cm_new k :: ('c, 'd) connection_manager)\<lparr>cm_table := ct_of (conns t)\<rparr>"
  have "run_shard pick (managers k conns n :: ('c, 'd) connection_manager entry list) t = run_loops (pick t) ?cm"
    using assms by (simp add: run_shard_def managers_def list_at_def entry_get_def)
  then show ?thesis using run_loops_ok [of ?cm "conns t" "pick t"] by simp
qed

lemma managers_stoppable:
  assumes "\<And>t mc. t < n \<Longrightarrow> mc \<in> set (conns t) \<Longrightarrow> unat (fst mc) < unat k"
  shows "list_all stoppable (managers k conns n)"
  using assms by (auto simp: list_all_iff managers_def stoppable_def entry_ok_def cm_ok_def ct_of_ok cm_new_def
      buffers_build_def dq_new_def)

lemma io_establish_run:
  fixes received :: "'c \<Rightarrow> byte list"
  defines "conns \<equiv> \<lambda>evs mid nc t. shard_conns mid (server_lists nc ! t) (evs t :: 'c shard_events)"
  assumes n: "length (server_lists nc) = unat lsc"
    and ids: "\<And>t x. t < unat lsc \<Longrightarrow> x \<in> set (ev_connects (evs t)) \<Longrightarrow> fst x < length (server_lists nc ! t)"
    and greet: "\<And>t c. t < unat lsc \<Longrightarrow> c \<in> set (accepted_by (evs t)) \<Longrightarrow> take 4 (received c) = int_bytes (mid c)"
    and rt: "rt_build nc mi lsc (mids_of (map (conns evs mid nc) [0..<unat lsc])) = Inr rt"
  shows "\<exists>senders. io_establish_connections received pick lsc nc mi evs
      (io_start_server (unat lsc) k :: ('c, 'd) connection_manager entry list) =
        Inr (rt, managers k (conns evs mid nc) (unat lsc), senders) \<and>
    length senders = unat lsc \<and> (\<forall>t<unat lsc. fst ` set (senders ! t) = fst ` set (conns evs mid nc t) \<and>
      distinct (map fst (senders ! t)) \<and> set (senders ! t) \<subseteq> set (conns evs mid nc t))"
proof -
  let ?n = "unat lsc" and ?c = "conns evs mid nc"
  let ?es = "managers k ?c ?n :: ('c, 'd) connection_manager entry list"
  let ?start = "io_start_server ?n k :: ('c, 'd) connection_manager entry list"
  have "establish_shard received nc evs ?start t =
      Inr \<lparr>e_storage = Object ((cm_new k)\<lparr>cm_table := ct_of (?c t)\<rparr>), e_empty = False\<rparr>" if "t < ?n" for t
    unfolding conns_def using that ids greet n by (intro establish_shard_ok) auto
  then have 1: "on_shards (establish_shard received nc evs ?start) ?n = Inr ?es" unfolding managers_def by (rule on_shards_ok)
  have "\<forall>t. \<exists>s. t < ?n \<longrightarrow> run_shard pick ?es t = Inr (managed_mach_ids (ct_of (?c t)), s, map snd (?c t)) \<and>
      map fst s = managed_mach_ids (ct_of (?c t)) \<and> set s \<subseteq> set (?c t)"
    using run_shard_ok [of _ ?n pick k ?c] by blast
  then obtain s where s: "\<And>t. t < ?n \<Longrightarrow> run_shard pick ?es t = Inr (managed_mach_ids (ct_of (?c t)), s t, map snd (?c t)) \<and>
      map fst (s t) = managed_mach_ids (ct_of (?c t)) \<and> set (s t) \<subseteq> set (?c t)" by metis
  let ?g = "\<lambda>t. (managed_mach_ids (ct_of (?c t)), s t, map snd (?c t))"
  have 2: "on_shards (run_shard pick ?es) ?n = Inr (map ?g [0..<?n])" by (rule on_shards_ok) (use s in blast)
  have 3: "rt_build nc mi lsc (map fst (map ?g [0..<?n])) = Inr rt" using rt by (simp add: mids_of_def o_def)
  have 4: "fst ` set (s t) = fst ` set (?c t) \<and> distinct (map fst (s t)) \<and> set (s t) \<subseteq> set (?c t)" if "t < ?n" for t
    using s [OF that] ct_of_ok [of "?c t"] by (metis list.set_map)
  show ?thesis
    unfolding io_establish_connections_def 1 2 3 bind_res_simps
    using 4 by (intro exI [of _ "map s [0..<?n]"]) (simp add: o_def)
qed

lemma ct_find_mem: "\<exists>c. ct_find pick m (ct_of mcs) = Inr c \<Longrightarrow> m \<in> fst ` set mcs"
  by (auto simp: ct_find_def ct_of_ok Let_def filter_empty_conv split: if_splits)

text \<open>What the sockets of machine \<open>i\<close> may do: attempts belong to the server lists, and accepted connections
  come from machines with larger ids and begin with their greeting.\<close>

definition events_ok :: "nat \<Rightarrow> nat \<Rightarrow> network_config \<Rightarrow> ('c \<Rightarrow> byte list) \<Rightarrow> ('c \<Rightarrow> nat) \<Rightarrow> (nat \<Rightarrow> 'c shard_events) \<Rightarrow> bool" where
  "events_ok M i nc received peer evs \<longleftrightarrow> (\<forall>t<length (server_lists nc).
     list_all (\<lambda>x. fst x < length (server_lists nc ! t)) (ev_connects (evs t)) \<and>
     list_all (\<lambda>c. i < peer c \<and> peer c < M \<and> take 4 (received c) = int_bytes (word_of_nat (peer c) :: u32)) (accepted_by (evs t)))"

definition machine_conns :: "('c \<Rightarrow> nat) \<Rightarrow> network_config \<Rightarrow> (nat \<Rightarrow> 'c shard_events) \<Rightarrow> nat \<Rightarrow> (u32 \<times> 'c) list" where
  "machine_conns peer nc evs t = shard_conns (\<lambda>c. word_of_nat (peer c)) (server_lists nc ! t) (evs t)"

lemma machine_conns_range:
  assumes "events_ok M i nc received peer evs" and "t < length (server_lists nc)" and "M < 2 ^ 32" and "i < M"
    and "\<forall>sl \<in> set (server_lists nc). \<forall>x \<in> set sl. unat (snd x) < i"
    and "mc \<in> set (machine_conns peer nc evs t)"
  shows "unat (fst mc) < M"
proof -
  obtain m c where mc: "mc = (m, c)" by (cases mc)
  note ev = assms(1) [unfolded events_ok_def list_all_iff, rule_format, OF assms(2)]
  from assms(6) [unfolded mc machine_conns_def shard_conns_mem] consider
    (client) a where "(a, Some c) \<in> set (ev_connects (evs t))" "m = snd (server_lists nc ! t ! a)"
    | (server) "c \<in> set (accepted_by (evs t))" "m = word_of_nat (peer c)" by blast
  then show ?thesis
  proof cases
    case client
    then have "a < length (server_lists nc ! t)" using ev by auto
    then have "unat m < i" using assms(5) nth_mem [OF assms(2)] client(2) by auto
    then show ?thesis using assms(4) mc by simp
  next
    case server
    then have "peer c < M" using ev by auto
    then show ?thesis using server(2) assms(3) mc unat_of_nat_small [of "peer c"] by simp
  qed
qed

lemma network_established:
  fixes evs :: "nat \<Rightarrow> 'c shard_events"
  assumes f: "read_nodes ipv4 (first_line_dropped (read_file f)) [] = Inr nodes" and c: "cluster_ok nodes"
    and t: "t \<noteq> 0" and i: "i < length nodes"
    and s: "start_network read_file ipv4 (nr_cores (nodes ! i)) (cluster_opts f p2p t i) = Inr (nc, mi, b)"
    and size: "cores_of nodes + (2 + unat (nr_cores (nodes ! i))) * length nodes < 2 ^ 32"
    and ev: "events_ok (length nodes) i nc received peer evs"
  shows "\<exists>rt senders. io_establish_connections received pick (nr_cores (nodes ! i)) nc mi evs
      (io_start_server (unat (nr_cores (nodes ! i))) (num_machines nc) :: ('c, 'd) connection_manager entry list) =
        Inr (rt, managers (num_machines nc) (machine_conns peer nc evs) (unat (nr_cores (nodes ! i))), senders) \<and>
    list_all stoppable (managers (num_machines nc) (machine_conns peer nc evs) (unat (nr_cores (nodes ! i))) ::
      ('c, 'd) connection_manager entry list) \<and>
    (\<forall>t<unat (nr_cores (nodes ! i)). fst ` set (senders ! t) = fst ` set (machine_conns peer nc evs t) \<and>
      distinct (map fst (senders ! t)) \<and> set (senders ! t) \<subseteq> set (machine_conns peer nc evs t)) \<and>
    (\<forall>j g. j < length nodes \<longrightarrow> cores_of (take j nodes) \<le> g \<longrightarrow> g < cores_of (take (Suc j) nodes) \<longrightarrow>
      (if \<exists>t<unat (nr_cores (nodes ! i)). word_of_nat j \<in> fst ` set (machine_conns peer nc evs t)
       then \<exists>t<unat (nr_cores (nodes ! i)). word_of_nat j \<in> fst ` set (machine_conns peer nc evs t) \<and>
         get_destination (word_of_nat g) rt = Inr \<lparr>di_machine_id = word_of_nat j, target_sid = word_of_nat t\<rparr>
       else get_destination (word_of_nat g) rt = Inl Division_by_zero))"
proof -
  let ?n = "nr_cores (nodes ! i)" and ?c = "machine_conns peer nc evs" and ?M = "length nodes"
  note sn = start_network_config [where read_file = read_file and f = f, OF f c t i s]
  have M: "?M < 2 ^ 32" using cluster_ids [OF c] by (simp add: ids_in_order_def)
  have range: "unat (fst mc) < ?M" if "t < unat ?n" "mc \<in> set (?c t)" for t mc
    using machine_conns_range [OF ev _ M i sn(6)] that sn(5) by simp
  have ok: "cluster_conns_ok nodes ?n (map ?c [0..<unat ?n])"
    using i size range by (auto simp: cluster_conns_ok_def list_all_iff)
  from rt_build_ok [OF routing_input_of_conns [OF ok] sn(1,3,4)] obtain rt where
    rt: "rt_build nc mi ?n (mids_of (map ?c [0..<unat ?n])) = Inr rt" by blast
  have c_def: "?c = (\<lambda>t. shard_conns (\<lambda>c. word_of_nat (peer c)) (server_lists nc ! t) (evs t))"
    by (rule ext) (simp add: machine_conns_def)
  note e = ev [unfolded events_ok_def list_all_iff sn(5), rule_format]
  from io_establish_run [OF sn(5) _ _ rt [unfolded c_def], of received pick "num_machines nc"] e obtain senders where
    s: "io_establish_connections received pick ?n nc mi evs
        (io_start_server (unat ?n) (num_machines nc) :: ('c, 'd) connection_manager entry list) =
        Inr (rt, managers (num_machines nc) ?c (unat ?n), senders)"
      "\<forall>t<unat ?n. fst ` set (senders ! t) = fst ` set (?c t) \<and> distinct (map fst (senders ! t)) \<and> set (senders ! t) \<subseteq> set (?c t)"
    unfolding c_def by blast
  have "list_all stoppable (managers (num_machines nc) ?c (unat ?n) :: ('c, 'd) connection_manager entry list)"
    using range M unfolding sn(3) by (intro managers_stoppable) (simp add: unat_of_nat_small)
  moreover have "if \<exists>t<unat ?n. word_of_nat j \<in> fst ` set (?c t)
       then \<exists>t<unat ?n. word_of_nat j \<in> fst ` set (?c t) \<and>
         get_destination (word_of_nat g) rt = Inr \<lparr>di_machine_id = word_of_nat j, target_sid = word_of_nat t\<rparr>
       else get_destination (word_of_nat g) rt = Inl Division_by_zero"
    if j: "j < ?M" "cores_of (take j nodes) \<le> g" "g < cores_of (take (Suc j) nodes)" for j g
  proof -
    note r = routing_connected [OF ok sn(1,3,4) j, unfolded rt]
    have at: "map ?c [0..<unat ?n] ! t = ?c t" if "t < unat ?n" for t using that by simp
    have ex: "(\<exists>t<unat ?n. word_of_nat j \<in> fst ` set (map ?c [0..<unat ?n] ! t)) \<longleftrightarrow> (\<exists>t<unat ?n. word_of_nat j \<in> fst ` set (?c t))"
      by (rule ex_cong1, rule conj_cong) (simp_all only: at)
    show ?thesis
    proof (cases "\<exists>t<unat ?n. word_of_nat j \<in> fst ` set (?c t)")
      case True
      with r [unfolded ex] at obtain t where "t < unat ?n" "get_destination (word_of_nat g) rt = Inr \<lparr>di_machine_id = word_of_nat j, target_sid = word_of_nat t\<rparr>"
        "\<exists>c. ct_find 0 (word_of_nat j) (ct_of (?c t)) = Inr c" by (auto simp: if_P)
      moreover from this(3) have "word_of_nat j \<in> fst ` set (?c t)" by (rule ct_find_mem)
      ultimately show ?thesis unfolding if_P [OF True] by blast
    next
      case False
      with r [unfolded ex] have "get_destination (word_of_nat g) rt = Inl Division_by_zero" by (auto simp: if_not_P)
      then show ?thesis unfolding if_not_P [OF False] .
    qed
  qed
  ultimately show ?thesis using s by blast
qed

section \<open>Properties\<close>

text \<open>The handshake names the peer. On a machine that starts with at most as many connections per peer as it
  has shards, take any shard, let its connections be established in any order, with any connections of
  machines with larger ids already in its table: every connection carries exactly one greeting, at its
  beginning, whichever connection \<open>find\<close> picks among several, and a server that reads it, whatever
  follows on the stream, enters the connection under this machine's id.\<close>

theorem handshake_identifies_peer:
  assumes f: "read_nodes ipv4 (first_line_dropped (read_file f)) [] = Inr nodes" and c: "cluster_ok nodes"
    and "t \<noteq> 0" and i: "i < length nodes"
    and start: "start_network read_file ipv4 (nr_cores (nodes ! i)) (cluster_opts f p2p t i) = Inr (nc, mi, b)"
    and p2p: "p2p \<le> nr_cores (nodes ! i)" and s: "s < unat (nr_cores (nodes ! i))"
    and conns: "mset (map fst conns) = mset (map snd (server_lists nc ! s))" "distinct (map snd conns)"
    and mcs: "list_all (\<lambda>mc. i < unat (fst mc)) mcs"
  shows "\<exists>cs. clients_start pick (machine_id nc) (map (\<lambda>mc. (fst mc, Some (snd mc))) conns) (ct_of mcs) = Inr cs \<and>
    cs_table cs = ct_of (mcs @ conns) \<and>
    (\<forall>mc \<in> set conns. bytes_on (snd mc) (cs_sent cs) = int_bytes (word_of_nat i :: u32)) \<and>
    collect_machine_ids (\<lambda>c. bytes_on c (cs_sent cs) @ later c) (map snd conns) ct_empty =
      Inr (ct_of (map (\<lambda>mc. (word_of_nat i, snd mc)) conns))"
proof -
  note sn = start_network_config [where read_file = read_file and f = f, OF f c \<open>t \<noteq> 0\<close> i start]
  obtain nc0 num anchor where "set_network_config (nr_cores (nodes ! i)) (word_of_nat i) p2p (fresh_config nodes) = Inr (nc0, num, anchor)"
    "nc = nc0\<lparr>timeout_seconds := min t timeout_limit\<rparr>"
    using start_network_plan [where read_file = read_file and f = f, OF f start] by blast
  then have "distinct (map snd (server_lists nc ! s))" using planned_targets_distinct [OF c i p2p _ s] by simp
  then have d: "distinct (map fst conns)" using conns(1) by (metis mset_eq_imp_distinct_iff)
  have disj: "fst ` set mcs \<inter> fst ` set conns = {}"
  proof -
    have "unat m < i" if "m \<in> fst ` set conns" for m
    proof -
      have "m \<in> set (map snd (server_lists nc ! s))" using that mset_eq_setD [OF conns(1)] by auto
      then show ?thesis using sn(5,6) s nth_mem [of s "server_lists nc"] by fastforce
    qed
    moreover have "i < unat m" if "m \<in> fst ` set mcs" for m using that mcs by (auto simp: list_all_iff)
    ultimately show ?thesis using less_asym by blast
  qed
  show ?thesis using handshake_greetings [OF d conns(2) disj, of pick "machine_id nc" later] unfolding sn(2) by blast
qed

text \<open>The two machines of the example cluster, started with \<open>p2p\<close> connections.\<close>

definition two_machine_start :: "u32 \<Rightarrow> nat \<Rightarrow> (network_config \<times> machine_info \<times> bool) res" where
  "two_machine_start p2p i = start_network (\<lambda>f. node_file ''id cores addr'' two_nodes) two_ipv4 (nr_cores (map fst two_nodes ! i))
     (cluster_opts ''nodes'' p2p 60 i)"

lemma two_nodes_values:
  "length (map fst two_nodes) = 2" "nr_cores (map fst two_nodes ! 0) = 2" "nr_cores (map fst two_nodes ! 1) = 3"
  "cores_of (map fst two_nodes) = 5" "cores_of (take 0 (map fst two_nodes)) = 0" "cores_of (take 1 (map fst two_nodes)) = 2"
  "cores_of (take (Suc 0) (map fst two_nodes)) = 2" "cores_of (take (Suc 1) (map fst two_nodes)) = 5"
  by (simp_all add: two_nodes_def cores_of_def)

lemmas example_config = start_network_config
  [where read_file = "\<lambda>f. node_file ''id cores addr'' two_nodes" and f = "''nodes''" and t = 60,
   OF two_nodes_file two_nodes_ok _ _, folded two_machine_start_def]

lemma two_machine_starts: "i < 2 \<Longrightarrow> \<exists>nc mi b. two_machine_start p2p i = Inr (nc, mi, b)"
  using start_network_ok [where read_file = "\<lambda>f. node_file ''id cores addr'' two_nodes" and f = "''nodes''" and t = 60,
      OF two_nodes_file two_nodes_ok] two_nodes_values(1) unfolding two_machine_start_def by fastforce

theorem handshake_identifies_peer_witness:
  "\<exists>nc mi b conns cs. two_machine_start 1 1 = Inr (nc, mi, b) \<and> conns \<noteq> [] \<and>
    clients_start (\<lambda>ct. 0) (machine_id nc) (map (\<lambda>mc. (fst mc, Some (snd mc))) conns) (ct_of []) = Inr cs \<and>
    (\<forall>mc \<in> set conns. bytes_on (snd mc :: nat) (cs_sent cs) = int_bytes (1 :: u32))"
proof -
  obtain nc mi b where s: "two_machine_start 1 1 = Inr (nc, mi, b)" using two_machine_starts [of 1 1] by auto
  have one: "1 < length (map fst two_nodes)" "(60 :: u32) \<noteq> 0" by (simp_all add: two_nodes_def)
  note sn = example_config [OF one(2,1) s]
  have "conns_to 0 (server_lists nc) \<noteq> 0" using sn(7) [of 0] by (simp add: two_nodes_def)
  then obtain k where k: "k < 3" "server_lists nc ! k \<noteq> []"
    using conns_to_nonzero [of 0 "server_lists nc"] sn(5) two_nodes_values(3) by force
  let ?conns = "zip (map snd (server_lists nc ! k)) [0..<length (server_lists nc ! k)]"
  have "map fst ?conns = map snd (server_lists nc ! k)" "map snd ?conns = [0..<length (server_lists nc ! k)]" by simp_all
  then have c: "mset (map fst ?conns) = mset (map snd (server_lists nc ! k))" "distinct (map snd ?conns)"
    by (simp_all only: distinct_upt)
  have h: "(1 :: u32) \<le> nr_cores (map fst two_nodes ! 1)" "k < unat (nr_cores (map fst two_nodes ! 1))"
    using k(1) by (simp_all add: two_nodes_def)
  from handshake_identifies_peer [OF two_nodes_file two_nodes_ok one(2,1) s [unfolded two_machine_start_def] h c, of "[]" "\<lambda>ct. 0"]
  obtain cs where "clients_start (\<lambda>ct. 0) (machine_id nc) (map (\<lambda>mc. (fst mc, Some (snd mc))) ?conns) (ct_of []) = Inr cs"
    "\<forall>mc \<in> set ?conns. bytes_on (snd mc) (cs_sent cs) = int_bytes (word_of_nat 1 :: u32)" by auto
  moreover have "?conns \<noteq> []" using k(2) by (cases "server_lists nc ! k") auto
  ultimately show ?thesis using s unfolding of_nat_1 by blast
qed

text \<open>C5: A cluster that starts is fully connected. All machines start with the same node list and at least one
  connection per pair. On machine \<open>i\<close>, when every connection of its server lists is established, in any
  order, and its shards accept, in any distribution, the connections that the plans of the machines above
  open to it, each beginning with its greeting: \<open>establish_connections\<close> succeeds, and for every shard
  \<open>g\<close> of any other machine \<open>j\<close>, \<open>get_destination\<close> names machine \<open>j\<close> and a local shard that runs a sender to
  it; and the managers it leaves can be stopped.\<close>

theorem cluster_start_connects_all:
  fixes evs :: "nat \<Rightarrow> 'c shard_events"
  assumes f: "read_nodes ipv4 (first_line_dropped (read_file f)) [] = Inr nodes" and c: "cluster_ok nodes"
    and t: "t \<noteq> 0" and i: "i < length nodes" and "p2p \<noteq> 0"
    and start: "\<And>j. j < length nodes \<Longrightarrow>
      start_network read_file ipv4 (nr_cores (nodes ! j)) (cluster_opts f p2p t j) = Inr (nc j, mi j, b j)"
    and size: "cores_of nodes + (2 + unat (nr_cores (nodes ! i))) * length nodes < 2 ^ 32"
    and ev: "events_ok (length nodes) i (nc i) received peer evs"
    and con: "\<And>s. s < unat (nr_cores (nodes ! i)) \<Longrightarrow> all_connected (server_lists (nc i) ! s) (evs s)"
    and acc: "\<And>j. i < j \<Longrightarrow> j < length nodes \<Longrightarrow>
      accepted_from peer j (map evs [0..<unat (nr_cores (nodes ! i))]) = conns_to (word_of_nat i) (server_lists (nc j))"
  shows "\<exists>rt es senders. io_establish_connections received pick (nr_cores (nodes ! i)) (nc i) (mi i) evs
      (io_start_server (unat (nr_cores (nodes ! i))) (num_machines (nc i)) :: ('c, 'd) connection_manager entry list) =
        Inr (rt, es, senders) \<and> list_all stoppable es \<and>
    (\<forall>j g. j < length nodes \<longrightarrow> j \<noteq> i \<longrightarrow> cores_of (take j nodes) \<le> g \<longrightarrow> g < cores_of (take (Suc j) nodes) \<longrightarrow>
      (\<exists>s<unat (nr_cores (nodes ! i)). word_of_nat j \<in> fst ` set (senders ! s) \<and>
         get_destination (word_of_nat g) rt = Inr \<lparr>di_machine_id = word_of_nat j, target_sid = word_of_nat s\<rparr>))"
proof -
  let ?n = "unat (nr_cores (nodes ! i))" and ?c = "machine_conns peer (nc i) evs"
  note cfg = start_network_config [where read_file = read_file and f = f, OF f c t]
  note sn = cfg [OF i start [OF i]]
  have reach: "\<exists>s<?n. word_of_nat j \<in> fst ` set (?c s)" if j: "j < length nodes" "j \<noteq> i" for j
  proof (cases "j < i")
    case True
    then have "conns_to (word_of_nat j) (server_lists (nc i)) \<noteq> 0" using sn(7) [OF j(1)] \<open>p2p \<noteq> 0\<close> by (simp add: unat_eq_0)
    from conns_to_nonzero [OF this] obtain s where s: "s < ?n" "word_of_nat j \<in> snd ` set (server_lists (nc i) ! s)"
      unfolding sn(5) by blast
    from connected_targets [OF con [OF s(1)] s(2)] s(1) show ?thesis unfolding machine_conns_def by blast
  next
    case False
    then have "i < j" using j(2) by simp
    have "accepted_from peer j (map evs [0..<?n]) \<noteq> 0"
      unfolding acc [OF \<open>i < j\<close> j(1)] cfg(7) [OF j(1) start [OF j(1)] i] using \<open>i < j\<close> \<open>p2p \<noteq> 0\<close> by (simp add: unat_eq_0)
    from accepted_nonzero [OF this] obtain s a where "s < ?n" "a \<in> set (accepted_by (evs s))" "peer a = j" by blast
    then have "s < ?n \<and> (word_of_nat j, a) \<in> set (?c s)" unfolding machine_conns_def shard_conns_mem by blast
    then show ?thesis by force
  qed
  from network_established [where read_file = read_file and f = f and pick = pick, OF f c t i start [OF i] size ev] obtain rt senders where
    e: "io_establish_connections received pick (nr_cores (nodes ! i)) (nc i) (mi i) evs
        (io_start_server ?n (num_machines (nc i)) :: ('c, 'd) connection_manager entry list) =
        Inr (rt, managers (num_machines (nc i)) ?c ?n, senders)"
      "list_all stoppable (managers (num_machines (nc i)) ?c ?n :: ('c, 'd) connection_manager entry list)"
      "\<forall>t<?n. fst ` set (senders ! t) = fst ` set (?c t) \<and> distinct (map fst (senders ! t)) \<and> set (senders ! t) \<subseteq> set (?c t)"
    and r: "\<And>j g. j < length nodes \<Longrightarrow> cores_of (take j nodes) \<le> g \<Longrightarrow> g < cores_of (take (Suc j) nodes) \<Longrightarrow>
      (if \<exists>t<?n. word_of_nat j \<in> fst ` set (?c t)
       then \<exists>t<?n. word_of_nat j \<in> fst ` set (?c t) \<and>
         get_destination (word_of_nat g) rt = Inr \<lparr>di_machine_id = word_of_nat j, target_sid = word_of_nat t\<rparr>
       else get_destination (word_of_nat g) rt = Inl Division_by_zero)" by blast
  have "\<exists>s<?n. word_of_nat j \<in> fst ` set (senders ! s) \<and>
      get_destination (word_of_nat g) rt = Inr \<lparr>di_machine_id = word_of_nat j, target_sid = word_of_nat s\<rparr>"
    if "j < length nodes" "j \<noteq> i" "cores_of (take j nodes) \<le> g" "g < cores_of (take (Suc j) nodes)" for j g
    using r [OF that(1,3,4)] e(3) unfolding if_P [OF reach [OF that(1,2)]] by blast
  then show ?thesis using e(1,2) by blast
qed

definition lone_client :: "nat \<Rightarrow> nat shard_events" where
  "lone_client s = \<lparr>ev_pick = (\<lambda>ct. 0), ev_connects = [], ev_accepted = Some (if s = 1 then [7] else []), ev_server_at = 0\<rparr>"

theorem cluster_start_connects_all_witness:
  "\<exists>nc mi b rt es senders. two_machine_start 1 0 = Inr (nc, mi, b) \<and>
    io_establish_connections (\<lambda>c. int_bytes (1 :: u32)) (\<lambda>s m. 0) 2 nc mi lone_client
      (io_start_server 2 (num_machines nc) :: (nat, nat) connection_manager entry list) = Inr (rt, es, senders) \<and>
    (\<exists>s<2. 1 \<in> fst ` set (senders ! s) \<and>
      get_destination 3 rt = Inr \<lparr>di_machine_id = 1, target_sid = word_of_nat s\<rparr>)"
proof -
  let ?nodes = "map fst two_nodes" and ?peer = "\<lambda>c :: nat. 1 :: nat"
  note v = two_nodes_values
  have "\<forall>j. \<exists>nc mi b. j < 2 \<longrightarrow> two_machine_start 1 j = Inr (nc, mi, b)" using two_machine_starts by blast
  then obtain nc mi b where start: "\<And>j. j < length ?nodes \<Longrightarrow> two_machine_start 1 j = Inr (nc j, mi j, b j)" unfolding v by metis
  have h: "0 < length ?nodes" "1 < length ?nodes" "(60 :: u32) \<noteq> 0" "(1 :: u32) \<noteq> 0" by (simp_all add: two_nodes_def)
  note s0 = example_config [OF h(3,1) start [OF h(1)]] and s1 = example_config [OF h(3,2) start [OF h(2)]]
  have n: "length (server_lists (nc 0)) = 2" using s0(5) v(2) by simp
  have nil: "server_lists (nc 0) ! s = []" if "s < 2" for s
  proof -
    have "server_lists (nc 0) ! s \<in> set (server_lists (nc 0))" using that n by simp
    then have "\<forall>x \<in> set (server_lists (nc 0) ! s). unat (snd x) < 0" using s0(6) by blast
    then have "set (server_lists (nc 0) ! s) = {}" by (meson all_not_in_conv not_less0)
    then show ?thesis by simp
  qed
  have ev: "events_ok (length ?nodes) 0 (nc 0) (\<lambda>c. int_bytes (1 :: u32)) ?peer lone_client"
    unfolding events_ok_def n v by (auto simp: lone_client_def accepted_by_def)
  have con: "all_connected (server_lists (nc 0) ! s) (lone_client s)" if "s < unat (nr_cores (?nodes ! 0))" for s
    using that nil unfolding v by (simp add: all_connected_def lone_client_def)
  have acc: "accepted_from ?peer j (map lone_client [0..<unat (nr_cores (?nodes ! 0))]) = conns_to (word_of_nat 0) (server_lists (nc j))"
    if "0 < j" "j < length ?nodes" for j
  proof -
    have j: "j = 1" using that unfolding v by simp
    have "map lone_client [0..<unat (2 :: u32)] = [lone_client 0, lone_client 1]" by (simp add: upt_conv_Cons)
    then have "accepted_from ?peer 1 (map lone_client [0..<unat (2 :: u32)]) = 1"
      by (simp only:) (simp add: accepted_from_def lone_client_def accepted_by_def)
    then show ?thesis unfolding j v using s1(7) [OF h(1)] by simp
  qed
  have size: "cores_of ?nodes + (2 + unat (nr_cores (?nodes ! 0))) * length ?nodes < 2 ^ 32" unfolding v by simp
  have "\<exists>rt es senders. io_establish_connections (\<lambda>c. int_bytes (1 :: u32)) (\<lambda>s m. 0) (nr_cores (?nodes ! 0)) (nc 0) (mi 0) lone_client
      (io_start_server (unat (nr_cores (?nodes ! 0))) (num_machines (nc 0)) :: (nat, nat) connection_manager entry list) =
        Inr (rt, es, senders) \<and> list_all stoppable es \<and>
    (\<forall>j g. j < length ?nodes \<longrightarrow> j \<noteq> 0 \<longrightarrow> cores_of (take j ?nodes) \<le> g \<longrightarrow> g < cores_of (take (Suc j) ?nodes) \<longrightarrow>
      (\<exists>s<unat (nr_cores (?nodes ! 0)). word_of_nat j \<in> fst ` set (senders ! s) \<and>
         get_destination (word_of_nat g) rt = Inr \<lparr>di_machine_id = word_of_nat j, target_sid = word_of_nat s\<rparr>))"
    by (rule cluster_start_connects_all [where read_file = "\<lambda>f. node_file ''id cores addr'' two_nodes" and f = "''nodes''" and t = 60,
      OF two_nodes_file two_nodes_ok h(3,1,4), folded two_machine_start_def, OF start size ev con acc])
  then obtain rt es senders where
    r: "io_establish_connections (\<lambda>c. int_bytes (1 :: u32)) (\<lambda>s m. 0) (nr_cores (?nodes ! 0)) (nc 0) (mi 0) lone_client
      (io_start_server (unat (nr_cores (?nodes ! 0))) (num_machines (nc 0)) :: (nat, nat) connection_manager entry list) =
        Inr (rt, es, senders)"
    "\<forall>j g. j < length ?nodes \<longrightarrow> j \<noteq> 0 \<longrightarrow> cores_of (take j ?nodes) \<le> g \<longrightarrow> g < cores_of (take (Suc j) ?nodes) \<longrightarrow>
      (\<exists>s<unat (nr_cores (?nodes ! 0)). word_of_nat j \<in> fst ` set (senders ! s) \<and>
         get_destination (word_of_nat g) rt = Inr \<lparr>di_machine_id = word_of_nat j, target_sid = word_of_nat s\<rparr>)"
    by blast
  have "io_establish_connections (\<lambda>c. int_bytes (1 :: u32)) (\<lambda>s m. 0) 2 (nc 0) (mi 0) lone_client
      (io_start_server 2 (num_machines (nc 0)) :: (nat, nat) connection_manager entry list) = Inr (rt, es, senders)"
    using r(1) unfolding v by simp
  moreover from r(2) [rule_format, of 1 3] have "\<exists>s<2. 1 \<in> fst ` set (senders ! s) \<and>
      get_destination 3 rt = Inr \<lparr>di_machine_id = 1, target_sid = word_of_nat s\<rparr>" unfolding v by simp
  ultimately show ?thesis using start [OF h(1)] by blast
qed

text \<open>A connection that fails goes unnoticed at the start. The result of every connection attempt is
  discarded, so whatever fails on machine \<open>i\<close>, \<open>establish_connections\<close> succeeds; but if none of the
  attempts to reach machine \<open>j\<close> worked, sending to any of its shards divides by zero.\<close>

theorem failed_connection_unnoticed:
  fixes evs :: "nat \<Rightarrow> 'c shard_events"
  assumes f: "read_nodes ipv4 (first_line_dropped (read_file f)) [] = Inr nodes" and c: "cluster_ok nodes"
    and t: "t \<noteq> 0" and i: "i < length nodes"
    and start: "start_network read_file ipv4 (nr_cores (nodes ! i)) (cluster_opts f p2p t i) = Inr (nc, mi, b)"
    and size: "cores_of nodes + (2 + unat (nr_cores (nodes ! i))) * length nodes < 2 ^ 32"
    and ev: "events_ok (length nodes) i nc received peer evs"
    and failed: "\<And>s a x. s < unat (nr_cores (nodes ! i)) \<Longrightarrow> (a, Some x) \<in> set (ev_connects (evs s)) \<Longrightarrow>
      snd (server_lists nc ! s ! a) \<noteq> word_of_nat j"
    and j: "j < i" and g: "cores_of (take j nodes) \<le> g" "g < cores_of (take (Suc j) nodes)"
  shows "\<exists>rt es senders. io_establish_connections received pick (nr_cores (nodes ! i)) nc mi evs
      (io_start_server (unat (nr_cores (nodes ! i))) (num_machines nc) :: ('c, 'd) connection_manager entry list) =
        Inr (rt, es, senders) \<and> get_destination (word_of_nat g) rt = Inl Division_by_zero"
proof -
  let ?n = "unat (nr_cores (nodes ! i))" and ?c = "machine_conns peer nc evs"
  note sn = start_network_config [where read_file = read_file and f = f, OF f c t i start]
  have M: "length nodes < 2 ^ 32" using cluster_ids [OF c] by (simp add: ids_in_order_def)
  have none: "\<not> (\<exists>s<?n. word_of_nat j \<in> fst ` set (?c s))"
  proof
    assume "\<exists>s<?n. word_of_nat j \<in> fst ` set (?c s)"
    then obtain s x where s: "s < ?n" "(word_of_nat j, x) \<in> set (?c s)" by auto
    have "\<not> (\<exists>a. (a, Some x) \<in> set (ev_connects (evs s)) \<and> word_of_nat j = snd (server_lists nc ! s ! a))"
      using failed [OF s(1)] by metis
    with s(2) [unfolded machine_conns_def shard_conns_mem]
    have x: "x \<in> set (accepted_by (evs s))" "word_of_nat j = (word_of_nat (peer x) :: u32)" by blast+
    have "i < peer x" "peer x < length nodes"
      using ev [unfolded events_ok_def list_all_iff sn(5)] s(1) x(1) by auto
    then show False using x(2) j i M unat_of_nat_small [of "peer x"] unat_of_nat_small [of j] by simp
  qed
  from j i have "j < length nodes" by simp
  with network_established [where read_file = read_file and f = f and pick = pick, OF f c t i start size ev] g obtain rt senders where
    "io_establish_connections received pick (nr_cores (nodes ! i)) nc mi evs
        (io_start_server ?n (num_machines nc) :: ('c, 'd) connection_manager entry list) =
        Inr (rt, managers (num_machines nc) ?c ?n, senders)"
    "if \<exists>t<?n. word_of_nat j \<in> fst ` set (?c t)
       then \<exists>t<?n. word_of_nat j \<in> fst ` set (?c t) \<and>
         get_destination (word_of_nat g) rt = Inr \<lparr>di_machine_id = word_of_nat j, target_sid = word_of_nat t\<rparr>
       else get_destination (word_of_nat g) rt = Inl Division_by_zero" by blast
  then show ?thesis unfolding if_not_P [OF none] by blast
qed

definition refused :: "network_config \<Rightarrow> nat \<Rightarrow> nat shard_events" where
  "refused nc s = \<lparr>ev_pick = (\<lambda>ct. 0), ev_connects = map (\<lambda>a. (a, None)) [0..<length (server_lists nc ! s)],
     ev_accepted = Some [], ev_server_at = 0\<rparr>"

theorem failed_connection_unnoticed_witness:
  "\<exists>nc mi b rt es senders. two_machine_start 1 1 = Inr (nc, mi, b) \<and>
    io_establish_connections (\<lambda>c. []) (\<lambda>s m. 0) 3 nc mi (refused nc)
      (io_start_server 3 (num_machines nc) :: (nat, nat) connection_manager entry list) = Inr (rt, es, senders) \<and>
    get_destination 0 rt = Inl Division_by_zero"
proof -
  let ?nodes = "map fst two_nodes"
  note v = two_nodes_values
  obtain nc mi b where s: "two_machine_start 1 1 = Inr (nc, mi, b)" using two_machine_starts [of 1 1] by auto
  have h: "1 < length ?nodes" "(60 :: u32) \<noteq> 0" by (simp_all add: two_nodes_def)
  have ev: "events_ok (length ?nodes) 1 nc (\<lambda>c. []) (\<lambda>c. 1) (refused nc)"
    by (auto simp: events_ok_def refused_def accepted_by_def list_all_iff)
  have size: "cores_of ?nodes + (2 + unat (nr_cores (?nodes ! 1))) * length ?nodes < 2 ^ 32" unfolding v by simp
  have "\<exists>rt es senders. io_establish_connections (\<lambda>c. []) (\<lambda>s m. 0) (nr_cores (?nodes ! 1)) nc mi (refused nc)
      (io_start_server (unat (nr_cores (?nodes ! 1))) (num_machines nc) :: (nat, nat) connection_manager entry list) =
      Inr (rt, es, senders) \<and> get_destination (word_of_nat 0) rt = Inl Division_by_zero"
    by (rule failed_connection_unnoticed [OF two_nodes_file two_nodes_ok h(2,1) s [unfolded two_machine_start_def] size ev, where j = 0])
      (auto simp: refused_def two_nodes_def cores_of_def)
  then show ?thesis unfolding v using s by auto
qed

end
