(* ===== verification/Coordinator.thy ===== *)
theory Coordinator
  imports Hiactor_Prelude
begin

text \<open>
  The coordinator thread (\<open>core/coordinator_worker.hh\<close>, \<open>core/coordinator_worker.cc\<close>, \<open>coordinator_pollfn\<close> of
  \<open>core/actor_pollfn.hh\<close>) that runs blocking jobs for shard 0, and the barriers built on it
  (\<open>core/coordinator.hh\<close>, \<open>core/coordinator.cc\<close>). The reactor of shard 0 and the worker thread run
  concurrently: every operation on a shared variable is a step of its own. \<open>consume_all\<close> is one step,
  because there is one consumer and what the producer pushes meanwhile commutes with it. The semaphore
  \<open>_queue_has_room\<close> serves its waiters in order, as seastar's semaphores do.
\<close>

section \<open>The work queue\<close>

definition coord_queue_length :: nat where "coord_queue_length = 128"

text \<open>The worker is blocked in \<open>read\<close>, processes the items of \<open>tmp_buf\<close>, or has read \<open>true\<close> from
  \<open>_main_thread_idle\<close> and is about to wake the reactor.\<close>

datatype worker_pc = W_reading | W_processing | W_waking | W_stopped

datatype reactor_pc = R_running | R_announced | R_asleep

record ('j, 'r) coord =
  cw_waiting :: "'j list"
  cw_pending :: "'j list"
  cw_buf :: "'j list"
  cw_completed :: "('j \<times> 'r) list"
  cw_room :: nat
  start_eventfd :: nat
  cw_resolved :: "('j \<times> 'r) list"
  main_thread_idle :: bool
  cw_stop_flag :: bool
  worker_at :: worker_pc
  reactor_at :: reactor_pc
  reactor_wakeup :: bool

definition coord_new :: "('j, 'r) coord" where
  "coord_new = \<lparr>cw_waiting = [], cw_pending = [], cw_buf = [], cw_completed = [], cw_room = coord_queue_length,
     start_eventfd = 0, cw_resolved = [], main_thread_idle = False, cw_stop_flag = False,
     worker_at = W_reading, reactor_at = R_running, reactor_wakeup = False\<rparr>"

text \<open>\<open>submit_item\<close>: wait for room; the continuation pushes and signals. A push into a full queue would
  lose the item.\<close>

definition submit_item :: "'j \<Rightarrow> ('j, 'r) coord \<Rightarrow> ('j, 'r) coord" where
  "submit_item j c = c\<lparr>cw_waiting := cw_waiting c @ [j]\<rparr>"

definition submit_continue :: "('j, 'r) coord \<Rightarrow> ('j, 'r) coord" where
  "submit_continue c =
     (case cw_waiting c of [] \<Rightarrow> c
      | j # js \<Rightarrow>
          if cw_room c = 0 then c
          else c\<lparr>cw_waiting := js, cw_room := cw_room c - 1,
                 cw_pending := (if length (cw_pending c) < coord_queue_length then cw_pending c @ [j] else cw_pending c),
                 start_eventfd := start_eventfd c + 1\<rparr>)"

text \<open>\<open>coord_work_queue::complete\<close>: move the completed items into an array, resolve their promises, and free
  their room.\<close>

definition cw_complete :: "('j, 'r) coord \<Rightarrow> (nat \<times> ('j, 'r) coord) res" where
  "cw_complete c =
     (let nr = length (cw_completed c)
      in if coord_queue_length < nr then Inl Out_of_bounds
         else Inr (nr, c\<lparr>cw_completed := [], cw_resolved := cw_resolved c @ cw_completed c, cw_room := cw_room c + nr\<rparr>))"

text \<open>The loop of \<open>coordinator_worker::work\<close>, step by step.\<close>

definition work_read :: "('j, 'r) coord \<Rightarrow> ('j, 'r) coord res" where
  "work_read c =
     (if worker_at c \<noteq> W_reading \<or> start_eventfd c = 0 then Inr c
      else if cw_stop_flag c then Inr (c\<lparr>start_eventfd := 0, worker_at := W_stopped\<rparr>)
      else if coord_queue_length < length (cw_pending c) then Inl Out_of_bounds
      else Inr (c\<lparr>start_eventfd := 0, cw_buf := cw_pending c, cw_pending := [], worker_at := W_processing\<rparr>))"

definition work_process :: "('j \<Rightarrow> 'r) \<Rightarrow> ('j, 'r) coord \<Rightarrow> ('j, 'r) coord" where
  "work_process run_job c =
     (case cw_buf c of [] \<Rightarrow> c
      | j # js \<Rightarrow>
          if worker_at c \<noteq> W_processing then c
          else c\<lparr>cw_buf := js,
                 cw_completed := (if length (cw_completed c) < coord_queue_length then cw_completed c @ [(j, run_job j)]
                                  else cw_completed c)\<rparr>)"

definition work_check_idle :: "('j, 'r) coord \<Rightarrow> ('j, 'r) coord" where
  "work_check_idle c =
     (if worker_at c = W_processing \<and> cw_buf c = []
      then c\<lparr>worker_at := (if main_thread_idle c then W_waking else W_reading)\<rparr> else c)"

definition work_wakeup :: "('j, 'r) coord \<Rightarrow> ('j, 'r) coord" where
  "work_wakeup c = (if worker_at c = W_waking then c\<lparr>reactor_wakeup := True, worker_at := W_reading\<rparr> else c)"

text \<open>\<open>coordinator_pollfn\<close>: polling, and entering and leaving the interrupt mode.\<close>

definition pollfn_poll :: "('j, 'r) coord \<Rightarrow> ('j, 'r) coord res" where
  "pollfn_poll c = (if reactor_at c = R_running then bind_res (cw_complete c) (\<lambda>(nr, c1). Inr c1) else Inr c)"

definition pollfn_announce :: "('j, 'r) coord \<Rightarrow> ('j, 'r) coord" where
  "pollfn_announce c = (if reactor_at c = R_running then c\<lparr>main_thread_idle := True, reactor_at := R_announced\<rparr> else c)"

definition pollfn_last_poll :: "('j, 'r) coord \<Rightarrow> ('j, 'r) coord res" where
  "pollfn_last_poll c =
     (if reactor_at c \<noteq> R_announced then Inr c
      else bind_res (cw_complete c) (\<lambda>(nr, c1).
        if nr \<noteq> 0 then Inr (c1\<lparr>main_thread_idle := False, reactor_at := R_running\<rparr>)
        else Inr (c1\<lparr>reactor_at := R_asleep\<rparr>)))"

definition pollfn_exit :: "('j, 'r) coord \<Rightarrow> ('j, 'r) coord" where
  "pollfn_exit c =
     (if reactor_at c = R_asleep then c\<lparr>reactor_wakeup := False, main_thread_idle := False, reactor_at := R_running\<rparr> else c)"

text \<open>The destructor of \<open>coordinator_worker\<close>.\<close>

definition worker_destroy :: "('j, 'r) coord \<Rightarrow> ('j, 'r) coord" where
  "worker_destroy c = c\<lparr>cw_stop_flag := True, start_eventfd := start_eventfd c + 1\<rparr>"

datatype 'j coord_op = C_submit 'j | C_continue | C_read | C_process | C_check_idle | C_wakeup
  | C_poll | C_announce | C_last_poll | C_exit

fun coord_step :: "('j \<Rightarrow> 'r) \<Rightarrow> 'j coord_op \<Rightarrow> ('j, 'r) coord \<Rightarrow> ('j, 'r) coord res" where
  "coord_step f (C_submit j) c = Inr (submit_item j c)"
| "coord_step f C_continue c = Inr (submit_continue c)"
| "coord_step f C_read c = work_read c"
| "coord_step f C_process c = Inr (work_process f c)"
| "coord_step f C_check_idle c = Inr (work_check_idle c)"
| "coord_step f C_wakeup c = Inr (work_wakeup c)"
| "coord_step f C_poll c = pollfn_poll c"
| "coord_step f C_announce c = Inr (pollfn_announce c)"
| "coord_step f C_last_poll c = pollfn_last_poll c"
| "coord_step f C_exit c = Inr (pollfn_exit c)"

fun op_submits :: "'j coord_op \<Rightarrow> 'j list" where
  "op_submits (C_submit j) = [j]"
| "op_submits C_continue = []"
| "op_submits C_read = []"
| "op_submits C_process = []"
| "op_submits C_check_idle = []"
| "op_submits C_wakeup = []"
| "op_submits C_poll = []"
| "op_submits C_announce = []"
| "op_submits C_last_poll = []"
| "op_submits C_exit = []"

section \<open>The invariant\<close>

definition coord_inv :: "('j \<Rightarrow> 'r) \<Rightarrow> 'j list \<Rightarrow> ('j, 'r) coord \<Rightarrow> bool" where
  "coord_inv f js c \<longleftrightarrow>
     cw_room c + length (cw_pending c) + length (cw_buf c) + length (cw_completed c) = coord_queue_length \<and>
     map fst (cw_resolved c) @ map fst (cw_completed c) @ cw_buf c @ cw_pending c @ cw_waiting c = js \<and>
     list_all (\<lambda>x. snd x = f (fst x)) (cw_resolved c @ cw_completed c) \<and>
     (worker_at c \<noteq> W_processing \<longrightarrow> cw_buf c = []) \<and> worker_at c \<noteq> W_stopped \<and> \<not> cw_stop_flag c \<and>
     (cw_pending c \<noteq> [] \<longrightarrow> start_eventfd c \<noteq> 0) \<and>
     (reactor_at c \<noteq> R_running \<longrightarrow> main_thread_idle c) \<and>
     (reactor_at c = R_asleep \<and> cw_completed c \<noteq> [] \<longrightarrow> reactor_wakeup c \<or> worker_at c \<in> {W_processing, W_waking})"

lemmas coord_defs = coord_inv_def submit_item_def submit_continue_def cw_complete_def work_read_def work_process_def
  work_check_idle_def work_wakeup_def pollfn_poll_def pollfn_announce_def pollfn_last_poll_def pollfn_exit_def Let_def

lemma coord_step_ok:
  assumes "coord_inv f js c"
  shows "\<exists>c'. coord_step f x c = Inr c' \<and> coord_inv f (js @ op_submits x) c'"
proof (cases x)
  case (C_submit j)
  then show ?thesis using assms by (simp add: coord_defs)
next
  case C_continue
  then show ?thesis using assms by (cases "cw_waiting c"; cases "cw_room c = 0") (simp_all add: coord_defs)
next
  case C_read
  then show ?thesis using assms by (cases "worker_at c = W_reading"; cases "start_eventfd c = 0") (simp_all add: coord_defs)
next
  case C_process
  then show ?thesis
    using assms by (cases "cw_buf c"; cases "worker_at c = W_processing") (simp_all add: coord_defs)
next
  case C_check_idle
  then show ?thesis
    using assms by (cases "worker_at c = W_processing"; cases "cw_buf c = []"; cases "main_thread_idle c") (simp_all add: coord_defs)
next
  case C_wakeup
  then show ?thesis using assms by (cases "worker_at c = W_waking") (auto simp: coord_defs)
next
  case C_poll
  then show ?thesis using assms by (cases "reactor_at c = R_running") (simp_all add: coord_defs)
next
  case C_announce
  then show ?thesis using assms by (cases "reactor_at c = R_running") (simp_all add: coord_defs)
next
  case C_last_poll
  then show ?thesis
    using assms by (cases "reactor_at c = R_announced"; cases "cw_completed c = []") (simp_all add: coord_defs)
next
  case C_exit
  then show ?thesis using assms by (cases "reactor_at c = R_asleep") (simp_all add: coord_defs)
qed

lemma coord_run_ok:
  "coord_inv f js c \<Longrightarrow> \<exists>c'. fold_res (coord_step f) xs c = Inr c' \<and> coord_inv f (js @ concat (map op_submits xs)) c'"
proof (induction xs arbitrary: js c)
  case (Cons x xs)
  from coord_step_ok [OF Cons.prems, of x] obtain c1 where c1: "coord_step f x c = Inr c1" "coord_inv f (js @ op_submits x) c1"
    by blast
  from Cons.IH [OF c1(2)] c1(1) show ?case by auto
qed simp

lemma coord_new_inv: "coord_inv f [] coord_new"
  by (simp add: coord_inv_def coord_new_def)



section \<open>Barriers\<close>

text \<open>The semaphores live on shard 0. The future of a \<open>wait\<close> is pending or resolved; its continuation runs
  later, as a step of its own. \<open>barrier_worker\<close> says that the coordinator thread was launched, and
  \<open>barrier_jobs\<close> are the global barriers handed to it.\<close>

datatype sem_wait = No_wait | Waiting nat | Resolved

record sem =
  sem_count :: nat
  sem_wait_state :: sem_wait

record barriers =
  local_sems :: "string \<rightharpoonup> sem"
  global_sems :: "string \<rightharpoonup> sem"
  barrier_worker :: bool
  barrier_jobs :: "string list"
  local_passed :: "string list"
  global_passed :: "string list"

definition new_sem :: sem where "new_sem = \<lparr>sem_count = 0, sem_wait_state = No_wait\<rparr>"

definition get_sem :: "string \<Rightarrow> (string \<rightharpoonup> sem) \<Rightarrow> sem" where
  "get_sem barrier_id m = (case m barrier_id of None \<Rightarrow> new_sem | Some s \<Rightarrow> s)"

definition sem_signal :: "sem \<Rightarrow> sem" where
  "sem_signal s =
     (case sem_wait_state s of
        Waiting k \<Rightarrow> if k \<le> sem_count s + 1 then \<lparr>sem_count = sem_count s + 1 - k, sem_wait_state = Resolved\<rparr>
                    else s\<lparr>sem_count := sem_count s + 1\<rparr>
      | _ \<Rightarrow> s\<lparr>sem_count := sem_count s + 1\<rparr>)"

definition sem_acquire :: "nat \<Rightarrow> sem \<Rightarrow> sem" where
  "sem_acquire k s =
     (if k \<le> sem_count s then \<lparr>sem_count = sem_count s - k, sem_wait_state = Resolved\<rparr> else s\<lparr>sem_wait_state := Waiting k\<rparr>)"

definition local_barrier :: "nat \<Rightarrow> nat \<Rightarrow> string \<Rightarrow> barriers \<Rightarrow> barriers" where
  "local_barrier n shard barrier_id b =
     (let s = get_sem barrier_id (local_sems b);
          s1 = (if shard \<noteq> 0 then sem_signal s else sem_acquire (n - 1) s)
      in b\<lparr>local_sems := (local_sems b)(barrier_id \<mapsto> s1)\<rparr>)"

definition local_barrier_continue :: "string \<Rightarrow> barriers \<Rightarrow> barriers" where
  "local_barrier_continue barrier_id b =
     (case local_sems b barrier_id of
        Some s \<Rightarrow> if sem_wait_state s = Resolved
                  then b\<lparr>local_sems := (local_sems b)(barrier_id := None), local_passed := barrier_id # local_passed b\<rparr> else b
      | None \<Rightarrow> b)"

definition global_barrier_job :: "string \<Rightarrow> barriers \<Rightarrow> barriers res" where
  "global_barrier_job barrier_id b =
     assert_res (barrier_worker b) (Inr (b\<lparr>barrier_jobs := barrier_jobs b @ [barrier_id]\<rparr>))"

definition global_barrier :: "nat \<Rightarrow> nat \<Rightarrow> string \<Rightarrow> bool \<Rightarrow> barriers \<Rightarrow> barriers res" where
  "global_barrier n shard barrier_id with_local b =
     (let s = get_sem barrier_id (global_sems b)
      in if shard \<noteq> 0 \<and> with_local then Inr (b\<lparr>global_sems := (global_sems b)(barrier_id \<mapsto> sem_signal s)\<rparr>)
         else if with_local then Inr (b\<lparr>global_sems := (global_sems b)(barrier_id \<mapsto> sem_acquire (n - 1) s)\<rparr>)
         else global_barrier_job barrier_id b)"

text \<open>After the wait the job is submitted; when it is done the semaphore is erased.\<close>

definition global_barrier_continue :: "string \<Rightarrow> barriers \<Rightarrow> barriers res" where
  "global_barrier_continue barrier_id b =
     (case global_sems b barrier_id of
        Some s \<Rightarrow> if sem_wait_state s = Resolved
                  then global_barrier_job barrier_id (b\<lparr>global_sems := (global_sems b)(barrier_id \<mapsto> s\<lparr>sem_wait_state := No_wait\<rparr>)\<rparr>)
                  else Inr b
      | None \<Rightarrow> Inr b)"

definition global_barrier_done :: "string \<Rightarrow> barriers \<Rightarrow> barriers" where
  "global_barrier_done barrier_id b =
     (if barrier_id \<in> set (barrier_jobs b)
      then b\<lparr>barrier_jobs := remove1 barrier_id (barrier_jobs b), global_sems := (global_sems b)(barrier_id := None),
             global_passed := barrier_id # global_passed b\<rparr> else b)"

text \<open>The arrivals at one local barrier in any order, with the continuation run at any time.\<close>

fun local_barrier_run :: "nat \<Rightarrow> string \<Rightarrow> nat option list \<Rightarrow> barriers \<Rightarrow> barriers" where
  "local_barrier_run n bid [] b = b"
| "local_barrier_run n bid (Some s # xs) b = local_barrier_run n bid xs (local_barrier n s bid b)"
| "local_barrier_run n bid (None # xs) b = local_barrier_run n bid xs (local_barrier_continue bid b)"

definition arrivals :: "nat option list \<Rightarrow> nat list" where
  "arrivals xs = map the (filter (\<lambda>x. x \<noteq> None) xs)"

definition others :: "nat list \<Rightarrow> nat" where "others as = length (filter (\<lambda>s. s \<noteq> 0) as)"

lemmas sem_defs = get_sem_def new_sem_def sem_signal_def sem_acquire_def

definition barrier_inv :: "nat \<Rightarrow> string \<Rightarrow> nat list \<Rightarrow> barriers \<Rightarrow> bool" where
  "barrier_inv n bid as b \<longleftrightarrow>
     (if bid \<in> set (local_passed b) then 0 \<in> set as \<and> n - 1 \<le> others as
      else (case local_sems b bid of
          None \<Rightarrow> as = []
        | Some s \<Rightarrow>
           (case sem_wait_state s of
              No_wait \<Rightarrow> 0 \<notin> set as \<and> sem_count s = others as
            | Waiting k \<Rightarrow> k = n - 1 \<and> 0 \<in> set as \<and> sem_count s = others as \<and> others as < n - 1
            | Resolved \<Rightarrow> 0 \<in> set as \<and> n - 1 \<le> others as)))"

lemma barrier_arrive:
  assumes "barrier_inv n bid as b" and "x \<notin> set as"
  shows "barrier_inv n bid (as @ [x]) (local_barrier n x bid b)"
proof (cases "bid \<in> set (local_passed b)")
  case True
  then show ?thesis using assms by (simp add: barrier_inv_def local_barrier_def Let_def others_def)
next
  case np: False
  show ?thesis
  proof (cases "local_sems b bid")
    case None
    then show ?thesis
      using np assms by (cases "x = 0") (simp_all add: barrier_inv_def local_barrier_def Let_def others_def sem_defs)
  next
    case (Some s)
    then show ?thesis
      using np assms
      by (cases "x = 0"; cases "sem_wait_state s")
        (auto simp: barrier_inv_def local_barrier_def Let_def others_def sem_defs)
  qed
qed

lemma barrier_continue:
  assumes "barrier_inv n bid as b"
  shows "barrier_inv n bid as (local_barrier_continue bid b)"
  using assms by (auto simp: barrier_inv_def local_barrier_continue_def split: option.splits sem_wait.splits if_splits)

lemma barrier_run_ok:
  "barrier_inv n bid as b \<Longrightarrow> distinct (as @ arrivals xs) \<Longrightarrow>
   barrier_inv n bid (as @ arrivals xs) (local_barrier_run n bid xs b)"
proof (induction n bid xs b arbitrary: as rule: local_barrier_run.induct)
  case (2 n bid s xs b)
  then show ?case using barrier_arrive [OF 2(2), of s] 2(1) [of "as @ [s]"] by (simp add: arrivals_def)
next
  case (3 n bid xs b)
  then show ?case using barrier_continue [OF 3(2)] by (simp add: arrivals_def)
qed (simp add: arrivals_def)

text \<open>Distinct arrivals below \<open>n\<close> are complete when shard 0 and \<open>n - 1\<close> others are among them.\<close>

lemma others_card: "distinct as \<Longrightarrow> others as = card (set as - {0})"
proof -
  assume "distinct as"
  moreover have "set (filter (\<lambda>s. s \<noteq> 0) as) = set as - {0}" by auto
  ultimately show ?thesis by (metis distinct_card distinct_filter others_def)
qed

lemma all_arrived:
  assumes "distinct as" and "set as \<subseteq> {0..<n}" and "0 < n" and "0 \<in> set as" and "n - 1 \<le> others as"
  shows "set as = {0..<n}"
proof (rule card_subset_eq)
  have "card (set as) = Suc (card (set as - {0}))" using assms(4) by (intro card_Suc_Diff1 [symmetric]) simp_all
  then have "n \<le> card (set as)" using assms(3,5) others_card [OF assms(1)] by linarith
  moreover have "card (set as) \<le> n" using card_mono [OF _ assms(2)] by simp
  ultimately show "card (set as) = card {0..<n}" by simp
qed (use assms(2) in auto)

lemma others_all: "distinct as \<Longrightarrow> set as = {0..<n} \<Longrightarrow> others as = n - 1"
  by (cases n) (simp_all add: others_card card_Diff_singleton)

section \<open>One global barrier\<close>

text \<open>\<open>as\<close> are the shards that have arrived.\<close>

definition gate_inv :: "nat \<Rightarrow> string \<Rightarrow> nat list \<Rightarrow> barriers \<Rightarrow> bool" where
  "gate_inv n bid as b \<longleftrightarrow> barrier_worker b \<and>
     (if bid \<in> set (barrier_jobs b) \<union> set (global_passed b) then 0 \<in> set as \<and> n - 1 \<le> others as
      else (case global_sems b bid of
          None \<Rightarrow> as = []
        | Some s \<Rightarrow>
           (case sem_wait_state s of
              No_wait \<Rightarrow> 0 \<notin> set as \<and> sem_count s = others as
            | Waiting k \<Rightarrow> k = n - 1 \<and> 0 \<in> set as \<and> sem_count s = others as \<and> others as < n - 1
            | Resolved \<Rightarrow> 0 \<in> set as \<and> n - 1 \<le> others as)))"

lemma gate_arrive:
  assumes "gate_inv n bid as b" and "x \<notin> set as" and "x < n" and "distinct as" and "set as \<subseteq> {0..<n}"
    and g: "global_barrier n x bid True b = Inr b'"
  shows "gate_inv n bid (as @ [x]) b'"
proof (cases "bid \<in> set (barrier_jobs b) \<union> set (global_passed b)")
  case True
  then have "set as = {0..<n}" using all_arrived [of as n] assms(1,3-5) by (simp add: gate_inv_def)
  then show ?thesis using assms(2,3) by simp
next
  case np: False
  show ?thesis
  proof (cases "global_sems b bid")
    case None
    then show ?thesis
      using np assms(1,2) g by (cases "x = 0") (auto simp: gate_inv_def global_barrier_def Let_def others_def sem_defs)
  next
    case (Some s)
    then show ?thesis
      using np assms(1,2) g
      by (cases "x = 0"; cases "sem_wait_state s") (auto simp: gate_inv_def global_barrier_def Let_def others_def sem_defs)
  qed
qed

lemma gate_continue:
  assumes "gate_inv n bid as b" and "global_barrier_continue bid b = Inr b'"
  shows "gate_inv n bid as b'"
  using assms
  by (auto simp: gate_inv_def global_barrier_continue_def global_barrier_job_def assert_res_Inr_iff
      split: option.splits sem_wait.splits if_splits)

lemma gate_done: "gate_inv n bid as b \<Longrightarrow> gate_inv n bid as (global_barrier_done bid b)"
  by (auto simp: gate_inv_def global_barrier_done_def)

text \<open>Another barrier does not interfere, and a submitted job stays submitted.\<close>

lemma gate_other:
  assumes "bid \<noteq> bid'"
  shows "global_barrier n x bid' True b = Inr b' \<Longrightarrow> gate_inv n bid as b' \<longleftrightarrow> gate_inv n bid as b"
    and "global_barrier_continue bid' b = Inr b' \<Longrightarrow> gate_inv n bid as b' \<longleftrightarrow> gate_inv n bid as b"
    and "gate_inv n bid as (global_barrier_done bid' b) \<longleftrightarrow> gate_inv n bid as b"
  using assms
  by (auto simp: gate_inv_def global_barrier_def Let_def global_barrier_continue_def global_barrier_job_def assert_res_Inr_iff
      global_barrier_done_def split: option.splits if_splits)

lemma barrier_sets:
  "global_barrier n x bid True b = Inr b' \<Longrightarrow> barrier_jobs b' = barrier_jobs b \<and> global_passed b' = global_passed b"
  "global_barrier_continue bid b = Inr b' \<Longrightarrow> set (barrier_jobs b) \<subseteq> set (barrier_jobs b') \<and> global_passed b' = global_passed b"
  "set (barrier_jobs b) \<union> set (global_passed b) \<subseteq>
     set (barrier_jobs (global_barrier_done bid b)) \<union> set (global_passed (global_barrier_done bid b))"
  by (auto simp: global_barrier_def Let_def global_barrier_continue_def global_barrier_job_def assert_res_Inr_iff
      global_barrier_done_def split: option.splits if_splits)

lemma barrier_done_passed: "set (global_passed b) \<subseteq> set (global_passed (global_barrier_done bid b))"
  by (auto simp: global_barrier_done_def)

definition no_barriers :: barriers where
  "no_barriers = \<lparr>local_sems = Map.empty, global_sems = Map.empty, barrier_worker = True, barrier_jobs = [],
     local_passed = [], global_passed = []\<rparr>"

text \<open>Shard 0 passes a local barrier only when every shard has arrived, and does pass it then. For every
  order of arrivals at a barrier id that is used once (every shard arrives at most once), with the
  continuation of shard 0 run at any time: if shard 0 has passed, all shards have arrived; and if all have
  arrived, running the continuation lets shard 0 pass and removes the semaphore of the barrier.\<close>

theorem local_barrier_waits_for_all:
  assumes "distinct (arrivals xs)" and "set (arrivals xs) \<subseteq> {0..<n}" and "0 < n"
  shows "(bid \<in> set (local_passed (local_barrier_run n bid xs no_barriers)) \<longrightarrow> set (arrivals xs) = {0..<n}) \<and>
    (set (arrivals xs) = {0..<n} \<longrightarrow>
       bid \<in> set (local_passed (local_barrier_continue bid (local_barrier_run n bid xs no_barriers))))"
proof -
  let ?b = "local_barrier_run n bid xs no_barriers" and ?as = "arrivals xs"
  have "barrier_inv n bid [] no_barriers" by (simp add: barrier_inv_def no_barriers_def)
  from barrier_run_ok [OF this] assms(1) have inv: "barrier_inv n bid ?as ?b" by simp
  show ?thesis
  proof (intro conjI impI)
    show "set ?as = {0..<n}" if "bid \<in> set (local_passed ?b)" using inv that all_arrived [OF assms] by (simp add: barrier_inv_def)
    assume full: "set ?as = {0..<n}"
    then have "0 \<in> set ?as" using assms(3) by simp
    moreover have "others ?as = n - 1" by (rule others_all [OF assms(1) full])
    ultimately show "bid \<in> set (local_passed (local_barrier_continue bid ?b))"
      using inv by (auto simp: barrier_inv_def local_barrier_continue_def split: option.splits sem_wait.splits if_splits)
  qed
qed

theorem local_barrier_waits_for_all_witness:
  "''b'' \<in> set (local_passed (local_barrier_continue ''b'' (local_barrier_run 3 ''b'' [Some 1, Some 0, None, Some 2] no_barriers)))"
proof -
  have a: "arrivals [Some 1, Some 0, None, Some 2] = [1, 0, 2]" by (simp add: arrivals_def)
  have "{0..<3} = {1, 0, 2 :: nat}" by auto
  then show ?thesis using local_barrier_waits_for_all [of "[Some 1, Some 0, None, Some 2]" 3 "''b''"] unfolding a by simp
qed

end
