(* ===== verification/Cluster_Start.thy ===== *)
theory Cluster_Start
  imports Network_Start Coordinator
begin

text \<open>
  The start of the network of a whole cluster (\<open>network_io::start_and_connect\<close> in \<open>net/network_io.cc\<close>): every
  machine opens its listeners, meets the others at a global barrier of the coordinator, connects, and meets them
  at a second one. A machine is the chain of futures of this function together with the barrier state of its
  coordinator; the machines interleave. The call \<open>impl_->global_barrier\<close> of the coordinator thread is not part of
  the sources: of an implementation it is assumed that it returns only when it has been called on every machine;
  without one the thread sleeps and returns.
\<close>

section \<open>One machine\<close>

definition server_started_id :: string where
  "server_started_id = ''HIACTOR_SERVER_STARTED''"

definition conn_established_id :: string where
  "conn_established_id = ''HIACTOR_CONNECTION_ESTABLISHED''"

text \<open>The continuations of \<open>start_and_connect\<close>, in their order.\<close>

datatype io_stage = Not_started | Server_starting | Server_barrier | Connecting | Connected_barrier | Io_running

text \<open>\<open>io_listeners\<close> says which entries of \<open>_listeners\<close> hold an open socket; \<open>io_calls\<close> are the calls of
  \<open>global_barrier\<close> that were submitted to the shards and have not reached shard 0.\<close>

record ('c, 'd) io_node =
  io_is_running :: bool
  io_listeners :: "bool list"
  io_stage :: io_stage
  io_calls :: "nat list"
  io_barriers :: barriers
  io_cms :: "('c, 'd) connection_manager entry list"
  io_routing :: "routing_table option"

text \<open>What a machine finds: its number of shards, its configuration, and what its sockets do.\<close>

record 'c io_env =
  env_shards :: u32
  env_config :: network_config
  env_info :: machine_info
  env_received :: "'c \<Rightarrow> byte list"
  env_pick :: "nat \<Rightarrow> u32 \<Rightarrow> nat"
  env_events :: "nat \<Rightarrow> 'c shard_events"

definition io_node_new :: "('c, 'd) io_node" where
  "io_node_new = \<lparr>io_is_running = False, io_listeners = [], io_stage = Not_started, io_calls = [], io_barriers = no_barriers,
     io_cms = [], io_routing = None\<rparr>"

abbreviation env_n :: "'c io_env \<Rightarrow> nat" where "env_n e \<equiv> unat (env_shards e)"

definition start_and_connect :: "nat \<Rightarrow> 'c io_env \<Rightarrow> ('c, 'd) io_node \<Rightarrow> ('c, 'd) io_node res" where
  "start_and_connect local_shard_id e nd =
     assert_res (local_shard_id = 0)
       (if io_is_running nd then Inr nd
        else Inr (nd\<lparr>io_is_running := True, io_stage := Server_starting, io_cms := construct_entries (env_n e),
          io_listeners := replicate (env_n e) False\<rparr>))"

definition open_listener :: "nat \<Rightarrow> ('c, 'd) io_node \<Rightarrow> ('c, 'd) io_node" where
  "open_listener t nd = nd\<lparr>io_listeners := (io_listeners nd)[t := True]\<rparr>"

text \<open>When all listeners are open the managers are constructed on their shards, and every shard is told
  to enter the first barrier.\<close>

definition server_started :: "'c io_env \<Rightarrow> ('c, 'd) io_node \<Rightarrow> ('c, 'd) io_node" where
  "server_started e nd =
     nd\<lparr>io_cms := io_start_server (env_n e) (num_machines (env_config e)), io_calls := [0..<env_n e], io_stage := Server_barrier\<rparr>"

definition connections_established :: "'c io_env \<Rightarrow> ('c, 'd) io_node \<Rightarrow> ('c, 'd) io_node res" where
  "connections_established e nd =
     bind_res (io_establish_connections (env_received e) (env_pick e) (env_shards e) (env_config e) (env_info e) (env_events e) (io_cms nd))
       (\<lambda>(rt, es, senders).
         Inr (nd\<lparr>io_cms := es, io_routing := Some rt, io_calls := [0..<env_n e], io_stage := Connected_barrier\<rparr>))"

text \<open>The barrier at which a machine stands.\<close>

fun barrier_at :: "io_stage \<Rightarrow> string option" where
  "barrier_at Server_barrier = Some server_started_id"
| "barrier_at Connected_barrier = Some conn_established_id"
| "barrier_at _ = None"

fun after_barrier :: "io_stage \<Rightarrow> io_stage" where
  "after_barrier Server_barrier = Connecting"
| "after_barrier Connected_barrier = Io_running"
| "after_barrier s = s"

inductive node_step :: "'c io_env \<Rightarrow> ('c, 'd) io_node \<Rightarrow> ('c, 'd) io_node \<Rightarrow> bool" for e where
  starts: "start_and_connect 0 e nd = Inr nd' \<Longrightarrow> node_step e nd nd'"
| listens: "io_stage nd = Server_starting \<Longrightarrow> t < env_n e \<Longrightarrow> node_step e nd (open_listener t nd)"
| servers: "io_stage nd = Server_starting \<Longrightarrow> list_all id (io_listeners nd) \<Longrightarrow> node_step e nd (server_started e nd)"
| arrives: "barrier_at (io_stage nd) = Some bid \<Longrightarrow> io_calls nd = us @ i # vs \<Longrightarrow>
    global_barrier (env_n e) i bid True (io_barriers nd) = Inr b \<Longrightarrow>
    node_step e nd (nd\<lparr>io_calls := us @ vs, io_barriers := b\<rparr>)"
| continues: "global_barrier_continue bid (io_barriers nd) = Inr b \<Longrightarrow> node_step e nd (nd\<lparr>io_barriers := b\<rparr>)"
| passes: "barrier_at (io_stage nd) = Some bid \<Longrightarrow> io_calls nd = [] \<Longrightarrow> bid \<in> set (global_passed (io_barriers nd)) \<Longrightarrow>
    node_step e nd (nd\<lparr>io_stage := after_barrier (io_stage nd)\<rparr>)"
| connects: "io_stage nd = Connecting \<Longrightarrow> connections_established e nd = Inr nd' \<Longrightarrow> node_step e nd nd'"

section \<open>The cluster\<close>

definition job_submitted :: "string \<Rightarrow> ('c, 'd) io_node \<Rightarrow> bool" where
  "job_submitted bid nd \<longleftrightarrow> bid \<in> set (barrier_jobs (io_barriers nd)) \<or> bid \<in> set (global_passed (io_barriers nd))"

definition node_job_done :: "string \<Rightarrow> ('c, 'd) io_node \<Rightarrow> ('c, 'd) io_node" where
  "node_job_done bid nd = nd\<lparr>io_barriers := global_barrier_done bid (io_barriers nd)\<rparr>"

text \<open>\<open>impl\<close> says that an implementation of the global barrier is installed.\<close>

inductive cluster_step ::
    "bool \<Rightarrow> 'c io_env list \<Rightarrow> ('c, 'd) io_node list \<Rightarrow> ('c, 'd) io_node list \<Rightarrow> bool" for impl es where
  moves: "m < length cl \<Longrightarrow> node_step (es ! m) (cl ! m) nd \<Longrightarrow> cluster_step impl es cl (cl[m := nd])"
| job_done: "m < length cl \<Longrightarrow> impl \<longrightarrow> list_all (job_submitted bid) cl \<Longrightarrow>
    cluster_step impl es cl (cl[m := node_job_done bid (cl ! m)])"

definition cluster_reach :: "bool \<Rightarrow> 'c io_env list \<Rightarrow> ('c, 'd) io_node list \<Rightarrow> bool" where
  "cluster_reach impl es cl \<longleftrightarrow> (cluster_step impl es)\<^sup>*\<^sup>* (replicate (length es) io_node_new) cl"

section \<open>Invariant of a machine\<close>

definition stage_listening :: "io_stage \<Rightarrow> bool" where
  "stage_listening s \<longleftrightarrow> s \<notin> {Not_started, Server_starting}"

definition stage_connected :: "io_stage \<Rightarrow> bool" where
  "stage_connected s \<longleftrightarrow> s \<in> {Connected_barrier, Io_running}"

lemmas stage_defs = stage_listening_def stage_connected_def

text \<open>\<open>as\<close> and \<open>cs\<close> are the shards that have arrived at the two barriers.\<close>

definition arrived_ok :: "nat \<Rightarrow> io_stage \<Rightarrow> nat list \<Rightarrow> nat list \<Rightarrow> nat list \<Rightarrow> bool" where
  "arrived_ok n s calls as cs \<longleftrightarrow>
     (case s of
        Server_barrier \<Rightarrow> distinct (as @ calls) \<and> set (as @ calls) = {0..<n} \<and> cs = []
      | Connecting \<Rightarrow> calls = [] \<and> distinct as \<and> set as = {0..<n} \<and> cs = []
      | Connected_barrier \<Rightarrow> distinct as \<and> set as = {0..<n} \<and> distinct (cs @ calls) \<and> set (cs @ calls) = {0..<n}
      | Io_running \<Rightarrow> calls = [] \<and> distinct as \<and> set as = {0..<n} \<and> distinct cs \<and> set cs = {0..<n}
      | _ \<Rightarrow> calls = [] \<and> as = [] \<and> cs = [])"

definition node_inv :: "'c io_env \<Rightarrow> ('c, 'd) io_node \<Rightarrow> nat list \<Rightarrow> nat list \<Rightarrow> bool" where
  "node_inv e nd as cs \<longleftrightarrow>
     gate_inv (env_n e) server_started_id as (io_barriers nd) \<and> gate_inv (env_n e) conn_established_id cs (io_barriers nd) \<and>
     arrived_ok (env_n e) (io_stage nd) (io_calls nd) as cs \<and>
     (io_is_running nd \<longleftrightarrow> io_stage nd \<noteq> Not_started) \<and>
     (io_stage nd \<noteq> Not_started \<longrightarrow> length (io_listeners nd) = env_n e) \<and>
     (stage_listening (io_stage nd) \<longrightarrow> list_all id (io_listeners nd)) \<and>
     (io_stage nd \<in> {Server_barrier, Connecting} \<longrightarrow> io_cms nd = io_start_server (env_n e) (num_machines (env_config e))) \<and>
     (stage_connected (io_stage nd) \<longrightarrow> io_routing nd \<noteq> None) \<and>
     (io_stage nd \<in> {Connecting, Connected_barrier, Io_running} \<longrightarrow> server_started_id \<in> set (global_passed (io_barriers nd))) \<and>
     (io_stage nd = Io_running \<longrightarrow> conn_established_id \<in> set (global_passed (io_barriers nd)))"

lemma ids_differ [simp]: "server_started_id \<noteq> conn_established_id" "conn_established_id \<noteq> server_started_id"
  by (simp_all add: server_started_id_def conn_established_id_def)

lemma node_inv_new: "node_inv e io_node_new [] []"
  by (simp add: node_inv_def io_node_new_def arrived_ok_def stage_defs gate_inv_def no_barriers_def)

lemma node_inv_submitted:
  assumes "node_inv e nd as cs"
  shows "job_submitted server_started_id nd \<Longrightarrow> stage_listening (io_stage nd)"
    and "job_submitted conn_established_id nd \<Longrightarrow> stage_connected (io_stage nd)"
  using assms by (auto simp: node_inv_def job_submitted_def gate_inv_def arrived_ok_def stage_defs split: io_stage.splits)

lemma node_arrives_inv:
  assumes inv: "node_inv e nd as cs" and bid: "barrier_at (io_stage nd) = Some bid" and c: "io_calls nd = us @ i # vs"
    and g: "global_barrier (env_n e) i bid True (io_barriers nd) = Inr b"
  shows "\<exists>as' cs'. node_inv e (nd\<lparr>io_calls := us @ vs, io_barriers := b\<rparr>) as' cs'"
proof (cases "io_stage nd")
  case Server_barrier
  then have id: "bid = server_started_id" using bid by simp
  have "i \<notin> set as" "i < env_n e" "distinct as" "set as \<subseteq> {0..<env_n e}"
    using inv c unfolding node_inv_def arrived_ok_def Server_barrier by auto
  with inv g have "gate_inv (env_n e) server_started_id (as @ [i]) b"
    by (intro gate_arrive [of _ _ as "io_barriers nd"]) (simp_all add: node_inv_def id)
  moreover have "gate_inv (env_n e) conn_established_id cs b"
    using inv gate_other(1) [OF _ g, of conn_established_id cs] by (simp add: node_inv_def id)
  ultimately have "node_inv e (nd\<lparr>io_calls := us @ vs, io_barriers := b\<rparr>) (as @ [i]) cs"
    using inv c Server_barrier barrier_sets(1) [OF g] unfolding node_inv_def by (auto simp: arrived_ok_def)
  then show ?thesis by blast
next
  case Connected_barrier
  then have id: "bid = conn_established_id" using bid by simp
  have "i \<notin> set cs" "i < env_n e" "distinct cs" "set cs \<subseteq> {0..<env_n e}"
    using inv c unfolding node_inv_def arrived_ok_def Connected_barrier by auto
  with inv g have "gate_inv (env_n e) conn_established_id (cs @ [i]) b"
    by (intro gate_arrive [of _ _ cs "io_barriers nd"]) (simp_all add: node_inv_def id)
  moreover have "gate_inv (env_n e) server_started_id as b"
    using inv gate_other(1) [OF _ g, of server_started_id as] by (simp add: node_inv_def id)
  ultimately have "node_inv e (nd\<lparr>io_calls := us @ vs, io_barriers := b\<rparr>) as (cs @ [i])"
    using inv c Connected_barrier barrier_sets(1) [OF g] unfolding node_inv_def by (auto simp: arrived_ok_def)
  then show ?thesis by blast
qed (use bid in simp_all)

lemma gate_continue_any: "gate_inv n bid as b \<Longrightarrow> global_barrier_continue bid' b = Inr b' \<Longrightarrow> gate_inv n bid as b'"
  using gate_continue [of n bid as b b'] gate_other(2) [of bid bid' b b'] by (cases "bid = bid'") auto

lemma gate_done_any: "gate_inv n bid as b \<Longrightarrow> gate_inv n bid as (global_barrier_done bid' b)"
  using gate_done [of n bid as b] gate_other(3) [of bid bid'] by (cases "bid = bid'") auto

lemma node_step_inv:
  assumes "node_step e nd nd'" and inv: "node_inv e nd as cs"
  shows "\<exists>as' cs'. node_inv e nd' as' cs'"
  using assms(1)
proof cases
  case starts
  then have "node_inv e nd' as cs"
    using inv by (auto simp: start_and_connect_def assert_res_Inr_iff node_inv_def arrived_ok_def stage_defs split: if_splits)
  then show ?thesis by blast
next
  case (listens t)
  then have "node_inv e nd' as cs" using inv by (auto simp: open_listener_def node_inv_def arrived_ok_def stage_defs)
  then show ?thesis by blast
next
  case servers
  then have "node_inv e nd' as cs" using inv by (auto simp: server_started_def node_inv_def arrived_ok_def stage_defs)
  then show ?thesis by blast
next
  case (arrives bid us i vs b)
  from node_arrives_inv [OF inv arrives(2-4)] show ?thesis unfolding arrives(1) .
next
  case (continues bid b)
  then have "node_inv e nd' as cs"
    using inv gate_continue_any [OF _ continues(2), of "env_n e"] barrier_sets(2) [OF continues(2)] by (simp add: node_inv_def)
  then show ?thesis by blast
next
  case (passes bid)
  then have "node_inv e nd' as cs"
    using inv by (cases "io_stage nd") (auto simp: node_inv_def arrived_ok_def stage_defs)
  then show ?thesis by blast
next
  case connects
  then have "node_inv e nd' as cs"
    using inv by (auto simp: connections_established_def node_inv_def arrived_ok_def stage_defs elim!: bind_resE)
  then show ?thesis by blast
qed

lemma node_inv_barriers:
  assumes "node_inv e nd as cs" and "\<And>id as. gate_inv (env_n e) id as (io_barriers nd) \<Longrightarrow> gate_inv (env_n e) id as b"
    and "set (global_passed (io_barriers nd)) \<subseteq> set (global_passed b)"
  shows "node_inv e (nd\<lparr>io_barriers := b\<rparr>) as cs"
  using assms(1) unfolding node_inv_def by (simp add: assms(2) subsetD [OF assms(3)])

lemma node_done_inv: "node_inv e nd as cs \<Longrightarrow> node_inv e (node_job_done bid nd) as cs"
  unfolding node_job_done_def by (rule node_inv_barriers) (simp_all add: gate_done_any barrier_done_passed)

lemma node_step_submitted:
  "node_step e nd nd' \<Longrightarrow> job_submitted bid nd \<Longrightarrow> job_submitted bid nd'"
  by (erule node_step.cases)
    (auto simp: job_submitted_def start_and_connect_def assert_res_Inr_iff open_listener_def server_started_def
      connections_established_def elim!: bind_resE dest: barrier_sets(1,2) split: if_splits)

lemma node_step_passed:
  "node_step e nd nd' \<Longrightarrow> global_passed (io_barriers nd') = global_passed (io_barriers nd)"
  by (erule node_step.cases)
    (auto simp: start_and_connect_def assert_res_Inr_iff open_listener_def server_started_def connections_established_def
      elim!: bind_resE dest: barrier_sets(1,2) split: if_splits)

lemma node_done_sets:
  "job_submitted bid nd \<Longrightarrow> job_submitted bid (node_job_done bid' nd)"
  "bid \<in> set (global_passed (io_barriers (node_job_done bid' nd))) \<Longrightarrow> bid \<noteq> bid' \<Longrightarrow> bid \<in> set (global_passed (io_barriers nd))"
  using barrier_sets(3) [of "io_barriers nd" bid']
  by (auto simp: job_submitted_def node_job_done_def global_barrier_done_def split: if_splits)

section \<open>Invariant of the cluster\<close>

definition cluster_inv :: "bool \<Rightarrow> 'c io_env list \<Rightarrow> ('c, 'd) io_node list \<Rightarrow> bool" where
  "cluster_inv impl es cl \<longleftrightarrow> length cl = length es \<and> (\<forall>m<length es. \<exists>as cs. node_inv (es ! m) (cl ! m) as cs) \<and>
     (impl \<longrightarrow> (\<forall>m<length es. \<forall>bid \<in> set (global_passed (io_barriers (cl ! m))). \<forall>k<length es. job_submitted bid (cl ! k)))"

lemma cluster_step_inv:
  assumes "cluster_step impl es cl cl'" and inv: "cluster_inv impl es cl"
  shows "cluster_inv impl es cl'"
  using assms(1)
proof cases
  case (moves m nd)
  have m: "m < length es" using inv moves(2) by (simp add: cluster_inv_def)
  then obtain as cs where "node_inv (es ! m) (cl ! m) as cs" using inv by (auto simp: cluster_inv_def)
  from node_step_inv [OF moves(3) this] have n: "\<exists>as cs. node_inv (es ! m) nd as cs" .
  have "job_submitted bid (cl' ! k)" if "job_submitted bid (cl ! k)" for bid k
    using node_step_submitted [OF moves(3), of bid] that unfolding moves(1) by (cases "k = m") (simp_all add: moves(2))
  moreover have "global_passed (io_barriers (cl' ! k)) = global_passed (io_barriers (cl ! k))" for k
    using node_step_passed [OF moves(3)] unfolding moves(1) by (cases "k = m") (simp_all add: moves(2))
  moreover have "\<exists>as cs. node_inv (es ! k) (cl' ! k) as cs" if "k < length es" for k
    using n inv that unfolding moves(1) by (simp add: nth_update_any cluster_inv_def)
  moreover have "length cl' = length cl" unfolding moves(1) by simp
  ultimately show ?thesis using inv unfolding cluster_inv_def by auto
next
  case (job_done m bid)
  have "job_submitted b (cl' ! k)" if "job_submitted b (cl ! k)" for b k
    using that node_done_sets(1) [of b "cl ! m" bid] unfolding job_done(1) by (cases "k = m") (simp_all add: job_done(2))
  moreover have "b = bid \<or> b \<in> set (global_passed (io_barriers (cl ! k)))"
    if "b \<in> set (global_passed (io_barriers (cl' ! k)))" for b k
    using that node_done_sets(2) [of b bid "cl ! m"] unfolding job_done(1) by (cases "k = m") (auto simp: job_done(2))
  moreover have "\<exists>as cs. node_inv (es ! k) (cl' ! k) as cs" if k: "k < length es" for k
  proof -
    obtain as cs where "node_inv (es ! k) (cl ! k) as cs" using inv k by (auto simp: cluster_inv_def)
    then have "node_inv (es ! k) (cl' ! k) as cs"
      using node_done_inv [of "es ! k" "cl ! k" as cs bid] unfolding job_done(1) by (cases "k = m") (simp_all add: job_done(2))
    then show ?thesis by blast
  qed
  moreover have "length cl' = length cl" unfolding job_done(1) by simp
  moreover have "impl \<Longrightarrow> k < length es \<Longrightarrow> job_submitted bid (cl ! k)" for k
    using job_done(3) inv by (simp add: list_all_length cluster_inv_def)
  ultimately show ?thesis using inv unfolding cluster_inv_def by metis
qed

lemma cluster_reach_inv: "cluster_reach impl es cl \<Longrightarrow> cluster_inv impl es cl"
  unfolding cluster_reach_def
proof (induction rule: rtranclp_induct)
  case base
  have "node_inv e io_node_new [] []" for e :: "'a io_env" by (rule node_inv_new)
  then show ?case by (auto simp: cluster_inv_def io_node_new_def no_barriers_def)
next
  case (step cl cl')
  from cluster_step_inv [OF step.hyps(2) step.IH] show ?case .
qed

section \<open>Progress\<close>

text \<open>What a machine still has to do: the continuations before it, and within one the listeners to open,
  or the calls to come and the steps of the barrier.\<close>

fun stage_rank :: "io_stage \<Rightarrow> nat" where
  "stage_rank Not_started = 5"
| "stage_rank Server_starting = 4"
| "stage_rank Server_barrier = 3"
| "stage_rank Connecting = 2"
| "stage_rank Connected_barrier = 1"
| "stage_rank Io_running = 0"

definition gate_left :: "string \<Rightarrow> barriers \<Rightarrow> nat" where
  "gate_left bid b = (if bid \<in> set (global_passed b) then 0 else if bid \<in> set (barrier_jobs b) then 1 else 2)"

definition node_left :: "'c io_env \<Rightarrow> ('c, 'd) io_node \<Rightarrow> nat" where
  "node_left e nd = stage_rank (io_stage nd) * (env_n e + 4) +
     (case barrier_at (io_stage nd) of
        Some bid \<Rightarrow> length (io_calls nd) + gate_left bid (io_barriers nd)
      | None \<Rightarrow> if io_stage nd = Server_starting then length (filter Not (io_listeners nd)) else 0)"

definition node_waits :: "string \<Rightarrow> ('c, 'd) io_node \<Rightarrow> bool" where
  "node_waits bid nd \<longleftrightarrow> barrier_at (io_stage nd) = Some bid \<and> io_calls nd = [] \<and>
     bid \<in> set (barrier_jobs (io_barriers nd)) \<and> bid \<notin> set (global_passed (io_barriers nd))"

lemma gate_left_le: "gate_left bid b \<le> 2"
  by (simp add: gate_left_def)

lemma gate_continue_progress:
  assumes "gate_inv n bid as b" and "set as = {0..<n}" and "distinct as" and "0 < n"
    and "bid \<notin> set (barrier_jobs b)" and "bid \<notin> set (global_passed b)"
  shows "\<exists>b'. global_barrier_continue bid b = Inr b' \<and> gate_left bid b' < gate_left bid b"
proof -
  have "0 \<in> set as" "others as = n - 1" using assms(2,4) others_all [OF assms(3,2)] by simp_all
  then show ?thesis
    using assms(1,5,6) by (auto simp: gate_inv_def gate_left_def global_barrier_continue_def global_barrier_job_def
        split: option.splits sem_wait.splits if_splits)
qed

lemma filter_open_less: "t < length ls \<Longrightarrow> \<not> ls ! t \<Longrightarrow> length (filter Not (ls[t := True])) < length (filter Not ls)"
proof (induction ls arbitrary: t)
  case (Cons l ls)
  then show ?case by (cases t) auto
qed simp

lemma node_barrier_progress:
  assumes inv: "node_inv e nd as cs" and n: "0 < env_n e" and bid: "barrier_at (io_stage nd) = Some bid" and w: "\<not> node_waits bid nd"
  shows "\<exists>nd'. node_step e nd nd' \<and> node_left e nd' < node_left e nd"
proof (cases "io_calls nd")
  case (Cons i vs)
  obtain b where b: "global_barrier (env_n e) i bid True (io_barriers nd) = Inr b"
    by (cases "i = 0") (auto simp: global_barrier_def Let_def)
  have "node_step e nd (nd\<lparr>io_calls := [] @ vs, io_barriers := b\<rparr>)" by (rule arrives [OF bid _ b]) (simp add: Cons)
  moreover have "node_left e (nd\<lparr>io_calls := vs, io_barriers := b\<rparr>) < node_left e nd"
    using bid barrier_sets(1) [OF b] by (simp add: node_left_def gate_left_def Cons)
  ultimately show ?thesis by auto
next
  case Nil
  show ?thesis
  proof (cases "bid \<in> set (global_passed (io_barriers nd))")
    case True
    have "node_left e (nd\<lparr>io_stage := after_barrier (io_stage nd)\<rparr>) < node_left e nd"
      using bid by (cases "io_stage nd") (simp_all add: node_left_def)
    then show ?thesis using passes [OF bid Nil True, of e] by blast
  next
    case False
    then have j: "bid \<notin> set (barrier_jobs (io_barriers nd))" using w bid Nil by (simp add: node_waits_def)
    obtain xs where xs: "gate_inv (env_n e) bid xs (io_barriers nd)" "set xs = {0..<env_n e}" "distinct xs"
      using inv bid Nil by (cases "io_stage nd") (auto simp: node_inv_def arrived_ok_def)
    from gate_continue_progress [OF xs n j False] obtain b' where
      b': "global_barrier_continue bid (io_barriers nd) = Inr b'" "gate_left bid b' < gate_left bid (io_barriers nd)" by blast
    have "node_left e (nd\<lparr>io_barriers := b'\<rparr>) < node_left e nd" using bid b'(2) by (simp add: node_left_def)
    then show ?thesis using continues [OF b'(1), of e] by blast
  qed
qed

lemma node_progress:
  fixes nd :: "('c, 'd) io_node"
  assumes inv: "node_inv e nd as cs" and n: "0 < env_n e"
    and ok: "\<exists>r. io_establish_connections (env_received e) (env_pick e) (env_shards e) (env_config e) (env_info e) (env_events e)
      (io_start_server (env_n e) (num_machines (env_config e)) :: ('c, 'd) connection_manager entry list) = Inr r"
    and left: "io_stage nd \<noteq> Io_running" and w: "\<And>bid. \<not> node_waits bid nd"
  shows "\<exists>nd'. node_step e nd nd' \<and> node_left e nd' < node_left e nd"
proof (cases "io_stage nd")
  case Not_started
  let ?nd = "nd\<lparr>io_is_running := True, io_stage := Server_starting, io_cms := construct_entries (env_n e),
    io_listeners := replicate (env_n e) False\<rparr>"
  have "start_and_connect 0 e nd = Inr ?nd" using inv Not_started by (simp add: start_and_connect_def node_inv_def)
  moreover have "node_left e ?nd < node_left e nd" by (simp add: node_left_def Not_started)
  ultimately show ?thesis using starts by blast
next
  case Server_starting
  show ?thesis
  proof (cases "list_all id (io_listeners nd)")
    case True
    have "node_left e (server_started e nd) < node_left e nd"
      using gate_left_le [of server_started_id "io_barriers nd"] by (simp add: node_left_def server_started_def Server_starting)
    then show ?thesis using servers [OF Server_starting True] by blast
  next
    case False
    then obtain t where t: "t < length (io_listeners nd)" "\<not> io_listeners nd ! t" by (auto simp: list_all_length)
    have "t < env_n e" using t(1) inv Server_starting by (simp add: node_inv_def)
    moreover have "node_left e (open_listener t nd) < node_left e nd"
      using filter_open_less [OF t] by (simp add: node_left_def open_listener_def Server_starting)
    ultimately show ?thesis using listens [OF Server_starting, of t e] by blast
  qed
next
  case Connecting
  then have "io_cms nd = io_start_server (env_n e) (num_machines (env_config e))" using inv by (simp add: node_inv_def)
  with ok obtain nd' where nd': "connections_established e nd = Inr nd'" "io_stage nd' = Connected_barrier" "io_calls nd' = [0..<env_n e]"
    by (auto simp: connections_established_def)
  then have "node_left e nd' < node_left e nd"
    using gate_left_le [of conn_established_id "io_barriers nd'"] by (simp add: node_left_def Connecting)
  then show ?thesis using connects [OF Connecting nd'(1)] by blast
qed (use left w node_barrier_progress [OF inv n] in auto)

lemma node_done_progress: "node_waits bid nd \<Longrightarrow> node_left e (node_job_done bid nd) < node_left e nd"
  by (simp add: node_waits_def node_left_def node_job_done_def gate_left_def global_barrier_done_def)

lemma waiting_submitted:
  assumes inv: "node_inv e nd as cs" and w: "io_stage nd = Io_running \<or> (\<exists>bid. node_waits bid nd)"
  shows "job_submitted server_started_id nd"
    and "\<not> node_waits server_started_id nd \<Longrightarrow> job_submitted conn_established_id nd"
  using assms by (cases "io_stage nd"; auto simp: node_inv_def node_waits_def job_submitted_def)+

definition cluster_left :: "'c io_env list \<Rightarrow> ('c, 'd) io_node list \<Rightarrow> nat" where
  "cluster_left es cl = (\<Sum>m<length es. node_left (es ! m) (cl ! m))"

lemma cluster_left_update:
  assumes "m < length es" and "length cl = length es" and "node_left (es ! m) nd < node_left (es ! m) (cl ! m)"
  shows "cluster_left es (cl[m := nd]) < cluster_left es cl"
  unfolding cluster_left_def
proof (rule sum_strict_mono_ex1)
  show "\<forall>k\<in>{..<length es}. node_left (es ! k) (cl[m := nd] ! k) \<le> node_left (es ! k) (cl ! k)"
    using assms(2,3) by (auto simp: nth_update_any)
  show "\<exists>k\<in>{..<length es}. node_left (es ! k) (cl[m := nd] ! k) < node_left (es ! k) (cl ! k)"
    using assms by (intro bexI [of _ m]) simp_all
qed simp

definition envs_ok :: "'d itself \<Rightarrow> 'c io_env list \<Rightarrow> bool" where
  "envs_ok T es \<longleftrightarrow> (\<forall>e \<in> set es. 0 < env_n e \<and>
     (\<exists>r. io_establish_connections (env_received e) (env_pick e) (env_shards e) (env_config e) (env_info e) (env_events e)
      (io_start_server (env_n e) (num_machines (env_config e)) :: ('c, 'd) connection_manager entry list) = Inr r))"

lemma cluster_done_progress:
  fixes cl :: "('c, 'd) io_node list"
  assumes inv: "cluster_inv impl es cl" and ws: "\<And>m. m < length es \<Longrightarrow> io_stage (cl ! m) = Io_running \<or> (\<exists>bid. node_waits bid (cl ! m))"
    and m: "m < length es" "node_waits bid (cl ! m)"
    and min: "bid = server_started_id \<or> (\<forall>k<length es. \<not> node_waits server_started_id (cl ! k))"
  shows "\<exists>cl'. cluster_step impl es cl cl' \<and> cluster_left es cl' < cluster_left es cl"
proof -
  have len: "length cl = length es" using inv by (simp add: cluster_inv_def)
  have bid: "bid \<in> {server_started_id, conn_established_id}"
    using m(2) by (cases "io_stage (cl ! m)") (simp_all add: node_waits_def)
  have "job_submitted bid (cl ! k)" if k: "k < length es" for k
  proof -
    obtain as cs where "node_inv (es ! k) (cl ! k) as cs" using inv k by (auto simp: cluster_inv_def)
    from waiting_submitted [OF this ws [OF k]] show ?thesis using bid min k by auto
  qed
  then have "impl \<longrightarrow> list_all (job_submitted bid) cl" by (simp add: list_all_length len)
  from job_done [OF _ this, of m] have "cluster_step impl es cl (cl[m := node_job_done bid (cl ! m)])" using m(1) len by simp
  moreover from cluster_left_update [OF m(1) len node_done_progress [OF m(2)]]
  have "cluster_left es (cl[m := node_job_done bid (cl ! m)]) < cluster_left es cl" .
  ultimately show ?thesis by blast
qed

lemma cluster_progress:
  fixes cl :: "('c, 'd) io_node list"
  assumes inv: "cluster_inv impl es cl" and env: "envs_ok TYPE('d) es"
    and left: "m < length es" "io_stage (cl ! m) \<noteq> Io_running"
  shows "\<exists>cl'. cluster_step impl es cl cl' \<and> cluster_left es cl' < cluster_left es cl"
proof (cases "\<exists>k<length es. io_stage (cl ! k) \<noteq> Io_running \<and> (\<forall>bid. \<not> node_waits bid (cl ! k))")
  case True
  then obtain k where k: "k < length es" "io_stage (cl ! k) \<noteq> Io_running" "\<And>bid. \<not> node_waits bid (cl ! k)" by blast
  have len: "length cl = length es" using inv by (simp add: cluster_inv_def)
  obtain as cs where i: "node_inv (es ! k) (cl ! k) as cs" using inv k(1) by (auto simp: cluster_inv_def)
  have e: "es ! k \<in> set es" using k(1) by simp
  note ek = bspec [OF env [unfolded envs_ok_def] e]
  from node_progress [OF i conjunct1 [OF ek] conjunct2 [OF ek] k(2,3)] obtain nd where
    nd: "node_step (es ! k) (cl ! k) nd" "node_left (es ! k) nd < node_left (es ! k) (cl ! k)" by blast
  from moves [of k cl es nd impl] nd(1) k(1) len have "cluster_step impl es cl (cl[k := nd])" by simp
  with cluster_left_update [OF k(1) len nd(2)] show ?thesis by blast
next
  case False
  then have ws: "\<And>k. k < length es \<Longrightarrow> io_stage (cl ! k) = Io_running \<or> (\<exists>bid. node_waits bid (cl ! k))" by blast
  show ?thesis
  proof (cases "\<exists>k<length es. node_waits server_started_id (cl ! k)")
    case True
    then show ?thesis using cluster_done_progress [OF inv ws] by blast
  next
    case no: False
    obtain bid where "node_waits bid (cl ! m)" using ws [OF left(1)] left(2) by blast
    then show ?thesis using cluster_done_progress [OF inv ws left(1)] no by blast
  qed
qed

lemma start_completes:
  fixes cl :: "('c, 'd) io_node list"
  assumes "cluster_reach impl es cl" and env: "envs_ok TYPE('d) es"
  shows "\<exists>cl'. (cluster_step impl es)\<^sup>*\<^sup>* cl cl' \<and> (\<forall>m<length es. io_stage (cl' ! m) = Io_running \<and> io_routing (cl' ! m) \<noteq> None)"
  using cluster_reach_inv [OF assms(1)]
proof (induction "cluster_left es cl" arbitrary: cl rule: less_induct)
  case less
  show ?case
  proof (cases "\<forall>m<length es. io_stage (cl ! m) = Io_running")
    case True
    have "io_routing (cl ! m) \<noteq> None" if "m < length es" for m
    proof -
      have "\<exists>as cs. node_inv (es ! m) (cl ! m) as cs" using less.prems that by (simp add: cluster_inv_def)
      then show ?thesis using True that by (auto simp: node_inv_def stage_defs)
    qed
    then show ?thesis using True by blast
  next
    case False
    then obtain cl1 where cl1: "cluster_step impl es cl cl1" "cluster_left es cl1 < cluster_left es cl"
      using cluster_progress [OF less.prems env] by blast
    from less.hyps [OF cl1(2) cluster_step_inv [OF cl1(1) less.prems]] obtain cl' where
      "(cluster_step impl es)\<^sup>*\<^sup>* cl1 cl'" "\<forall>m<length es. io_stage (cl' ! m) = Io_running \<and> io_routing (cl' ! m) \<noteq> None" by blast
    then show ?thesis using converse_rtranclp_into_rtranclp [of "cluster_step impl es", OF cl1(1)] by blast
  qed
qed

section \<open>Properties\<close>

text \<open>The machines of a cluster file.\<close>

definition cluster_env ::
    "worker_node_info list \<Rightarrow> (nat \<Rightarrow> network_config) \<Rightarrow> (nat \<Rightarrow> machine_info) \<Rightarrow> ('c \<Rightarrow> byte list) \<Rightarrow> (nat \<Rightarrow> u32 \<Rightarrow> nat) \<Rightarrow>
     (nat \<Rightarrow> nat \<Rightarrow> 'c shard_events) \<Rightarrow> nat \<Rightarrow> 'c io_env" where
  "cluster_env nodes nc mi received pick evs i =
     \<lparr>env_shards = nr_cores (nodes ! i), env_config = nc i, env_info = mi i, env_received = received, env_pick = pick, env_events = evs i\<rparr>"

lemma cluster_envs_ok:
  fixes evs :: "nat \<Rightarrow> nat \<Rightarrow> 'c shard_events"
  assumes f: "read_nodes ipv4 (first_line_dropped (read_file f)) [] = Inr nodes" and c: "cluster_ok nodes" and t: "t \<noteq> 0"
    and start: "\<And>j. j < length nodes \<Longrightarrow>
      start_network read_file ipv4 (nr_cores (nodes ! j)) (cluster_opts f p2p t j) = Inr (nc j, mi j, b j)"
    and size: "\<And>j. j < length nodes \<Longrightarrow> cores_of nodes + (2 + unat (nr_cores (nodes ! j))) * length nodes < 2 ^ 32"
    and ev: "\<And>j. j < length nodes \<Longrightarrow> events_ok (length nodes) j (nc j) received peer (evs j)"
  shows "envs_ok TYPE('d) (map (cluster_env nodes nc mi received pick evs) [0..<length nodes])"
  unfolding envs_ok_def
proof (intro ballI conjI)
  fix e assume "e \<in> set (map (cluster_env nodes nc mi received pick evs) [0..<length nodes])"
  then obtain i where i: "i < length nodes" "e = cluster_env nodes nc mi received pick evs i" by auto
  have "0 < nr_cores (nodes ! i)" using c i(1) by (simp add: cluster_ok_def list_all_length)
  then show "0 < env_n e" unfolding i(2) cluster_env_def by (simp add: word_less_nat_alt)
  show "\<exists>r. io_establish_connections (env_received e) (env_pick e) (env_shards e) (env_config e) (env_info e) (env_events e)
      (io_start_server (env_n e) (num_machines (env_config e)) :: ('c, 'd) connection_manager entry list) = Inr r"
    using network_established [where pick = pick and read_file = read_file and f = f, OF f c t i(1) start [OF i(1)] size [OF i(1)] ev [OF i(1)]]
    unfolding i(2) cluster_env_def by auto
qed

text \<open>The two machines of the example cluster; the connection that machine 1 opens is accepted on shard 1 of
  machine 0.\<close>

definition example_events :: "network_config \<Rightarrow> nat \<Rightarrow> nat \<Rightarrow> nat shard_events" where
  "example_events nc i = (if i = 0 then lone_client else (\<lambda>s.
     \<lparr>ev_pick = (\<lambda>ct. 0), ev_connects = map (\<lambda>a. (a, Some a)) [0..<length (server_lists nc ! s)],
      ev_accepted = Some [], ev_server_at = 0\<rparr>))"

lemma example_cluster:
  "\<exists>nc mi b. (\<forall>j<2. two_machine_start 1 j = Inr (nc j, mi j, b j)) \<and>
    (\<forall>j<2. events_ok 2 j (nc j) (\<lambda>c. int_bytes (1 :: u32)) (\<lambda>c. 1) (example_events (nc j) j))"
proof -
  have "\<forall>j. \<exists>nc mi b. j < 2 \<longrightarrow> two_machine_start 1 j = Inr (nc, mi, b)" using two_machine_starts by blast
  then obtain nc mi b where start: "\<And>j. j < 2 \<Longrightarrow> two_machine_start 1 j = Inr (nc j, mi j, b j)" by metis
  have ev: "events_ok 2 j (nc j) (\<lambda>c. int_bytes (1 :: u32)) (\<lambda>c. 1) (example_events (nc j) j)" if "j < 2" for j
    using that by (auto simp: events_ok_def example_events_def lone_client_def accepted_by_def list_all_iff less_2_cases_iff)
  show ?thesis by (intro exI [of _ nc] exI [of _ mi] exI [of _ b]) (use start ev in blast)
qed

lemma example_size: "j < length (map fst two_nodes) \<Longrightarrow>
  cores_of (map fst two_nodes) + (2 + unat (nr_cores (map fst two_nodes ! j))) * length (map fst two_nodes) < 2 ^ 32"
  using two_nodes_values by (auto simp: less_2_cases_iff)

text \<open>C15: The start of a cluster never gets stuck. All machines start with the same node list, and their sockets
  report connections of the plan, each beginning with its greeting, or failures. From every state that the
  machines can reach, with or without an implementation of the global barrier, the start can be completed: there
  are further steps after which every machine has returned from \<open>start_and_connect\<close> with its routing table
  built, so no machine waits for a barrier that the others cannot reach any more.\<close>

theorem cluster_start_completes:
  fixes cl :: "('c, 'd) io_node list"
  assumes f: "read_nodes ipv4 (first_line_dropped (read_file f)) [] = Inr nodes" and c: "cluster_ok nodes" and t: "t \<noteq> 0"
    and start: "\<And>j. j < length nodes \<Longrightarrow>
      start_network read_file ipv4 (nr_cores (nodes ! j)) (cluster_opts f p2p t j) = Inr (nc j, mi j, b j)"
    and size: "\<And>j. j < length nodes \<Longrightarrow> cores_of nodes + (2 + unat (nr_cores (nodes ! j))) * length nodes < 2 ^ 32"
    and ev: "\<And>j. j < length nodes \<Longrightarrow> events_ok (length nodes) j (nc j) received peer (evs j)"
    and reach: "cluster_reach impl (map (cluster_env nodes nc mi received pick evs) [0..<length nodes]) cl"
  shows "\<exists>cl'. (cluster_step impl (map (cluster_env nodes nc mi received pick evs) [0..<length nodes]))\<^sup>*\<^sup>* cl cl' \<and>
    (\<forall>m<length nodes. io_stage (cl' ! m) = Io_running \<and> io_routing (cl' ! m) \<noteq> None)"
  using start_completes [OF reach cluster_envs_ok [where 'd = 'd, OF f c t start size ev]] by simp

theorem cluster_start_completes_witness:
  "\<exists>nc mi cl'. (cluster_step True (map (cluster_env (map fst two_nodes) nc mi (\<lambda>c. int_bytes (1 :: u32)) (\<lambda>s m. 0)
      (\<lambda>j. example_events (nc j) j)) [0..<2]))\<^sup>*\<^sup>* (replicate 2 (io_node_new :: (nat, nat) io_node)) cl' \<and>
    io_stage (cl' ! 0) = Io_running \<and> io_stage (cl' ! 1) = Io_running"
proof -
  let ?nodes = "map fst two_nodes"
  note v = two_nodes_values
  obtain nc mi b where e: "\<And>j. j < 2 \<Longrightarrow> two_machine_start 1 j = Inr (nc j, mi j, b j)"
    "\<And>j. j < 2 \<Longrightarrow> events_ok 2 j (nc j) (\<lambda>c. int_bytes (1 :: u32)) (\<lambda>c. 1) (example_events (nc j) j)"
    using example_cluster by blast
  let ?es = "map (cluster_env ?nodes nc mi (\<lambda>c. int_bytes (1 :: u32)) (\<lambda>s m. 0) (\<lambda>j. example_events (nc j) j)) [0..<length ?nodes]"
  have r: "cluster_reach True ?es (replicate 2 (io_node_new :: (nat, nat) io_node))" unfolding cluster_reach_def v by simp
  have "\<exists>cl'. (cluster_step True ?es)\<^sup>*\<^sup>* (replicate 2 (io_node_new :: (nat, nat) io_node)) cl' \<and>
      (\<forall>m<length ?nodes. io_stage (cl' ! m) = Io_running \<and> io_routing (cl' ! m) \<noteq> None)"
    by (rule cluster_start_completes [where read_file = "\<lambda>f. node_file ''id cores addr'' two_nodes" and f = "''nodes''" and t = 60,
      OF two_nodes_file two_nodes_ok _ _ example_size _ r, folded two_machine_start_def]) (use e v in simp_all)
  then obtain cl' where "(cluster_step True ?es)\<^sup>*\<^sup>* (replicate 2 (io_node_new :: (nat, nat) io_node)) cl'"
    "\<forall>m<2. io_stage (cl' ! m) = Io_running \<and> io_routing (cl' ! m) \<noteq> None" unfolding v by blast
  then show ?thesis unfolding v by (intro exI [of _ nc] exI [of _ mi] exI [of _ cl']) simp
qed

text \<open>C6: With an implementation of the global barrier, a machine opens its first connection only after every
  machine of the cluster listens on all its shards, and its \<open>start_and_connect\<close> returns only after every
  machine has established its connections and built its routing table. This holds for every interleaving of the
  machines, of the calls of their shards and of the continuations of the barriers.\<close>

theorem start_waits_for_cluster:
  assumes "cluster_reach True es cl" and "m < length es" and "k < length es"
  shows "(io_stage (cl ! m) \<in> {Connecting, Connected_barrier, Io_running} \<longrightarrow>
      io_listeners (cl ! k) = replicate (env_n (es ! k)) True) \<and>
    (io_stage (cl ! m) = Io_running \<longrightarrow> io_stage (cl ! k) \<in> {Connected_barrier, Io_running} \<and> io_routing (cl ! k) \<noteq> None)"
proof -
  have inv: "cluster_inv True es cl" by (rule cluster_reach_inv [OF assms(1)])
  obtain as cs where m: "node_inv (es ! m) (cl ! m) as cs" using inv assms(2) by (auto simp: cluster_inv_def)
  obtain as' cs' where k: "node_inv (es ! k) (cl ! k) as' cs'" using inv assms(3) by (auto simp: cluster_inv_def)
  have p: "job_submitted bid (cl ! k)" if "bid \<in> set (global_passed (io_barriers (cl ! m)))" for bid
    using inv assms(2,3) that by (auto simp: cluster_inv_def)
  show ?thesis
  proof (intro conjI impI)
    assume "io_stage (cl ! m) \<in> {Connecting, Connected_barrier, Io_running}"
    then have "job_submitted server_started_id (cl ! k)" using m p by (simp add: node_inv_def)
    then have "stage_listening (io_stage (cl ! k))" by (rule node_inv_submitted [OF k])
    then have "list_all id (io_listeners (cl ! k))" "length (io_listeners (cl ! k)) = env_n (es ! k)"
      using k by (auto simp: node_inv_def stage_defs)
    then show "io_listeners (cl ! k) = replicate (env_n (es ! k)) True" by (simp add: list_eq_iff_nth_eq list_all_length)
  next
    assume "io_stage (cl ! m) = Io_running"
    then have "job_submitted conn_established_id (cl ! k)" using m p by (simp add: node_inv_def)
    then have "stage_connected (io_stage (cl ! k))" by (rule node_inv_submitted [OF k])
    then show "io_stage (cl ! k) \<in> {Connected_barrier, Io_running}" "io_routing (cl ! k) \<noteq> None"
      using k by (simp_all add: node_inv_def stage_defs)
  qed
qed

theorem start_waits_for_cluster_witness:
  "\<exists>es cl. cluster_reach True es (cl :: (nat, nat) io_node list) \<and> length es = 2 \<and> io_stage (cl ! 0) = Io_running \<and>
    io_listeners (cl ! 1) = [True, True, True] \<and> io_routing (cl ! 1) \<noteq> None"
proof -
  let ?nodes = "map fst two_nodes"
  note v = two_nodes_values
  obtain nc mi b where e: "\<And>j. j < 2 \<Longrightarrow> two_machine_start 1 j = Inr (nc j, mi j, b j)"
    "\<And>j. j < 2 \<Longrightarrow> events_ok 2 j (nc j) (\<lambda>c. int_bytes (1 :: u32)) (\<lambda>c. 1) (example_events (nc j) j)"
    using example_cluster by blast
  let ?es = "map (cluster_env ?nodes nc mi (\<lambda>c. int_bytes (1 :: u32)) (\<lambda>s m. 0) (\<lambda>j. example_events (nc j) j)) [0..<length ?nodes]"
  have "envs_ok TYPE(nat) ?es"
    by (rule cluster_envs_ok [where read_file = "\<lambda>f. node_file ''id cores addr'' two_nodes" and f = "''nodes''" and t = 60,
      OF two_nodes_file two_nodes_ok _ _ example_size, folded two_machine_start_def]) (use e v in simp_all)
  then obtain cl :: "(nat, nat) io_node list" where cl: "cluster_reach True ?es cl" "io_stage (cl ! 0) = Io_running"
    using start_completes [of True ?es "replicate (length ?es) (io_node_new :: (nat, nat) io_node)"] v unfolding cluster_reach_def by auto
  have n: "env_n (?es ! 1) = 3" using v by (simp add: cluster_env_def)
  have m: "0 < length ?es" "1 < length ?es" using v by simp_all
  from start_waits_for_cluster [OF cl(1) m] cl(2) n have "io_listeners (cl ! 1) = [True, True, True]" "io_routing (cl ! 1) \<noteq> None"
    by (simp_all add: numeral_3_eq_3)
  then show ?thesis using cl v by (intro exI [of _ ?es] exI [of _ cl]) simp
qed

text \<open>Without an implementation the job of the barrier returns on its own, and a machine may connect while
  another has not even started.\<close>

lemma start_without_impl:
  assumes e: "env_shards e = 1"
  shows "\<exists>nd. cluster_reach False [e, e'] [nd, io_node_new :: ('c, 'd) io_node] \<and> io_stage nd = Connecting"
proof -
  let ?bid = server_started_id and ?c0 = "io_node_new :: ('c, 'd) io_node"
  let ?R = "cluster_step False [e, e']"
  have mv: "?R [nd, ?c0] [nd', ?c0]" if "node_step e nd nd'" for nd nd'
    using moves [of 0 "[nd, ?c0]" "[e, e']" nd' False] that by simp
  have dn: "?R [nd, ?c0] [node_job_done ?bid nd, ?c0]" for nd using job_done [of 0 "[nd, ?c0]" False ?bid "[e, e']"] by simp
  let ?n1 = "?c0\<lparr>io_is_running := True, io_stage := Server_starting, io_cms := construct_entries 1, io_listeners := [False]\<rparr>"
  let ?n2 = "?n1\<lparr>io_listeners := [True]\<rparr>"
  let ?n3 = "server_started e ?n2"
  let ?b4 = "no_barriers\<lparr>global_sems := [?bid \<mapsto> \<lparr>sem_count = 0, sem_wait_state = Resolved\<rparr>]\<rparr>"
  let ?n4 = "?n3\<lparr>io_calls := [], io_barriers := ?b4\<rparr>"
  let ?b5 = "no_barriers\<lparr>global_sems := [?bid \<mapsto> \<lparr>sem_count = 0, sem_wait_state = No_wait\<rparr>], barrier_jobs := [?bid]\<rparr>"
  let ?n5 = "?n4\<lparr>io_barriers := ?b5\<rparr>"
  let ?n6 = "node_job_done ?bid ?n5"
  note [simp] = io_node_new_def e
  have "node_step e ?c0 ?n1" by (rule starts) (simp add: start_and_connect_def)
  moreover have "node_step e ?n1 ?n2" using listens [of ?n1 0 e] by (simp add: open_listener_def)
  moreover have "node_step e ?n2 ?n3" by (rule servers) simp_all
  moreover have "node_step e ?n3 ?n4"
    using arrives [of ?n3 ?bid "[]" 0 "[]" e ?b4]
    by (simp add: server_started_def global_barrier_def Let_def sem_defs no_barriers_def)
  moreover have "node_step e ?n4 ?n5"
    using continues [of ?bid ?n4 ?b5 e] by (simp add: global_barrier_continue_def global_barrier_job_def no_barriers_def)
  moreover have "node_step e ?n6 (?n6\<lparr>io_stage := Connecting\<rparr>)"
    using passes [of ?n6 ?bid e] by (simp add: node_job_done_def global_barrier_done_def server_started_def)
  ultimately have "?R\<^sup>*\<^sup>* [?c0, ?c0] [?n6\<lparr>io_stage := Connecting\<rparr>, ?c0]"
    by (meson mv dn r_into_rtranclp rtranclp_trans)
  then show ?thesis
    by (intro exI [of _ "?n6\<lparr>io_stage := Connecting\<rparr>"]) (simp add: cluster_reach_def numeral_2_eq_2)
qed

end
