(* ===== verification/Connection_Shutdown.thy ===== *)
theory Connection_Shutdown
  imports Hiactor_Prelude
begin

text \<open>
  The loops of the connection managers while the machines run and stop (\<open>run_senders\<close>, \<open>run_receivers\<close>,
  \<open>close_out_streams\<close> and \<open>stop\<close> of \<open>net/connection.cc\<close>). The managers of all shards of all machines are numbered, and a
  connection is an edge between two of them. The theories Connection\_Setup and Actor\_Message say what a stop
  does to the buffers and how a message becomes bytes; here a message is a token, and what matters is which
  loop waits for whom. A stream hands over what was written to it in order, and its end after it was closed.
\<close>

section \<open>The managers and their connections\<close>

text \<open>The two ends of every connection, and whether an end is the one its manager sends on: of
  several connections to the same machine only the one that \<open>find\<close> returns has a sender.\<close>

record connection_edge =
  edge_a :: nat
  edge_b :: nat
  sends_a :: bool
  sends_b :: bool

type_synonym network = "connection_edge list"

text \<open>An end of a connection is a manager with the number of the connection.\<close>

type_synonym side = "nat \<times> nat"

fun peer :: "network \<Rightarrow> side \<Rightarrow> side" where
  "peer net (m, c) = (if m = edge_a (net ! c) then edge_b (net ! c) else edge_a (net ! c), c)"

fun is_side :: "network \<Rightarrow> side \<Rightarrow> bool" where
  "is_side net (m, c) \<longleftrightarrow> c < length net \<and> (m = edge_a (net ! c) \<or> m = edge_b (net ! c))"

fun has_sender :: "network \<Rightarrow> side \<Rightarrow> bool" where
  "has_sender net (m, c) \<longleftrightarrow> is_side net (m, c) \<and> (if m = edge_a (net ! c) then sends_a (net ! c) else sends_b (net ! c))"

definition network_ok :: "network \<Rightarrow> bool" where
  "network_ok net \<longleftrightarrow> list_all (\<lambda>e. edge_a e \<noteq> edge_b e) net"

text \<open>\<open>buffered\<close> is the buffer of the sender of an end, \<open>stream\<close> what was written at an end and not read at the
  other, \<open>received\<close> what an end gave to the actor system.\<close>

record 'm loops =
  aborted :: "nat \<Rightarrow> bool"
  buffered :: "side \<Rightarrow> 'm list"
  sender_up :: "side \<Rightarrow> bool"
  stream :: "side \<Rightarrow> 'm list"
  out_closed :: "nat \<Rightarrow> bool"
  receiver_up :: "side \<Rightarrow> bool"
  received :: "side \<Rightarrow> 'm list"

definition loops_start :: "network \<Rightarrow> 'm loops" where
  "loops_start net = \<lparr>aborted = (\<lambda>m. False), buffered = (\<lambda>x. []), sender_up = has_sender net, stream = (\<lambda>x. []),
     out_closed = (\<lambda>m. False), receiver_up = is_side net, received = (\<lambda>x. [])\<rparr>"

section \<open>The operations\<close>

text \<open>A message for a machine is put into the buffer of its sender.\<close>

definition enqueue :: "side \<Rightarrow> 'm \<Rightarrow> 'm loops \<Rightarrow> 'm loops" where
  "enqueue x msg s = s\<lparr>buffered := (buffered s)(x := buffered s x @ [msg])\<rparr>"

text \<open>An iteration of a sender: \<open>pop_eventually\<close> fails after an abort, otherwise the message is written. Writing
  fails when the other end has closed its input, and the failure ends the loop.\<close>

definition sender_iterates :: "network \<Rightarrow> side \<Rightarrow> 'm loops \<Rightarrow> 'm loops" where
  "sender_iterates net x s =
     (if aborted s (fst x) then s\<lparr>sender_up := (sender_up s)(x := False)\<rparr>
      else case buffered s x of
          [] \<Rightarrow> s
        | msg # msgs \<Rightarrow>
            if receiver_up s (peer net x)
            then s\<lparr>buffered := (buffered s)(x := msgs), stream := (stream s)(x := stream s x @ [msg])\<rparr>
            else s\<lparr>buffered := (buffered s)(x := msgs), sender_up := (sender_up s)(x := False)\<rparr>)"

text \<open>When all senders of a manager have ended, the output streams of all its connections are closed.\<close>

definition close_out_streams :: "nat \<Rightarrow> 'm loops \<Rightarrow> 'm loops" where
  "close_out_streams m s = s\<lparr>out_closed := (out_closed s)(m := True)\<rparr>"

text \<open>What a receiver does when its read resolves, with a message or at the end of the stream.\<close>

definition receiver_reads :: "network \<Rightarrow> side \<Rightarrow> 'm loops \<Rightarrow> 'm loops" where
  "receiver_reads net x s =
     (case stream s (peer net x) of
        msg # msgs \<Rightarrow>
          (let s1 = s\<lparr>stream := (stream s)(peer net x := msgs)\<rparr>
           in if aborted s (fst x) then s1\<lparr>receiver_up := (receiver_up s)(x := False)\<rparr>
              else s1\<lparr>received := (received s)(x := received s x @ [msg])\<rparr>)
      | [] \<Rightarrow> if out_closed s (fst (peer net x)) then s\<lparr>receiver_up := (receiver_up s)(x := False)\<rparr> else s)"

text \<open>\<open>stop\<close>; the buffers are aborted, which deletes what is in them.\<close>

definition manager_stop :: "nat \<Rightarrow> 'm loops \<Rightarrow> 'm loops" where
  "manager_stop m s = s\<lparr>aborted := (aborted s)(m := True), buffered := (\<lambda>x. if fst x = m then [] else buffered s x)\<rparr>"

text \<open>The future of \<open>stop\<close> resolves when both kinds of loops have ended.\<close>

definition stop_resolved :: "network \<Rightarrow> nat \<Rightarrow> 'm loops \<Rightarrow> bool" where
  "stop_resolved net m s \<longleftrightarrow> aborted s m \<and> out_closed s m \<and>
     (\<forall>c < length net. \<not> sender_up s (m, c) \<and> \<not> receiver_up s (m, c))"

text \<open>The steps, each of one manager.\<close>

inductive loops_step :: "network \<Rightarrow> nat \<Rightarrow> 'm loops \<Rightarrow> 'm loops \<Rightarrow> bool" for net where
  enqueues: "has_sender net (m, c) \<Longrightarrow> \<not> aborted s m \<Longrightarrow> loops_step net m s (enqueue (m, c) msg s)"
| sends: "sender_up s (m, c) \<Longrightarrow> loops_step net m s (sender_iterates net (m, c) s)"
| closes: "\<forall>c < length net. \<not> sender_up s (m, c) \<Longrightarrow> loops_step net m s (close_out_streams m s)"
| receives: "receiver_up s (m, c) \<Longrightarrow> loops_step net m s (receiver_reads net (m, c) s)"
| stops: "\<not> aborted s m \<Longrightarrow> loops_step net m s (manager_stop m s)"

inductive loops_reach :: "network \<Rightarrow> 'm loops \<Rightarrow> bool" for net where
  start: "loops_reach net (loops_start net)"
| step: "loops_reach net s \<Longrightarrow> loops_step net m s s' \<Longrightarrow> loops_reach net s'"

lemmas loop_defs = enqueue_def sender_iterates_def close_out_streams_def receiver_reads_def manager_stop_def

lemma peer_peer: "network_ok net \<Longrightarrow> is_side net x \<Longrightarrow> is_side net (peer net x) \<and> peer net (peer net x) = x \<and> fst (peer net x) \<noteq> fst x"
  by (cases x) (auto simp: network_ok_def list_all_length)

section \<open>When all managers stop\<close>

definition managers_of :: "network \<Rightarrow> nat set" where
  "managers_of net = edge_a ` set net \<union> edge_b ` set net"

definition sides_of :: "network \<Rightarrow> side set" where
  "sides_of net = {x \<in> managers_of net \<times> {..<length net}. is_side net x}"

lemma finite_sets: "finite (managers_of net)" "finite (sides_of net)"
  by (simp_all add: managers_of_def sides_of_def)

lemma is_side_in: "is_side net x \<longleftrightarrow> x \<in> sides_of net"
  by (cases x) (auto simp: sides_of_def managers_of_def)

lemma side_manager: "is_side net (m, c) \<Longrightarrow> m \<in> managers_of net"
  by (auto simp: managers_of_def)

definition loops_inv :: "network \<Rightarrow> 'm loops \<Rightarrow> bool" where
  "loops_inv net s \<longleftrightarrow> (\<forall>x. sender_up s x \<longrightarrow> is_side net x) \<and> (\<forall>x. receiver_up s x \<longrightarrow> is_side net x)"

lemma loops_step_frame:
  assumes "loops_step net m s s'"
  shows "\<forall>x. sender_up s' x \<longrightarrow> sender_up s x" and "\<forall>x. receiver_up s' x \<longrightarrow> receiver_up s x"
    and "\<forall>k. aborted s k \<longrightarrow> aborted s' k" and "\<forall>k. out_closed s k \<longrightarrow> out_closed s' k"
    and "\<forall>k. k \<noteq> m \<longrightarrow> aborted s' k = aborted s k \<and> out_closed s' k = out_closed s k"
    and "\<forall>x. fst x \<noteq> m \<longrightarrow> receiver_up s' x = receiver_up s x"
    and "\<forall>x. fst x \<noteq> m \<longrightarrow> stream s x = [] \<longrightarrow> stream s' x = []"
  using assms by (cases; auto simp: loop_defs Let_def split: list.splits if_splits)+

lemma loops_reach_inv: "loops_reach net s \<Longrightarrow> loops_inv net s"
proof (induction rule: loops_reach.induct)
  case start
  have "has_sender net x \<Longrightarrow> is_side net x" for x by (cases x) auto
  then show ?case by (simp add: loops_inv_def loops_start_def)
next
  case (step s m s')
  then show ?case using loops_step_frame(1,2) [OF step.hyps(2)] unfolding loops_inv_def by blast
qed

definition loops_left :: "network \<Rightarrow> 'm loops \<Rightarrow> nat" where
  "loops_left net s = card {x \<in> sides_of net. sender_up s x} + card {m \<in> managers_of net. \<not> out_closed s m} +
     card {x \<in> sides_of net. receiver_up s x}"

lemma card_flag_less:
  assumes "finite A" and "x \<in> A" and "P x" and "\<not> Q x" and "\<And>y. y \<noteq> x \<Longrightarrow> Q y = P y"
  shows "card {y \<in> A. Q y} < card {y \<in> A. P y}"
proof (rule psubset_card_mono)
  have "P y" if "Q y" for y using that assms(3,5) by (cases "y = x") auto
  then show "{y \<in> A. Q y} \<subset> {y \<in> A. P y}" using assms(2-4) by blast
qed (use assms(1) in simp)

definition any_step :: "network \<Rightarrow> 'm loops \<Rightarrow> 'm loops \<Rightarrow> bool" where
  "any_step net s s' \<longleftrightarrow> (\<exists>m. loops_step net m s s')"

lemma loops_progress:
  assumes ok: "network_ok net" and inv: "loops_inv net s" and ab: "\<forall>m \<in> managers_of net. aborted s m"
    and left: "m \<in> managers_of net" "\<not> stop_resolved net m s"
  shows "\<exists>s'. any_step net s s' \<and> loops_left net s' < loops_left net s"
proof -
  consider (sender) x where "sender_up s x" | (out) "\<forall>x. \<not> sender_up s x" "\<exists>k \<in> managers_of net. \<not> out_closed s k"
    | (receiver) x where "\<forall>x. \<not> sender_up s x" "\<forall>k \<in> managers_of net. out_closed s k" "receiver_up s x"
    using ab left unfolding stop_resolved_def by blast
  then show ?thesis
  proof cases
    case sender
    obtain k c where x: "x = (k, c)" by (cases x)
    have side: "is_side net x" using inv sender unfolding loops_inv_def by blast
    then have k: "aborted s k" using ab side_manager [of net k c] x by simp
    let ?s = "sender_iterates net (k, c) s"
    have s': "?s = s\<lparr>sender_up := (sender_up s)(x := False)\<rparr>" using k by (simp add: sender_iterates_def x)
    have "card {y \<in> sides_of net. sender_up ?s y} < card {y \<in> sides_of net. sender_up s y}"
      using side sender unfolding is_side_in s' by (intro card_flag_less [OF finite_sets(2)]) auto
    then have "loops_left net ?s < loops_left net s" by (simp add: loops_left_def s')
    moreover have "any_step net s ?s" using sends [of s k c net] sender x by (auto simp: any_step_def)
    ultimately show ?thesis by blast
  next
    case out
    then obtain k where k: "k \<in> managers_of net" "\<not> out_closed s k" by blast
    let ?s = "close_out_streams k s"
    have "card {m \<in> managers_of net. \<not> out_closed ?s m} < card {m \<in> managers_of net. \<not> out_closed s m}"
      using k by (intro card_flag_less [OF finite_sets(1)]) (auto simp: close_out_streams_def)
    then have "loops_left net ?s < loops_left net s" by (simp add: loops_left_def close_out_streams_def)
    moreover have "any_step net s ?s" using closes [of net s k] out by (auto simp: any_step_def)
    ultimately show ?thesis by blast
  next
    case receiver
    obtain k c where x: "x = (k, c)" by (cases x)
    have side: "is_side net x" using inv receiver(3) unfolding loops_inv_def by blast
    then have k: "aborted s k" using ab side_manager [of net k c] x by simp
    obtain k' c' where px: "peer net x = (k', c')" by (cases "peer net x")
    have "is_side net (k', c')" using peer_peer [OF ok side] px by simp
    then have p: "out_closed s (fst (peer net x))" using receiver(2) side_manager [of net k' c'] px by simp
    let ?s = "receiver_reads net x s"
    have s': "receiver_up ?s = (receiver_up s)(x := False)" "sender_up ?s = sender_up s" "out_closed ?s = out_closed s"
      using k p x by (auto simp: receiver_reads_def Let_def split: list.splits)
    have "card {y \<in> sides_of net. receiver_up ?s y} < card {y \<in> sides_of net. receiver_up s y}"
      using side receiver(3) unfolding is_side_in s' by (intro card_flag_less [OF finite_sets(2)]) auto
    then have "loops_left net ?s < loops_left net s" by (simp add: loops_left_def s')
    moreover have "any_step net s ?s" using receives [of s k c net] receiver(3) x by (auto simp: any_step_def)
    ultimately show ?thesis by blast
  qed
qed

lemma stops_complete:
  assumes ok: "network_ok net"
  shows "loops_inv net s \<Longrightarrow> \<forall>m \<in> managers_of net. aborted s m \<Longrightarrow>
    \<exists>s'. (any_step net)\<^sup>*\<^sup>* s s' \<and> (\<forall>m \<in> managers_of net. stop_resolved net m s')"
proof (induction "loops_left net s" arbitrary: s rule: less_induct)
  case less
  show ?case
  proof (cases "\<forall>m \<in> managers_of net. stop_resolved net m s")
    case True
    then show ?thesis by blast
  next
    case False
    then obtain s1 where s1: "any_step net s s1" "loops_left net s1 < loops_left net s"
      using loops_progress [OF ok less.prems] by blast
    from s1(1) obtain k where k: "loops_step net k s s1" by (auto simp: any_step_def)
    have "loops_inv net s1" "\<forall>m \<in> managers_of net. aborted s1 m"
      using loops_step_frame(1,2,3) [OF k] less.prems unfolding loops_inv_def by blast+
    from less.hyps [OF s1(2) this] obtain s' where "(any_step net)\<^sup>*\<^sup>* s1 s'" "\<forall>m \<in> managers_of net. stop_resolved net m s'" by blast
    then show ?thesis using converse_rtranclp_into_rtranclp [of "any_step net", OF s1(1)] by blast
  qed
qed

section \<open>When a peer does not\<close>

definition step_without :: "network \<Rightarrow> nat \<Rightarrow> 'm loops \<Rightarrow> 'm loops \<Rightarrow> bool" where
  "step_without net p s s' \<longleftrightarrow> (\<exists>m. m \<noteq> p \<and> loops_step net m s s')"

text \<open>A receiver whose read is pending, with nothing to come from its peer.\<close>

definition pending_read :: "network \<Rightarrow> side \<Rightarrow> 'm loops \<Rightarrow> bool" where
  "pending_read net x s \<longleftrightarrow> is_side net x \<and> receiver_up s x \<and> stream s (peer net x) = [] \<and> \<not> out_closed s (fst (peer net x))"

lemma pending_read_step:
  assumes ok: "network_ok net" and "pending_read net x s" and "loops_step net m s s'" and "m \<noteq> fst (peer net x)"
  shows "pending_read net x s'"
proof -
  have side: "is_side net x" and p: "receiver_up s x" "stream s (peer net x) = []" "\<not> out_closed s (fst (peer net x))"
    using assms(2) by (simp_all add: pending_read_def)
  note f = loops_step_frame(5,7) [OF assms(3)]
  have "receiver_up s' x"
    using assms(3)
  proof cases
    case (receives c)
    have "receiver_reads net (m, c) s = s" if "x = (m, c)" using that p by (simp add: receiver_reads_def)
    then show ?thesis using receives(1) p(1) by (cases "x = (m, c)") (auto simp: receiver_reads_def Let_def split: list.splits if_splits)
  qed (use p(1) in \<open>auto simp: loop_defs split: list.splits\<close>)
  moreover have "stream s' (peer net x) = []" "\<not> out_closed s' (fst (peer net x))" using f assms(4) p(2,3) by metis+
  ultimately show ?thesis using side unfolding pending_read_def by blast
qed

lemma pending_read_waits:
  assumes "network_ok net" and "(step_without net (fst (peer net x)))\<^sup>*\<^sup>* s s'" and "pending_read net x s"
  shows "pending_read net x s'"
  using assms(2,3)
proof (induction rule: rtranclp_induct)
  case (step y z)
  then show ?case using pending_read_step [OF assms(1)] unfolding step_without_def by blast
qed simp


text \<open>Two managers with two connections, of which one has senders.\<close>

definition example_network :: network where
  "example_network = [\<lparr>edge_a = 0, edge_b = 1, sends_a = True, sends_b = True\<rparr>, \<lparr>edge_a = 0, edge_b = 1, sends_a = False, sends_b = False\<rparr>]"


end
