(* ===== verification/Sleep_Protocol.thy ===== *)
theory Sleep_Protocol
  imports Hiactor_Prelude
begin

text \<open>
  How a reactor goes to sleep and how a sender wakes it (\<open>actor_smp_pollfn::try_enter_interrupt_mode\<close> and
  \<open>exit_interrupt_mode\<close> of \<open>core/actor_pollfn.hh\<close>, \<open>lf_queue::maybe_wakeup\<close> of \<open>core/local_channel.cc\<close> and
  of \<open>net/network_channel.cc\<close>, which is the same code). The receiving shard announces in \<open>_sleeping\<close> that
  it is about to sleep, executes a barrier on all cores, polls all its queues once more and sleeps if
  they were empty. A sender pushes, reads \<open>_sleeping\<close>, and if it is set clears it and wakes the reactor.
  Neither side takes a lock, and a push may still be in the store buffer of the sender's core when the
  sender reads \<open>_sleeping\<close>: every instruction is a step of its own, a push becomes visible in a later step,
  and the barrier makes all earlier pushes visible. The wake-up of the reactor is latched: a sleep that
  starts with a wake-up pending ends at once. The \<open>n\<close> queues are those of the two channels that the
  shard receives from.
\<close>

section \<open>State\<close>

text \<open>Where a sender is in \<open>move_pending\<close>: before it, after the push, after having read \<open>true\<close> from
  \<open>_sleeping\<close>, after having cleared it.\<close>

datatype tx_pc = Tx_idle | Tx_pushed | Tx_saw_sleeping | Tx_cleared

text \<open>Where the receiver is: running; after the store of \<open>_sleeping\<close>; in the last \<open>poll\<close>, with the number
  of queues polled and whether a message was found; asleep.\<close>

datatype rx_pc = Rx_running | Rx_announced | Rx_polling nat bool | Rx_asleep

record sleep_state =
  sleeping :: bool
  wakeup_pending :: bool
  rx_at :: rx_pc
  tx_at :: "nat \<Rightarrow> tx_pc"
  buffered :: "nat \<Rightarrow> nat"
  visible :: "nat \<Rightarrow> nat"

definition sleep_init :: sleep_state where
  "sleep_init = \<lparr>sleeping = False, wakeup_pending = False, rx_at = Rx_running, tx_at = (\<lambda>i. Tx_idle),
     buffered = (\<lambda>i. 0), visible = (\<lambda>i. 0)\<rparr>"

definition drain_buffer :: "nat \<Rightarrow> sleep_state \<Rightarrow> sleep_state" where
  "drain_buffer i a = a\<lparr>visible := (visible a)(i := visible a i + buffered a i), buffered := (buffered a)(i := 0)\<rparr>"

definition drain_all :: "sleep_state \<Rightarrow> sleep_state" where
  "drain_all a = a\<lparr>visible := (\<lambda>i. visible a i + buffered a i), buffered := (\<lambda>i. 0)\<rparr>"

section \<open>Steps\<close>

text \<open>The sender: the push of \<open>k\<close> messages, and \<open>maybe_wakeup\<close> in three steps. Waking the reactor is a
  system call with a locked instruction, which empties the store buffer.\<close>

inductive maybe_wakeup_step :: "nat \<Rightarrow> sleep_state \<Rightarrow> sleep_state \<Rightarrow> bool" for n where
  push: "i < n \<Longrightarrow> tx_at a i = Tx_idle \<Longrightarrow> 0 < k \<Longrightarrow>
    maybe_wakeup_step n a (a\<lparr>buffered := (buffered a)(i := buffered a i + k), tx_at := (tx_at a)(i := Tx_pushed)\<rparr>)"
| reach_memory: "i < n \<Longrightarrow> maybe_wakeup_step n a (drain_buffer i a)"
| load: "i < n \<Longrightarrow> tx_at a i = Tx_pushed \<Longrightarrow>
    maybe_wakeup_step n a (a\<lparr>tx_at := (tx_at a)(i := if sleeping a then Tx_saw_sleeping else Tx_idle)\<rparr>)"
| store: "i < n \<Longrightarrow> tx_at a i = Tx_saw_sleeping \<Longrightarrow>
    maybe_wakeup_step n a (a\<lparr>sleeping := False, tx_at := (tx_at a)(i := Tx_cleared)\<rparr>)"
| wakeup: "i < n \<Longrightarrow> tx_at a i = Tx_cleared \<Longrightarrow>
    maybe_wakeup_step n a ((drain_buffer i a)\<lparr>wakeup_pending := True, tx_at := (tx_at a)(i := Tx_idle)\<rparr>)"

text \<open>The receiver: it polls while it runs; to sleep it announces, executes the barrier (which may fail),
  polls every queue in turn, and sleeps if nothing was found; it leaves its sleep when it is woken up or
  for another reason, such as a timer.\<close>

inductive interrupt_mode_step :: "nat \<Rightarrow> sleep_state \<Rightarrow> sleep_state \<Rightarrow> bool" for n where
  poll: "rx_at a = Rx_running \<Longrightarrow> interrupt_mode_step n a (a\<lparr>visible := (visible a)(i := 0)\<rparr>)"
| announce: "rx_at a = Rx_running \<Longrightarrow> interrupt_mode_step n a (a\<lparr>sleeping := True, rx_at := Rx_announced\<rparr>)"
| no_barrier: "rx_at a = Rx_announced \<Longrightarrow> interrupt_mode_step n a (a\<lparr>sleeping := False, rx_at := Rx_running\<rparr>)"
| barrier: "rx_at a = Rx_announced \<Longrightarrow> interrupt_mode_step n a ((drain_all a)\<lparr>rx_at := Rx_polling 0 False\<rparr>)"
| last_poll: "rx_at a = Rx_polling k got \<Longrightarrow> k < n \<Longrightarrow>
    interrupt_mode_step n a (a\<lparr>visible := (visible a)(k := 0), rx_at := Rx_polling (Suc k) (got \<or> visible a k \<noteq> 0)\<rparr>)"
| raced: "rx_at a = Rx_polling n True \<Longrightarrow> interrupt_mode_step n a (a\<lparr>sleeping := False, rx_at := Rx_running\<rparr>)"
| sleep: "rx_at a = Rx_polling n False \<Longrightarrow> interrupt_mode_step n a (a\<lparr>rx_at := Rx_asleep\<rparr>)"
| woken: "rx_at a = Rx_asleep \<Longrightarrow> wakeup_pending a \<Longrightarrow>
    interrupt_mode_step n a (a\<lparr>wakeup_pending := False, sleeping := False, rx_at := Rx_running\<rparr>)"
| other_event: "rx_at a = Rx_asleep \<Longrightarrow> interrupt_mode_step n a (a\<lparr>sleeping := False, rx_at := Rx_running\<rparr>)"

inductive sleep_reachable :: "nat \<Rightarrow> sleep_state \<Rightarrow> bool" for n where
  start: "sleep_reachable n sleep_init"
| sender: "sleep_reachable n a \<Longrightarrow> maybe_wakeup_step n a b \<Longrightarrow> sleep_reachable n b"
| receiver: "sleep_reachable n a \<Longrightarrow> interrupt_mode_step n a b \<Longrightarrow> sleep_reachable n b"


section \<open>No wake-up is lost\<close>

text \<open>Some sender has already seen \<open>_sleeping\<close> and is going to wake the reactor, or has done so.\<close>

definition will_wake :: "nat \<Rightarrow> sleep_state \<Rightarrow> bool" where
  "will_wake n a \<longleftrightarrow> wakeup_pending a \<or> (\<exists>j<n. tx_at a j \<in> {Tx_saw_sleeping, Tx_cleared})"

text \<open>The queues whose messages the last \<open>poll\<close> would not find any more.\<close>

fun missed :: "rx_pc \<Rightarrow> sleep_state \<Rightarrow> nat \<Rightarrow> bool" where
  "missed Rx_running a i = False"
| "missed Rx_announced a i = False"
| "missed (Rx_polling k got) a i = (0 < buffered a i \<or> i < k \<and> 0 < visible a i)"
| "missed Rx_asleep a i = (0 < buffered a i \<or> 0 < visible a i)"

definition sleep_inv :: "nat \<Rightarrow> sleep_state \<Rightarrow> bool" where
  "sleep_inv n a \<longleftrightarrow> (\<forall>i\<ge>n. buffered a i = 0 \<and> visible a i = 0) \<and>
     (rx_at a \<noteq> Rx_running \<longrightarrow> sleeping a \<or> will_wake n a) \<and>
     (\<forall>i<n. missed (rx_at a) a i \<longrightarrow> will_wake n a \<or> sleeping a \<and> tx_at a i = Tx_pushed)"

lemma sleep_invI:
  assumes "\<And>i. n \<le> i \<Longrightarrow> buffered a i = 0 \<and> visible a i = 0"
    and "rx_at a \<noteq> Rx_running \<Longrightarrow> sleeping a \<or> will_wake n a"
    and "\<And>i. i < n \<Longrightarrow> missed (rx_at a) a i \<Longrightarrow> will_wake n a \<or> sleeping a \<and> tx_at a i = Tx_pushed"
  shows "sleep_inv n a"
  using assms by (simp add: sleep_inv_def)

lemma missed_cong: "buffered b i = buffered a i \<Longrightarrow> visible b i = visible a i \<Longrightarrow> missed p b i = missed p a i"
  by (cases p) simp_all

lemma missed_drain: "missed p (drain_buffer j a) i \<Longrightarrow> missed p a i"
  by (cases p) (auto simp: drain_buffer_def split: if_splits)

lemma will_wakeI: "wakeup_pending a \<Longrightarrow> will_wake n a"
  "j < n \<Longrightarrow> tx_at a j = Tx_saw_sleeping \<Longrightarrow> will_wake n a"
  "j < n \<Longrightarrow> tx_at a j = Tx_cleared \<Longrightarrow> will_wake n a"
  by (auto simp: will_wake_def)

lemma will_wake_keep:
  assumes "will_wake n a" "wakeup_pending b = wakeup_pending a"
    and "\<And>j. tx_at a j \<in> {Tx_saw_sleeping, Tx_cleared} \<Longrightarrow> tx_at b j = tx_at a j"
  shows "will_wake n b"
  using assms unfolding will_wake_def by metis

lemma sleep_invD:
  assumes "sleep_inv n a"
  shows "n \<le> i \<Longrightarrow> buffered a i = 0 \<and> visible a i = 0"
    and "rx_at a \<noteq> Rx_running \<Longrightarrow> sleeping a \<or> will_wake n a"
    and "i < n \<Longrightarrow> missed (rx_at a) a i \<Longrightarrow> will_wake n a \<or> sleeping a \<and> tx_at a i = Tx_pushed"
  using assms by (auto simp: sleep_inv_def)

lemma missed_not_running: "missed p a i \<Longrightarrow> p \<noteq> Rx_running"
  by (cases p) simp_all

lemma sender_keeps_inv:
  assumes "sleep_inv n a" and "maybe_wakeup_step n a b"
  shows "sleep_inv n b"
  using assms(2)
proof (cases rule: maybe_wakeup_step.cases)
  case (push i k)
  have w: "will_wake n a \<Longrightarrow> will_wake n b" by (erule will_wake_keep) (use push in auto)
  show ?thesis
  proof (rule sleep_invI)
    show "buffered b j = 0 \<and> visible b j = 0" if "n \<le> j" for j using sleep_invD(1) [OF assms(1) that] push that by simp
    show r: "sleeping b \<or> will_wake n b" if "rx_at b \<noteq> Rx_running" using sleep_invD(2) [OF assms(1)] that w push by auto
    show "will_wake n b \<or> sleeping b \<and> tx_at b j = Tx_pushed" if "j < n" "missed (rx_at b) b j" for j
    proof (cases "j = i")
      case True
      then show ?thesis using r missed_not_running [OF that(2)] push by auto
    next
      case False
      then have "missed (rx_at a) a j" using that(2) push missed_cong [of b j a "rx_at a"] by simp
      then show ?thesis using sleep_invD(3) [OF assms(1) that(1)] w push False by auto
    qed
  qed
next
  case (reach_memory i)
  have same: "tx_at b = tx_at a" "rx_at b = rx_at a" "sleeping b = sleeping a" "wakeup_pending b = wakeup_pending a"
    using reach_memory by (simp_all add: drain_buffer_def)
  then have w: "will_wake n b = will_wake n a" by (simp add: will_wake_def)
  show ?thesis
  proof (rule sleep_invI)
    show "buffered b j = 0 \<and> visible b j = 0" if "n \<le> j" for j
      using sleep_invD(1) [OF assms(1) that] reach_memory that by (simp add: drain_buffer_def)
    show "sleeping b \<or> will_wake n b" if "rx_at b \<noteq> Rx_running" using sleep_invD(2) [OF assms(1)] that same w by auto
    show "will_wake n b \<or> sleeping b \<and> tx_at b j = Tx_pushed" if "j < n" "missed (rx_at b) b j" for j
      using sleep_invD(3) [OF assms(1) that(1)] that(2) missed_drain [of "rx_at a" i a j] reach_memory same w by auto
  qed
next
  case (load i)
  have w: "will_wake n a \<Longrightarrow> will_wake n b" by (erule will_wake_keep) (use load in auto)
  have w1: "sleeping a \<Longrightarrow> will_wake n b" using load will_wakeI(2) [of i n b] by simp
  have m: "missed p b j = missed p a j" for p j using load by (intro missed_cong) simp_all
  show ?thesis
  proof (rule sleep_invI)
    show "buffered b j = 0 \<and> visible b j = 0" if "n \<le> j" for j using sleep_invD(1) [OF assms(1) that] load by simp
    show "sleeping b \<or> will_wake n b" if "rx_at b \<noteq> Rx_running" using sleep_invD(2) [OF assms(1)] that w load by auto
    show "will_wake n b \<or> sleeping b \<and> tx_at b j = Tx_pushed" if "j < n" "missed (rx_at b) b j" for j
      using sleep_invD(3) [OF assms(1) that(1)] that(2) w w1 m load by auto
  qed
next
  case (store i)
  have w: "will_wake n b" using store will_wakeI(3) [of i n b] by simp
  show ?thesis using sleep_invD(1) [OF assms(1)] w store by (intro sleep_invI) auto
next
  case (wakeup i)
  have w: "will_wake n b" using wakeup will_wakeI(1) [of b n] by simp
  show ?thesis using sleep_invD(1) [OF assms(1)] w wakeup by (intro sleep_invI) (auto simp: drain_buffer_def)
qed

lemma receiver_keeps_inv:
  assumes "sleep_inv n a" and "interrupt_mode_step n a b"
  shows "sleep_inv n b"
  using assms(2)
proof (cases rule: interrupt_mode_step.cases)
  case (barrier)
  have w: "will_wake n b = will_wake n a" using barrier by (simp add: will_wake_def drain_all_def)
  show ?thesis
    using sleep_invD(1,2) [OF assms(1)] barrier w by (intro sleep_invI) (auto simp: drain_all_def)
next
  case (last_poll k got)
  have w: "will_wake n b = will_wake n a" using last_poll by (simp add: will_wake_def)
  have m: "missed (rx_at a) a j" if "missed (rx_at b) b j" for j
    using that last_poll by (auto simp: less_Suc_eq split: if_splits)
  show ?thesis
  proof (rule sleep_invI)
    show "buffered b j = 0 \<and> visible b j = 0" if "n \<le> j" for j using sleep_invD(1) [OF assms(1) that] last_poll by simp
    show "sleeping b \<or> will_wake n b" using sleep_invD(2) [OF assms(1)] w last_poll by auto
    show "will_wake n b \<or> sleeping b \<and> tx_at b j = Tx_pushed" if "j < n" "missed (rx_at b) b j" for j
      using sleep_invD(3) [OF assms(1) that(1) m [OF that(2)]] w last_poll by auto
  qed
next
  case sleep
  have w: "will_wake n b = will_wake n a" using sleep by (simp add: will_wake_def)
  show ?thesis
  proof (rule sleep_invI)
    show "buffered b j = 0 \<and> visible b j = 0" if "n \<le> j" for j using sleep_invD(1) [OF assms(1) that] sleep by simp
    show "sleeping b \<or> will_wake n b" using sleep_invD(2) [OF assms(1)] w sleep by auto
    show "will_wake n b \<or> sleeping b \<and> tx_at b j = Tx_pushed" if "j < n" "missed (rx_at b) b j" for j
      using sleep_invD(3) [OF assms(1) that(1)] that w sleep by auto
  qed
qed (use sleep_invD(1) [OF assms(1)] in \<open>auto intro!: sleep_invI\<close>)

lemma sleep_reachable_inv: "sleep_reachable n a \<Longrightarrow> sleep_inv n a"
proof (induction rule: sleep_reachable.induct)
  case start
  show ?case by (simp add: sleep_inv_def sleep_init_def)
qed (blast intro: sender_keeps_inv receiver_keeps_inv)+

text \<open>C7: No wake-up is lost. In every state that the senders and the receiver can reach, in any
  interleaving of their instructions: if the receiver sleeps while a message is in one of its queues,
  visible or still in a store buffer, then a wake-up is pending, or a sender is inside \<open>maybe_wakeup\<close> and
  will wake the receiver, or the sender of that message is about to read \<open>_sleeping\<close>, which is set. So
  once no sender is inside \<open>move_pending\<close>, a receiver with a message never stays asleep.\<close>

theorem no_lost_wakeup:
  assumes "sleep_reachable n a" and "rx_at a = Rx_asleep" and "0 < buffered a i + visible a i"
  shows "(wakeup_pending a \<or> (\<exists>j<n. tx_at a j \<in> {Tx_saw_sleeping, Tx_cleared}) \<or> sleeping a \<and> tx_at a i = Tx_pushed) \<and>
    ((\<forall>j<n. tx_at a j = Tx_idle) \<longrightarrow> wakeup_pending a)"
proof -
  have inv: "sleep_inv n a" using assms(1) by (rule sleep_reachable_inv)
  have i: "i < n" using sleep_invD(1) [OF inv, of i] assms(3) by (cases "i < n") auto
  have "missed (rx_at a) a i" using assms(2,3) by auto
  from sleep_invD(3) [OF inv i this] show ?thesis using i by (auto simp: will_wake_def)
qed

text \<open>The race: the sender pushes after the last poll, while the receiver falls asleep.\<close>

definition race_state :: sleep_state where
  "race_state = \<lparr>sleeping = True, wakeup_pending = False, rx_at = Rx_asleep, tx_at = (\<lambda>i. Tx_idle)(0 := Tx_pushed),
     buffered = (\<lambda>i. 0)(0 := 1), visible = (\<lambda>i. 0)\<rparr>"

lemma race_reachable: "sleep_reachable 1 race_state"
proof -
  let ?s1 = "sleep_init\<lparr>sleeping := True, rx_at := Rx_announced\<rparr>"
  have 1: "sleep_reachable 1 ?s1"
    using sleep_reachable.receiver [OF sleep_reachable.start interrupt_mode_step.announce] by (simp add: sleep_init_def)
  let ?s2 = "(drain_all ?s1)\<lparr>rx_at := Rx_polling 0 False\<rparr>"
  have 2: "sleep_reachable 1 ?s2"
    by (rule sleep_reachable.receiver [OF 1 interrupt_mode_step.barrier]) simp
  let ?s3 = "?s2\<lparr>visible := (visible ?s2)(0 := 0), rx_at := Rx_polling (Suc 0) (False \<or> visible ?s2 0 \<noteq> 0)\<rparr>"
  have 3: "sleep_reachable 1 ?s3"
    by (rule sleep_reachable.receiver [OF 2 interrupt_mode_step.last_poll]) simp_all
  let ?s4 = "?s3\<lparr>rx_at := Rx_asleep\<rparr>"
  have 4: "sleep_reachable 1 ?s4"
    by (rule sleep_reachable.receiver [OF 3 interrupt_mode_step.sleep]) (simp add: sleep_init_def drain_all_def)
  have "sleep_reachable 1 (?s4\<lparr>buffered := (buffered ?s4)(0 := buffered ?s4 0 + 1), tx_at := (tx_at ?s4)(0 := Tx_pushed)\<rparr>)"
    by (rule sleep_reachable.sender [OF 4 maybe_wakeup_step.push]) (simp_all add: sleep_init_def drain_all_def)
  then show ?thesis by (simp add: race_state_def sleep_init_def drain_all_def fun_upd_idem)
qed

theorem no_lost_wakeup_witness: "sleeping race_state \<and> tx_at race_state 0 = Tx_pushed"
  using no_lost_wakeup [OF race_reachable, of 0] by (simp add: race_state_def)

end
