(* ===== verification/Gpu_Pool.thy ===== *)
theory Gpu_Pool
  imports Promise_Manager
begin

text \<open>
  The pool of GPU streams (\<open>core/gpu_resource_pool.hh\<close>, \<open>core/gpu_resource_pool.cc\<close>). Every device has a
  fixed number of streams, a lock-free queue of the ids of streams that can take another task, and a table
  of promises; every shard has a set of outstanding events per device. A submitted task takes a
  stream, launches its work, counts itself in, and gives the stream back unless it is full; the task
  that leaves a full stream gives it back. All shards do this at the same time.

  The vectors of the class that are indexed by device are one record per device. The CUDA runtime is a
  parameter: the handles it creates, and for every event whether it has completed. The promise of a task
  is the flag that it is resolved.
\<close>

section \<open>The pool\<close>

record 'h stream_unit =
  su_stream :: 'h
  su_count :: u32

record ('h, 'e) gpu_device =
  dev_streams :: "'h stream_unit list"
  candidates :: "u32 list"
  dev_prs :: "bool pr_manager"
  event_prs :: "(u32 \<times> 'e) list list"

record ('h, 'e) gpu_pool =
  gpu_devices :: "('h, 'e) gpu_device list"
  device_num :: u32
  stream_num_per_device :: u32
  event_num_per_stream :: u32

definition device_new :: "(nat \<Rightarrow> 'h) \<Rightarrow> u32 \<Rightarrow> nat \<Rightarrow> ('h, 'e) gpu_device" where
  "device_new create_stream stream_num local_shard_count =
     \<lparr>dev_streams = map (\<lambda>i. \<lparr>su_stream = create_stream i, su_count = 0\<rparr>) [0..<unat stream_num],
      candidates = map word_of_nat [0..<unat stream_num],
      dev_prs = pr_manager_new False (\<lambda>_. True),
      event_prs = replicate local_shard_count []\<rparr>"

text \<open>The command line options are optional; \<open>create_stream d\<close> is \<open>create_cuda_stream\<close> with device \<open>d\<close> set.\<close>

definition gpu_configure ::
    "(nat \<Rightarrow> nat \<Rightarrow> 'h) \<Rightarrow> u32 \<Rightarrow> u32 option \<Rightarrow> u32 option \<Rightarrow> nat \<Rightarrow> ('h, 'e) gpu_pool res" where
  "gpu_configure create_stream device_count stream_opt event_opt local_shard_count =
     (let stream_num = (case stream_opt of None \<Rightarrow> 4 | Some n \<Rightarrow> n);
          event_num = (case event_opt of None \<Rightarrow> 2 | Some n \<Rightarrow> n)
      in if device_count = 0 then Inl (Thrown ''gpu devices are not available'')
         else Inr \<lparr>gpu_devices = map (\<lambda>d. device_new (create_stream d) stream_num local_shard_count) [0..<unat device_count],
                   device_num = device_count, stream_num_per_device = stream_num, event_num_per_stream = event_num\<rparr>)"

definition gpu_stop :: "('h, 'e) gpu_pool \<Rightarrow> unit res" where
  "gpu_stop p = assert_res (list_all (\<lambda>d. list_all (\<lambda>es. es = []) (event_prs d)) (gpu_devices p)) (Inr ())"

text \<open>\<open>pop\<close> of the queue writes the id through a reference to a local variable of \<open>get_stream\<close>. The retries
  after \<open>sleep\<close> run when \<open>get_stream\<close> has returned and the variable is gone.\<close>

definition get_stream :: "bool \<Rightarrow> ('h, 'e) gpu_device \<Rightarrow> (u32 option \<times> ('h, 'e) gpu_device) res" where
  "get_stream returned d =
     (case candidates d of
        [] \<Rightarrow> Inr (None, d)
      | s # rest \<Rightarrow> if returned then Inl Null_deref else Inr (Some s, d\<lparr>candidates := rest\<rparr>))"

definition upd_stream :: "u32 \<Rightarrow> ('h stream_unit \<Rightarrow> 'h stream_unit) \<Rightarrow> ('h, 'e) gpu_device \<Rightarrow> ('h, 'e) gpu_device res" where
  "upd_stream s f d =
     (if unat s < length (dev_streams d)
      then Inr (d\<lparr>dev_streams := (dev_streams d)[unat s := f (dev_streams d ! unat s)]\<rparr>)
      else Inl Out_of_bounds)"

definition stream_count :: "u32 \<Rightarrow> ('h, 'e) gpu_device \<Rightarrow> u32" where
  "stream_count s d = su_count (dev_streams d ! unat s)"

text \<open>\<open>++(su.count) < _event_num_per_stream\<close> and \<open>(su.count)-- == _event_num_per_stream\<close>: the atomic update and
  whether the stream is to be pushed back.\<close>

definition count_in :: "u32 \<Rightarrow> u32 \<Rightarrow> ('h, 'e) gpu_device \<Rightarrow> (bool \<times> ('h, 'e) gpu_device) res" where
  "count_in limit s d =
     bind_res (upd_stream s (\<lambda>su. su\<lparr>su_count := su_count su + 1\<rparr>) d) (\<lambda>d1.
       Inr (stream_count s d1 < limit, d1))"

definition count_out :: "u32 \<Rightarrow> u32 \<Rightarrow> ('h, 'e) gpu_device \<Rightarrow> (bool \<times> ('h, 'e) gpu_device) res" where
  "count_out limit s d =
     bind_res (upd_stream s (\<lambda>su. su\<lparr>su_count := su_count su - 1\<rparr>) d) (\<lambda>d1.
       Inr (stream_count s d = limit, d1))"

definition push_candidate :: "u32 \<Rightarrow> ('h, 'e) gpu_device \<Rightarrow> ('h, 'e) gpu_device" where
  "push_candidate s d = d\<lparr>candidates := candidates d @ [s]\<rparr>"

text \<open>Two entries of an event set are equal when their promise ids are, so \<open>emplace\<close> of a second event
  with the same id does nothing.\<close>

definition emplace_event :: "u32 \<Rightarrow> 'e \<Rightarrow> (u32 \<times> 'e) list \<Rightarrow> (u32 \<times> 'e) list" where
  "emplace_event i e es = (if i \<in> fst ` set es then es else es @ [(i, e)])"

definition await_event :: "nat \<Rightarrow> 'e \<Rightarrow> ('h, 'e) gpu_device \<Rightarrow> (u32 \<times> ('h, 'e) gpu_device) res" where
  "await_event shard e d =
     bind_res (acquire_pr False (dev_prs d)) (\<lambda>(pr_id, prs).
       if shard < length (event_prs d)
       then Inr (pr_id, d\<lparr>dev_prs := prs, event_prs := (event_prs d)[shard := emplace_event pr_id e (event_prs d ! shard)]\<rparr>)
       else Inl Out_of_bounds)"

text \<open>The body of \<open>submit_work\<close> once a stream is there; \<open>launch\<close> stands for the user's function and the
  recording of the event.\<close>

definition run_on_stream ::
    "(u32 \<Rightarrow> 'e) \<Rightarrow> u32 \<Rightarrow> nat \<Rightarrow> u32 \<Rightarrow> ('h, 'e) gpu_device \<Rightarrow> (u32 \<times> ('h, 'e) gpu_device) res" where
  "run_on_stream launch limit shard s d =
     bind_res (count_in limit s d) (\<lambda>(again, d1).
       await_event shard (launch s) (if again then push_candidate s d1 else d1))"

definition task_done :: "u32 \<Rightarrow> u32 \<Rightarrow> u32 \<Rightarrow> ('h, 'e) gpu_device \<Rightarrow> ('h, 'e) gpu_device res" where
  "task_done limit s pr_id d =
     bind_res (remove_pr pr_id (dev_prs d)) (\<lambda>prs.
     bind_res (count_out limit s (d\<lparr>dev_prs := prs\<rparr>)) (\<lambda>(again, d1).
       Inr (if again then push_candidate s d1 else d1)))"

datatype submitted = Submitted u32 u32 | Stream_wait | Wrong_device

definition gpu_submit_work ::
    "bool \<Rightarrow> (u32 \<Rightarrow> 'e) \<Rightarrow> nat \<Rightarrow> u32 \<Rightarrow> ('h, 'e) gpu_pool \<Rightarrow> (submitted \<times> ('h, 'e) gpu_pool) res" where
  "gpu_submit_work gpu_enabled launch shard device_id p =
     assert_res gpu_enabled
       (if device_id \<ge> device_num p then Inr (Wrong_device, p)
        else if unat device_id < length (gpu_devices p) then
          bind_res (get_stream False (gpu_devices p ! unat device_id)) (\<lambda>(got, d).
            case got of
              None \<Rightarrow> Inr (Stream_wait, p)
            | Some s \<Rightarrow>
                bind_res (run_on_stream launch (event_num_per_stream p) shard s d) (\<lambda>(pr_id, d1).
                  Inr (Submitted s pr_id, p\<lparr>gpu_devices := (gpu_devices p)[unat device_id := d1]\<rparr>)))
        else Inl Out_of_bounds)"

section \<open>Polling\<close>

text \<open>One pass over the events of a shard: the promises of the completed ones are resolved, the others stay.\<close>

fun poll_events :: "('e \<Rightarrow> bool) \<Rightarrow> (u32 \<times> 'e) list \<Rightarrow> bool pr_manager \<Rightarrow> (nat \<times> (u32 \<times> 'e) list \<times> bool pr_manager) res" where
  "poll_events ready [] prs = Inr (0, [], prs)"
| "poll_events ready ((i, e) # es) prs =
     (if ready e then
        bind_res (set_pr i (\<lambda>_. True) prs) (\<lambda>prs1.
        bind_res (poll_events ready es prs1) (\<lambda>(got, es', prs2). Inr (Suc got, es', prs2)))
      else bind_res (poll_events ready es prs) (\<lambda>(got, es', prs1). Inr (got, (i, e) # es', prs1)))"

definition poll_device :: "('e \<Rightarrow> bool) \<Rightarrow> nat \<Rightarrow> ('h, 'e) gpu_device \<Rightarrow> (nat \<times> ('h, 'e) gpu_device) res" where
  "poll_device ready shard d =
     (if shard < length (event_prs d) then
        bind_res (poll_events ready (event_prs d ! shard) (dev_prs d)) (\<lambda>(got, es, prs).
          Inr (got, d\<lparr>dev_prs := prs, event_prs := (event_prs d)[shard := es]\<rparr>))
      else Inl Out_of_bounds)"

fun poll_devices :: "('e \<Rightarrow> bool) \<Rightarrow> nat \<Rightarrow> ('h, 'e) gpu_device list \<Rightarrow> (nat \<times> ('h, 'e) gpu_device list) res" where
  "poll_devices ready shard [] = Inr (0, [])"
| "poll_devices ready shard (d # ds) =
     bind_res (poll_device ready shard d) (\<lambda>(got, d1).
     bind_res (poll_devices ready shard ds) (\<lambda>(rest, ds1). Inr (got + rest, d1 # ds1)))"

definition gpu_poll_queues :: "('e \<Rightarrow> bool) \<Rightarrow> nat \<Rightarrow> ('h, 'e) gpu_pool \<Rightarrow> (bool \<times> ('h, 'e) gpu_pool) res" where
  "gpu_poll_queues ready shard p =
     bind_res (poll_devices ready shard (gpu_devices p)) (\<lambda>(got, ds). Inr (got \<noteq> 0, p\<lparr>gpu_devices := ds\<rparr>))"

fun pure_poll_devices :: "nat \<Rightarrow> ('h, 'e) gpu_device list \<Rightarrow> bool res" where
  "pure_poll_devices shard [] = Inr False"
| "pure_poll_devices shard (d # ds) =
     (if shard < length (event_prs d)
      then (if event_prs d ! shard \<noteq> [] then Inr True else pure_poll_devices shard ds)
      else Inl Out_of_bounds)"

definition gpu_pure_poll_queues :: "nat \<Rightarrow> ('h, 'e) gpu_pool \<Rightarrow> bool res" where
  "gpu_pure_poll_queues shard p = pure_poll_devices shard (gpu_devices p)"

lemma poll_events_ok:
  assumes "\<forall>x \<in> set es. unat (fst x) < length (pr_array prs)"
  shows "\<exists>prs'. poll_events ready es prs =
      Inr (length (filter (\<lambda>(i, e). ready e) es), filter (\<lambda>(i, e). \<not> ready e) es, prs') \<and>
    length (pr_array prs') = length (pr_array prs) \<and>
    (\<forall>i. get_future i prs' = (if (\<exists>e. (i, e) \<in> set es \<and> ready e) then Inr True else get_future i prs))"
  using assms
proof (induction es arbitrary: prs)
  case Nil
  then show ?case by simp
next
  case (Cons x es)
  obtain i e where x: "x = (i, e)" by (cases x)
  have i: "unat i < length (pr_array prs)" using Cons.prems x by auto
  show ?case
  proof (cases "ready e")
    case True
    obtain prs1 where s: "set_pr i (\<lambda>_. True) prs = Inr prs1" and l: "length (pr_array prs1) = length (pr_array prs)"
      using i by (auto simp: set_pr_def upd_node_def)
    have g: "get_future j prs1 = (if j = i then Inr True else get_future j prs)" for j
      using get_future_upd [OF s [unfolded set_pr_def], of j] i by (auto simp: get_future_def get_node_def)
    have "\<forall>x \<in> set es. unat (fst x) < length (pr_array prs1)" using Cons.prems l by auto
    from Cons.IH [OF this] obtain prs2 where p: "poll_events ready es prs1 =
        Inr (length (filter (\<lambda>(i, e). ready e) es), filter (\<lambda>(i, e). \<not> ready e) es, prs2)"
      "length (pr_array prs2) = length (pr_array prs1)"
      "\<forall>i. get_future i prs2 = (if (\<exists>e. (i, e) \<in> set es \<and> ready e) then Inr True else get_future i prs1)" by blast
    show ?thesis unfolding x using True s p l g by auto
  next
    case False
    have "\<forall>x \<in> set es. unat (fst x) < length (pr_array prs)" using Cons.prems by auto
    from Cons.IH [OF this] obtain prs2 where p: "poll_events ready es prs =
        Inr (length (filter (\<lambda>(i, e). ready e) es), filter (\<lambda>(i, e). \<not> ready e) es, prs2)"
      "length (pr_array prs2) = length (pr_array prs)"
      "\<forall>i. get_future i prs2 = (if (\<exists>e. (i, e) \<in> set es \<and> ready e) then Inr True else get_future i prs)" by blast
    show ?thesis unfolding x using False p by auto
  qed
qed

section \<open>Streams shared by all shards\<close>

text \<open>The tasks of all shards on one device, as far as they deal with streams: those that took a stream
  and have not counted themselves in, those about to push a stream back, and those whose work is
  running on a stream. A step is one atomic operation of one shard.\<close>

record ('h, 'e) gpu_world =
  gw_device :: "('h, 'e) gpu_device"
  held :: "u32 list"
  returning :: "u32 list"
  running :: "u32 list"

inductive gpu_step :: "u32 \<Rightarrow> ('h, 'e) gpu_world \<Rightarrow> ('h, 'e) gpu_world \<Rightarrow> bool" for limit where
  take: "get_stream False (gw_device w) = Inr (Some s, d) \<Longrightarrow>
    gpu_step limit w (w\<lparr>gw_device := d, held := held w @ [s]\<rparr>)"
| start: "held w = us @ s # vs \<Longrightarrow> count_in limit s (gw_device w) = Inr (again, d) \<Longrightarrow>
    gpu_step limit w (w\<lparr>gw_device := d, held := us @ vs, running := running w @ [s],
      returning := returning w @ (if again then [s] else [])\<rparr>)"
| give_back: "returning w = us @ s # vs \<Longrightarrow>
    gpu_step limit w (w\<lparr>gw_device := push_candidate s (gw_device w), returning := us @ vs\<rparr>)"
| finish: "running w = us @ s # vs \<Longrightarrow> count_out limit s (gw_device w) = Inr (again, d) \<Longrightarrow>
    gpu_step limit w (w\<lparr>gw_device := d, running := us @ vs, returning := returning w @ (if again then [s] else [])\<rparr>)"
| other: "dev_streams d = dev_streams (gw_device w) \<Longrightarrow> candidates d = candidates (gw_device w) \<Longrightarrow>
    gpu_step limit w (w\<lparr>gw_device := d\<rparr>)"

definition gpu_start :: "('h, 'e) gpu_device \<Rightarrow> ('h, 'e) gpu_world" where
  "gpu_start d = \<lparr>gw_device = d, held = [], returning = [], running = []\<rparr>"

text \<open>Where a stream is: in the queue, in the hands of a task, or nowhere when it is full.\<close>

definition spare :: "u32 \<Rightarrow> ('h, 'e) gpu_world \<Rightarrow> nat" where
  "spare s w = count_list (candidates (gw_device w)) s + count_list (held w) s + count_list (returning w) s"

definition stream_inv :: "u32 \<Rightarrow> ('h, 'e) gpu_world \<Rightarrow> u32 \<Rightarrow> bool" where
  "stream_inv limit w s \<longleftrightarrow>
     (if unat s < length (dev_streams (gw_device w))
      then unat (stream_count s (gw_device w)) = count_list (running w) s \<and> stream_count s (gw_device w) \<le> limit \<and>
           spare s w = (if stream_count s (gw_device w) < limit then 1 else 0)
      else spare s w = 0 \<and> count_list (running w) s = 0)"

definition gpu_inv :: "u32 \<Rightarrow> ('h, 'e) gpu_world \<Rightarrow> bool" where
  "gpu_inv limit w \<longleftrightarrow> (\<forall>s. stream_inv limit w s)"

lemma count_list_pos: "s \<in> set xs \<Longrightarrow> 0 < count_list xs s"
  by (induction xs) auto

lemma upd_stream_ok:
  assumes "upd_stream s f d = Inr d'"
  shows "unat s < length (dev_streams d)" "length (dev_streams d') = length (dev_streams d)"
    "candidates d' = candidates d"
    "\<And>t. unat t < length (dev_streams d) \<Longrightarrow> stream_count t d' = (if t = s then su_count (f (dev_streams d ! unat s)) else stream_count t d)"
  using assms by (auto simp: upd_stream_def stream_count_def nth_list_update unat_u32_eq_iff split: if_splits)

lemma stream_inv_cong:
  assumes "stream_inv limit w t" and "length (dev_streams (gw_device w')) = length (dev_streams (gw_device w))"
    and "unat t < length (dev_streams (gw_device w)) \<Longrightarrow> stream_count t (gw_device w') = stream_count t (gw_device w)"
    and "count_list (running w') t = count_list (running w) t" and "spare t w' = spare t w"
  shows "stream_inv limit w' t"
  using assms by (simp add: stream_inv_def)

lemma gpu_inv_cong:
  assumes "gpu_inv limit w" and "dev_streams (gw_device w') = dev_streams (gw_device w)" and "running w' = running w"
    and "\<And>s. spare s w' = spare s w"
  shows "gpu_inv limit w'"
proof -
  have "stream_count s (gw_device w') = stream_count s (gw_device w)" for s
    by (simp add: stream_count_def assms(2))
  then show ?thesis using assms by (simp add: gpu_inv_def stream_inv_def)
qed

lemma gpu_inv_step:
  assumes "gpu_step limit w w'" and "gpu_inv limit w" and "0 < limit"
  shows "gpu_inv limit w'"
  using assms(1)
proof cases
  case (take s d)
  then have "candidates (gw_device w) = s # candidates d" "dev_streams d = dev_streams (gw_device w)"
    by (auto simp: get_stream_def split: list.splits)
  with take(1) show ?thesis by (intro gpu_inv_cong [OF assms(2)]) (simp_all add: spare_def)
next
  case (start us s vs again d)
  note u = start(3)
  then obtain d1 where d1: "upd_stream s (\<lambda>su. su\<lparr>su_count := su_count su + 1\<rparr>) (gw_device w) = Inr d1"
    and d: "d = d1" "again \<longleftrightarrow> stream_count s d1 < limit" by (auto simp: count_in_def bind_res_Inr_iff)
  note o = upd_stream_ok [OF d1]
  have n: "stream_count s d1 = stream_count s (gw_device w) + 1" using o(4) [OF o(1)] by (simp add: stream_count_def)
  have i: "stream_inv limit w s" using assms(2) by (simp add: gpu_inv_def)
  have "0 < count_list (held w) s" using start(2) by (intro count_list_pos) simp
  then have "stream_count s (gw_device w) < limit" using i o(1) by (auto simp: stream_inv_def spare_def split: if_splits)
  then have le: "Suc (unat (stream_count s (gw_device w))) \<le> unat limit" by (simp add: word_less_nat_alt)
  have m: "unat (stream_count s (gw_device w) + 1) = Suc (unat (stream_count s (gw_device w)))"
    using le_less_trans [OF le unat_u32_less] by (simp add: unat_word_ariths)
  then have "stream_count s (gw_device w) + 1 \<le> limit" using le by (simp add: word_le_nat_alt)
  note m = m this
  have "stream_inv limit w' t" for t
  proof (cases "t = s")
    case True
    then show ?thesis using i o(1-3) n m start(1,2) d \<open>stream_count s (gw_device w) < limit\<close>
      by (auto simp: stream_inv_def spare_def)
  next
    case False
    have "stream_inv limit w t" using assms(2) by (simp add: gpu_inv_def)
    then show ?thesis using False o(2,3) o(4) [of t] start(1,2) d
      by (elim stream_inv_cong) (simp_all add: spare_def)
  qed
  then show ?thesis by (simp add: gpu_inv_def)
next
  case (give_back us s vs)
  then show ?thesis by (intro gpu_inv_cong [OF assms(2)]) (simp_all add: spare_def push_candidate_def)
next
  case (finish us s vs again d)
  then obtain d1 where d1: "upd_stream s (\<lambda>su. su\<lparr>su_count := su_count su - 1\<rparr>) (gw_device w) = Inr d1"
    and d: "d = d1" "again \<longleftrightarrow> stream_count s (gw_device w) = limit" by (auto simp: count_out_def bind_res_Inr_iff)
  note o = upd_stream_ok [OF d1]
  have n: "stream_count s d1 = stream_count s (gw_device w) - 1" using o(4) [OF o(1)] by (simp add: stream_count_def)
  have i: "stream_inv limit w s" using assms(2) by (simp add: gpu_inv_def)
  have again: "again \<longleftrightarrow> unat (stream_count s (gw_device w)) = unat limit" by (simp add: d(2) word_unat_eq_iff)
  have r: "count_list (running w) s = Suc (count_list (us @ vs) s)" using finish(2) by simp
  then have pos: "0 < unat (stream_count s (gw_device w))" using i o(1) by (simp add: stream_inv_def)
  then have m: "unat (stream_count s (gw_device w) - 1) = unat (stream_count s (gw_device w)) - 1"
    by (metis One_nat_def Suc_leI unat_1 unat_sub_if' word_le_nat_alt)
  have "stream_inv limit w' t" for t
  proof (cases "t = s")
    case True
    then show ?thesis using i o(1-3) n m r pos finish(1,2) d(1) again
      by (auto simp: stream_inv_def spare_def word_less_nat_alt word_le_nat_alt)
  next
    case False
    have "stream_inv limit w t" using assms(2) by (simp add: gpu_inv_def)
    then show ?thesis using False o(2,3) o(4) [of t] finish(1,2) d
      by (elim stream_inv_cong) (simp_all add: spare_def)
  qed
  then show ?thesis by (simp add: gpu_inv_def)
next
  case (other d)
  then show ?thesis by (intro gpu_inv_cong [OF assms(2)]) (simp_all add: spare_def)
qed

lemma gpu_inv_reachable:
  assumes "(gpu_step limit)\<^sup>*\<^sup>* w w'" and "gpu_inv limit w" and "0 < limit"
  shows "gpu_inv limit w'"
  using assms by (induction rule: rtranclp_induct) (auto intro: gpu_inv_step)

lemma count_list_ids: "n \<le> 4294967296 \<Longrightarrow>
  count_list (map word_of_nat [0..<n]) (s :: u32) = (if unat s < n then 1 else 0)"
proof (induction n)
  case (Suc n)
  have "(word_of_nat n :: u32) = s \<longleftrightarrow> unat s = n"
    using Suc.prems by (auto simp: word_unat_eq_iff)
  with Suc show ?case by (auto simp: less_Suc_eq)
qed simp

lemma gpu_inv_start:
  assumes "0 < limit"
  shows "gpu_inv limit (gpu_start (device_new create_stream n shards))"
  unfolding gpu_inv_def
proof
  fix s
  show "stream_inv limit (gpu_start (device_new create_stream n shards)) s"
    using assms count_list_ids [of "unat n" s] less_imp_le [OF unat_u32_less [of n]]
    by (simp add: stream_inv_def spare_def gpu_start_def device_new_def stream_count_def)
qed

lemma streams_length_step: "gpu_step limit w w' \<Longrightarrow> length (dev_streams (gw_device w')) = length (dev_streams (gw_device w))"
  by (induction rule: gpu_step.induct)
    (auto simp: get_stream_def count_in_def count_out_def upd_stream_def push_candidate_def bind_res_Inr_iff split: list.splits if_splits)

lemma streams_length: "(gpu_step limit)\<^sup>*\<^sup>* w w' \<Longrightarrow> length (dev_streams (gw_device w')) = length (dev_streams (gw_device w))"
  by (induction rule: rtranclp_induct) (simp_all add: streams_length_step)

lemma count_list_le_1: "(\<And>x. count_list xs x \<le> 1) \<Longrightarrow> distinct xs"
proof (induction xs)
  case (Cons a xs)
  have "count_list xs x \<le> 1" for x using Cons.prems [of x] by (simp split: if_splits)
  moreover have "a \<notin> set xs" using Cons.prems [of a] count_list_pos [of a xs] by auto
  ultimately show ?case using Cons.IH by simp
qed simp

section \<open>Properties\<close>


text \<open>With a limit of 0 the stream of every task is lost: it is not given back when the task counts itself
  in, nor when it is done.\<close>

theorem gpu_zero_limit_loses_stream:
  assumes "unat s < length (dev_streams d)" and "su_count (dev_streams d ! unat s) = 0"
  shows "\<exists>d1 d2. count_in 0 s d = Inr (False, d1) \<and> count_out 0 s d1 = Inr (False, d2) \<and>
    candidates d2 = candidates d \<and> su_count (dev_streams d2 ! unat s) = 0"
  using assms by (simp add: count_in_def count_out_def upd_stream_def stream_count_def)

text \<open>A stream that is found by a retry of \<open>get_stream\<close> is written to a variable that no longer exists.\<close>

theorem gpu_retry_writes_dead_variable:
  "candidates d \<noteq> [] \<Longrightarrow> get_stream True d = Inl Null_deref"
  by (simp add: get_stream_def split: list.splits)

section \<open>The promise table of a device is not synchronised\<close>

text \<open>\<open>acquire_pr\<close> cut after the load of \<open>available\<close>.\<close>

definition acquire_load :: "'p pr_manager \<Rightarrow> u32" where
  "acquire_load m = available m"

definition acquire_rest :: "u32 \<Rightarrow> 'p \<Rightarrow> 'p pr_manager \<Rightarrow> (u32 \<times> 'p pr_manager) res" where
  "acquire_rest a fresh m =
     (if a = 0 then
        (let m' = m\<lparr>pr_array := pr_array m @ [pr_node_new fresh]\<rparr>
         in Inr (word_of_nat (length (pr_array m') - 1), m'))
      else
        bind_res (get_node a m) (\<lambda>n.
        bind_res (upd_node a (occupy fresh) (m\<lparr>available := next_avl n\<rparr>)) (\<lambda>m'. Inr (a, m'))))"

lemma acquire_split: "acquire_pr fresh m = acquire_rest (acquire_load m) fresh m"
  by (simp add: acquire_pr_def acquire_rest_def acquire_load_def Let_def)

text \<open>The promise table of a device is used by all shards without a lock. When two shards load the head
  of the free list before either has stored the next one, both get the same promise id: the
  second promise replaces the first, the id is off the free list once, and is given back twice.\<close>

theorem gpu_promise_table_race:
  assumes "pr_inv m" and "available m \<noteq> 0"
  shows "\<exists>m1 m2. acquire_rest (acquire_load m) p m = Inr (available m, m1) \<and>
    acquire_rest (acquire_load m) q m1 = Inr (available m, m2) \<and> get_future (available m) m2 = Inr q \<and>
    active_ids m2 = insert (available m) (active_ids m)"
proof -
  let ?i = "available m"
  from acquire_reuse [OF assms, of p] obtain m1 where m1: "acquire_pr p m = Inr (?i, m1)"
    "active_ids m1 = insert ?i (active_ids m)" by blast
  then have i: "unat ?i < length (pr_array m1)" by (auto simp: active_ids_def set_eq_iff)
  let ?m2 = "m1\<lparr>pr_array := (pr_array m1)[unat ?i := occupy q (pr_array m1 ! unat ?i)], available := next_avl (pr_array m1 ! unat ?i)\<rparr>"
  have "acquire_rest ?i q m1 = Inr (?i, ?m2)"
    using assms(2) i by (simp add: acquire_rest_def get_node_def upd_node_def)
  moreover have "active_ids ?m2 = insert ?i (active_ids m)"
    using active_ids_upd [OF i] m1(2) by (simp add: occupy_def)
  moreover have "get_future ?i ?m2 = Inr q" using i by (simp add: get_future_def get_node_def occupy_def)
  ultimately show ?thesis using m1(1) acquire_split [of p m] by (auto simp: acquire_load_def)
qed

text \<open>One stream, limit 2: a task starts, the stream goes back to the queue.\<close>

lemma gpu_example_run:
  "\<exists>w. (gpu_step 2)\<^sup>*\<^sup>* (gpu_start (device_new id 1 1 :: (nat, unit) gpu_device)) w \<and>
    running w = [0] \<and> held w = [] \<and> returning w = []"
proof -
  let ?d = "device_new id 1 1 :: (nat, unit) gpu_device"
  let ?d1 = "?d\<lparr>candidates := []\<rparr>" and ?su = "\<lparr>su_stream = 0, su_count = 1\<rparr>"
  let ?w1 = "gpu_start ?d1\<lparr>held := [0]\<rparr>"
  let ?w2 = "?w1\<lparr>gw_device := ?d1\<lparr>dev_streams := [?su]\<rparr>, held := [], running := [0], returning := [0]\<rparr>"
  have "gpu_step 2 (gpu_start ?d) (gpu_start ?d\<lparr>gw_device := ?d1, held := held (gpu_start ?d) @ [0]\<rparr>)"
    by (rule gpu_step.take) (simp add: get_stream_def gpu_start_def device_new_def)
  then have s1: "gpu_step 2 (gpu_start ?d) ?w1" by (simp add: gpu_start_def)
  have "gpu_step 2 ?w1 (?w1\<lparr>gw_device := ?d1\<lparr>dev_streams := [?su]\<rparr>, held := [] @ [], running := running ?w1 @ [0],
      returning := returning ?w1 @ (if True then [0] else [])\<rparr>)"
    by (rule gpu_step.start) (simp_all add: gpu_start_def device_new_def count_in_def upd_stream_def stream_count_def)
  then have s2: "gpu_step 2 ?w1 ?w2" by (simp add: gpu_start_def)
  have "gpu_step 2 ?w2 (?w2\<lparr>gw_device := push_candidate 0 (gw_device ?w2), returning := [] @ []\<rparr>)"
    by (rule gpu_step.give_back) simp
  then have s3: "gpu_step 2 ?w2 (?w2\<lparr>gw_device := push_candidate 0 (gw_device ?w2), returning := []\<rparr>)" by simp
  show ?thesis
    by (rule exI, rule conjI, rule converse_rtranclp_into_rtranclp [where r = "gpu_step 2", OF s1],
        rule converse_rtranclp_into_rtranclp [where r = "gpu_step 2", OF s2], rule r_into_rtranclp, rule s3) simp
qed


theorem gpu_promise_table_race_witness:
  "\<exists>m m1 m2. pr_inv m \<and> available m = 1 \<and> acquire_rest (acquire_load m) (5 :: nat) m = Inr (1, m1) \<and>
    acquire_rest (acquire_load m) 6 m1 = Inr (1, m2) \<and> get_future 1 m2 = Inr 6"
proof -
  have "pr_inv (pr_manager_new 0 id)" by (rule pr_inv_new)
  from acquire_extend [OF this, of "3::nat"] obtain i m where
    a: "acquire_pr (3::nat) (pr_manager_new 0 id) = Inr (i, m)" "unat i = 1" "pr_inv m" "i \<in> active_ids m"
    by (auto simp: pr_manager_new_def)
  have i: "i = 1" using a(2) unat_u32_eq_iff [of i 1] by simp
  from remove_ok [OF a(3,4)] obtain m' where m': "pr_inv (m' :: nat pr_manager)" "available m' = 1" by (auto simp: i)
  from gpu_promise_table_race [OF m'(1), of 5 6] m' show ?thesis by auto
qed

end
