(* ===== verification/Thread_Pool.thy ===== *)
theory Thread_Pool
  imports Hiactor_Prelude "HOL-Library.Multiset"
begin

text \<open>
  The pool of worker threads that run blocking functions for the reactors (\<open>core/thread_resource_pool.hh\<close>,
  \<open>core/thread_resource_pool.cc\<close>, \<open>thread_resource_pollfn\<close> of \<open>core/actor_pollfn.hh\<close>), and the simple pool
  of \<open>core/alien_thread_pool.hh\<close> and \<open>core/alien_thread_pool.cc\<close>. Reactors and workers run concurrently;
  every access to a shared variable is a step. The lock-free queues are lists: boost's \<open>lockfree::queue\<close> is a
  linearizable FIFO queue.
\<close>

section \<open>State\<close>

text \<open>A work item carries the shard it came from. Where a worker is in the loop of \<open>work_thread::work\<close>:
  blocked in \<open>read\<close>; running an item; after \<open>complete_work_item\<close>; after \<open>return_worker\<close>; having read \<open>true\<close> from
  the idle flag.\<close>

type_synonym 'j work_item = "nat \<times> 'j"

datatype 'j pool_pc = P_reading | P_processing "'j work_item" | P_completed | P_returned | P_waking

record 'j work_thread =
  wt_item :: "'j work_item option"
  wt_event :: nat
  wt_at :: "'j pool_pc"
  employer_shard :: nat

datatype pool_reactor_pc = PR_running | PR_announced | PR_asleep

record 'j pool =
  pool_threads :: "nat list"
  pool_workers :: "'j work_thread list"
  pool_completed :: "'j work_item list list"
  reactors_idle :: "bool list"
  pool_wakeup :: "bool list"
  pool_reactors :: "pool_reactor_pc list"
  pool_resolved :: "(nat \<times> 'j work_item) list"

definition new_work_thread :: "'j work_thread" where
  "new_work_thread = \<lparr>wt_item = None, wt_event = 0, wt_at = P_reading, employer_shard = 0\<rparr>"

definition pool_configure :: "nat \<Rightarrow> nat \<Rightarrow> 'j pool res" where
  "pool_configure local_shard_count worker_num =
     assert_res (0 < worker_num) (Inr
       \<lparr>pool_threads = [0..<worker_num], pool_workers = replicate worker_num new_work_thread,
        pool_completed = replicate local_shard_count [], reactors_idle = replicate local_shard_count False,
        pool_wakeup = replicate local_shard_count False, pool_reactors = replicate local_shard_count PR_running,
        pool_resolved = []\<rparr>)"

section \<open>Operations\<close>

definition upd_worker :: "nat \<Rightarrow> ('j work_thread \<Rightarrow> 'j work_thread) \<Rightarrow> 'j pool \<Rightarrow> 'j pool" where
  "upd_worker i f p = p\<lparr>pool_workers := (pool_workers p)[i := f (pool_workers p ! i)]\<rparr>"

text \<open>\<open>work_thread::submit\<close>; \<open>reset\<close> deletes an item that is still there.\<close>

definition wt_submit :: "nat \<Rightarrow> 'j \<Rightarrow> 'j work_thread \<Rightarrow> 'j work_thread" where
  "wt_submit s j w = w\<lparr>employer_shard := s, wt_item := Some (s, j), wt_event := wt_event w + 1\<rparr>"

text \<open>\<open>submit_work\<close> when the pool is active: take a free worker, or sleep and try again later.\<close>

definition submit_work :: "nat \<Rightarrow> 'j \<Rightarrow> 'j pool \<Rightarrow> bool \<times> 'j pool" where
  "submit_work s j p =
     (case pool_threads p of [] \<Rightarrow> (False, p)
      | i # is \<Rightarrow> (True, upd_worker i (wt_submit s j) (p\<lparr>pool_threads := is\<rparr>)))"

definition submit_work_checked :: "bool \<Rightarrow> nat \<Rightarrow> 'j \<Rightarrow> 'j pool \<Rightarrow> (bool \<times> 'j pool) res" where
  "submit_work_checked active s j p =
     (if \<not> active then Inl (Thrown ''Thread resource pool is not open.'') else Inr (submit_work s j p))"

definition complete_work_item :: "'j work_item \<Rightarrow> 'j pool \<Rightarrow> 'j pool res" where
  "complete_work_item wi p =
     assert_res (fst wi < length (pool_completed p))
       (Inr (p\<lparr>pool_completed := (pool_completed p)[fst wi := pool_completed p ! fst wi @ [wi]]\<rparr>))"

definition return_worker :: "nat \<Rightarrow> 'j pool \<Rightarrow> 'j pool" where
  "return_worker i p = p\<lparr>pool_threads := pool_threads p @ [i]\<rparr>"

text \<open>One step of worker \<open>i\<close>. The worker returns itself to the pool before it looks at \<open>_employer_shard\<close> and
  \<open>_employer\<close>.\<close>

definition wt_set_at :: "'j pool_pc \<Rightarrow> 'j work_thread \<Rightarrow> 'j work_thread" where
  "wt_set_at at w = w\<lparr>wt_at := at\<rparr>"

definition work_step :: "nat \<Rightarrow> 'j pool \<Rightarrow> 'j pool res" where
  "work_step i p =
     (if length (pool_workers p) \<le> i then Inr p
      else let w = pool_workers p ! i in
        (case wt_at w of
           P_reading \<Rightarrow>
             if wt_event w = 0 then Inr p
             else (case wt_item w of
                None \<Rightarrow> Inl Null_deref
              | Some wi \<Rightarrow> Inr (upd_worker i (\<lambda>w. w\<lparr>wt_event := 0, wt_item := None, wt_at := P_processing wi\<rparr>) p))
         | P_processing wi \<Rightarrow> bind_res (complete_work_item wi p) (\<lambda>p1. Inr (upd_worker i (wt_set_at P_completed) p1))
         | P_completed \<Rightarrow> Inr (upd_worker i (wt_set_at P_returned) (return_worker i p))
         | P_returned \<Rightarrow>
             if employer_shard w < length (reactors_idle p)
             then Inr (upd_worker i (wt_set_at (if reactors_idle p ! employer_shard w then P_waking else P_reading)) p)
             else Inl Out_of_bounds
         | P_waking \<Rightarrow>
             Inr (upd_worker i (wt_set_at P_reading) (p\<lparr>pool_wakeup := (pool_wakeup p)[employer_shard w := True]\<rparr>))))"

text \<open>The poller of reactor \<open>s\<close>.\<close>

definition pool_poll_queues :: "nat \<Rightarrow> 'j pool \<Rightarrow> (bool \<times> 'j pool) res" where
  "pool_poll_queues s p =
     (if s < length (pool_completed p) then
        Inr (pool_completed p ! s \<noteq> [],
             p\<lparr>pool_completed := (pool_completed p)[s := []],
               pool_resolved := pool_resolved p @ map (Pair s) (pool_completed p ! s)\<rparr>)
      else Inl Out_of_bounds)"

definition pool_pure_poll_queues :: "nat \<Rightarrow> 'j pool \<Rightarrow> bool res" where
  "pool_pure_poll_queues s p = (if s < length (pool_completed p) then Inr (pool_completed p ! s \<noteq> []) else Inl Out_of_bounds)"

definition pool_enter_interrupt_mode :: "nat \<Rightarrow> 'j pool \<Rightarrow> 'j pool" where
  "pool_enter_interrupt_mode s p =
     p\<lparr>reactors_idle := (reactors_idle p)[s := True], pool_reactors := (pool_reactors p)[s := PR_announced]\<rparr>"

definition pool_exit_interrupt_mode :: "nat \<Rightarrow> 'j pool \<Rightarrow> 'j pool" where
  "pool_exit_interrupt_mode s p =
     p\<lparr>reactors_idle := (reactors_idle p)[s := False], pool_reactors := (pool_reactors p)[s := PR_running],
       pool_wakeup := (pool_wakeup p)[s := False]\<rparr>"

definition pool_last_poll :: "nat \<Rightarrow> 'j pool \<Rightarrow> 'j pool res" where
  "pool_last_poll s p =
     bind_res (pool_poll_queues s p) (\<lambda>(got, p1).
       if got then Inr (p1\<lparr>reactors_idle := (reactors_idle p1)[s := False], pool_reactors := (pool_reactors p1)[s := PR_running]\<rparr>)
       else Inr (p1\<lparr>pool_reactors := (pool_reactors p1)[s := PR_asleep]\<rparr>))"

text \<open>\<open>thread_resource_pool::stop\<close>.\<close>

definition pool_stop :: "'j pool \<Rightarrow> 'j pool res" where
  "pool_stop p = assert_res (list_all (\<lambda>q. q = []) (pool_completed p)) (Inr (p\<lparr>pool_threads := []\<rparr>))"

datatype 'j pool_op = T_submit nat 'j | T_work nat | T_poll nat | T_announce nat | T_last_poll nat | T_exit nat

definition reactor_is :: "nat \<Rightarrow> pool_reactor_pc \<Rightarrow> 'j pool \<Rightarrow> bool" where
  "reactor_is s at p \<longleftrightarrow> s < length (pool_reactors p) \<and> pool_reactors p ! s = at"

text \<open>A step that is not possible in a state leaves it as it is.\<close>

fun pool_step :: "'j pool_op \<Rightarrow> 'j pool \<Rightarrow> 'j pool res" where
  "pool_step (T_submit s j) p = (if reactor_is s PR_running p then Inr (snd (submit_work s j p)) else Inr p)"
| "pool_step (T_work i) p = work_step i p"
| "pool_step (T_poll s) p =
     (if reactor_is s PR_running p then bind_res (pool_poll_queues s p) (\<lambda>(got, p1). Inr p1) else Inr p)"
| "pool_step (T_announce s) p = (if reactor_is s PR_running p then Inr (pool_enter_interrupt_mode s p) else Inr p)"
| "pool_step (T_last_poll s) p = (if reactor_is s PR_announced p then pool_last_poll s p else Inr p)"
| "pool_step (T_exit s) p = (if reactor_is s PR_asleep p then Inr (pool_exit_interrupt_mode s p) else Inr p)"

section \<open>The invariant\<close>

definition wt_jobs :: "'j work_thread \<Rightarrow> 'j work_item list" where
  "wt_jobs w = (case wt_item w of None \<Rightarrow> [] | Some wi \<Rightarrow> [wi]) @ (case wt_at w of P_processing wi \<Rightarrow> [wi] | _ \<Rightarrow> [])"

definition wt_free :: "'j work_thread \<Rightarrow> bool" where
  "wt_free w \<longleftrightarrow> wt_item w = None \<and> wt_event w = 0 \<and> wt_at w \<in> {P_reading, P_returned, P_waking}"

definition wt_busy :: "nat \<Rightarrow> 'j work_thread \<Rightarrow> bool" where
  "wt_busy n w \<longleftrightarrow> (wt_item w = None \<and> wt_event w = 0 \<and> (wt_at w = P_completed \<or> (\<exists>s j. wt_at w = P_processing (s, j) \<and> s < n))) \<or>
     ((\<exists>s j. wt_item w = Some (s, j) \<and> s < n) \<and> wt_event w \<noteq> 0 \<and> wt_at w \<in> {P_reading, P_returned, P_waking})"

definition pool_jobs :: "'j pool \<Rightarrow> 'j work_item multiset" where
  "pool_jobs p = mset (concat (map wt_jobs (pool_workers p))) + mset (concat (pool_completed p)) + mset (map snd (pool_resolved p))"

definition worker_ok :: "nat \<Rightarrow> nat list \<Rightarrow> nat \<Rightarrow> 'j work_thread \<Rightarrow> bool" where
  "worker_ok n free i w \<longleftrightarrow> employer_shard w < n \<and> (if i \<in> set free then wt_free w else wt_busy n w)"

definition pool_inv :: "nat \<Rightarrow> 'j pool \<Rightarrow> bool" where
  "pool_inv n p \<longleftrightarrow>
     length (pool_completed p) = n \<and> length (reactors_idle p) = n \<and> length (pool_reactors p) = n \<and>
     distinct (pool_threads p) \<and> (\<forall>i\<in>set (pool_threads p). i < length (pool_workers p)) \<and>
     (\<forall>i<length (pool_workers p). worker_ok n (pool_threads p) i (pool_workers p ! i)) \<and>
     (\<forall>s<n. \<forall>wi\<in>set (pool_completed p ! s). fst wi = s) \<and>
     (\<forall>s wi. (s, wi) \<in> set (pool_resolved p) \<longrightarrow> fst wi = s)"

lemma pool_invI:
  assumes "length (pool_completed p) = n" "length (reactors_idle p) = n" "length (pool_reactors p) = n"
    and "distinct (pool_threads p)" "\<And>i. i \<in> set (pool_threads p) \<Longrightarrow> i < length (pool_workers p)"
    and "\<And>i. i < length (pool_workers p) \<Longrightarrow> worker_ok n (pool_threads p) i (pool_workers p ! i)"
    and "\<And>s wi. s < n \<Longrightarrow> wi \<in> set (pool_completed p ! s) \<Longrightarrow> fst wi = s"
    and "\<And>s wi. (s, wi) \<in> set (pool_resolved p) \<Longrightarrow> fst wi = s"
  shows "pool_inv n p"
  using assms unfolding pool_inv_def by blast

lemma pool_invD:
  assumes "pool_inv n p"
  shows "length (pool_completed p) = n" "length (reactors_idle p) = n" "length (pool_reactors p) = n"
    "distinct (pool_threads p)" "i \<in> set (pool_threads p) \<Longrightarrow> i < length (pool_workers p)"
    "i < length (pool_workers p) \<Longrightarrow> worker_ok n (pool_threads p) i (pool_workers p ! i)"
    "s < n \<Longrightarrow> wi \<in> set (pool_completed p ! s) \<Longrightarrow> fst wi = s"
    "(s, wi) \<in> set (pool_resolved p) \<Longrightarrow> fst wi = s"
  using assms unfolding pool_inv_def by blast+

lemma mset_concat_update:
  assumes "i < length xs"
  shows "mset (concat (xs[i := x])) + mset (xs ! i) = mset (concat xs) + mset x"
proof -
  have "xs = take i xs @ xs ! i # drop (Suc i) xs" using assms by (rule id_take_nth_drop)
  then have "concat xs = concat (take i xs) @ xs ! i @ concat (drop (Suc i) xs)"
    by (metis concat.simps(2) concat_append)
  then show ?thesis using assms by (simp add: upd_conv_take_nth_drop)
qed

lemma jobs_update:
  assumes "i < length ws"
  shows "mset (concat (map wt_jobs (ws[i := w]))) + mset (wt_jobs (ws ! i)) = mset (concat (map wt_jobs ws)) + mset (wt_jobs w)"
  using mset_concat_update [of i "map wt_jobs ws" "wt_jobs w"] assms by (simp add: map_update)

text \<open>Changing one worker.\<close>

lemma pool_inv_upd_worker:
  assumes inv: "pool_inv n p" and w: "worker_ok n (pool_threads p) i (f (pool_workers p ! i))"
  shows "pool_inv n (upd_worker i f p)"
proof (rule pool_invI)
  show "worker_ok n (pool_threads (upd_worker i f p)) k (pool_workers (upd_worker i f p) ! k)"
    if "k < length (pool_workers (upd_worker i f p))" for k
    using that pool_invD(6) [OF inv, of k] w by (cases "k = i") (simp_all add: upd_worker_def)
qed (use pool_invD [OF inv] in \<open>simp_all add: upd_worker_def\<close>)

lemma pool_jobs_upd_worker:
  "pool_jobs (upd_worker i f p) + mset (wt_jobs (pool_workers p ! i)) = pool_jobs p + mset (wt_jobs (f (pool_workers p ! i)))"
  if "i < length (pool_workers p)"
  using jobs_update [OF that, of "f (pool_workers p ! i)"] by (simp add: pool_jobs_def upd_worker_def add_ac)

definition accepted :: "'j pool_op \<Rightarrow> 'j pool \<Rightarrow> 'j work_item list" where
  "accepted x p = (case x of T_submit s j \<Rightarrow> if reactor_is s PR_running p \<and> pool_threads p \<noteq> [] then [(s, j)] else [] | _ \<Rightarrow> [])"

lemma submit_step_ok:
  assumes inv: "pool_inv n p" and s: "s < n"
  shows "pool_inv n (snd (submit_work s j p)) \<and>
    pool_jobs (snd (submit_work s j p)) = pool_jobs p + (if pool_threads p = [] then {#} else {#(s, j)#})"
proof (cases "pool_threads p")
  case Nil
  then show ?thesis using inv by (simp add: submit_work_def)
next
  case (Cons i "is")
  let ?p = "p\<lparr>pool_threads := is\<rparr>" and ?w = "pool_workers p ! i"
  have i: "i < length (pool_workers p)" "i \<notin> set is" "distinct is" using pool_invD(4,5) [OF inv] Cons by auto
  have free: "wt_free ?w" using pool_invD(6) [OF inv i(1)] Cons by (simp add: worker_ok_def)
  have ok: "worker_ok n is i (wt_submit s j ?w)"
    using free s i(2) by (auto simp: wt_submit_def wt_free_def wt_busy_def worker_ok_def)
  let ?q = "upd_worker i (wt_submit s j) ?p"
  have "pool_inv n ?q"
  proof (rule pool_invI)
    show "worker_ok n (pool_threads ?q) k (pool_workers ?q ! k)" if "k < length (pool_workers ?q)" for k
    proof (cases "k = i")
      case True
      then show ?thesis using i(1) ok by (simp add: upd_worker_def)
    next
      case False
      then show ?thesis using pool_invD(6) [OF inv, of k] that Cons by (simp add: upd_worker_def worker_ok_def)
    qed
  qed (use pool_invD [OF inv] i Cons in \<open>simp_all add: upd_worker_def\<close>)
  moreover have "wt_jobs ?w = []" "wt_jobs (wt_submit s j ?w) = [(s, j)]"
    using free by (auto simp: wt_free_def wt_jobs_def wt_submit_def)
  then have "pool_jobs ?q = pool_jobs ?p + {#(s, j)#}"
    using pool_jobs_upd_worker [of i ?p "wt_submit s j"] i(1) by simp
  moreover have "pool_jobs ?p = pool_jobs p" by (simp add: pool_jobs_def)
  ultimately show ?thesis using Cons by (simp add: submit_work_def)
qed

lemma complete_ok:
  assumes inv: "pool_inv n p" and s: "fst wi < n"
  shows "\<exists>p1. complete_work_item wi p = Inr p1 \<and> pool_inv n p1 \<and> pool_jobs p1 = pool_jobs p + {#wi#} \<and>
    pool_workers p1 = pool_workers p \<and> pool_threads p1 = pool_threads p"
proof -
  let ?c = "pool_completed p"
  let ?p = "p\<lparr>pool_completed := ?c[fst wi := ?c ! fst wi @ [wi]]\<rparr>"
  have l: "length ?c = n" by (rule pool_invD(1) [OF inv])
  have "mset (concat (?c[fst wi := ?c ! fst wi @ [wi]])) + mset (?c ! fst wi) = mset (concat ?c) + mset (?c ! fst wi @ [wi])"
    using s l by (intro mset_concat_update) simp
  then have "mset (concat (?c[fst wi := ?c ! fst wi @ [wi]])) = mset (concat ?c) + {#wi#}" by simp
  then have "pool_jobs ?p = pool_jobs p + {#wi#}" by (simp add: pool_jobs_def)
  moreover have "pool_inv n ?p"
  proof (rule pool_invI)
    show "fst x = k" if "k < n" "x \<in> set (pool_completed ?p ! k)" for k x
      using that s l pool_invD(7) [OF inv, of k x] by (cases "k = fst wi") auto
  qed (use pool_invD [OF inv] in simp_all)
  ultimately show ?thesis using s l by (simp add: complete_work_item_def)
qed

lemma poll_ok:
  assumes inv: "pool_inv n p" and s: "s < n"
  shows "\<exists>got p1. pool_poll_queues s p = Inr (got, p1) \<and> pool_inv n p1 \<and> pool_jobs p1 = pool_jobs p"
proof -
  let ?c = "pool_completed p"
  let ?p = "p\<lparr>pool_completed := ?c[s := []], pool_resolved := pool_resolved p @ map (Pair s) (?c ! s)\<rparr>"
  have l: "length ?c = n" by (rule pool_invD(1) [OF inv])
  have "mset (concat (?c[s := []])) + mset (?c ! s) = mset (concat ?c) + mset []" using s l by (intro mset_concat_update) simp
  then have "pool_jobs ?p = pool_jobs p" by (simp add: pool_jobs_def comp_def add_ac)
  moreover have "pool_inv n ?p"
  proof (rule pool_invI)
    show "fst x = k" if "k < n" "x \<in> set (pool_completed ?p ! k)" for k x
      using that s l pool_invD(7) [OF inv, of k x] by (cases "k = s") auto
    show "fst x = k" if "(k, x) \<in> set (pool_resolved ?p)" for k x
      using that pool_invD(8) [OF inv, of k x] pool_invD(7) [OF inv s, of x] by auto
  qed (use pool_invD [OF inv] in simp_all)
  ultimately show ?thesis using s l by (simp add: pool_poll_queues_def)
qed

lemma work_step_ok:
  assumes inv: "pool_inv n p"
  shows "\<exists>p1. work_step i p = Inr p1 \<and> pool_inv n p1 \<and> pool_jobs p1 = pool_jobs p"
proof (cases "i < length (pool_workers p)")
  case False
  then show ?thesis using inv by (simp add: work_step_def)
next
  case i: True
  let ?w = "pool_workers p ! i"
  have ok: "worker_ok n (pool_threads p) i ?w" using pool_invD(6) [OF inv i] .
  have move: "\<exists>p1. Inr (upd_worker i f q) = Inr p1 \<and> pool_inv n p1 \<and> pool_jobs p1 = pool_jobs p"
    if "pool_inv n q" "pool_workers q = pool_workers p" "worker_ok n (pool_threads q) i (f ?w)"
      "pool_jobs q + mset (wt_jobs (f ?w)) = pool_jobs p + mset (wt_jobs ?w)" for f q
    using pool_inv_upd_worker [of n q i f] pool_jobs_upd_worker [of i q f] that i by simp
  show ?thesis
  proof (cases "wt_at ?w")
    case P_reading
    show ?thesis
    proof (cases "wt_event ?w = 0")
      case True
      then show ?thesis using P_reading inv i by (simp add: work_step_def Let_def)
    next
      case False
      then obtain s j where it: "wt_item ?w = Some (s, j)" "s < n" "i \<notin> set (pool_threads p)"
        using ok P_reading by (auto simp: worker_ok_def wt_free_def wt_busy_def split: if_splits)
      let ?f = "\<lambda>w. w\<lparr>wt_event := 0, wt_item := None, wt_at := P_processing (s, j)\<rparr>"
      have "worker_ok n (pool_threads p) i (?f ?w)" using ok it by (auto simp: worker_ok_def wt_busy_def)
      moreover have "wt_jobs (?f ?w) = wt_jobs ?w" using it P_reading by (simp add: wt_jobs_def)
      ultimately show ?thesis using move [OF inv refl, of ?f] False it P_reading i by (simp add: work_step_def Let_def)
    qed
  next
    case (P_processing wi)
    then have it: "fst wi < n" "wt_item ?w = None" "i \<notin> set (pool_threads p)" "wt_event ?w = 0"
      using ok by (auto simp: worker_ok_def wt_free_def wt_busy_def split: if_splits)
    from complete_ok [OF inv it(1)] obtain p1 where p1: "complete_work_item wi p = Inr p1" "pool_inv n p1"
      "pool_jobs p1 = pool_jobs p + {#wi#}" "pool_workers p1 = pool_workers p" "pool_threads p1 = pool_threads p" by blast
    have "worker_ok n (pool_threads p1) i (wt_set_at P_completed ?w)"
      using ok it p1(5) by (auto simp: worker_ok_def wt_busy_def wt_set_at_def)
    moreover have "wt_jobs ?w = [wi]" "wt_jobs (wt_set_at P_completed ?w) = []"
      using it P_processing by (simp_all add: wt_jobs_def wt_set_at_def)
    ultimately show ?thesis
      using move [OF p1(2,4), of "wt_set_at P_completed"] p1(1,3) P_processing i by (simp add: work_step_def Let_def)
  next
    case P_completed
    then have it: "i \<notin> set (pool_threads p)" "wt_item ?w = None" "wt_event ?w = 0"
      using ok by (auto simp: worker_ok_def wt_free_def wt_busy_def split: if_splits)
    let ?q = "upd_worker i (wt_set_at P_returned) (return_worker i p)"
    have "pool_inv n ?q"
    proof (rule pool_invI)
      show "worker_ok n (pool_threads ?q) k (pool_workers ?q ! k)" if "k < length (pool_workers ?q)" for k
        using that ok it i pool_invD(6) [OF inv, of k]
        by (cases "k = i") (auto simp: upd_worker_def return_worker_def worker_ok_def wt_free_def wt_set_at_def)
    qed (use pool_invD [OF inv] it i in \<open>auto simp: upd_worker_def return_worker_def\<close>)
    moreover have "pool_jobs ?q = pool_jobs p"
      using pool_jobs_upd_worker [of i "return_worker i p" "wt_set_at P_returned"] i it P_completed
      by (simp add: return_worker_def pool_jobs_def wt_jobs_def wt_set_at_def)
    ultimately show ?thesis using P_completed i by (simp add: work_step_def Let_def)
  next
    case P_returned
    let ?f = "wt_set_at (if reactors_idle p ! employer_shard ?w then P_waking else P_reading)"
    have "worker_ok n (pool_threads p) i (?f ?w)" "wt_jobs (?f ?w) = wt_jobs ?w"
      using ok P_returned by (auto simp: worker_ok_def wt_free_def wt_busy_def wt_set_at_def wt_jobs_def)
    moreover have "employer_shard ?w < length (reactors_idle p)" using ok pool_invD(2) [OF inv] by (simp add: worker_ok_def)
    ultimately show ?thesis using move [OF inv refl, of ?f] P_returned i by (simp add: work_step_def Let_def)
  next
    case P_waking
    let ?q = "p\<lparr>pool_wakeup := (pool_wakeup p)[employer_shard ?w := True]\<rparr>"
    have "pool_inv n ?q" by (rule pool_invI) (use pool_invD [OF inv] in simp_all)
    moreover have "worker_ok n (pool_threads ?q) i (wt_set_at P_reading ?w)" "wt_jobs (wt_set_at P_reading ?w) = wt_jobs ?w"
      using ok P_waking by (auto simp: worker_ok_def wt_free_def wt_busy_def wt_set_at_def wt_jobs_def)
    moreover have "pool_jobs ?q = pool_jobs p" by (simp add: pool_jobs_def)
    ultimately show ?thesis using move [of ?q "wt_set_at P_reading"] P_waking i by (simp add: work_step_def Let_def)
  qed
qed

lemma pool_step_ok:
  assumes inv: "pool_inv n p"
  shows "\<exists>p1. pool_step x p = Inr p1 \<and> pool_inv n p1 \<and> pool_jobs p1 = pool_jobs p + mset (accepted x p)"
proof (cases x)
  case (T_submit s j)
  show ?thesis
  proof (cases "reactor_is s PR_running p")
    case True
    then have "s < n" using pool_invD(3) [OF inv] by (simp add: reactor_is_def)
    from submit_step_ok [OF inv this, of j] show ?thesis using True T_submit by (simp add: accepted_def)
  qed (use T_submit inv in \<open>simp add: accepted_def\<close>)
next
  case (T_work i)
  then show ?thesis using work_step_ok [OF inv, of i] by (simp add: accepted_def)
next
  case (T_poll s)
  show ?thesis
  proof (cases "reactor_is s PR_running p")
    case True
    then have "s < n" using pool_invD(3) [OF inv] by (simp add: reactor_is_def)
    from poll_ok [OF inv this] show ?thesis using True T_poll by (auto simp: accepted_def)
  qed (use T_poll inv in \<open>simp add: accepted_def\<close>)
next
  case (T_announce s)
  have "pool_inv n (pool_enter_interrupt_mode s p)"
    by (rule pool_invI) (use pool_invD [OF inv] in \<open>simp_all add: pool_enter_interrupt_mode_def\<close>)
  then show ?thesis using T_announce inv by (simp add: accepted_def pool_enter_interrupt_mode_def pool_jobs_def)
next
  case (T_last_poll s)
  show ?thesis
  proof (cases "reactor_is s PR_announced p")
    case True
    then have "s < n" using pool_invD(3) [OF inv] by (simp add: reactor_is_def)
    from poll_ok [OF inv this] obtain got p1 where p1: "pool_poll_queues s p = Inr (got, p1)" "pool_inv n p1"
      "pool_jobs p1 = pool_jobs p" by blast
    have running: "pool_inv n (p1\<lparr>reactors_idle := (reactors_idle p1)[s := False], pool_reactors := (pool_reactors p1)[s := PR_running]\<rparr>)"
      by (rule pool_invI) (use pool_invD [OF p1(2)] in simp_all)
    have asleep: "pool_inv n (p1\<lparr>pool_reactors := (pool_reactors p1)[s := PR_asleep]\<rparr>)"
      by (rule pool_invI) (use pool_invD [OF p1(2)] in simp_all)
    show ?thesis
      using True T_last_poll p1 running asleep
      by (cases got) (simp_all add: accepted_def pool_last_poll_def pool_jobs_def)
  qed (use T_last_poll inv in \<open>simp add: accepted_def\<close>)
next
  case (T_exit s)
  have "pool_inv n (pool_exit_interrupt_mode s p)"
    by (rule pool_invI) (use pool_invD [OF inv] in \<open>simp_all add: pool_exit_interrupt_mode_def\<close>)
  then show ?thesis using T_exit inv by (simp add: accepted_def pool_exit_interrupt_mode_def pool_jobs_def)
qed

fun pool_run :: "'j pool_op list \<Rightarrow> 'j pool \<Rightarrow> ('j work_item list \<times> 'j pool) res" where
  "pool_run [] p = Inr ([], p)"
| "pool_run (x # xs) p =
     bind_res (pool_step x p) (\<lambda>p1. bind_res (pool_run xs p1) (\<lambda>(as, p2). Inr (accepted x p @ as, p2)))"

lemma pool_run_ok:
  "pool_inv n p \<Longrightarrow> \<exists>as p'. pool_run xs p = Inr (as, p') \<and> pool_inv n p' \<and> pool_jobs p' = pool_jobs p + mset as"
proof (induction xs arbitrary: p)
  case (Cons x xs)
  from pool_step_ok [OF Cons.prems, of x] obtain p1 where p1: "pool_step x p = Inr p1" "pool_inv n p1"
    "pool_jobs p1 = pool_jobs p + mset (accepted x p)" by blast
  from Cons.IH [OF p1(2)] p1 show ?case by (auto simp: add_ac)
qed simp

lemma pool_configure_ok:
  assumes "0 < w" "0 < n"
  shows "\<exists>p. pool_configure n w = Inr p \<and> pool_inv n p \<and> pool_jobs p = {#}"
proof -
  let ?p = "\<lparr>pool_threads = [0..<w], pool_workers = replicate w new_work_thread, pool_completed = replicate n [],
     reactors_idle = replicate n False, pool_wakeup = replicate n False, pool_reactors = replicate n PR_running,
     pool_resolved = []\<rparr> :: 'a pool"
  have "pool_inv n ?p"
    by (rule pool_invI) (use assms in \<open>simp_all add: worker_ok_def wt_free_def new_work_thread_def\<close>)
  moreover have "pool_jobs ?p = {#}" by (simp add: pool_jobs_def wt_jobs_def new_work_thread_def)
  ultimately show ?thesis using assms by (simp add: pool_configure_def)
qed

text \<open>C38: The thread pool runs every accepted function exactly once and resolves its promise on the shard that
  submitted it. For every interleaving of any number of reactors and workers: no worker follows a null
  work item, no item is overwritten before it was taken, no assertion fails; the items held by workers,
  waiting in the completion queues and resolved are together exactly the items accepted; and an item is
  resolved on the shard it came from.\<close>

theorem thread_pool_runs_each_item_once:
  assumes "0 < w" and "0 < n"
  shows "\<exists>p as p'. pool_configure n w = Inr p \<and> pool_run xs p = Inr (as, p') \<and>
    mset as = mset (concat (map wt_jobs (pool_workers p'))) + mset (concat (pool_completed p')) + mset (map snd (pool_resolved p')) \<and>
    (\<forall>s wi. (s, wi) \<in> set (pool_resolved p') \<longrightarrow> fst wi = s)"
proof -
  from pool_configure_ok [OF assms] obtain p :: "'a pool" where p: "pool_configure n w = Inr p" "pool_inv n p" "pool_jobs p = {#}"
    by blast
  from pool_run_ok [OF p(2), of xs] obtain as p' where
    r: "pool_run xs p = Inr (as, p')" "pool_inv n p'" "pool_jobs p' = pool_jobs p + mset as" by blast
  then have "mset as = pool_jobs p'" using p(3) by simp
  then show ?thesis using p(1) r(1) pool_invD(8) [OF r(2)] unfolding pool_jobs_def by blast
qed

theorem thread_pool_runs_each_item_once_witness:
  "\<exists>p as p'. pool_configure 2 1 = Inr p \<and>
    pool_run [T_submit 0 (5::nat), T_submit 1 6, T_work 0, T_work 0, T_poll 0] p = Inr (as, p') \<and>
    mset as = mset (concat (map wt_jobs (pool_workers p'))) + mset (concat (pool_completed p')) + mset (map snd (pool_resolved p'))"
  using thread_pool_runs_each_item_once [OF zero_less_one zero_less_numeral, of "Num.Bit0 Num.One"
      "[T_submit 0 (5::nat), T_submit 1 6, T_work 0, T_work 0, T_poll 0]"] by blast

text \<open>A reactor can stay asleep although its work is done. A worker returns itself to the pool before it reads
  \<open>_employer_shard\<close>; if another shard takes it in between, the worker looks at the idle flag of that shard,
  and the reactor that sleeps is never woken up: the run below ends with reactor 0 asleep, its completed item
  waiting, no wake-up pending, and the only worker blocked with nothing to do.\<close>

theorem returned_worker_loses_wakeup:
  "\<exists>p p'. pool_configure 2 1 = Inr p \<and>
    pool_run [T_submit 0 (5::nat), T_announce 0, T_last_poll 0, T_work 0, T_work 0, T_work 0, T_submit 1 6,
              T_work 0, T_work 0, T_work 0, T_work 0, T_work 0] p = Inr ([(0, 5), (1, 6)], p') \<and>
    pool_reactors p' ! 0 = PR_asleep \<and> pool_completed p' ! 0 = [(0, 5)] \<and> \<not> pool_wakeup p' ! 0 \<and>
    pool_workers p' = [\<lparr>wt_item = None, wt_event = 0, wt_at = P_reading, employer_shard = 1\<rparr>]"
  by (simp add: pool_configure_def new_work_thread_def accepted_def reactor_is_def submit_work_def wt_submit_def upd_worker_def
      work_step_def complete_work_item_def return_worker_def wt_set_at_def pool_enter_interrupt_mode_def pool_last_poll_def
      pool_poll_queues_def Let_def numeral_2_eq_2)

section \<open>The alien thread pool\<close>

text \<open>Tasks in a queue behind a mutex, and threads that take tasks until they find the queue empty, and then
  exit. A thread is running a task, between tasks, or has exited.\<close>

datatype 'j alien_at = A_between | A_running 'j | A_exited

record 'j alien_pool =
  alien_tasks :: "'j list"
  alien_threads :: "'j alien_at list"
  alien_done :: "'j list"

definition next_task :: "'j alien_pool \<Rightarrow> 'j option \<times> 'j alien_pool" where
  "next_task p = (case alien_tasks p of [] \<Rightarrow> (None, p) | t # ts \<Rightarrow> (Some t, p\<lparr>alien_tasks := ts\<rparr>))"

definition alien_add_task :: "'j \<Rightarrow> 'j alien_pool \<Rightarrow> 'j alien_pool" where
  "alien_add_task t p = p\<lparr>alien_tasks := alien_tasks p @ [t]\<rparr>"

definition initialize_and_run :: "nat \<Rightarrow> 'j alien_pool \<Rightarrow> 'j alien_pool" where
  "initialize_and_run num_threads p = p\<lparr>alien_threads := replicate num_threads A_between\<rparr>"

text \<open>A step of thread \<open>i\<close> in \<open>thread_routine\<close>.\<close>

definition thread_routine :: "nat \<Rightarrow> 'j alien_pool \<Rightarrow> 'j alien_pool" where
  "thread_routine i p =
     (if length (alien_threads p) \<le> i then p
      else (case alien_threads p ! i of
          A_between \<Rightarrow>
            (case next_task p of
               (None, p1) \<Rightarrow> p1\<lparr>alien_threads := (alien_threads p1)[i := A_exited]\<rparr>
             | (Some t, p1) \<Rightarrow> p1\<lparr>alien_threads := (alien_threads p1)[i := A_running t]\<rparr>)
        | A_running t \<Rightarrow> p\<lparr>alien_done := alien_done p @ [t], alien_threads := (alien_threads p)[i := A_between]\<rparr>
        | A_exited \<Rightarrow> p))"

text \<open>The destructor of \<open>alien_thread_pool\<close> joins the threads; the one of \<open>task_queue\<close> asserts that no task is
  left.\<close>

definition alien_destroy :: "'j alien_pool \<Rightarrow> 'j alien_pool res" where
  "alien_destroy p = assert_res (alien_tasks p = []) (Inr p)"

definition alien_running :: "'j alien_at \<Rightarrow> 'j list" where
  "alien_running a = (case a of A_running t \<Rightarrow> [t] | _ \<Rightarrow> [])"

definition alien_jobs :: "'j alien_pool \<Rightarrow> 'j multiset" where
  "alien_jobs p = mset (alien_tasks p) + mset (concat (map alien_running (alien_threads p))) + mset (alien_done p)"

lemma thread_routine_jobs: "alien_jobs (thread_routine i p) = alien_jobs p"
proof (cases "i < length (alien_threads p)")
  case i: True
  have upd: "mset (concat (map alien_running ((alien_threads p)[i := a]))) + mset (alien_running (alien_threads p ! i)) =
      mset (concat (map alien_running (alien_threads p))) + mset (alien_running a)" for a
    using mset_concat_update [of i "map alien_running (alien_threads p)" "alien_running a"] i by (simp add: map_update)
  show ?thesis
  proof (cases "alien_threads p ! i")
    case A_between
    then show ?thesis
      using i upd [of A_exited] upd [of "A_running t" for t]
      by (cases "alien_tasks p") (simp_all add: thread_routine_def next_task_def alien_jobs_def alien_running_def add_ac)
  next
    case (A_running t)
    then show ?thesis using i upd [of A_between] by (simp add: thread_routine_def alien_jobs_def alien_running_def add_ac)
  next
    case A_exited
    then show ?thesis using i by (simp add: thread_routine_def)
  qed
qed (simp add: thread_routine_def)

text \<open>The alien thread pool runs the tasks it was given before it was started, each exactly once, whatever
  the schedule of its threads; but a task added when all threads have found the queue empty is never
  run, and the destructor then fails its assertion.\<close>

theorem alien_pool_runs_tasks_once:
  "alien_jobs (fold thread_routine sched (initialize_and_run k \<lparr>alien_tasks = ts, alien_threads = [], alien_done = []\<rparr>)) = mset ts \<and>
   (list_all (\<lambda>a. a = A_exited) (alien_threads p) \<longrightarrow>
      alien_tasks (fold thread_routine sched (alien_add_task t p)) = alien_tasks p @ [t] \<and>
      alien_destroy (fold thread_routine sched (alien_add_task t p)) = Inl Assert_failed)"
proof -
  have "alien_jobs (fold thread_routine sched q) = alien_jobs q" for q :: "'a alien_pool"
    by (induction sched arbitrary: q) (simp_all add: thread_routine_jobs)
  moreover have "alien_jobs (initialize_and_run k \<lparr>alien_tasks = ts, alien_threads = [], alien_done = []\<rparr>) = mset ts"
    by (simp add: initialize_and_run_def alien_jobs_def alien_running_def)
  moreover have "fold thread_routine sched q = q" if "list_all (\<lambda>a. a = A_exited) (alien_threads q)" for q :: "'b alien_pool"
  proof -
    have "thread_routine i q = q" for i using that by (auto simp: thread_routine_def list_all_length)
    then show ?thesis by (induction sched) simp_all
  qed
  ultimately show ?thesis by (simp add: alien_add_task_def alien_destroy_def)
qed

theorem alien_pool_runs_tasks_once_witness:
  "alien_destroy (fold thread_routine [0, 0] (alien_add_task (3::nat)
     \<lparr>alien_tasks = [], alien_threads = [A_exited], alien_done = []\<rparr>)) = Inl Assert_failed"
proof -
  let ?p = "\<lparr>alien_tasks = [], alien_threads = [A_exited], alien_done = []\<rparr> :: nat alien_pool"
  have "list_all (\<lambda>a. a = A_exited) (alien_threads ?p)" by simp
  then show ?thesis using alien_pool_runs_tasks_once [where sched = "[0, 0]" and p = ?p and t = 3] by blast
qed

end
