(* ===== verification/Service_Group.thy ===== *)
theory Service_Group
  imports Hiactor_Prelude
begin

text \<open>
  The service groups of \<open>core/local_channel.hh\<close> and \<open>core/local_channel.cc\<close>: every shard keeps, for every
  group, one semaphore per client shard. A group whose list of clients is empty is free. Creation picks
  the identifier on shard 0, under a semaphore that admits one creation or destruction at a time, and
  then changes all shards. Sending does not use the semaphores: flow control is commented out.
\<close>

text \<open>The groups of a shard, each the unit counts of its semaphores.\<close>

type_synonym ssgs = "nat list list"

definition max_counter :: nat where "max_counter = 2 ^ 63 - 1"

definition init_default_actor_msg_service_group :: "nat \<Rightarrow> ssgs \<Rightarrow> ssgs" where
  "init_default_actor_msg_service_group smp_count g = g @ [replicate smp_count max_counter]"

definition find_free :: "ssgs \<Rightarrow> nat" where
  "find_free g = length (takeWhile (\<lambda>clients. clients \<noteq> []) g)"

definition add_group :: "nat \<Rightarrow> nat \<Rightarrow> nat \<Rightarrow> ssgs \<Rightarrow> ssgs" where
  "add_group smp_count max_nonlocal_requests gid g =
     (let g1 = (if length g \<le> gid then g @ replicate (gid + 1 - length g) [] else g);
          per_client = (if 1 < smp_count then max_nonlocal_requests div (smp_count - 1) else 0)
      in g1[gid := g1 ! gid @ replicate smp_count per_client])"

definition create_actor_msg_service_group :: "nat \<Rightarrow> nat \<Rightarrow> ssgs list \<Rightarrow> nat \<times> ssgs list" where
  "create_actor_msg_service_group smp_count max_requests gs =
     (let max_nonlocal_requests = max max_requests (smp_count - 1); gid = find_free (gs ! 0)
      in (gid, map (add_group smp_count max_nonlocal_requests gid) gs))"

definition destroy_actor_msg_service_group :: "nat \<Rightarrow> ssgs list \<Rightarrow> ssgs list res" where
  "destroy_actor_msg_service_group gid gs =
     (if list_all (\<lambda>g. gid < length g) gs then Inr (map (\<lambda>g. g[gid := []]) gs) else Inl Out_of_bounds)"

definition live_groups :: "ssgs \<Rightarrow> nat set" where
  "live_groups g = {i. i < length g \<and> g ! i \<noteq> []}"

lemma find_free_not_live: "find_free g \<notin> live_groups g"
proof
  assume "find_free g \<in> live_groups g"
  then show False using nth_length_takeWhile [of "\<lambda>c. c \<noteq> []" g] by (simp add: live_groups_def find_free_def)
qed

lemma find_free_le: "find_free g \<le> length g"
  by (simp add: find_free_def length_takeWhile_le)

lemma find_free_empty: "find_free g < length g \<Longrightarrow> g ! find_free g = []"
  using nth_length_takeWhile [of "\<lambda>c. c \<noteq> []" g] by (simp add: find_free_def)

lemma add_group_at_free:
  assumes "0 < n"
  shows "add_group n m (find_free g) g ! find_free g = replicate n (if 1 < n then m div (n - 1) else 0)"
    and "live_groups (add_group n m (find_free g) g) = insert (find_free g) (live_groups g)"
    and "i \<noteq> find_free g \<Longrightarrow> i < length g \<Longrightarrow> add_group n m (find_free g) g ! i = g ! i"
    and "find_free g < length (add_group n m (find_free g) g)"
proof -
  consider "find_free g = length g" | "find_free g < length g" using find_free_le [of g] by linarith
  then have all: "add_group n m (find_free g) g ! find_free g = replicate n (if 1 < n then m div (n - 1) else 0) \<and>
      live_groups (add_group n m (find_free g) g) = insert (find_free g) (live_groups g) \<and>
      (i \<noteq> find_free g \<longrightarrow> i < length g \<longrightarrow> add_group n m (find_free g) g ! i = g ! i) \<and>
      find_free g < length (add_group n m (find_free g) g)" for i
  proof cases
    case 1
    then show ?thesis
      using assms by (auto simp: add_group_def Let_def live_groups_def nth_append nth_list_update split: if_splits)
  next
    case 2
    then show ?thesis
      using assms find_free_empty [OF 2] by (auto simp: add_group_def Let_def live_groups_def nth_list_update)
  qed
  from all show "add_group n m (find_free g) g ! find_free g = replicate n (if 1 < n then m div (n - 1) else 0)" by blast
  from all show "live_groups (add_group n m (find_free g) g) = insert (find_free g) (live_groups g)" by blast
  from all show "add_group n m (find_free g) g ! i = g ! i" if "i \<noteq> find_free g" "i < length g" using that by blast
  from all show "find_free g < length (add_group n m (find_free g) g)" by blast
qed

text \<open>Creating a service group gives it an identifier that no live group has, on every shard, changes no other
  group, and gives every client at least one unit when there are several shards, however small the
  requested limit; destroying it frees exactly that identifier.\<close>

theorem service_group_created_fresh:
  assumes "gs = replicate n g" and "0 < n" and "create_actor_msg_service_group n m gs = (gid, gs')"
  shows "\<exists>g'. gs' = replicate n g' \<and> gid \<notin> live_groups g \<and> live_groups g' = insert gid (live_groups g) \<and>
    (\<forall>i<length g. i \<noteq> gid \<longrightarrow> g' ! i = g ! i) \<and> length (g' ! gid) = n \<and>
    (1 < n \<longrightarrow> list_all (\<lambda>units. 1 \<le> units) (g' ! gid)) \<and>
    (\<exists>gs''. destroy_actor_msg_service_group gid gs' = Inr gs'' \<and> list_all (\<lambda>h. live_groups h = live_groups g) gs'')"
proof -
  let ?m = "max m (n - 1)" and ?gid = "find_free g"
  let ?g = "add_group n ?m ?gid g"
  have g0: "gs ! 0 = g" using assms(1,2) by simp
  then have eq: "gid = ?gid" "gs' = replicate n ?g"
    using assms(1,3) by (auto simp: create_actor_msg_service_group_def Let_def map_replicate)
  note a = add_group_at_free [where m = ?m and g = g, OF assms(2)]
  have "1 \<le> ?m div (n - 1)" if "1 < n" using that div_le_mono [of "n - 1" ?m "n - 1"] by simp
  then have "1 < n \<longrightarrow> list_all (\<lambda>units. 1 \<le> units) (?g ! ?gid)" using a(1) by (simp add: list_all_iff)
  moreover have "length (?g ! ?gid) = n" using a(1) by simp
  moreover have "\<forall>i<length g. i \<noteq> ?gid \<longrightarrow> ?g ! i = g ! i" using a(3) by blast
  moreover have "destroy_actor_msg_service_group ?gid gs' = Inr (replicate n (?g[?gid := []]))"
    using a(4) eq(2) by (simp add: destroy_actor_msg_service_group_def list_all_iff map_replicate)
  moreover have "live_groups (h[k := []]) = live_groups h - {k}" for h k
    by (cases "k < length h") (auto simp: live_groups_def nth_list_update split: if_splits)
  then have "live_groups (?g[?gid := []]) = live_groups g" using a(2) find_free_not_live [of g] by simp
  then have "list_all (\<lambda>h. live_groups h = live_groups g) (replicate n (?g[?gid := []]))" by (simp add: list_all_iff)
  ultimately show ?thesis unfolding eq using find_free_not_live [of g] a(2) by (metis (no_types, lifting))
qed

theorem service_group_created_fresh_witness:
  "\<exists>g'. snd (create_actor_msg_service_group 3 1 (replicate 3 [[9, 9, 9]])) = replicate 3 g' \<and> length (g' ! 1) = 3"
proof -
  obtain gid gs' where c: "create_actor_msg_service_group 3 1 (replicate 3 [[9, 9, 9]]) = (gid, gs')" by force
  then have "gid = 1" by (simp add: create_actor_msg_service_group_def find_free_def Let_def)
  then show ?thesis using service_group_created_fresh [OF refl _ c] c by auto
qed

end
