(* ===== verification/Actor_Timer.thy ===== *)
theory Actor_Timer
  imports Hiactor_Prelude
begin

text \<open>
  The time quota of a turn (\<open>core/actor_timer.hh\<close>, \<open>core/actor_timer.cc\<close>, \<open>set_timer\<close> and \<open>need_yield\<close> of
  \<open>core/actor_core.cc\<close>) and the places of \<open>run_and_dispose\<close> of actors and actor groups (\<open>core/actor-template.cc\<close>)
  where it is read. The theory Actor\_Run has the whole turns and takes every answer of \<open>need_yield\<close> as possible;
  here only the clock matters, so a task is its duration, and what a turn pops from its queues, in the
  order it would pop them, is an argument. Times are nanoseconds of the steady clock and quotas microseconds,
  both without bound: 64 bits of nanoseconds last for 292 years.
\<close>

section \<open>The clock of a shard\<close>

text \<open>\<open>tm_now\<close> is the steady clock; \<open>preempts\<close> are the coming answers of \<open>seastar::need_preempt\<close>, which is
  false when they are used up. \<open>tm_started\<close> records the units of work that were started: when, and whether
  \<open>advance_actor_clock\<close> follows them.\<close>

record timer =
  tm_now :: int
  actor_clock :: int
  actor_quota :: int
  actor_execution_count :: u32
  preempts :: "bool list"
  tm_started :: "(int \<times> bool) list"

text \<open>The fields \<open>_unused_quota\<close> and \<open>_stop_time\<close> of an actor or group.\<close>

record quota_ctx =
  unused_quota :: int
  stop_time :: int

definition default_actor_quota :: int where "default_actor_quota = 500"

definition advance_actor_clock :: "u32 \<Rightarrow> timer \<Rightarrow> timer" where
  "advance_actor_clock default_execution_interval t =
     (let c = actor_execution_count t + 1
      in if c < default_execution_interval then t\<lparr>actor_execution_count := c\<rparr>
         else t\<lparr>actor_execution_count := 0, actor_clock := tm_now t\<rparr>)"

definition set_actor_quota :: "int \<Rightarrow> timer \<Rightarrow> timer" where
  "set_actor_quota quota t = t\<lparr>actor_quota := quota\<rparr>"

text \<open>\<open>duration_cast\<close> from nanoseconds to microseconds rounds towards zero.\<close>

definition cast_us :: "int \<Rightarrow> int" where
  "cast_us d = (if 0 \<le> d then d div 1000 else - ((- d) div 1000))"

text \<open>\<open>is_top\<close> says that the context of the actor is the root actor group.\<close>

definition set_timer :: "bool \<Rightarrow> timer \<Rightarrow> quota_ctx \<times> timer" where
  "set_timer is_top t =
     (let t1 = (if is_top then set_actor_quota default_actor_quota (t\<lparr>actor_clock := tm_now t\<rparr>) else t)
      in (\<lparr>unused_quota = actor_quota t1, stop_time = actor_clock t1 + 1000 * actor_quota t1\<rparr>, t1))"

definition need_preempt :: "timer \<Rightarrow> bool \<times> timer" where
  "need_preempt t = (case preempts t of [] \<Rightarrow> (False, t) | b # bs \<Rightarrow> (b, t\<lparr>preempts := bs\<rparr>))"

definition quota_need_yield :: "quota_ctx \<Rightarrow> timer \<Rightarrow> bool \<times> quota_ctx \<times> timer" where
  "quota_need_yield c t =
     (case need_preempt t of
        (True, t1) \<Rightarrow> (True, c, t1)
      | (False, t1) \<Rightarrow> (let u = cast_us (stop_time c - actor_clock t1) in (u \<le> 0, c\<lparr>unused_quota := u\<rparr>, t1)))"

text \<open>\<open>actor_smp::configure\<close> reads the option.\<close>

definition configured_interval :: "u32 option \<Rightarrow> u32" where
  "configured_interval opt = (case opt of None \<Rightarrow> 1 | Some v \<Rightarrow> max v 1)"

section \<open>The turns\<close>

definition run_unit :: "bool \<Rightarrow> nat \<Rightarrow> timer \<Rightarrow> timer" where
  "run_unit counted d t = t\<lparr>tm_now := tm_now t + int d, tm_started := tm_started t @ [(tm_now t, counted)]\<rparr>"

text \<open>A turn of an actor has the tasks of its queue, whether its concurrency limit is reached after them, and its
  messages, each with whether it leaves a pending future that makes the actor reach the limit. A turn of a
  group has its messages and the turns of its children.\<close>

datatype turn =
    Actor_turn "nat list" bool "(nat \<times> bool) list"
  | Group_turn "nat list" "turn list"

fun run_tasks :: "u32 \<Rightarrow> nat list \<Rightarrow> quota_ctx \<Rightarrow> timer \<Rightarrow> bool \<times> quota_ctx \<times> timer" where
  "run_tasks I [] c t = (False, c, t)"
| "run_tasks I (d # ds) c t =
     (case quota_need_yield c (advance_actor_clock I (run_unit True d t)) of
        (True, c1, t1) \<Rightarrow> (True, c1, t1)
      | (False, c1, t1) \<Rightarrow> run_tasks I ds c1 t1)"

fun run_messages :: "u32 \<Rightarrow> (nat \<times> bool) list \<Rightarrow> quota_ctx \<Rightarrow> timer \<Rightarrow> timer" where
  "run_messages I [] c t = t"
| "run_messages I ((d, at_limit) # ms) c t =
     (if at_limit then run_unit False d t
      else (case quota_need_yield c (advance_actor_clock I (run_unit True d t)) of
          (True, c1, t1) \<Rightarrow> t1
        | (False, c1, t1) \<Rightarrow> run_messages I ms c1 t1))"

fun run_turn :: "bool \<Rightarrow> u32 \<Rightarrow> turn \<Rightarrow> timer \<Rightarrow> timer"
  and run_turns :: "u32 \<Rightarrow> turn list \<Rightarrow> quota_ctx \<Rightarrow> timer \<Rightarrow> timer" where
  "run_turn is_top I (Actor_turn ds at_limit ms) t =
     (case set_timer is_top t of (c, t1) \<Rightarrow>
      (case run_tasks I ds c t1 of
         (True, c1, t2) \<Rightarrow> t2
       | (False, c1, t2) \<Rightarrow> if at_limit then t2 else run_messages I ms c1 t2))"
| "run_turn is_top I (Group_turn ds ts) t =
     (case set_timer is_top t of (c, t1) \<Rightarrow>
      (case run_tasks I ds c t1 of
         (True, c1, t2) \<Rightarrow> t2
       | (False, c1, t2) \<Rightarrow> run_turns I ts c1 t2))"
| "run_turns I [] c t = t"
| "run_turns I (x # xs) c t =
     (case quota_need_yield c (run_turn False I x (set_actor_quota (unused_quota c) t)) of
        (True, c1, t1) \<Rightarrow> t1
      | (False, c1, t1) \<Rightarrow> run_turns I xs c1 t1)"

fun durations :: "turn \<Rightarrow> nat list" where
  "durations (Actor_turn ds at_limit ms) = ds @ map fst ms"
| "durations (Group_turn ds ts) = ds @ concat (map durations ts)"

fun suspends :: "turn \<Rightarrow> bool" where
  "suspends (Actor_turn ds at_limit ms) \<longleftrightarrow> list_ex snd ms"
| "suspends (Group_turn ds ts) \<longleftrightarrow> list_ex suspends ts"

section \<open>Invariant\<close>

text \<open>\<open>S\<close> is the stop time of the turn of a child of the root group, \<open>I\<close> the execution interval, \<open>D\<close> a bound of
  the durations.\<close>

definition late :: "int \<Rightarrow> timer \<Rightarrow> nat" where
  "late S t = length (filter (\<lambda>(s, counted). counted \<and> S \<le> s) (tm_started t))"

definition late_all :: "int \<Rightarrow> timer \<Rightarrow> nat" where
  "late_all S t = length (filter (\<lambda>(s, counted). S \<le> s) (tm_started t))"

definition timer_inv :: "int \<Rightarrow> u32 \<Rightarrow> nat \<Rightarrow> timer \<Rightarrow> bool" where
  "timer_inv S I D t \<longleftrightarrow> actor_execution_count t < I \<and>
     (tm_now t < S \<longrightarrow> late S t = 0) \<and>
     (if actor_clock t < S then late S t \<le> unat (actor_execution_count t) else late S t \<le> unat I) \<and>
     tm_now t \<le> S + int ((late_all S t + 1) * D)"

definition level_inv :: "int \<Rightarrow> quota_ctx \<Rightarrow> timer \<Rightarrow> bool" where
  "level_inv S c t \<longleftrightarrow> stop_time c \<le> S \<and> 0 < unused_quota c \<and> actor_clock t + 1000 * unused_quota c \<le> stop_time c"

lemma level_clock: "level_inv S c t \<Longrightarrow> actor_clock t < S"
  by (simp add: level_inv_def)

lemma cast_us_pos: "0 < cast_us d \<Longrightarrow> 1000 * cast_us d \<le> d"
  by (auto simp: cast_us_def split: if_splits)

lemma timer_inv_preempts [simp]:
  "timer_inv S I D (t\<lparr>preempts := bs\<rparr>) = timer_inv S I D t" "timer_inv S I D (set_actor_quota q t) = timer_inv S I D t"
  by (simp_all add: timer_inv_def late_def late_all_def set_actor_quota_def)

lemma quota_need_yield_inv:
  assumes "timer_inv S I D t" and "stop_time c \<le> S" and "quota_need_yield c t = (y, c', t')"
  shows "timer_inv S I D t' \<and> stop_time c' = stop_time c \<and> (\<not> y \<longrightarrow> level_inv S c' t')"
proof -
  obtain b t1 where p: "need_preempt t = (b, t1)" by (cases "need_preempt t")
  then have t1: "timer_inv S I D t1" "actor_clock t1 = actor_clock t"
    using assms(1) by (auto simp: need_preempt_def split: list.splits)
  show ?thesis
    using assms(2,3) t1 cast_us_pos [of "stop_time c - actor_clock t1"] by (auto simp: quota_need_yield_def p level_inv_def Let_def split: bool.splits)
qed

lemma late_unit:
  "late S (run_unit counted d t) = late S t + (if counted \<and> S \<le> tm_now t then 1 else 0)"
  "late_all S (run_unit counted d t) = late_all S t + (if S \<le> tm_now t then 1 else 0)"
  by (simp_all add: late_def late_all_def run_unit_def)

lemma unit_end:
  assumes "tm_now t \<le> S + int ((late_all S t + 1) * D)" and "d \<le> D"
  shows "tm_now (run_unit counted d t) \<le> S + int ((late_all S (run_unit counted d t) + 1) * D)"
proof (cases "S \<le> tm_now t")
  case True
  have "tm_now t + int d \<le> S + int ((late_all S t + 1) * D) + int D" using assms by simp
  also have "\<dots> = S + int ((late_all S t + 1 + 1) * D)" by (simp add: algebra_simps)
  finally show ?thesis using True by (simp add: late_unit) (simp add: run_unit_def)
next
  case False
  then have "tm_now t + int d \<le> S + int D" using assms(2) by simp
  also have "\<dots> \<le> S + int ((late_all S t + 1) * D)" by (simp add: algebra_simps)
  finally show ?thesis using False by (simp add: late_unit) (simp add: run_unit_def)
qed

lemma run_unit_inv: "timer_inv S I D t \<Longrightarrow> d \<le> D \<Longrightarrow> timer_inv S I D (run_unit False d t)"
  using unit_end [of t S D d False] by (auto simp: timer_inv_def late_unit) (auto simp: run_unit_def)

lemma advance_inv:
  assumes inv: "timer_inv S I D t" and "actor_clock t < S" and "d \<le> D"
  shows "timer_inv S I D (advance_actor_clock I (run_unit True d t))"
proof -
  let ?t = "run_unit True d t"
  have f: "actor_execution_count ?t = actor_execution_count t" "actor_clock ?t = actor_clock t" "tm_now ?t = tm_now t + int d"
    by (simp_all add: run_unit_def)
  have l: "late S t \<le> unat (actor_execution_count t)" "tm_now t < S \<longrightarrow> late S t = 0" "actor_execution_count t < I"
    using inv assms(2) by (simp_all add: timer_inv_def)
  have z: "0 < I" "unat (actor_execution_count t) < unat I" using l(3) by (auto simp: word_less_nat_alt)
  moreover have "unat I < 4294967296" by simp
  ultimately have "unat (actor_execution_count t) + 1 < 4294967296" by linarith
  then have u: "unat (actor_execution_count t + 1) = unat (actor_execution_count t) + 1" by (simp add: unat_word_ariths)
  have e: "tm_now ?t \<le> S + int ((late_all S ?t + 1) * D)" using inv assms(3) by (intro unit_end) (simp_all add: timer_inv_def)
  have keep: "late S (?t\<lparr>actor_execution_count := c, actor_clock := k\<rparr>) = late S ?t"
    "late S (?t\<lparr>actor_execution_count := c\<rparr>) = late S ?t"
    "late_all S (?t\<lparr>actor_execution_count := c, actor_clock := k\<rparr>) = late_all S ?t"
    "late_all S (?t\<lparr>actor_execution_count := c\<rparr>) = late_all S ?t" for c k by (simp_all add: late_def late_all_def)
  have n: "tm_now ?t < S \<longrightarrow> late S ?t = 0" using l(2) by (simp add: late_unit f)
  have le: "late S ?t \<le> unat (actor_execution_count t) + 1" using l(1) by (simp add: late_unit)
  show ?thesis
  proof (cases "actor_execution_count t + 1 < I")
    case True
    then show ?thesis using n le u e assms(2) by (simp add: advance_actor_clock_def Let_def f timer_inv_def keep)
  next
    case False
    then show ?thesis using n le e z by (auto simp: advance_actor_clock_def Let_def f timer_inv_def keep)
  qed
qed

text \<open>The loops.\<close>

lemma run_tasks_inv:
  assumes "timer_inv S I D t" and "level_inv S c t" and "\<forall>d \<in> set ds. d \<le> D" and "run_tasks I ds c t = (y, c', t')"
  shows "timer_inv S I D t' \<and> (\<not> y \<longrightarrow> level_inv S c' t')"
  using assms
proof (induction I ds c t rule: run_tasks.induct)
  case (2 I d ds c t)
  let ?t = "advance_actor_clock I (run_unit True d t)"
  obtain y1 c1 t1 where y: "quota_need_yield c ?t = (y1, c1, t1)" by (cases "quota_need_yield c ?t")
  have "timer_inv S I D ?t" using 2(2,3,4) by (intro advance_inv) (auto dest: level_clock)
  from quota_need_yield_inv [OF this _ y] 2(3) have n: "timer_inv S I D t1" "\<not> y1 \<longrightarrow> level_inv S c1 t1" by (auto simp: level_inv_def)
  show ?case
  proof (cases y1)
    case True
    then show ?thesis using n 2(5) by (simp add: y)
  next
    case False
    then show ?thesis using 2(1) [OF y [symmetric]] n 2(4,5) by (simp add: y)
  qed
qed auto

lemma run_messages_inv:
  assumes "timer_inv S I D t" and "level_inv S c t" and "\<forall>m \<in> set ms. fst m \<le> D"
  shows "timer_inv S I D (run_messages I ms c t)"
  using assms
proof (induction I ms c t rule: run_messages.induct)
  case (2 I d at_limit ms c t)
  let ?t = "advance_actor_clock I (run_unit True d t)"
  obtain y1 c1 t1 where y: "quota_need_yield c ?t = (y1, c1, t1)" by (cases "quota_need_yield c ?t")
  have "timer_inv S I D ?t" using 2(2,3,4) by (intro advance_inv) (auto dest: level_clock)
  from quota_need_yield_inv [OF this _ y] 2(3) have n: "timer_inv S I D t1" "\<not> y1 \<longrightarrow> level_inv S c1 t1" by (auto simp: level_inv_def)
  show ?case using 2(1) [OF _ y [symmetric]] 2(2,4) n by (cases at_limit; cases y1) (auto simp: y intro: run_unit_inv)
qed simp

text \<open>A turn below the top starts with a quota that ends before \<open>S\<close>.\<close>

definition quota_inv :: "int \<Rightarrow> timer \<Rightarrow> bool" where
  "quota_inv S t \<longleftrightarrow> 0 < actor_quota t \<and> actor_clock t + 1000 * actor_quota t \<le> S"

lemma set_timer_below: "quota_inv S t \<Longrightarrow> set_timer False t = (c, t') \<Longrightarrow> t' = t \<and> level_inv S c t"
  by (auto simp: quota_inv_def set_timer_def level_inv_def Let_def)

lemma quota_below: "level_inv S c t \<Longrightarrow> quota_inv S (set_actor_quota (unused_quota c) t)"
  by (simp add: level_inv_def quota_inv_def set_actor_quota_def)

lemma turn_parts:
  "d \<in> set (durations x) \<Longrightarrow> x \<in> set ts \<Longrightarrow> d \<in> set (durations (Group_turn ds ts))" by auto

lemma run_turn_inv:
  "timer_inv S I D t \<Longrightarrow> quota_inv S t \<Longrightarrow> \<not> is_top \<Longrightarrow> \<forall>d \<in> set (durations x). d \<le> D \<Longrightarrow> timer_inv S I D (run_turn is_top I x t)"
  "timer_inv S I D t \<Longrightarrow> level_inv S c t \<Longrightarrow> \<forall>x \<in> set xs. \<forall>d \<in> set (durations x). d \<le> D \<Longrightarrow> timer_inv S I D (run_turns I xs c t)"
proof (induction is_top I x t and I xs c t rule: run_turn_run_turns.induct)
  case (1 is_top I ds at_limit ms t)
  obtain c t1 where s: "set_timer is_top t = (c, t1)" by (cases "set_timer is_top t")
  then have l: "t1 = t" "level_inv S c t" using set_timer_below [OF 1(2)] 1(3) by auto
  obtain y c1 t2 where r: "run_tasks I ds c t = (y, c1, t2)" by (cases "run_tasks I ds c t")
  have "\<forall>d \<in> set ds. d \<le> D" "\<forall>m \<in> set ms. fst m \<le> D" using 1(4) by auto
  with run_tasks_inv [OF 1(1) l(2) _ r] run_messages_inv [of S I D t2 c1 ms]
  show ?case by (cases y; cases at_limit) (simp_all add: s l(1) r)
next
  case (2 is_top I ds ts t)
  obtain c t1 where s: "set_timer is_top t = (c, t1)" by (cases "set_timer is_top t")
  then have l: "t1 = t" "level_inv S c t" using set_timer_below [OF 2(3)] 2(4) by auto
  obtain y c1 t2 where r: "run_tasks I ds c t = (y, c1, t2)" by (cases "run_tasks I ds c t")
  have d: "\<forall>d \<in> set ds. d \<le> D" "\<forall>x \<in> set ts. \<forall>d \<in> set (durations x). d \<le> D" using 2(5) by auto
  from run_tasks_inv [OF 2(2) l(2) d(1) r] have t2: "timer_inv S I D t2" "\<not> y \<longrightarrow> level_inv S c1 t2" by auto
  have "timer_inv S I D (run_turns I ts c1 t2)" if "\<not> y"
    using 2(1) [OF s [symmetric] r [folded l(1), symmetric]] that t2 d(2) by simp
  then show ?case using t2 by (cases y) (simp_all add: s l(1) r)
next
  case (4 I x xs c t)
  let ?t = "run_turn False I x (set_actor_quota (unused_quota c) t)"
  obtain y1 c1 t1 where y: "quota_need_yield c ?t = (y1, c1, t1)" by (cases "quota_need_yield c ?t")
  have "timer_inv S I D ?t" using 4(1,3,4,5) quota_below by simp
  from quota_need_yield_inv [OF this _ y] 4(4) have n: "timer_inv S I D t1" "\<not> y1 \<longrightarrow> level_inv S c1 t1" by (auto simp: level_inv_def)
  show ?case using 4(2) [OF y [symmetric]] n 4(5) by (cases y1) (simp_all add: y)
qed simp

section \<open>What a turn starts\<close>

lemma tm_started_simps [simp]:
  "tm_started (advance_actor_clock I t) = tm_started t" "tm_started (set_actor_quota q t) = tm_started t"
  "tm_started (run_unit b d t) = tm_started t @ [(tm_now t, b)]"
  by (simp_all add: advance_actor_clock_def Let_def set_actor_quota_def run_unit_def)

lemma quota_need_yield_started: "quota_need_yield c t = (y, c', t') \<Longrightarrow> tm_started t' = tm_started t"
  by (auto simp: quota_need_yield_def need_preempt_def Let_def split: list.splits prod.splits bool.splits)

lemma set_timer_started: "set_timer b t = (c, t') \<Longrightarrow> tm_started t' = tm_started t"
  by (auto simp: set_timer_def Let_def)

lemma run_tasks_started:
  "run_tasks I ds c t = (y, c', t') \<Longrightarrow> \<exists>us. tm_started t' = tm_started t @ us \<and> list_all snd us \<and> (ds \<noteq> [] \<or> y \<longrightarrow> us \<noteq> [])"
proof (induction I ds c t rule: run_tasks.induct)
  case (2 I d ds c t)
  obtain y1 c1 t1 where n: "quota_need_yield c (advance_actor_clock I (run_unit True d t)) = (y1, c1, t1)" by (metis prod_cases3)
  from quota_need_yield_started [OF n] have s: "tm_started t1 = tm_started t @ [(tm_now t, True)]" by simp
  show ?case using 2(1) [OF n [symmetric]] 2(2) s by (cases y1) (auto simp: n)
qed simp

lemma run_messages_started:
  "\<exists>us. tm_started (run_messages I ms c t) = tm_started t @ us \<and> (\<not> list_ex snd ms \<longrightarrow> list_all snd us) \<and> (ms \<noteq> [] \<longrightarrow> us \<noteq> [])"
proof (induction I ms c t rule: run_messages.induct)
  case (2 I d at_limit ms c t)
  obtain y1 c1 t1 where n: "quota_need_yield c (advance_actor_clock I (run_unit True d t)) = (y1, c1, t1)" by (metis prod_cases3)
  from quota_need_yield_started [OF n] have s: "tm_started t1 = tm_started t @ [(tm_now t, True)]" by simp
  show ?case using 2(1) [OF _ n [symmetric]] s by (cases at_limit; cases y1) (auto simp: n)
qed simp

fun has_work :: "turn \<Rightarrow> bool" where
  "has_work (Actor_turn ds at_limit ms) \<longleftrightarrow> ds \<noteq> [] \<or> \<not> at_limit \<and> ms \<noteq> []"
| "has_work (Group_turn ds []) \<longleftrightarrow> ds \<noteq> []"
| "has_work (Group_turn ds (x # xs)) \<longleftrightarrow> ds \<noteq> [] \<or> has_work x"

lemma run_turn_started:
  "\<exists>us. tm_started (run_turn is_top I x t) = tm_started t @ us \<and> (\<not> suspends x \<longrightarrow> list_all snd us) \<and> (has_work x \<longrightarrow> us \<noteq> [])"
  "\<exists>us. tm_started (run_turns I xs c t) = tm_started t @ us \<and> (\<not> list_ex suspends xs \<longrightarrow> list_all snd us) \<and>
     (xs \<noteq> [] \<and> has_work (hd xs) \<longrightarrow> us \<noteq> [])"
proof (induction is_top I x t and I xs c t rule: run_turn_run_turns.induct)
  case (1 is_top I ds at_limit ms t)
  obtain c t1 where s: "set_timer is_top t = (c, t1)" by (cases "set_timer is_top t")
  obtain y c1 t2 where r: "run_tasks I ds c t1 = (y, c1, t2)" by (metis prod_cases3)
  show ?case
    using set_timer_started [OF s] run_tasks_started [OF r] run_messages_started [of I ms c1 t2]
    by (cases y; cases at_limit) (auto simp: s r)
next
  case (2 is_top I ds ts t)
  obtain c t1 where s: "set_timer is_top t = (c, t1)" by (cases "set_timer is_top t")
  obtain y c1 t2 where r: "run_tasks I ds c t1 = (y, c1, t2)" by (metis prod_cases3)
  show ?case
    using set_timer_started [OF s] run_tasks_started [OF r] 2(1) [OF s [symmetric] r [symmetric]]
    by (cases y; cases ts) (auto simp: s r)
next
  case (4 I x xs c t)
  let ?t = "run_turn False I x (set_actor_quota (unused_quota c) t)"
  obtain y1 c1 t1 where y: "quota_need_yield c ?t = (y1, c1, t1)" by (metis prod_cases3)
  show ?case using 4(1) 4(2) [OF y [symmetric]] quota_need_yield_started [OF y] by (cases y1) (auto simp: y)
qed simp

section \<open>Properties\<close>

lemma run_turn_top: "run_turn True I x t = run_turn False I x (set_actor_quota default_actor_quota (t\<lparr>actor_clock := tm_now t\<rparr>))"
  by (cases x) (simp_all add: set_timer_def Let_def)

lemma late_all_counted: "list_all snd (tm_started t) \<Longrightarrow> late_all S t = late S t"
  unfolding late_def late_all_def by (auto simp: list_all_iff intro!: arg_cong [where f = length] filter_cong)

lemma top_inv:
  assumes "tm_started t = []" and "actor_execution_count t < I"
  shows "timer_inv (tm_now t + 500000) I D (set_actor_quota default_actor_quota (t\<lparr>actor_clock := tm_now t\<rparr>))"
  using assms by (simp add: timer_inv_def set_actor_quota_def late_def late_all_def)

text \<open>C14: The quota of 500 microseconds bounds a turn. In a turn of a child of the root group, whatever actors and groups
  it runs below, at most \<open>execution-interval\<close> tasks and messages that \<open>advance_actor_clock\<close> counts are started
  after the quota has ended, and if no message makes an actor reach its concurrency limit and every unit lasts at
  most \<open>D\<close>, the turn ends within the quota plus \<open>execution-interval + 1\<close> times \<open>D\<close>. A turn that
  has something to do starts at least one unit, whatever \<open>need_preempt\<close> answers; and the counter is left
  below the interval, so the next turn starts as this one.\<close>

theorem turn_quota:
  assumes "tm_started t = []" and "actor_execution_count t < configured_interval opt"
  shows "late (tm_now t + 500000) (run_turn True (configured_interval opt) x t) \<le> unat (configured_interval opt) \<and>
    (\<not> suspends x \<and> (\<forall>d \<in> set (durations x). d \<le> D) \<longrightarrow>
      tm_now (run_turn True (configured_interval opt) x t) \<le> tm_now t + 500000 + int ((unat (configured_interval opt) + 1) * D)) \<and>
    (has_work x \<longrightarrow> tm_started (run_turn True (configured_interval opt) x t) \<noteq> []) \<and>
    actor_execution_count (run_turn True (configured_interval opt) x t) < configured_interval opt"
proof -
  let ?I = "configured_interval opt" and ?S = "tm_now t + 500000" and ?t = "set_actor_quota default_actor_quota (t\<lparr>actor_clock := tm_now t\<rparr>)"
  let ?r = "run_turn True ?I x t"
  have q: "quota_inv ?S ?t" by (simp add: quota_inv_def set_actor_quota_def default_actor_quota_def)
  have inv: "timer_inv ?S ?I D' ?r" if "\<forall>d \<in> set (durations x). d \<le> D'" for D'
    unfolding run_turn_top by (rule run_turn_inv(1) [OF top_inv [OF assms] q _ that]) simp
  have "\<forall>d \<in> set (durations x). d \<le> Max (set (durations x))" by simp
  from inv [OF this] have a: "late ?S ?r \<le> unat ?I" "actor_execution_count ?r < ?I"
    by (auto simp: timer_inv_def word_less_nat_alt split: if_splits)
  obtain us where us: "tm_started ?r = us" "\<not> suspends x \<longrightarrow> list_all snd us" "has_work x \<longrightarrow> us \<noteq> []"
    using run_turn_started(1) [of True ?I x t] assms(1) by auto
  have "tm_now ?r \<le> ?S + int ((unat ?I + 1) * D)" if h: "\<not> suspends x \<and> (\<forall>d \<in> set (durations x). d \<le> D)"
  proof -
    have "late_all ?S ?r \<le> unat ?I" using a(1) us h late_all_counted [of ?r ?S] by simp
    then have "(late_all ?S ?r + 1) * D \<le> (unat ?I + 1) * D" by simp
    moreover have "tm_now ?r \<le> ?S + int ((late_all ?S ?r + 1) * D)" using inv [of D] h by (simp add: timer_inv_def)
    ultimately show ?thesis by linarith
  qed
  then show ?thesis using a us by blast
qed

theorem turn_quota_witness:
  "let t = \<lparr>tm_now = 7, actor_clock = 0, actor_quota = 0, actor_execution_count = 0, preempts = [], tm_started = []\<rparr>;
       x = Group_turn [300000] [Actor_turn [100000] False [(300000, False), (300000, False)], Actor_turn [] False [(5, False)]]
   in tm_now (run_turn True (configured_interval (Some 0)) x t) = 700007 \<and>
     tm_now (run_turn True (configured_interval (Some 0)) x t) \<le> 7 + 500000 + 600000"
proof -
  let ?t = "\<lparr>tm_now = 7, actor_clock = 0, actor_quota = 0, actor_execution_count = 0, preempts = [], tm_started = []\<rparr>"
  let ?x = "Group_turn [300000] [Actor_turn [100000] False [(300000, False), (300000, False)], Actor_turn [] False [(5, False)]]"
  have i: "configured_interval (Some 0) = 1" by (simp add: configured_interval_def)
  have "tm_now (run_turn True (configured_interval (Some 0)) ?x ?t) \<le> 7 + 500000 + 600000"
    using turn_quota [of ?t "Some 0" ?x 300000] by (simp add: i)
  moreover have "tm_now (run_turn True (configured_interval (Some 0)) ?x ?t) = 700007" unfolding i
    by (simp add: set_timer_def Let_def set_actor_quota_def default_actor_quota_def run_unit_def advance_actor_clock_def
        quota_need_yield_def need_preempt_def cast_us_def)
  ultimately show ?thesis by (simp add: Let_def)
qed

text \<open>A message whose future is pending and that brings its actor to its concurrency limit, as every such message
  of a non-reentrant actor does, leaves the turn before \<open>advance_actor_clock\<close>. A group runs any number of such
  children in one turn, however long they take.\<close>

lemma suspended_messages_uncounted:
  assumes "preempts t = []" and "0 < unused_quota c" and "unused_quota c = cast_us (stop_time c - actor_clock t)"
  shows "tm_now (run_turns I (map (\<lambda>d. Actor_turn [] False [(d, True)]) ds) c t) = tm_now t + int (sum_list ds)"
  using assms
proof (induction ds arbitrary: c t)
  case (Cons d ds)
  let ?t = "run_unit False d (set_actor_quota (unused_quota c) t)"
  have r: "run_turn False I (Actor_turn [] False [(d, True)]) (set_actor_quota (unused_quota c) t) = ?t"
    by (simp add: set_timer_def Let_def)
  have f: "preempts ?t = []" "actor_clock ?t = actor_clock t" "tm_now ?t = tm_now t + int d"
    using Cons.prems(1) by (simp_all add: run_unit_def set_actor_quota_def)
  have "quota_need_yield c ?t = (False, c, ?t)" using Cons.prems f by (simp add: quota_need_yield_def need_preempt_def Let_def)
  then show ?case using Cons.IH [of ?t c] Cons.prems f r by simp
qed simp

end
