(* ===== verification/System_Lifecycle.thy ===== *)
theory System_Lifecycle
  imports Local_Channel Thread_Pool Service_Group Network_Config Actor_System Actor_Timer
begin

text \<open>
  Start and end of the actor system on one machine (\<open>core/actor-app.cc\<close>, and the parts of
  \<open>core/root_actor_group.cc\<close> that set a shard up and take it down): \<open>actor_smp::configure\<close> with the engines of
  the shards, the two matrices of queues, the thread pool and the pollers; \<open>cleanup_cpu\<close> and
  \<open>clear_actor_system\<close>; the destructors of the queues; and \<open>actor_app::run\<close>, which starts the network, calls
  the main function and stops the system when one of them fails. What a registered poller does is in
  the theories of its component; here it is the fact that it is registered. The GPU pool is the
  one of a build without \<open>HIACTOR_GPU_ENABLE\<close>.
\<close>

section \<open>The state of a machine\<close>

record pollers =
  actor_smp_poller :: bool
  coord_poller :: bool
  thread_resource_poller :: bool

definition no_pollers :: pollers where
  "no_pollers = \<lparr>actor_smp_poller = False, coord_poller = False, thread_resource_poller = False\<rparr>"

text \<open>\<open>metrics\<close> has a flag per queue, for both matrices. \<open>smp_pool\<close> is absent when the pool is not active.\<close>

record ('m, 'n, 'q, 'j) smp =
  execution_interval :: u32
  engines :: "bool list"
  service_groups :: "ssgs list"
  coordinator_worker :: bool
  local_qs :: "('m, 'q) qmatrix"
  network_qs :: "('n, 'q) qmatrix"
  metrics :: "bool list list"
  smp_pool :: "'j pool option"
  smp_pollers :: "pollers list"

record smp_options =
  opt_execution_interval :: "u32 option"
  opt_open_thread_resource_pool :: bool
  opt_worker_thread_number :: nat

text \<open>The options of an application that is started without any: \<open>add_actor_options\<close> gives their defaults.\<close>

definition add_actor_options :: "smp_options \<times> app_options" where
  "add_actor_options =
     (\<lparr>opt_execution_interval = None, opt_open_thread_resource_pool = False, opt_worker_thread_number = 8\<rparr>,
      \<lparr>opt_worker_node_list = None, opt_machine_id = None, opt_p2p_connection_count = 1, opt_network_timeout_sec = 60\<rparr>)"

section \<open>Configuration\<close>

definition allocate_actor_engine :: "bool \<Rightarrow> bool res" where
  "allocate_actor_engine rag_holder = assert_res (\<not> rag_holder) (Inr True)"

fun allocate_engines :: "bool list \<Rightarrow> bool list res" where
  "allocate_engines [] = Inr []"
| "allocate_engines (e # es) =
     bind_res (allocate_actor_engine e) (\<lambda>e1. bind_res (allocate_engines es) (\<lambda>es1. Inr (e1 # es1)))"

definition thread_pool_configure :: "nat \<Rightarrow> smp_options \<Rightarrow> 'j pool option res" where
  "thread_pool_configure local_shard_count opts =
     (if \<not> opt_open_thread_resource_pool opts then Inr None
      else bind_res (pool_configure local_shard_count (opt_worker_thread_number opts)) (\<lambda>p. Inr (Some p)))"

definition register_actor_pollers :: "bool \<Rightarrow> nat \<Rightarrow> pollers" where
  "register_actor_pollers pool_active shard =
     \<lparr>actor_smp_poller = True, coord_poller = (shard = 0), thread_resource_poller = pool_active\<rparr>"

definition deregister_actor_pollers :: "pollers \<Rightarrow> pollers" where
  "deregister_actor_pollers ps = no_pollers"

text \<open>\<open>start\<close> of a queue also registers its metrics; \<open>stop\<close> clears them.\<close>

definition metrics_on :: "nat \<Rightarrow> nat \<Rightarrow> bool list list \<Rightarrow> bool list list" where
  "metrics_on n s ms = map (\<lambda>c. if c \<noteq> s then (ms ! c)[s := True] else ms ! c) [0..<n]"

definition metrics_off :: "nat \<Rightarrow> nat \<Rightarrow> bool list list \<Rightarrow> bool list list" where
  "metrics_off n s ms = map (\<lambda>c. (ms ! c)[s := False]) [0..<n]"

definition smp_configure :: "'q \<Rightarrow> nat \<Rightarrow> smp_options \<Rightarrow> bool list \<Rightarrow> ('m, 'n, 'q, 'j) smp res" where
  "smp_configure q0 n opts rag_holders =
     bind_res (allocate_engines rag_holders) (\<lambda>es.
     bind_res (thread_pool_configure n opts) (\<lambda>pool.
     bind_res (fold_res (start_all_queues n) [0..<n] (create_qs q0 n)) (\<lambda>lqs.
     bind_res (fold_res (start_all_queues n) [0..<n] (create_qs q0 n)) (\<lambda>nqs.
       Inr \<lparr>execution_interval = configured_interval (opt_execution_interval opts),
            engines = es, service_groups = map (\<lambda>e. init_default_actor_msg_service_group n []) es,
            coordinator_worker = True, local_qs = lqs, network_qs = nqs,
            metrics = fold (metrics_on n) [0..<n] (replicate n (replicate n False)),
            smp_pool = pool, smp_pollers = map (register_actor_pollers (pool \<noteq> None)) [0..<n]\<rparr>))))"

section \<open>Taking the system down\<close>

text \<open>What a shard does about itself: \<open>cleanup_cpu\<close> and \<open>deregister_actor_pollers\<close>.\<close>

definition cleanup_shard :: "nat \<Rightarrow> ('m, 'n, 'q, 'j) smp \<Rightarrow> ('m, 'n, 'q, 'j) smp" where
  "cleanup_shard s st =
     st\<lparr>metrics := metrics_off (length (engines st)) s (metrics st),
        smp_pollers := (smp_pollers st)[s := deregister_actor_pollers (smp_pollers st ! s)]\<rparr>"

text \<open>On shard 0. The tasks submitted to the other shards are the result: nothing waits for the future of
  \<open>do_with\<close>, in which the semaphore is awaited.\<close>

definition clear_actor_system :: "nat \<Rightarrow> ('m, 'n, 'q, 'j) smp \<Rightarrow> (nat list \<times> ('m, 'n, 'q, 'j) smp) res" where
  "clear_actor_system local_shard_id st =
     assert_res (local_shard_id = 0)
       (let st1 = cleanup_shard 0 st
        in case smp_pool st1 of
             None \<Rightarrow> Inr ([1..<length (engines st)], st1)
           | Some p \<Rightarrow> bind_res (pool_stop p) (\<lambda>p1. Inr ([1..<length (engines st)], st1\<lparr>smp_pool := Some p1\<rparr>)))"

text \<open>The destructor of a queue destroys the sending side, which \<open>start\<close> constructs, if the queue is between
  different shards; the messages in it are the result, nobody deletes them.\<close>

definition queue_delete :: "nat \<Rightarrow> nat \<Rightarrow> ('m, 'q) msg_queue \<Rightarrow> 'm list res" where
  "queue_delete i j a = (if i \<noteq> j then the_fifo a else Inr [])"

definition qs_delete :: "nat \<Rightarrow> ('m, 'q) qmatrix \<Rightarrow> 'm list res" where
  "qs_delete nr_cpu qs =
     fold_res (\<lambda>(i, j) left. bind_res (q_at qs i j) (\<lambda>a. bind_res (queue_delete i j a) (\<lambda>ms. Inr (left @ ms))))
       (List.product [0..<nr_cpu] [0..<nr_cpu]) []"

section \<open>Running an application\<close>

text \<open>The static members of \<open>machine_info\<close> before they are set, and when \<open>start_network\<close> has failed.\<close>

definition machine_info_unset :: machine_info where
  "machine_info_unset = \<lparr>num_shards = 0, sid_anchor = 0, min_sid = 0, max_sid = 0\<rparr>"

definition machine_info_failed ::
    "(string \<Rightarrow> string) \<Rightarrow> (string \<Rightarrow> socket_address res) \<Rightarrow> u32 \<Rightarrow> app_options \<Rightarrow> machine_info" where
  "machine_info_failed read_file ipv4 local_shard_count opts =
     (case (opt_worker_node_list opts, opt_machine_id opts) of
        (Some list_file, Some mid) \<Rightarrow>
          (case load_worker_node_list ipv4 local_shard_count (read_file list_file) mid of
             Inl _ \<Rightarrow> machine_info_unset
           | Inr nodes \<Rightarrow>
               (case set_network_config local_shard_count mid (opt_p2p_connection_count opts)
                       (default_network_config\<lparr>node_list := nodes\<rparr>) of
                  Inl _ \<Rightarrow> machine_info_unset
                | Inr (nc, num, anchor) \<Rightarrow> machine_info_unset\<lparr>num_shards := num, sid_anchor := anchor\<rparr>))
      | _ \<Rightarrow> machine_info_unset)"

text \<open>\<open>actor_app::run\<close> after a successful \<open>configure\<close>. \<open>connect_ok\<close> is the outcome of connecting to the other
  machines, if there are any; \<open>main\<close> is the main function, with whether it threw and the state it leaves.
  Every exception is answered with \<open>exit\<close> (\<open>exit_system\<close>), which loops over \<open>global_shard_count()\<close> shards.\<close>

definition app_run ::
    "(string \<Rightarrow> string) \<Rightarrow> (string \<Rightarrow> socket_address res) \<Rightarrow> ('d, 'u, 's) actor_env \<Rightarrow> u32 \<Rightarrow> app_options \<Rightarrow> bool \<Rightarrow>
     (('d, 'u, 's) shard \<Rightarrow> bool \<times> ('d, 'u, 's) shard) \<Rightarrow> ('d, 'u, 's) shard \<Rightarrow> ('d, 'u, 's) shard res option" where
  "app_run read_file ipv4 env local_shard_count opts connect_ok main s =
     (case start_network read_file ipv4 local_shard_count opts of
        Inr (nc, mi, connect) \<Rightarrow>
          if connect \<and> \<not> connect_ok then exit_system env (num_shards mi) False s
          else (case main s of (thrown, s1) \<Rightarrow> if thrown then exit_system env (num_shards mi) False s1 else Some (Inr s1))
      | Inl f \<Rightarrow>
          (case f of
             Thrown e \<Rightarrow> exit_system env (num_shards (machine_info_failed read_file ipv4 local_shard_count opts)) False s
           | _ \<Rightarrow> Some (Inl f)))"

section \<open>What configuration sets up\<close>

lemma allocate_engines_ok: "allocate_engines (replicate n False) = Inr (replicate n True)"
  by (induction n) (simp_all add: allocate_actor_engine_def)

lemma start_queues_ok:
  "\<exists>qs. fold_res (start_all_queues n) [0..<n] (create_qs q n) = Inr qs \<and> square n qs \<and>
    (\<forall>i<n. \<forall>j<n. qs ! i ! j = (if i \<noteq> j then mq_start (mq_new q) else mq_new q))"
  using start_all_shards [OF square_create [of n q] order_refl] by auto

lemma metrics_on_step:
  assumes "length ms = n" and "\<forall>i<n. length (ms ! i) = n" and "k < n"
  shows "length (metrics_on n k ms) = n" "\<forall>i<n. length (metrics_on n k ms ! i) = n"
    "\<forall>i<n. \<forall>j<n. metrics_on n k ms ! i ! j \<longleftrightarrow> ms ! i ! j \<or> (j = k \<and> i \<noteq> j)"
  using assms by (auto simp: metrics_on_def nth_list_update)

lemma metrics_on_all:
  assumes "length ms = n" and "\<forall>i<n. length (ms ! i) = n" and "k \<le> n"
  shows "length (fold (metrics_on n) [0..<k] ms) = n \<and> (\<forall>i<n. length (fold (metrics_on n) [0..<k] ms ! i) = n) \<and>
    (\<forall>i<n. \<forall>j<n. fold (metrics_on n) [0..<k] ms ! i ! j \<longleftrightarrow> ms ! i ! j \<or> (j < k \<and> i \<noteq> j))"
  using assms(3)
proof (induction k)
  case 0
  then show ?case using assms(1,2) by simp
next
  case (Suc k)
  then have IH: "length (fold (metrics_on n) [0..<k] ms) = n" "\<forall>i<n. length (fold (metrics_on n) [0..<k] ms ! i) = n"
    "\<forall>i<n. \<forall>j<n. fold (metrics_on n) [0..<k] ms ! i ! j \<longleftrightarrow> ms ! i ! j \<or> (j < k \<and> i \<noteq> j)" by simp_all
  have "k < n" using Suc.prems by simp
  note step = metrics_on_step [OF IH(1,2) this]
  have "fold (metrics_on n) [0..<Suc k] ms = metrics_on n k (fold (metrics_on n) [0..<k] ms)" by simp
  then show ?case using step IH(3) by (simp only: less_Suc_eq) blast
qed

lemma queue_delete_all:
  assumes "square n qs" and "\<And>i j. i < n \<Longrightarrow> j < n \<Longrightarrow> queue_delete i j (qs ! i ! j) = Inr []"
  shows "qs_delete n qs = Inr []"
proof -
  have "fold_res (\<lambda>(i, j) left. bind_res (q_at qs i j) (\<lambda>a. bind_res (queue_delete i j a) (\<lambda>ms. Inr (left @ ms)))) xs left = Inr left"
    if "\<forall>(i, j) \<in> set xs. i < n \<and> j < n" for xs left
    using that by (induction xs) (auto simp: q_at_square [OF assms(1)] assms(2))
  then show ?thesis unfolding qs_delete_def by auto
qed

lemma metrics_off_all:
  assumes "length ms = n" and "\<forall>i<n. length (ms ! i) = n"
  shows "length (fold (metrics_off n) ts ms) = n \<and> (\<forall>i<n. length (fold (metrics_off n) ts ms ! i) = n) \<and>
    (\<forall>i<n. \<forall>j<n. fold (metrics_off n) ts ms ! i ! j \<longleftrightarrow> ms ! i ! j \<and> j \<notin> set ts)"
  using assms
proof (induction ts arbitrary: ms)
  case (Cons s ts)
  have step: "length (metrics_off n s ms) = n" "\<forall>i<n. length (metrics_off n s ms ! i) = n"
    "\<forall>i<n. \<forall>j<n. metrics_off n s ms ! i ! j \<longleftrightarrow> ms ! i ! j \<and> j \<noteq> s"
    using Cons.prems by (simp_all add: metrics_off_def nth_update_any)
  show ?case using Cons.IH [OF step(1,2)] step(3) by auto
qed simp

lemma cleanup_shards:
  "metrics (fold cleanup_shard ts st) = fold (metrics_off (length (engines st))) ts (metrics st) \<and>
   engines (fold cleanup_shard ts st) = engines st \<and> length (smp_pollers (fold cleanup_shard ts st)) = length (smp_pollers st) \<and>
   (\<forall>s<length (smp_pollers st). smp_pollers (fold cleanup_shard ts st) ! s = (if s \<in> set ts then no_pollers else smp_pollers st ! s))"
proof (induction ts arbitrary: st)
  case (Cons s ts)
  have eqs: "engines (cleanup_shard s st) = engines st" "length (smp_pollers (cleanup_shard s st)) = length (smp_pollers st)"
    "metrics (cleanup_shard s st) = metrics_off (length (engines st)) s (metrics st)"
    by (simp_all add: cleanup_shard_def)
  moreover have "smp_pollers (cleanup_shard s st) ! t = (if t = s then no_pollers else smp_pollers st ! t)"
    if "t < length (smp_pollers st)" for t
    using that by (simp add: cleanup_shard_def deregister_actor_pollers_def nth_list_update)
  ultimately show ?case using Cons.IH [of "cleanup_shard s st"] by simp
qed simp

lemma thread_pool_configure_ok:
  assumes "0 < n" and "opt_open_thread_resource_pool opts \<longrightarrow> 0 < opt_worker_thread_number opts"
  shows "\<exists>pool :: 'j pool option. thread_pool_configure n opts = Inr pool \<and> (pool \<noteq> None \<longleftrightarrow> opt_open_thread_resource_pool opts) \<and>
    (\<forall>p. pool = Some p \<longrightarrow> pool_inv n p \<and> pool_jobs p = {#})"
proof (cases "opt_open_thread_resource_pool opts")
  case True
  then obtain p :: "'j pool" where "pool_configure n (opt_worker_thread_number opts) = Inr p" "pool_inv n p" "pool_jobs p = {#}"
    using assms pool_configure_ok by blast
  with True show ?thesis by (simp add: thread_pool_configure_def)
qed (simp add: thread_pool_configure_def)

lemma started_queue_delete: "i < n \<Longrightarrow> j < n \<Longrightarrow> qs ! i ! j = (if i \<noteq> j then mq_start (mq_new q) else mq_new q) \<Longrightarrow>
    queue_delete i j (qs ! i ! j) = Inr []"
  by (simp add: queue_delete_def the_fifo_def mq_start_def)

text \<open>What a machine that has just been configured looks like.\<close>

definition queues_started :: "nat \<Rightarrow> 'q \<Rightarrow> ('m, 'q) qmatrix \<Rightarrow> bool" where
  "queues_started n q qs \<longleftrightarrow> square n qs \<and>
     (\<forall>i<n. \<forall>j<n. qs ! i ! j = (if i \<noteq> j then mq_start (mq_new q) else mq_new q))"

lemma queues_started_delete: "queues_started n q qs \<Longrightarrow> qs_delete n qs = Inr []"
  using queue_delete_all [of n qs] started_queue_delete [of _ n _ qs q] by (simp add: queues_started_def)

lemma start_queues_started:
  obtains qs where "fold_res (start_all_queues n) [0..<n] (create_qs q n) = Inr qs" "queues_started n q qs"
  using start_queues_ok [of n q] unfolding queues_started_def by (elim exE conjE) blast

lemma metrics_on_started:
  assumes "ms = fold (metrics_on n) [0..<n] (replicate n (replicate n False))"
  shows "length ms = n" "\<forall>i<n. length (ms ! i) = n" "\<forall>i<n. \<forall>j<n. ms ! i ! j \<longleftrightarrow> i \<noteq> j"
  unfolding assms using metrics_on_all [of "replicate n (replicate n False)" n n] by auto

text \<open>C19: Configuration readies every shard: with every engine still unallocated and, if the thread pool is open,
  a positive number of worker threads, \<open>actor_smp::configure\<close> does not fail; afterwards every shard has an
  engine, exactly the default service group and the pollers (the coordinator's on shard 0 only, the
  thread pool's where the pool is open), the sending side of every queue between two different shards is
  constructed and the queue carries metrics, no queue of a shard to itself is started, the pool keeps its
  invariant with no job in it, the interval is positive, and destroying the queues at once destroys no
  unconstructed sending side and loses no message.\<close>

theorem configure_readies_every_shard:
  assumes "0 < n" and "opt_open_thread_resource_pool opts \<longrightarrow> 0 < opt_worker_thread_number opts"
  shows "\<exists>st :: ('m, 'n, 'q, 'j) smp. smp_configure q n opts (replicate n False) = Inr st \<and>
    engines st = replicate n True \<and> execution_interval st \<noteq> 0 \<and>
    (\<forall>g \<in> set (service_groups st). live_groups g = {0}) \<and>
    (\<forall>s<n. actor_smp_poller (smp_pollers st ! s) \<and> (coord_poller (smp_pollers st ! s) \<longleftrightarrow> s = 0) \<and>
      (thread_resource_poller (smp_pollers st ! s) \<longleftrightarrow> opt_open_thread_resource_pool opts)) \<and>
    queues_started n q (local_qs st) \<and> queues_started n q (network_qs st) \<and>
    (\<forall>i<n. \<forall>j<n. metrics st ! i ! j \<longleftrightarrow> i \<noteq> j) \<and>
    (\<forall>p. smp_pool st = Some p \<longrightarrow> pool_inv n p \<and> pool_jobs p = {#}) \<and>
    qs_delete n (local_qs st) = Inr [] \<and> qs_delete n (network_qs st) = Inr []"
proof -
  obtain pool :: "'j pool option" where pool: "thread_pool_configure n opts = Inr pool"
    "pool \<noteq> None \<longleftrightarrow> opt_open_thread_resource_pool opts" "\<forall>p. pool = Some p \<longrightarrow> pool_inv n p \<and> pool_jobs p = {#}"
    using thread_pool_configure_ok [OF assms] by blast
  obtain lqs :: "('m, 'q) qmatrix" where lqs: "fold_res (start_all_queues n) [0..<n] (create_qs q n) = Inr lqs" "queues_started n q lqs"
    by (rule start_queues_started)
  obtain nqs :: "('n, 'q) qmatrix" where nqs: "fold_res (start_all_queues n) [0..<n] (create_qs q n) = Inr nqs" "queues_started n q nqs"
    by (rule start_queues_started)
  have "configured_interval (opt_execution_interval opts) \<noteq> 0"
    by (auto simp: configured_interval_def max_def split: option.split)
  moreover have "live_groups (init_default_actor_msg_service_group n []) = {0}"
    using assms(1) by (auto simp: live_groups_def init_default_actor_msg_service_group_def)
  moreover define st :: "('m, 'n, 'q, 'j) smp" where "st =
      \<lparr>execution_interval = configured_interval (opt_execution_interval opts),
       engines = replicate n True,
       service_groups = map (\<lambda>e. init_default_actor_msg_service_group n []) (replicate n True),
       coordinator_worker = True, local_qs = lqs, network_qs = nqs,
       metrics = fold (metrics_on n) [0..<n] (replicate n (replicate n False)),
       smp_pool = pool, smp_pollers = map (register_actor_pollers (pool \<noteq> None)) [0..<n]\<rparr>"
  moreover have "smp_configure q n opts (replicate n False) = Inr st"
    unfolding smp_configure_def allocate_engines_ok pool(1) lqs(1) nqs(1) st_def by simp
  moreover have "smp_pollers st ! s = register_actor_pollers (opt_open_thread_resource_pool opts) s" if "s < n" for s
    using that pool(2) by (simp add: st_def del: not_None_eq)
  ultimately show ?thesis
    using pool(3) lqs(2) nqs(2) metrics_on_started(3) [OF refl, of n] queues_started_delete [OF lqs(2)]
      queues_started_delete [OF nqs(2)]
    by (intro exI [where x = st]) (simp add: register_actor_pollers_def)
qed

theorem configure_readies_every_shard_witness:
  "\<exists>st :: (nat, nat, nat list, unit) smp.
    smp_configure [] 2 \<lparr>opt_execution_interval = Some 0, opt_open_thread_resource_pool = True, opt_worker_thread_number = 4\<rparr>
      (replicate 2 False) = Inr st \<and> engines st = [True, True] \<and> execution_interval st \<noteq> 0 \<and>
    coord_poller (smp_pollers st ! 0) \<and> \<not> coord_poller (smp_pollers st ! 1) \<and> metrics st ! 0 ! 1 \<and> \<not> metrics st ! 1 ! 1"
proof -
  obtain st :: "(nat, nat, nat list, unit) smp" where
    "smp_configure [] 2 \<lparr>opt_execution_interval = Some 0, opt_open_thread_resource_pool = True, opt_worker_thread_number = 4\<rparr>
      (replicate 2 False) = Inr st" "engines st = replicate 2 True" "execution_interval st \<noteq> 0"
    "\<forall>s<2. coord_poller (smp_pollers st ! s) \<longleftrightarrow> s = 0" "\<forall>i<2. \<forall>j<2. metrics st ! i ! j \<longleftrightarrow> i \<noteq> j"
    using configure_readies_every_shard [where n = 2 and q = "[] :: nat list" and
        opts = "\<lparr>opt_execution_interval = Some 0, opt_open_thread_resource_pool = True, opt_worker_thread_number = 4\<rparr>"]
    by auto
  then show ?thesis by (intro exI [where x = st]) (simp add: numeral_2_eq_2)
qed

section \<open>What the end of the system leaves\<close>

lemma cleanup_tasks_finish:
  assumes "length (smp_pollers st) = n" "length (engines st) = n" "length (metrics st) = n"
    "\<forall>i<n. length (metrics st ! i) = n" and "set ts = {0..<n}"
  shows "\<forall>s<n. smp_pollers (fold cleanup_shard ts st) ! s = no_pollers"
    "\<forall>i<n. \<forall>j<n. \<not> metrics (fold cleanup_shard ts st) ! i ! j"
  using cleanup_shards [of ts st] metrics_off_all [OF assms(3,4), of ts] assms(1,2,5) by simp_all

lemma cleanup_shard_pool: "smp_pool (cleanup_shard s st) = smp_pool st"
  by (simp add: cleanup_shard_def)

lemma cleanup_shards_pool_update:
  "fold cleanup_shard ts (st\<lparr>smp_pool := p\<rparr>) = (fold cleanup_shard ts st)\<lparr>smp_pool := p\<rparr>"
proof (induction ts arbitrary: st)
  case (Cons t ts)
  have "cleanup_shard t (st\<lparr>smp_pool := p\<rparr>) = (cleanup_shard t st)\<lparr>smp_pool := p\<rparr>" by (simp add: cleanup_shard_def)
  then show ?case using Cons.IH by simp
qed simp

text \<open>The shutdown does not wait for the other shards: \<open>clear_actor_system\<close> builds a semaphore on which the cleanup of
  the other shards is awaited, and drops the future. When it returns, the worker threads of the pool are
  gone and every other shard still has all the pollers and metrics it had. Only when the tasks it submitted
  have run on those shards, in whatever order, are all pollers and metrics of the machine gone.\<close>

theorem shutdown_does_not_wait:
  fixes st :: "('m, 'n, 'q, 'j) smp"
  assumes "0 < n" "length (smp_pollers st) = n" "length (engines st) = n" "length (metrics st) = n"
    "\<forall>i<n. length (metrics st ! i) = n"
    and "smp_pool st = Some p" and "\<forall>c \<in> set (pool_completed p). c = []"
  shows "\<exists>st1. clear_actor_system 0 st = Inr ([1..<n], st1) \<and>
    smp_pool st1 = Some (p\<lparr>pool_threads := []\<rparr>) \<and> smp_pollers st1 ! 0 = no_pollers \<and>
    (\<forall>s<n. 0 < s \<longrightarrow> smp_pollers st1 ! s = smp_pollers st ! s \<and> (\<forall>i<n. metrics st1 ! i ! s \<longleftrightarrow> metrics st ! i ! s)) \<and>
    (\<forall>ts. mset ts = mset [1..<n] \<longrightarrow>
      (\<forall>s<n. smp_pollers (fold cleanup_shard ts st1) ! s = no_pollers) \<and>
      (\<forall>i<n. \<forall>j<n. \<not> metrics (fold cleanup_shard ts st1) ! i ! j))"
proof -
  define st1 where "st1 = (cleanup_shard 0 st)\<lparr>smp_pool := Some (p\<lparr>pool_threads := []\<rparr>)\<rparr>"
  have "pool_stop p = Inr (p\<lparr>pool_threads := []\<rparr>)"
    using assms(7) by (simp add: pool_stop_def list_all_iff)
  then have run: "clear_actor_system 0 st = Inr ([1..<n], st1)"
    by (simp add: clear_actor_system_def Let_def cleanup_shard_pool assms(3,6) st1_def)
  have now: "smp_pollers st1 ! s = (if s = 0 then no_pollers else smp_pollers st ! s)" if "s < n" for s
    using cleanup_shards [of "[0]" st] that assms(2) by (simp add: st1_def)
  have metr: "metrics st1 ! i ! s \<longleftrightarrow> metrics st ! i ! s \<and> s \<noteq> 0" if "i < n" "s < n" for i s
    using cleanup_shards [of "[0]" st] metrics_off_all [OF assms(4,5), of "[0]"] that assms(3) by (simp add: st1_def)
  have later: "(\<forall>s<n. smp_pollers (fold cleanup_shard ts st1) ! s = no_pollers) \<and>
      (\<forall>i<n. \<forall>j<n. \<not> metrics (fold cleanup_shard ts st1) ! i ! j)" if "mset ts = mset [1..<n]" for ts
  proof -
    have "set ts = {1..<n}" using mset_eq_setD [OF that] by simp
    then have "set (0 # ts) = {0..<n}" using assms(1) by auto
    from cleanup_tasks_finish [OF assms(2-5) this] show ?thesis
      by (simp add: st1_def cleanup_shards_pool_update)
  qed
  show ?thesis using run now metr later assms(1) by (intro exI [where x = st1]) (simp add: st1_def)
qed

theorem shutdown_does_not_wait_witness:
  "\<exists>(st :: (nat, nat, nat, nat) smp) st1. clear_actor_system 0 st = Inr ([1], st1) \<and>
    actor_smp_poller (smp_pollers st1 ! 1) \<and> thread_resource_poller (smp_pollers st1 ! 1) \<and>
    smp_pool st1 = Some \<lparr>pool_threads = [], pool_workers = [new_work_thread], pool_completed = [[], []],
      reactors_idle = [False, False], pool_wakeup = [False, False], pool_reactors = [PR_running, PR_running],
      pool_resolved = []\<rparr> \<and>
    \<not> actor_smp_poller (smp_pollers (fold cleanup_shard [1] st1) ! 1)"
proof -
  let ?p = "\<lparr>pool_threads = [0], pool_workers = [new_work_thread], pool_completed = [[], []], reactors_idle = [False, False],
    pool_wakeup = [False, False], pool_reactors = [PR_running, PR_running], pool_resolved = []\<rparr> :: nat pool"
  let ?st = "\<lparr>execution_interval = 1, engines = [True, True], service_groups = [[[1, 1]], [[1, 1]]],
    coordinator_worker = True, local_qs = create_qs 0 2, network_qs = create_qs 0 2,
    metrics = [[False, True], [True, False]], smp_pool = Some ?p,
    smp_pollers = [register_actor_pollers True 0, register_actor_pollers True 1]\<rparr> :: (nat, nat, nat, nat) smp"
  have "\<exists>st1. clear_actor_system 0 ?st = Inr ([1..<2], st1) \<and>
    smp_pool st1 = Some (?p\<lparr>pool_threads := []\<rparr>) \<and> smp_pollers st1 ! 0 = no_pollers \<and>
    (\<forall>s<2. 0 < s \<longrightarrow> smp_pollers st1 ! s = smp_pollers ?st ! s \<and> (\<forall>i<2. metrics st1 ! i ! s \<longleftrightarrow> metrics ?st ! i ! s)) \<and>
    (\<forall>ts. mset ts = mset [1..<2] \<longrightarrow>
      (\<forall>s<2. smp_pollers (fold cleanup_shard ts st1) ! s = no_pollers) \<and>
      (\<forall>i<2. \<forall>j<2. \<not> metrics (fold cleanup_shard ts st1) ! i ! j))"
    by (rule shutdown_does_not_wait) (simp_all add: less_Suc_eq numeral_2_eq_2)
  then obtain st1 where st1: "clear_actor_system 0 ?st = Inr ([1..<2], st1)" "smp_pool st1 = Some (?p\<lparr>pool_threads := []\<rparr>)"
    "\<forall>s<2. 0 < s \<longrightarrow> smp_pollers st1 ! s = smp_pollers ?st ! s \<and> (\<forall>i<2. metrics st1 ! i ! s \<longleftrightarrow> metrics ?st ! i ! s)"
    "\<forall>ts. mset ts = mset [1..<2] \<longrightarrow> (\<forall>s<2. smp_pollers (fold cleanup_shard ts st1) ! s = no_pollers) \<and>
      (\<forall>i<2. \<forall>j<2. \<not> metrics (fold cleanup_shard ts st1) ! i ! j)"
    by (elim exE conjE) (rule that)
  have one: "[1..<2] = [1 :: nat]" by (simp add: upt_conv_Cons)
  then have "smp_pollers (fold cleanup_shard [1] st1) ! 1 = no_pollers" using st1(4) by simp
  moreover have "smp_pollers st1 ! 1 = register_actor_pollers True 1" using st1(3) by simp
  ultimately show ?thesis using st1(1,2) one
    by (intro exI [where x = ?st] exI [where x = st1]) (simp add: no_pollers_def register_actor_pollers_def)
qed

section \<open>A system that fails to start\<close>

lemma exit_without_shards: "exit_system env 0 force s = Some (Inr s)"
  by (simp add: exit_system_def cancel_scope_def collect_res_def)

lemma failed_start_unset:
  assumes "start_network read_file ipv4 k opts = Inl f" and "opt_network_timeout_sec opts \<noteq> 0"
  shows "machine_info_failed read_file ipv4 k opts = machine_info_unset"
  using assms
  by (auto simp: start_network_def machine_info_failed_def checked_timeout_def bind_res_def split: option.splits sum.splits)



text \<open>Without options a machine is a cluster of its own: it makes no connection, every shard id below its
  number of shards is local and no other, the clock is read after every message, and there is no thread pool.\<close>

lemma default_start:
  assumes "0 < n"
  shows "\<exists>nc mi. start_network read_file ipv4 n (snd add_actor_options) = Inr (nc, mi, False) \<and> (\<forall>i. is_local mi i \<longleftrightarrow> i < n)"
    and "configured_interval (opt_execution_interval (fst add_actor_options)) = 1"
    and "thread_pool_configure k (fst add_actor_options) = Inr None"
proof -
  have "n \<noteq> 0" using assms by auto
  then have "i \<le> n - 1 \<longleftrightarrow> i < n" for i
    using assms unat_minus_one [of n] by (auto simp: word_le_nat_alt word_less_nat_alt)
  then show "\<exists>nc mi. start_network read_file ipv4 n (snd add_actor_options) = Inr (nc, mi, False) \<and> (\<forall>i. is_local mi i \<longleftrightarrow> i < n)"
    by (simp add: add_actor_options_def start_network_def default_network_config_def is_local_def make_machine_info_def)
qed (simp_all add: add_actor_options_def configured_interval_def thread_pool_configure_def)

end
