(* ===== verification/Stop_Protocol.thy ===== *)
theory Stop_Protocol
  imports Actor_System
begin

text \<open>
  How a shard comes to the end of its life (\<open>stop_actor_system\<close>, \<open>notify_child_stopped\<close> and
  \<open>wait_others_and_exit\<close> of \<open>core/root_actor_group.cc\<close>). The call of \<open>wait_others_and_exit\<close> takes the shard to the barrier
  at which the shards of a machine wait for each other, and shard 0 counts the calls: a shard that called
  it twice would let the machine exit while another shard still runs. Two places of the code call
  it. This theory shows that in every reachable state the call has been made exactly once if the shard is
  stopping and has no actors left, and not at all otherwise.
\<close>

section \<open>What the operations of a shard leave alone\<close>

text \<open>The part of the root that decides about the exit: the stop status, the number of calls, and, once the
  shard is stopping, the number of children.\<close>

definition kept :: "actor_status \<times> nat \<times> u32 \<Rightarrow> ('d, 'u, 's) shard \<Rightarrow> bool" where
  "kept v s \<longleftrightarrow> root_stop s = fst v \<and> exits s = fst (snd v) \<and>
     (fst v \<noteq> RUNNING \<longrightarrow> num_managed (root_children s) = snd (snd v))"

lemma kept_simps [simp]:
  "kept v (set_obj p a s) = kept v s" "kept v (s\<lparr>objs := os\<rparr>) = kept v s" "kept v (s\<lparr>engine_q := q\<rparr>) = kept v s"
  "kept v (s\<lparr>response_prs := prs\<rparr>) = kept v s" "kept v (s\<lparr>inbox := ms\<rparr>) = kept v s" "kept v (s\<lparr>outbox := ms\<rparr>) = kept v s"
  "kept v (s\<lparr>yields := ys\<rparr>) = kept v s" "kept v (s\<lparr>user_state := st\<rparr>) = kept v s" "kept v (s\<lparr>live_count := k\<rparr>) = kept v s"
  "kept v (delete_obj p s) = kept v s"
  by (simp_all add: kept_def set_obj_def delete_obj_def)

lemmas res_elims = bind_resE bind_runE

lemma kept_fold:
  assumes "fold_res f xs s = Inr s'" and "kept v s"
    and "\<And>x s s'. f x s = Inr s' \<Longrightarrow> kept v s \<Longrightarrow> kept v s'"
  shows "kept v s'"
  using assms(1,2) by (induction xs arbitrary: s) (auto simp: bind_res_Inr_iff intro: assms(3))

lemma set_parts_kept:
  "set_group p g s = Inr s' \<Longrightarrow> kept v s \<Longrightarrow> kept v s'"
  "set_actor p k s = Inr s' \<Longrightarrow> kept v s \<Longrightarrow> kept v s'"
  "set_activatable p s = Inr s' \<Longrightarrow> kept v s \<Longrightarrow> kept v s'"
  "set_stop_status p st s = Inr s' \<Longrightarrow> kept v s \<Longrightarrow> kept v s'"
  "clean_mailbox p s = Inr s' \<Longrightarrow> kept v s \<Longrightarrow> kept v s'"
  "dec_concurrency p s = Inr s' \<Longrightarrow> kept v s \<Longrightarrow> kept v s'"
  "deque_message p s = Inr (m, s') \<Longrightarrow> kept v s \<Longrightarrow> kept v s'"
  by (auto simp: set_group_def set_actor_def set_activatable_def set_stop_status_def clean_mailbox_def dec_concurrency_def
      deque_message_def split: list.split_asm elim!: res_elims)

lemma set_children_kept:
  assumes "set_children p ch s = Inr s'" and "kept v s" and "get_children p s = Inr ch0" and "num_managed ch = num_managed ch0"
  shows "kept v s'"
  using assms by (auto simp: set_children_def get_children_def kept_def set_group_def set_obj_def split: if_splits elim!: res_elims)

lemma set_fields_kept:
  "set_children p (ch\<lparr>sem_count := k\<rparr>) s = Inr s' \<Longrightarrow> get_children p s = Inr ch \<Longrightarrow> kept v s \<Longrightarrow> kept v s'"
  "set_children p (ch\<lparr>sem_waiters := ws\<rparr>) s = Inr s' \<Longrightarrow> get_children p s = Inr ch \<Longrightarrow> kept v s \<Longrightarrow> kept v s'"
  "set_children p (ch\<lparr>inst_map := im\<rparr>) s = Inr s' \<Longrightarrow> get_children p s = Inr ch \<Longrightarrow> kept v s \<Longrightarrow> kept v s'"
  by (erule set_children_kept, assumption+, simp)+

lemma set_other_children_kept: "set_children (c # p) ch s = Inr s' \<Longrightarrow> kept v s \<Longrightarrow> kept v s'"
  by (auto simp: set_children_def intro: set_parts_kept elim!: res_elims)

lemma need_yield_kept: "need_yield s = (y, s') \<Longrightarrow> kept v s \<Longrightarrow> kept v s'"
  by (auto simp: need_yield_def split: list.split_asm)

lemma activate_kept: "activate p s = Inr s' \<Longrightarrow> kept v s \<Longrightarrow> kept v s'"
proof (induction p s arbitrary: s' rule: activate.induct)
  case (2 c p s)
  show ?case
  proof (cases "p = []")
    case True
    then show ?thesis using 2(2,3) by (auto simp: Let_def split: if_splits elim!: res_elims)
  next
    case False
    with 2(2) obtain a where a: "get_obj (c # p) s = Inr a" by (auto elim!: res_elims)
    show ?thesis
    proof (cases "activatable a")
      case True
      let ?s = "set_obj (c # p) (a\<lparr>sched_status := SCHEDULED\<rparr>) s"
      from True False a 2(2) obtain g s2 where g: "get_group p ?s = Inr g"
        "set_group p (g\<lparr>group_tasks := push_task c (group_tasks g)\<rparr>) ?s = Inr s2" "activate p s2 = Inr s'"
        by (auto simp: Let_def bind_res_Inr_iff)
      have "kept v s2" using set_parts_kept(1) [OF g(2)] 2(3) by simp
      then show ?thesis using 2(1) [OF True refl False g(3)] by simp
    qed (use a 2(2,3) in simp)
  qed
qed simp

lemmas kept_intros = set_parts_kept activate_kept need_yield_kept

lemma schedule_kept:
  "schedule_child p s = Inr s' \<Longrightarrow> kept v s \<Longrightarrow> kept v s'"
  "actor_add_task p t s = Inr s' \<Longrightarrow> kept v s \<Longrightarrow> kept v s'"
  "actor_add_urgent_task p t s = Inr s' \<Longrightarrow> kept v s \<Longrightarrow> kept v s'"
  "enque_message m p s = Inr s' \<Longrightarrow> kept v s \<Longrightarrow> kept v s'"
  "enque_urgent_message m p s = Inr s' \<Longrightarrow> kept v s \<Longrightarrow> kept v s'"
  unfolding schedule_child_def actor_add_task_def actor_add_urgent_task_def enque_message_def enque_urgent_message_def
  by (fastforce simp: assert_res_Inr_iff intro: kept_intros elim!: res_elims)+

lemma signal_kept: "signal_sem p s = Inr s' \<Longrightarrow> kept v s \<Longrightarrow> kept v s'"
  by (fastforce simp: signal_sem_def split: list.split_asm intro: schedule_kept set_fields_kept elim!: res_elims)

lemma create_kept:
  assumes "create_child env p c tid s = Inr s'" and "kept v s" and "p = [] \<longrightarrow> fst v = RUNNING"
  shows "kept v s'"
proof -
  have sc: "kept v s1" if "set_children p ch ((set_obj (c # p) a s)\<lparr>live_count := k\<rparr>) = Inr s1" for ch a k s1
  proof (cases p)
    case Nil
    then show ?thesis using that assms(2,3) by (auto simp: set_children_def kept_def set_obj_def)
  next
    case (Cons b q)
    then show ?thesis using set_other_children_kept [OF that [unfolded Cons]] assms(2) by simp
  qed
  show ?thesis using assms(1) by (fastforce simp: create_child_def Let_def split: if_splits intro: schedule_kept sc elim!: res_elims)
qed

lemma create_below_kept: "create_child env (b # p) c tid s = Inr s' \<Longrightarrow> kept v s \<Longrightarrow> kept v s'"
  by (erule create_kept) simp_all

lemma get_actor_local_kept:
  "get_actor_local env addr n (b # p) s = Inr (dest, s') \<Longrightarrow> kept v s \<Longrightarrow> kept v s'"
proof (induction n arbitrary: b p s)
  case 0
  then show ?case by (auto split: part.split_asm elim!: res_elims)
next
  case (Suc n)
  from Suc.prems(1) obtain a where a: "get_obj (b # p) s = Inr a" by (auto elim!: res_elims)
  show ?case
  proof (cases "part a")
    case (Actor k)
    then show ?thesis using Suc.prems a by simp
  next
    case (Group g)
    from Suc.prems(1) a Group obtain c where c: "child_id_at (unat (total_addr_length (b # p))) addr = Inr c"
      by (auto elim!: res_elims)
    show ?thesis
      using Suc.prems a Group c
      by (fastforce split: option.split_asm bool.split_asm if_split_asm intro: create_below_kept Suc.IH elim!: res_elims)
  qed
qed

lemma respond_kept:
  "receive_response env m s = Inr s' \<Longrightarrow> kept v s \<Longrightarrow> kept v s'"
  "send_response env m s = Inr s' \<Longrightarrow> kept v s \<Longrightarrow> kept v s'"
  "stopped_actor_enqueue env m s = Inr s' \<Longrightarrow> kept v s \<Longrightarrow> kept v s'"
proof -
  show r: "kept v s'" if "receive_response env m s = Inr s'" "kept v s" for m s s'
    using that by (auto simp: receive_response_def Let_def split: if_split_asm actor_message.split_asm elim!: res_elims)
  show q: "kept v s'" if "send_response env m s = Inr s'" "kept v s" for m s s'
    using that r by (auto simp: send_response_def split: if_split_asm elim!: res_elims)
  show "kept v s'" if "stopped_actor_enqueue env m s = Inr s'" "kept v s"
    using that q by (auto simp: stopped_actor_enqueue_def split: if_split_asm elim!: res_elims)
qed

lemma deliver_kept: "deliver_to m p s = Inr s' \<Longrightarrow> kept v s \<Longrightarrow> kept v s'"
  by (auto simp: deliver_to_def split: if_split_asm intro: schedule_kept)

lemma receive_actor_kept:
  assumes "receive_actor env m s = Inr s'" and "kept v s"
  shows "kept v s'"
proof -
  let ?addr = "hdr_addr (msg_hdr m)"
  let ?find = "\<lambda>c s0. if addr_length ?addr = total_addr_length [c] then Inr (Some [c], s0) else get_actor_local env ?addr 7 [c] s0"
  have find: "kept v s'"
    if "bind_res (?find c s0) (\<lambda>(dest, s1). case dest of Some p \<Rightarrow> deliver_to m p s1 | None \<Rightarrow> k s1) = Inr s'"
      "kept v s0" "\<And>s1. k s1 = Inr s' \<Longrightarrow> kept v s1 \<Longrightarrow> kept v s'" for c s0 k
  proof -
    from that(1) obtain dest s1 where d: "?find c s0 = Inr (dest, s1)"
      "(case dest of Some p \<Rightarrow> deliver_to m p s1 | None \<Rightarrow> k s1) = Inr s'" by (auto elim!: res_elims)
    have "kept v s1" using d(1) that(2) get_actor_local_kept [of env ?addr 7 c "[]" s0 dest s1 v] by (auto split: if_split_asm)
    then show ?thesis using d(2) that(3) deliver_kept by (cases dest) fastforce+
  qed
  obtain c where c: "child_id_at (unat (total_addr_length [])) ?addr = Inr c"
    using assms(1) by (auto simp: receive_actor_def Let_def elim!: res_elims)
  note body = assms(1) [unfolded receive_actor_def Let_def c bind_res_simps]
  show ?thesis
  proof (cases "map_of (inst_map (root_children s)) c")
    case (Some live)
    show ?thesis
    proof (cases live)
      case True
      with Some body have "bind_res (?find c s) (\<lambda>(dest, s1).
          case dest of Some p \<Rightarrow> deliver_to m p s1 | None \<Rightarrow> stopped_actor_enqueue env m s1) = Inr s'" by simp
      then show ?thesis by (rule find [OF _ assms(2)]) (rule respond_kept(3))
    next
      case False
      with Some body show ?thesis using respond_kept(3) [of env m s s' v] assms(2) by simp
    qed
  next
    case None
    show ?thesis
    proof (cases "root_stop s = RUNNING")
      case True
      with None body obtain tid s1 where s1: "create_child env [] c tid s = Inr s1"
        "bind_res (?find c s1) (\<lambda>(dest, s1). case dest of Some p \<Rightarrow> deliver_to m p s1 | None \<Rightarrow> Inl Null_deref) = Inr s'"
        by (auto simp: bind_res_Inr_iff)
      have "fst v = RUNNING" using True assms(2) by (simp add: kept_def)
      then have "kept v s1" using create_kept [OF s1(1) assms(2)] by simp
      with s1(2) show ?thesis by (rule find) simp
    next
      case False
      with None body show ?thesis using respond_kept(3) [of env m s s' v] assms(2) by simp
    qed
  qed
qed

lemma send_in_turn_kept: "send_in_turn env m s = Inr s' \<Longrightarrow> kept v s \<Longrightarrow> kept v s'"
  by (auto simp: send_in_turn_def Let_def split: if_split_asm intro: receive_actor_kept respond_kept elim!: res_elims)

lemma apply_user_kept: "apply_user env p msgs ts st s = Inr s' \<Longrightarrow> kept v s \<Longrightarrow> kept v s'"
  unfolding apply_user_def
  by (fastforce intro: kept_fold send_in_turn_kept schedule_kept elim!: res_elims)

lemma null_child_entry_kept: "null_child_entry p s = Inr s' \<Longrightarrow> kept v s \<Longrightarrow> kept v s'"
  by (fastforce simp: null_child_entry_def intro: set_fields_kept elim!: res_elims)

section \<open>Stopping an object\<close>

lemma run_task_while_stopping_kept: "run_task_while_stopping env p t s = Inr s' \<Longrightarrow> kept v s \<Longrightarrow> kept v s'"
  by (fastforce simp: run_task_while_stopping_def split: task.split_asm outcome.split_asm prod.split_asm if_split_asm
      intro: apply_user_kept set_parts_kept null_child_entry_kept elim!: res_elims)

lemma run_stopped_tasks_kept:
  fixes s :: "('d, 'u, 's) shard"
  assumes "run_stopped_tasks env p s = Some (Inr s')" and "kept v s"
  shows "kept v s'"
proof -
  let ?P = "\<lambda>(w :: ('d, 'u, 's) actor_env) (q :: path) (s :: ('d, 'u, 's) shard) (r :: ('d, 'u, 's) shard res). kept v s \<longrightarrow> (\<forall>s'. r = Inr s' \<longrightarrow> kept v s')"
  have "?P env p s (Inr s')"
  proof (rule run_stopped_tasks.raw_induct [OF _ assms(1), where P = ?P], intro impI allI)
    fix rec w q r s' and s :: "('d, 'u, 's) shard"
    assume IH: "\<And>w q s r. rec w q s = Some r \<Longrightarrow> ?P w q s r" and "kept v s" "r = Inr s'"
      "bind_run (Some (get_actor q s)) (\<lambda>k. case actor_tasks k of [] \<Rightarrow> Some (Inr s)
        | t # ts \<Rightarrow> bind_run (Some (bind_res (set_actor q (k\<lparr>actor_tasks := ts\<rparr>) s) (run_task_while_stopping w q t))) (rec w q)) = Some r"
    then show "kept v s'"
      by (fastforce split: list.split_asm intro: set_parts_kept run_task_while_stopping_kept elim!: res_elims dest!: IH)
  qed
  then show ?thesis using assms(2) by simp
qed

lemma actor_stop_kept: "actor_stop env p force s = Some (Inr s') \<Longrightarrow> kept v s \<Longrightarrow> kept v s'"
  unfolding actor_stop_def clean_task_queue_def
  by (fastforce split: if_split_asm intro: run_stopped_tasks_kept kept_intros elim!: res_elims)

lemma group_stop_kept: "group_stop env p force s = Inr s' \<Longrightarrow> kept v s \<Longrightarrow> kept v s'"
proof -
  have all: "kept v s'" if "stop_all_children env p force s = Inr s'" "kept v s" for s s' :: "('a, 'b, 'c) shard"
    using that unfolding stop_all_children_def
    by (fastforce split: if_split_asm intro: kept_fold schedule_kept elim!: res_elims)
  have break: "kept v s'" if "break_sem p s = Inr s'" "kept v s" for s s' :: "('a, 'b, 'c) shard"
    using that unfolding break_sem_def by (fastforce intro: kept_fold schedule_kept set_fields_kept elim!: res_elims)
  show "group_stop env p force s = Inr s' \<Longrightarrow> kept v s \<Longrightarrow> kept v s'"
    unfolding group_stop_def by (fastforce split: if_split_asm intro: all break kept_intros elim!: res_elims)
qed

lemma obj_stop_kept: "obj_stop env p force s = Some (Inr s') \<Longrightarrow> kept v s \<Longrightarrow> kept v s'"
  unfolding obj_stop_def by (auto split: part.split_asm intro: actor_stop_kept group_stop_kept elim!: res_elims)

lemma stop_child_actor_kept: "stop_child_actor env p force s = Some (Inr s') \<Longrightarrow> kept v s \<Longrightarrow> kept v s'"
  unfolding stop_child_actor_def by (fastforce split: if_split_asm intro: obj_stop_kept null_child_entry_kept elim!: res_elims)

section \<open>A turn below the root\<close>

lemma run_task_kept: "run_task env p t s = Some (Inr s') \<Longrightarrow> kept v s \<Longrightarrow> kept v s'"
  unfolding run_task_def
  by (fastforce split: task.split_asm outcome.split_asm prod.split_asm if_split_asm
      intro: apply_user_kept set_parts_kept stop_child_actor_kept elim!: res_elims)

lemma run_ready_tasks_kept:
  fixes s :: "('d, 'u, 's) shard"
  assumes "run_ready_tasks env p s = Some (Inr (y, s'))" and "kept v s"
  shows "kept v s'"
proof -
  let ?P = "\<lambda>(w :: ('d, 'u, 's) actor_env) (q :: path) (s :: ('d, 'u, 's) shard) (r :: (bool \<times> ('d, 'u, 's) shard) res).
    kept v s \<longrightarrow> (\<forall>y s'. r = Inr (y, s') \<longrightarrow> kept v s')"
  have "?P env p s (Inr (y, s'))"
  proof (rule run_ready_tasks.raw_induct [OF _ assms(1), where P = ?P], intro impI allI)
    fix rec w q r y s' and s :: "('d, 'u, 's) shard"
    assume IH: "\<And>w q s r. rec w q s = Some r \<Longrightarrow> ?P w q s r" and "kept v s" "r = Inr (y, s')"
      "bind_run (Some (get_actor q s)) (\<lambda>k. case actor_tasks k of [] \<Rightarrow> Some (Inr (False, s))
        | t # ts \<Rightarrow> bind_run (Some (set_actor q (k\<lparr>actor_tasks := ts\<rparr>) s)) (\<lambda>s1.
           bind_run (run_task w q t s1) (\<lambda>s2.
             case need_yield s2 of (y, s3) \<Rightarrow> if y then Some (Inr (True, s3)) else rec w q s3))) = Some r"
    then show "kept v s'"
      by (fastforce split: list.split_asm prod.split_asm if_split_asm intro: run_task_kept kept_intros elim!: res_elims dest!: IH)
  qed
  then show ?thesis using assms(2) by simp
qed

lemma process_message_kept: "process_message env p m s = Some (Inr (y, s')) \<Longrightarrow> kept v s \<Longrightarrow> kept v s'"
  unfolding process_message_def Let_def
  by (fastforce split: if_split_asm prod.split_asm work.split_asm outcome.split_asm
      intro: apply_user_kept set_parts_kept stop_child_actor_kept elim!: res_elims)

lemma process_mailbox_kept:
  fixes s :: "('d, 'u, 's) shard"
  assumes "process_mailbox env p s = Some (Inr s')" and "kept v s"
  shows "kept v s'"
proof -
  let ?P = "\<lambda>(w :: ('d, 'u, 's) actor_env) (q :: path) (s :: ('d, 'u, 's) shard) (r :: ('d, 'u, 's) shard res).
    kept v s \<longrightarrow> (\<forall>s'. r = Inr s' \<longrightarrow> kept v s')"
  have "?P env p s (Inr s')"
  proof (rule process_mailbox.raw_induct [OF _ assms(1), where P = ?P], intro impI allI)
    fix rec w q r s' and s :: "('d, 'u, 's) shard"
    assume IH: "\<And>w q s r. rec w q s = Some r \<Longrightarrow> ?P w q s r" and "kept v s" "r = Inr s'"
      "bind_run (Some (get_obj q s)) (\<lambda>a.
       if mailbox a = [] then Some (Inr s)
       else
         bind_run (Some (deque_message q s)) (\<lambda>(m, s1).
         bind_run (process_message w q m s1) (\<lambda>(limit, s2).
           if limit then Some (Inr s2)
           else (case need_yield s2 of (y, s3) \<Rightarrow> if y then Some (Inr s3) else rec w q s3)))) = Some r"
    then show "kept v s'"
      by (fastforce split: prod.split_asm if_split_asm intro: process_message_kept kept_intros elim!: res_elims dest!: IH)
  qed
  then show ?thesis using assms(2) by simp
qed

text \<open>What remains of the view when a child of the root is gone.\<close>

definition after_notify :: "actor_status \<times> nat \<times> u32 \<Rightarrow> actor_status \<times> nat \<times> u32" where
  "after_notify v = (case v of (st, e, n) \<Rightarrow> (st, if st \<noteq> RUNNING \<and> n - 1 = 0 then e + 1 else e, n - 1))"

definition turned :: "path \<Rightarrow> actor_status \<times> nat \<times> u32 \<Rightarrow> ('d, 'u, 's) shard \<Rightarrow> bool" where
  "turned p v s \<longleftrightarrow> kept v s \<or> (tl p = [] \<and> kept (after_notify v) s)"

lemma turned_kept: "kept v s \<Longrightarrow> turned p v s"
  by (simp add: turned_def)

lemma notify_turned: "notify_child_stopped (tl p) s = Inr s' \<Longrightarrow> kept v s \<Longrightarrow> turned p v s'"
proof (cases "tl p")
  case Nil
  assume n: "notify_child_stopped (tl p) s = Inr s'" and k: "kept v s"
  let ?ch = "(root_children s)\<lparr>num_managed := num_managed (root_children s) - 1\<rparr>"
  let ?s = "if num_managed ?ch = 0 \<and> root_stop s \<noteq> RUNNING then wait_others_and_exit (s\<lparr>root_children := ?ch\<rparr>) else s\<lparr>root_children := ?ch\<rparr>"
  have "signal_sem [] ?s = Inr s'"
    using n Nil by (auto simp: notify_child_stopped_def get_children_def set_children_def)
  moreover have "kept (after_notify v) ?s"
    using k by (cases v) (auto simp: kept_def after_notify_def wait_others_and_exit_def)
  ultimately have "kept (after_notify v) s'" by (rule signal_kept)
  then show ?thesis using Nil by (simp add: turned_def)
next
  case (Cons b q)
  assume n: "notify_child_stopped (tl p) s = Inr s'" and k: "kept v s"
  from n obtain ch s1 where "set_children (b # q) ch s = Inr s1" "signal_sem (b # q) s1 = Inr s'"
    by (auto simp: notify_child_stopped_def Cons elim!: res_elims)
  then show ?thesis using signal_kept set_other_children_kept k by (metis turned_kept)
qed

lemma turned_respond: "send_response env m s = Inr s' \<Longrightarrow> turned p v s \<Longrightarrow> turned p v s'"
  unfolding turned_def using respond_kept(2) by metis

lemma turned_delete [simp]: "turned p v (delete_obj q s) = turned p v s"
  by (simp add: turned_def)

lemma finish_actor_turn_turned: "finish_actor_turn p s = Inr s' \<Longrightarrow> kept v s \<Longrightarrow> turned p v s'"
  unfolding finish_actor_turn_def
  by (fastforce split: if_split_asm intro: notify_turned turned_kept kept_intros elim!: res_elims)

lemma finish_group_turn_turned: "finish_group_turn env p s = Inr s' \<Longrightarrow> kept v s \<Longrightarrow> turned p v s'"
  unfolding finish_group_turn_def
  by (fastforce split: if_split_asm intro: notify_turned turned_respond turned_kept kept_intros elim!: res_elims)

lemma actor_run_turned: "actor_run env p s = Some (Inr s') \<Longrightarrow> kept v s \<Longrightarrow> turned p v s'"
  unfolding actor_run_def
  by (fastforce split: if_split_asm prod.split_asm
      intro: run_ready_tasks_kept process_mailbox_kept finish_actor_turn_turned turned_kept set_parts_kept elim!: res_elims)

lemma group_mailbox_kept:
  fixes s :: "('d, 'u, 's) shard"
  assumes "group_mailbox env p s = Some (Inr (y, s'))" and "kept v s"
  shows "kept v s'"
proof -
  let ?P = "\<lambda>(w :: ('d, 'u, 's) actor_env) (q :: path) (s :: ('d, 'u, 's) shard) (r :: (bool \<times> ('d, 'u, 's) shard) res).
    kept v s \<longrightarrow> (\<forall>y s'. r = Inr (y, s') \<longrightarrow> kept v s')"
  have msg: "kept v s'" if "group_process_message w q m s = Some (Inr s')" "kept v s" for w q m s and s' :: "('d, 'u, 's) shard"
    using that unfolding group_process_message_def Let_def
    by (fastforce split: if_split_asm intro: stop_child_actor_kept set_parts_kept elim!: res_elims)
  have "?P env p s (Inr (y, s'))"
  proof (rule group_mailbox.raw_induct [OF _ assms(1), where P = ?P], intro impI allI)
    fix rec w q r y s' and s :: "('d, 'u, 's) shard"
    assume IH: "\<And>w q s r. rec w q s = Some r \<Longrightarrow> ?P w q s r" and "kept v s" "r = Inr (y, s')"
      "bind_run (Some (get_obj q s)) (\<lambda>a.
       if mailbox a = [] then Some (Inr (False, s))
       else
         bind_run (Some (deque_message q s)) (\<lambda>(m, s1).
         bind_run (group_process_message w q m s1) (\<lambda>s2.
           case need_yield s2 of (y, s3) \<Rightarrow> if y then Some (Inr (True, s3)) else rec w q s3))) = Some r"
    then show "kept v s'"
      by (fastforce split: prod.split_asm if_split_asm intro: msg kept_intros elim!: res_elims dest!: IH)
  qed
  then show ?thesis using assms(2) by simp
qed

lemma group_task_loop_kept:
  fixes s :: "('d, 'u, 's) shard"
  assumes "group_task_loop env rc p s = Some (Inr s')" and "kept v s" and "p \<noteq> []"
    and child: "\<And>c s s'. rc (c # p) s = Some (Inr s') \<Longrightarrow> kept v s \<Longrightarrow> kept v s'"
  shows "kept v s'"
proof -
  let ?P = "\<lambda>(w :: ('d, 'u, 's) actor_env) (f :: path \<Rightarrow> ('d, 'u, 's) shard \<Rightarrow> ('d, 'u, 's) shard res option) (q :: path)
    (s :: ('d, 'u, 's) shard) (r :: ('d, 'u, 's) shard res). f = rc \<longrightarrow> q = p \<longrightarrow> kept v s \<longrightarrow> (\<forall>s'. r = Inr s' \<longrightarrow> kept v s')"
  have "?P env rc p s (Inr s')"
  proof (rule group_task_loop.raw_induct [OF _ assms(1), where P = ?P], intro impI allI)
    fix rec w f q r s' and s :: "('d, 'u, 's) shard"
    assume IH: "\<And>w f q s r. rec w f q s = Some r \<Longrightarrow> ?P w f q s r" and "f = rc" "q = p" "kept v s" "r = Inr s'"
      "bind_run (Some (get_group q s)) (\<lambda>g.
       if tq_empty (group_tasks g) then Some (Inr s)
       else
         bind_run (Some (pop_task (heap_make w) (heap_pop w) (group_tasks g))) (\<lambda>(c, tq).
         bind_run (Some (set_group q (g\<lparr>group_tasks := tq\<rparr>) s)) (\<lambda>s1.
         bind_run (f (c # q) s1) (\<lambda>s2.
           case need_yield s2 of (y, s3) \<Rightarrow> if y then Some (Inr s3) else rec w f q s3)))) = Some r"
    then show "kept v s'"
      by (fastforce split: prod.split_asm if_split_asm intro: child kept_intros elim!: res_elims dest!: IH)
  qed
  then show ?thesis using assms(2) by simp
qed

lemma run_and_dispose_turned:
  "run_and_dispose n env (c # p) s = Some (Inr s') \<Longrightarrow> kept v s \<Longrightarrow> turned (c # p) v s'"
proof (induction n arbitrary: c p s s')
  case 0
  then show ?case using actor_run_turned by simp
next
  case (Suc n)
  from Suc.prems(1) obtain a where a: "get_obj (c # p) s = Inr a" by (auto elim!: res_elims)
  show ?case
  proof (cases "part a")
    case (Actor k)
    then show ?thesis using Suc.prems a actor_run_turned by simp
  next
    case (Group g)
    then have "group_run env (run_and_dispose n env) (c # p) s = Some (Inr s')" using Suc.prems(1) a by simp
    then obtain y s1 s2 where s1: "group_mailbox env (c # p) s = Some (Inr (y, s1))"
      "(if y then Some (Inr s1) else group_task_loop env (run_and_dispose n env) (c # p) s1) = Some (Inr s2)"
      "finish_group_turn env (c # p) s2 = Inr s'"
      unfolding group_run_def by (auto elim!: res_elims)
    have "kept v t'" if "run_and_dispose n env (b # c # p) t = Some (Inr t')" "kept v t" for b t t'
      using Suc.IH [OF that] by (simp add: turned_def)
    with s1(2) group_mailbox_kept [OF s1(1) Suc.prems(2)] have "kept v s2"
      using group_task_loop_kept [of env "run_and_dispose n env" "c # p" s1 s2 v] by (auto split: if_split_asm)
    then show ?thesis by (rule finish_group_turn_turned [OF s1(3)])
  qed
qed

section \<open>The shard reaches the barrier once\<close>

definition exit_inv :: "('d, 'u, 's) shard \<Rightarrow> bool" where
  "exit_inv s \<longleftrightarrow> exits s = (if root_stop s \<noteq> RUNNING \<and> num_managed (root_children s) = 0 then 1 else 0)"

definition root_view :: "('d, 'u, 's) shard \<Rightarrow> actor_status \<times> nat \<times> u32" where
  "root_view s = (root_stop s, exits s, num_managed (root_children s))"

lemma kept_root_view: "kept (root_view s) s"
  by (simp add: kept_def root_view_def)

lemma kept_exit_inv: "exit_inv s \<Longrightarrow> kept (root_view s) s' \<Longrightarrow> exit_inv s'"
  by (auto simp: exit_inv_def kept_def root_view_def)

lemma notified_exit_inv:
  assumes "exit_inv s" and "num_managed (root_children s) \<noteq> 0" and "kept (after_notify (root_view s)) s'"
  shows "exit_inv s'"
  using assms by (auto simp: exit_inv_def kept_def root_view_def after_notify_def split: if_splits)

lemma root_count_zero:
  assumes "shard_ok s"
  shows "num_managed (root_children s) = 0 \<longleftrightarrow> objs s = Map.empty"
proof -
  note i = assms [unfolded shard_ok_def]
  have "children_of s [] = Some (root_children s)" by (simp add: children_of_def)
  from sinv_kidsD(3) [OF i this] have n: "num_managed (root_children s) = word_of_nat (card (kids s []))" .
  have c: "card (kids s []) < 4294967296" "finite (kids s [])"
    using card_kids_le [OF i, of "[]"] i by (auto simp: sinv_def tree_ok_def)
  have u: "unat (num_managed (root_children s)) = card (kids s [])" unfolding n by (rule unat_of_nat_u32 [OF c(1)])
  have "num_managed (root_children s) = 0 \<longleftrightarrow> card (kids s []) = 0" unfolding u [symmetric] by (simp add: unat_eq_0)
  also have "\<dots> \<longleftrightarrow> kids s [] = {}" using c(2) by simp
  also have "\<dots> \<longleftrightarrow> objs s = Map.empty"
  proof
    assume e: "kids s [] = {}"
    have none: "objs s p = None" for p
    proof (induction p)
      case Nil
      then show ?case using i by (auto simp: sinv_def tree_ok_def)
    next
      case (Cons b p)
      show ?case
      proof (cases "p = []")
        case False
        then have "children_of s p = None" using Cons by (simp add: children_of_def)
        then have "b # p \<notin> dom (objs s)" using i unfolding sinv_def tree_ok_def by blast
        then show ?thesis by auto
      qed (use e in \<open>simp add: kids_def\<close>)
    qed
    then show "objs s = Map.empty" by auto
  qed (simp add: kids_def)
  finally show ?thesis .
qed

lemma engine_run_exit_inv:
  assumes "engine_run env s = Some (Inr s')" and "shard_ok s" and "exit_inv s"
  shows "exit_inv s'"
proof (cases "engine_q s")
  case Nil
  then show ?thesis using assms(1,3) by (simp add: engine_run_def)
next
  case (Cons c cs)
  let ?s = "s\<lparr>engine_q := cs\<rparr>"
  have run: "run_and_dispose 8 env [c] ?s = Some (Inr s')" using assms(1) Cons by (simp add: engine_run_def)
  have "turned [c] (root_view s) s'" using run_and_dispose_turned [OF run] kept_root_view by (metis kept_simps(3))
  moreover have "num_managed (root_children s) \<noteq> 0"
  proof
    assume "num_managed (root_children s) = 0"
    then have "objs ?s [c] = None" using root_count_zero [OF assms(2)] by simp
    then show False using run by (simp add: run_and_dispose_8 get_obj_def del: Suc_numeral)
  qed
  ultimately show ?thesis
    using kept_exit_inv [OF assms(3)] notified_exit_inv [OF assms(3)] by (auto simp: turned_def)
qed

lemma stop_root_children_kept:
  "stop_root_children env force cs s = Some (Inr s') \<Longrightarrow> kept v s \<Longrightarrow> kept v s'"
proof (induction cs arbitrary: s)
  case (Cons c cs)
  from Cons.prems(1) obtain s1 where
    "(if map_of (inst_map (root_children s)) c = Some True
      then bind_run (obj_stop env [c] force s) (\<lambda>s1. Some (null_child_entry [c] s1)) else Some (Inr s)) = Some (Inr s1)"
    "stop_root_children env force cs s1 = Some (Inr s')" by (auto elim!: res_elims)
  moreover from this(1) have "kept v s1"
    using Cons.prems(2) by (fastforce split: if_split_asm intro: obj_stop_kept null_child_entry_kept elim!: res_elims)
  ultimately show ?case using Cons.IH by simp
qed simp

lemma stop_actor_system_exit_inv:
  assumes "stop_actor_system env force s = Some (Inr s')" and "exit_inv s"
  shows "exit_inv s'"
proof (cases "root_stop s = RUNNING")
  case True
  let ?st = "if force then FORCE_STOPPING else PEACE_STOPPING"
  from True assms(1) obtain prs s1 where s1:
    "stop_root_children env force (map fst (inst_map (root_children s))) (s\<lparr>root_stop := ?st, response_prs := prs\<rparr>) = Some (Inr s1)"
    "s' = (if num_managed (root_children s1) = 0 then wait_others_and_exit s1 else s1)"
    by (auto simp: stop_actor_system_def elim!: res_elims)
  have "kept (?st, 0, num_managed (root_children s)) (s\<lparr>root_stop := ?st, response_prs := prs\<rparr>)"
    using True assms(2) by (simp add: kept_def exit_inv_def)
  from stop_root_children_kept [OF s1(1) this] show ?thesis
    unfolding s1(2) by (auto simp: kept_def exit_inv_def wait_others_and_exit_def)
qed (use assms in \<open>simp add: stop_actor_system_def\<close>)

lemma receive_exit_inv:
  assumes "receive env m s = Some (Inr s')" and "exit_inv s"
  shows "exit_inv s'"
  using assms(1)
  by (auto simp: receive_def Let_def split: if_split_asm intro: stop_actor_system_exit_inv [OF _ assms(2)]
      kept_exit_inv [OF assms(2) respond_kept(1) [OF _ kept_root_view]]
      kept_exit_inv [OF assms(2) receive_actor_kept [OF _ kept_root_view]])

lemma reachable_exit_inv: "reachable env s \<Longrightarrow> env_ok env \<Longrightarrow> exit_inv s"
proof (induction rule: reachable.induct)
  case (turn s s')
  then show ?case using engine_run_exit_inv [OF turn(2) reachable_ok] by simp
next
  case (stop_request s m ms s')
  then show ?case using receive_exit_inv [OF stop_request(3)] by (simp add: exit_inv_def)
next
  case (message s m s')
  then show ?case using receive_exit_inv [OF message(2)] by simp
next
  case (ready s p k t s')
  then show ?case using kept_exit_inv schedule_kept(2) [OF ready(3) kept_root_view] by simp
next
  case (ready_urgent s p k t s')
  then show ?case using kept_exit_inv schedule_kept(3) [OF ready_urgent(3) kept_root_view] by simp
qed (simp_all add: exit_inv_def shard_new_def)

text \<open>A single event of a shard, and that no event takes a report back.\<close>

inductive shard_step :: "('d, 'u, 's) actor_env \<Rightarrow> ('d, 'u, 's) shard \<Rightarrow> ('d, 'u, 's) shard \<Rightarrow> bool" for env where
  message: "receive env m s = Some (Inr s') \<Longrightarrow> shard_step env s s'"
| stop_request: "inbox s = m # ms \<Longrightarrow> receive env m (s\<lparr>inbox := ms\<rparr>) = Some (Inr s') \<Longrightarrow> shard_step env s s'"
| turn: "engine_run env s = Some (Inr s') \<Longrightarrow> shard_step env s s'"
| ready: "get_actor p s = Inr k \<Longrightarrow> actor_add_task p t s = Inr s' \<Longrightarrow> shard_step env s s'"
| ready_urgent: "get_actor p s = Inr k \<Longrightarrow> actor_add_urgent_task p t s = Inr s' \<Longrightarrow> shard_step env s s'"
| clock: "shard_step env s (s\<lparr>yields := ys\<rparr>)"
| sent: "outbox s = m # ms \<Longrightarrow> shard_step env s (s\<lparr>outbox := ms\<rparr>)"

lemma shard_step_reachable: "shard_step env s s' \<Longrightarrow> reachable env s \<Longrightarrow> reachable env s'"
  by (induction rule: shard_step.induct) (blast intro: reachable.intros)+

lemma kept_exits: "kept (root_view s) s' \<Longrightarrow> exits s \<le> exits s'"
  by (simp add: kept_def root_view_def)

lemma engine_run_exits: "engine_run env s = Some (Inr s') \<Longrightarrow> exits s \<le> exits s'"
proof (cases "engine_q s")
  case (Cons c cs)
  assume "engine_run env s = Some (Inr s')"
  then have run: "run_and_dispose 8 env [c] (s\<lparr>engine_q := cs\<rparr>) = Some (Inr s')" using Cons by (simp add: engine_run_def)
  have "kept (root_view s) (s\<lparr>engine_q := cs\<rparr>)" using kept_root_view by simp
  from run_and_dispose_turned [OF run this] show ?thesis
    by (auto simp: turned_def kept_def root_view_def after_notify_def split: if_splits)
qed (simp add: engine_run_def)

lemma stop_actor_system_exits: "stop_actor_system env force s = Some (Inr s') \<Longrightarrow> exits s \<le> exits s'"
proof (cases "root_stop s = RUNNING")
  case True
  assume r: "stop_actor_system env force s = Some (Inr s')"
  let ?st = "if force then FORCE_STOPPING else PEACE_STOPPING"
  from True r obtain prs s1 where s1:
    "stop_root_children env force (map fst (inst_map (root_children s))) (s\<lparr>root_stop := ?st, response_prs := prs\<rparr>) = Some (Inr s1)"
    "s' = (if num_managed (root_children s1) = 0 then wait_others_and_exit s1 else s1)"
    by (auto simp: stop_actor_system_def elim!: res_elims)
  have "kept (?st, exits s, num_managed (root_children s)) (s\<lparr>root_stop := ?st, response_prs := prs\<rparr>)" by (simp add: kept_def)
  from stop_root_children_kept [OF s1(1) this] show ?thesis unfolding s1(2) by (simp add: kept_def wait_others_and_exit_def)
qed (simp add: stop_actor_system_def)

lemma receive_exits: "receive env m s = Some (Inr s') \<Longrightarrow> exits s \<le> exits s'"
  by (auto simp: receive_def Let_def split: if_split_asm intro: stop_actor_system_exits
      kept_exits [OF respond_kept(1) [OF _ kept_root_view]] kept_exits [OF receive_actor_kept [OF _ kept_root_view]])

lemma shard_step_exits: "shard_step env s s' \<Longrightarrow> exits s \<le> exits s'"
proof (induction rule: shard_step.induct)
  case (stop_request s m ms s')
  then show ?case using receive_exits [OF stop_request(2)] by simp
next
  case (ready p s k t s')
  show ?case by (rule kept_exits [OF schedule_kept(2) [OF ready(2) kept_root_view]])
next
  case (ready_urgent p s k t s')
  show ?case by (rule kept_exits [OF schedule_kept(3) [OF ready_urgent(2) kept_root_view]])
qed (simp_all add: receive_exits engine_run_exits)

text \<open>C13: A shard reports its end exactly once and at the right moment. In every state that a shard can reach,
  \<open>wait_others_and_exit\<close> has been called once if the shard is stopping and every actor and actor group of
  it has been deleted, and has not been called otherwise: neither \<open>stop_actor_system\<close> on an empty shard, nor the
  last child that goes, nor a message that arrives while the shard stops makes it report twice or early.\<close>

theorem shard_reports_end_once:
  assumes "env_ok env" and "reachable env s"
  shows "exits s = (if root_stop s \<noteq> RUNNING \<and> objs s = Map.empty then 1 else 0)"
  using reachable_exit_inv [OF assms(2,1)] root_count_zero [OF reachable_ok [OF assms(2,1)]] by (simp add: exit_inv_def)

lemma example_stop_received:
  "receive example_env (make_system_message \<lparr>addr_length = 4, addr_data = replicate 52 0\<rparr> PEACE_STOP) example_start =
    Some (Inr (example_start\<lparr>root_stop := PEACE_STOPPING, exits := 1\<rparr>))"
  by (simp add: receive_def Let_def make_system_message_def make_without_payload_def local_header_def example_lengths
      message_type_defs stop_actor_system_def break_promises_def pr_size_def pr_manager_new_def is_active_def get_node_def
      release_def pr_node_new_def example_start_def shard_new_def children_new_def wait_others_and_exit_def)

lemma example_stops: "reachable example_env (example_start\<lparr>root_stop := PEACE_STOPPING, exits := 1\<rparr>)"
  by (rule reachable.message [OF _ example_stop_received]) (simp add: example_start_def reachable.start)

theorem shard_reports_end_once_witness:
  "exits (example_shard True []) = 0 \<and> exits (example_start\<lparr>root_stop := PEACE_STOPPING, exits := 1\<rparr>) = 1 \<and>
   objs (example_start\<lparr>root_stop := PEACE_STOPPING, exits := 1\<rparr>) = Map.empty"
  using shard_reports_end_once [OF example_env_ok example_stops] shard_reports_end_once [OF example_env_ok example_reachable(1)]
  by (auto simp: example_shard_def split: if_splits)

end
