(* ===== verification/Machine_Stop.thy ===== *)
theory Machine_Stop
  imports Stop_Protocol Coordinator
begin

text \<open>
  The end of a machine: its shards, each of which reports its end by \<open>wait_others_and_exit\<close>, and the
  global barrier of the coordinator at which shard 0 collects the reports (\<open>core/root_actor_group.cc\<close>,
  \<open>core/coordinator.cc\<close>). When the barrier is passed, shard 0 clears the actor system and exits the reactors. The
  barrier identifier of the stop protocol is used by nothing else.
\<close>

section \<open>The machine\<close>

definition stop_barrier :: string where
  "stop_barrier = ''HIACTOR_PEACE_STOPPED''"

text \<open>\<open>mach_calls\<close> are the calls of \<open>global_barrier\<close> that have not arrived at shard 0 yet: the other shards
  signal the semaphore by a message to shard 0.\<close>

record ('d, 'u, 's) machine =
  mach_shards :: "('d, 'u, 's) shard list"
  mach_calls :: "nat list"
  mach_barriers :: barriers

inductive machine_step ::
    "(nat \<Rightarrow> ('d, 'u, 's) actor_env) \<Rightarrow> ('d, 'u, 's) machine \<Rightarrow> ('d, 'u, 's) machine \<Rightarrow> bool" for envs where
  shard_moves: "i < length (mach_shards M) \<Longrightarrow> shard_step (envs i) (mach_shards M ! i) s' \<Longrightarrow>
    machine_step envs M (M\<lparr>mach_shards := (mach_shards M)[i := s'],
      mach_calls := mach_calls M @ replicate (exits s' - exits (mach_shards M ! i)) i\<rparr>)"
| call_arrives: "mach_calls M = us @ i # vs \<Longrightarrow>
    global_barrier (length (mach_shards M)) i stop_barrier True (mach_barriers M) = Inr b \<Longrightarrow>
    machine_step envs M (M\<lparr>mach_calls := us @ vs, mach_barriers := b\<rparr>)"
| barrier_continues: "global_barrier_continue stop_barrier (mach_barriers M) = Inr b \<Longrightarrow>
    machine_step envs M (M\<lparr>mach_barriers := b\<rparr>)"
| barrier_done: "machine_step envs M (M\<lparr>mach_barriers := global_barrier_done stop_barrier (mach_barriers M)\<rparr>)"

inductive machine_reach :: "(nat \<Rightarrow> ('d, 'u, 's) actor_env) \<Rightarrow> nat \<Rightarrow> ('d, 'u, 's) machine \<Rightarrow> bool" for envs n where
  start: "length shs = n \<Longrightarrow> (\<And>i. i < n \<Longrightarrow> \<exists>prs st. shs ! i = shard_new prs st) \<Longrightarrow>
    machine_reach envs n \<lparr>mach_shards = shs, mach_calls = [], mach_barriers = no_barriers\<rparr>"
| step: "machine_reach envs n M \<Longrightarrow> machine_step envs M M' \<Longrightarrow> machine_reach envs n M'"

section \<open>All shards have ended\<close>

definition ended :: "('d, 'u, 's) shard \<Rightarrow> bool" where
  "ended s \<longleftrightarrow> root_stop s \<noteq> RUNNING \<and> objs s = Map.empty"

definition ended_shards :: "('d, 'u, 's) machine \<Rightarrow> nat set" where
  "ended_shards M = {i. i < length (mach_shards M) \<and> ended (mach_shards M ! i)}"

definition machine_inv :: "(nat \<Rightarrow> ('d, 'u, 's) actor_env) \<Rightarrow> nat \<Rightarrow> ('d, 'u, 's) machine \<Rightarrow> nat list \<Rightarrow> bool" where
  "machine_inv envs n M as \<longleftrightarrow> length (mach_shards M) = n \<and> (\<forall>i<n. reachable (envs i) (mach_shards M ! i)) \<and>
     gate_inv n stop_barrier as (mach_barriers M) \<and> distinct (as @ mach_calls M) \<and> set (as @ mach_calls M) = ended_shards M"

lemma ended_exits: "env_ok env \<Longrightarrow> reachable env s \<Longrightarrow> exits s = (if ended s then 1 else 0)"
  using reachable_exit_inv [of env s] root_count_zero [OF reachable_ok [of env s]] by (simp add: exit_inv_def ended_def)

lemma machine_moves:
  assumes inv: "machine_inv envs n M as" and e: "\<forall>i<n. env_ok (envs i)" and i: "i < n"
    and s: "shard_step (envs i) (mach_shards M ! i) s'"
  shows "machine_inv envs n (M\<lparr>mach_shards := (mach_shards M)[i := s'],
      mach_calls := mach_calls M @ replicate (exits s' - exits (mach_shards M ! i)) i\<rparr>) as"
proof -
  let ?s = "mach_shards M ! i" and ?M = "M\<lparr>mach_shards := (mach_shards M)[i := s']\<rparr>"
  have len: "length (mach_shards M) = n" and r: "\<forall>i<n. reachable (envs i) (mach_shards M ! i)"
    using inv by (simp_all add: machine_inv_def)
  have r': "reachable (envs i) s'" using shard_step_reachable [OF s] r i by simp
  have x: "exits ?s = (if ended ?s then 1 else 0)" "exits s' = (if ended s' then 1 else 0)"
    using ended_exits [of "envs i" ?s] ended_exits [of "envs i" s'] e r r' i by auto
  have mono: "ended ?s \<Longrightarrow> ended s'" using shard_step_exits [OF s] x by (auto split: if_splits)
  have k: "replicate (exits s' - exits ?s) i = (if ended s' \<and> \<not> ended ?s then [i] else [])" using x by simp
  have "ended_shards ?M = (if ended s' then insert i (ended_shards M) else ended_shards M)"
    using mono i len by (auto simp: ended_shards_def nth_list_update)
  moreover have "i \<in> ended_shards M \<longleftrightarrow> ended ?s" using i len by (simp add: ended_shards_def)
  moreover have "ended_shards (?M\<lparr>mach_calls := cs\<rparr>) = ended_shards ?M" for cs by (simp add: ended_shards_def)
  moreover have "\<forall>t<n. reachable (envs t) ((mach_shards M)[i := s'] ! t)"
    using r r' by (simp add: nth_update_any len)
  ultimately show ?thesis
    using inv mono len unfolding machine_inv_def k by (auto simp: insert_absorb)
qed

lemma machine_reach_inv:
  assumes "machine_reach envs n M" and e: "\<forall>i<n. env_ok (envs i)"
  shows "\<exists>as. machine_inv envs n M as"
  using assms(1)
proof (induction rule: machine_reach.induct)
  case (start shs)
  have "reachable (envs i) (shs ! i)" if "i < n" for i using start(2) [OF that] reachable.start by metis
  moreover have "ended_shards \<lparr>mach_shards = shs, mach_calls = [], mach_barriers = no_barriers\<rparr> = {}"
    using start by (force simp: ended_shards_def ended_def shard_new_def)
  moreover have "gate_inv n stop_barrier [] no_barriers" by (simp add: gate_inv_def no_barriers_def)
  ultimately have "machine_inv envs n \<lparr>mach_shards = shs, mach_calls = [], mach_barriers = no_barriers\<rparr> []"
    using start(1) by (simp add: machine_inv_def)
  then show ?case ..
next
  case (step M M')
  from step.IH obtain as where inv: "machine_inv envs n M as" ..
  have keep: "ended_shards (M\<lparr>mach_barriers := b\<rparr>) = ended_shards M"
    "ended_shards (M\<lparr>mach_calls := cs, mach_barriers := b\<rparr>) = ended_shards M" for cs b by (simp_all add: ended_shards_def)
  from step.hyps(2) show ?case
  proof cases
    case (shard_moves i s')
    have "i < n" using shard_moves(2) inv by (simp add: machine_inv_def)
    from machine_moves [OF inv e this shard_moves(3)] have "machine_inv envs n M' as" unfolding shard_moves(1) .
    then show ?thesis ..
  next
    case (call_arrives us i vs b)
    have "ended_shards M \<subseteq> {0..<n}" using inv by (auto simp: ended_shards_def machine_inv_def)
    then have "i \<notin> set as" "i < n" "distinct as" "set as \<subseteq> {0..<n}"
      using inv call_arrives(2) by (auto simp: machine_inv_def)
    with gate_arrive [of n stop_barrier as "mach_barriers M" i b] have "gate_inv n stop_barrier (as @ [i]) b"
      using inv call_arrives(3) by (simp add: machine_inv_def)
    then have "machine_inv envs n M' (as @ [i])"
      using inv call_arrives(2) unfolding call_arrives(1) machine_inv_def keep by auto
    then show ?thesis ..
  next
    case (barrier_continues b)
    then have "machine_inv envs n M' as" using inv gate_continue [of n stop_barrier as "mach_barriers M" b] by (simp add: machine_inv_def keep)
    then show ?thesis ..
  next
    case barrier_done
    then have "machine_inv envs n M' as" using inv gate_done [of n stop_barrier as "mach_barriers M"] by (simp add: machine_inv_def keep)
    then show ?thesis ..
  qed
qed

text \<open>C4: The machine exits when, and only when, all its shards have ended. Take any interleaving of the events of
  the shards, of the arrival of their reports at shard 0, and of the continuations of the barrier. If
  the barrier of the stop protocol is passed, so that shard 0 clears the system and exits, every shard is
  stopping and has deleted all its actors. Conversely, when every shard has ended and the reports have
  arrived, the barrier is passed once its continuation and its job have run.\<close>

theorem machine_exits_after_all_ended:
  assumes "\<forall>i<n. env_ok (envs i)" and "0 < n" and "machine_reach envs n M"
  shows "(stop_barrier \<in> set (global_passed (mach_barriers M)) \<longrightarrow>
      (\<forall>i<n. root_stop (mach_shards M ! i) \<noteq> RUNNING \<and> objs (mach_shards M ! i) = Map.empty)) \<and>
    ((\<forall>i<n. root_stop (mach_shards M ! i) \<noteq> RUNNING \<and> objs (mach_shards M ! i) = Map.empty) \<and> mach_calls M = [] \<longrightarrow>
      (\<exists>b. global_barrier_continue stop_barrier (mach_barriers M) = Inr b \<and>
        stop_barrier \<in> set (global_passed (global_barrier_done stop_barrier b))))"
proof -
  obtain as where inv: "machine_inv envs n M as" using machine_reach_inv [OF assms(3,1)] ..
  then have g: "gate_inv n stop_barrier as (mach_barriers M)" and d: "distinct as" "set as \<subseteq> ended_shards M"
    and len: "length (mach_shards M) = n" by (auto simp: machine_inv_def)
  have sub: "set as \<subseteq> {0..<n}" using d(2) len by (auto simp: ended_shards_def)
  show ?thesis
  proof (intro conjI impI)
    assume "stop_barrier \<in> set (global_passed (mach_barriers M))"
    then have "set as = {0..<n}" using all_arrived [OF d(1) sub assms(2)] g by (simp add: gate_inv_def)
    then have "{0..<n} \<subseteq> ended_shards M" using d(2) by simp
    then show "\<forall>i<n. root_stop (mach_shards M ! i) \<noteq> RUNNING \<and> objs (mach_shards M ! i) = Map.empty"
      by (auto simp: ended_shards_def ended_def subset_iff)
  next
    assume a: "(\<forall>i<n. root_stop (mach_shards M ! i) \<noteq> RUNNING \<and> objs (mach_shards M ! i) = Map.empty) \<and> mach_calls M = []"
    then have "set as = {0..<n}" using inv by (auto simp: machine_inv_def ended_shards_def ended_def)
    then have "0 \<in> set as" "others as = n - 1" using assms(2) others_all [OF d(1)] by simp_all
    then show "\<exists>b. global_barrier_continue stop_barrier (mach_barriers M) = Inr b \<and>
        stop_barrier \<in> set (global_passed (global_barrier_done stop_barrier b))"
      using g by (auto simp: gate_inv_def global_barrier_continue_def global_barrier_job_def global_barrier_done_def
          split: option.splits sem_wait.splits if_splits)
  qed
qed

text \<open>A machine of one shard that receives a stop message.\<close>

lemma stopped_machine_reach:
  "machine_reach (\<lambda>i. example_env) 1 \<lparr>mach_shards = [example_start\<lparr>root_stop := PEACE_STOPPING, exits := 1\<rparr>], mach_calls = [],
     mach_barriers = no_barriers\<lparr>global_sems := [stop_barrier \<mapsto> \<lparr>sem_count = 0, sem_wait_state = sem_wait.Resolved\<rparr>]\<rparr>\<rparr>"
proof -
  let ?s = "example_start\<lparr>root_stop := PEACE_STOPPING, exits := 1\<rparr>"
  let ?M = "\<lambda>s cs b. \<lparr>mach_shards = [s], mach_calls = cs, mach_barriers = b\<rparr>"
  have a: "machine_reach (\<lambda>i. example_env) 1 (?M example_start [] no_barriers)"
    by (rule machine_reach.start) (auto simp: example_start_def)
  have "shard_step example_env example_start ?s" by (rule shard_step.message [OF example_stop_received])
  then have "machine_step (\<lambda>i. example_env) (?M example_start [] no_barriers) (?M ?s [0] no_barriers)"
    using machine_step.shard_moves [of 0 "?M example_start [] no_barriers" "\<lambda>i. example_env" ?s]
    by (simp add: example_start_def shard_new_def)
  note b = machine_reach.step [OF a this]
  let ?b = "no_barriers\<lparr>global_sems := [stop_barrier \<mapsto> \<lparr>sem_count = 0, sem_wait_state = sem_wait.Resolved\<rparr>]\<rparr>"
  have "machine_step (\<lambda>i. example_env) (?M ?s [0] no_barriers) (?M ?s [] ?b)"
    using machine_step.call_arrives [of "?M ?s [0] no_barriers" "[]" 0 "[]" ?b "\<lambda>i. example_env"]
    by (simp add: global_barrier_def Let_def sem_defs no_barriers_def)
  from machine_reach.step [OF b this] show ?thesis .
qed

theorem machine_exits_after_all_ended_witness:
  "\<exists>b. global_barrier_continue stop_barrier
      (no_barriers\<lparr>global_sems := [stop_barrier \<mapsto> \<lparr>sem_count = 0, sem_wait_state = sem_wait.Resolved\<rparr>]\<rparr>) = Inr b \<and>
    stop_barrier \<in> set (global_passed (global_barrier_done stop_barrier b))"
  using machine_exits_after_all_ended [OF _ _ stopped_machine_reach] example_env_ok
  by (simp add: example_start_def shard_new_def)

end
