(* ===== verification/Bank_Account.thy ===== *)
theory Bank_Account
  imports Hiactor_Prelude
begin

text \<open>
  The bank account sample (\<open>demos/bank_account\<close>): an actor whose methods move its balance. The actor is not
  reentrant, so its messages are processed one after the other, and an execution is a sequence of calls. A future with
  an exception is a failed answer; signed overflow, which C++ leaves undefined, is a fault. The
  dispatch of a message to its method (\<open>do_work\<close>) is generated code.
\<close>

section \<open>The actor\<close>

definition int32 :: "int \<Rightarrow> bool" where
  "int32 x \<longleftrightarrow> - 2147483648 \<le> x \<and> x < 2147483648"

definition int32_res :: "int \<Rightarrow> int res" where
  "int32_res x = (if int32 x then Inr x else Inl Signed_overflow)"

datatype account_error =
    Withdrawal_not_positive
  | Balance_not_enough int int
  | Deposit_not_positive

datatype account_answer = Ready int | Failed account_error

datatype account_call = Withdraw int | Deposit int | Check

text \<open>The state is the balance, which starts at 0.\<close>

definition account_new :: int where "account_new = 0"

definition withdraw :: "int \<Rightarrow> int \<Rightarrow> (account_answer \<times> int) res" where
  "withdraw request balance =
     (if request \<le> 0 then Inr (Failed Withdrawal_not_positive, balance)
      else if request > balance then Inr (Failed (Balance_not_enough request balance), balance)
      else bind_res (int32_res (balance - request)) (\<lambda>b. Inr (Ready b, b)))"

definition deposit :: "int \<Rightarrow> int \<Rightarrow> (account_answer \<times> int) res" where
  "deposit request balance =
     (if request \<le> 0 then Inr (Failed Deposit_not_positive, balance)
      else bind_res (int32_res (balance + request)) (\<lambda>b. Inr (Ready b, b)))"

definition check :: "int \<Rightarrow> (account_answer \<times> int) res" where
  "check balance = Inr (Ready balance, balance)"

fun call_account :: "account_call \<Rightarrow> int \<Rightarrow> (account_answer \<times> int) res" where
  "call_account (Withdraw n) b = withdraw n b"
| "call_account (Deposit n) b = deposit n b"
| "call_account Check b = check b"

fun run_calls :: "account_call list \<Rightarrow> int \<Rightarrow> (account_answer list \<times> int) res" where
  "run_calls [] b = Inr ([], b)"
| "run_calls (c # cs) b =
     bind_res (call_account c b) (\<lambda>(a, b1). bind_res (run_calls cs b1) (\<lambda>(as, b2). Inr (a # as, b2)))"

text \<open>The calls of the sample program, one after the other.\<close>

definition simulate_calls :: "account_call list" where
  "simulate_calls = [Deposit 5, Withdraw 8, Check, Withdraw 3]"

section \<open>The ledger\<close>

text \<open>What a client may conclude from its calls and their answers: the amount moved by a call.\<close>

fun moved :: "account_call \<times> account_answer \<Rightarrow> int" where
  "moved (Deposit n, Ready b) = n"
| "moved (Withdraw n, Ready b) = - n"
| "moved _ = 0"

definition ledger :: "(account_call \<times> account_answer) list \<Rightarrow> int" where
  "ledger h = sum_list (map moved h)"

text \<open>The answer a call must get, given the ledger before it.\<close>

fun honest :: "int \<Rightarrow> account_call \<times> account_answer \<Rightarrow> bool" where
  "honest l (Check, a) \<longleftrightarrow> a = Ready l"
| "honest l (Deposit n, a) \<longleftrightarrow> a = (if n \<le> 0 then Failed Deposit_not_positive else Ready (l + n))"
| "honest l (Withdraw n, a) \<longleftrightarrow>
     a = (if n \<le> 0 then Failed Withdrawal_not_positive else if l < n then Failed (Balance_not_enough n l) else Ready (l - n))"

definition honest_history :: "(account_call \<times> account_answer) list \<Rightarrow> bool" where
  "honest_history h \<longleftrightarrow> (\<forall>i < length h. honest (ledger (take i h)) (h ! i))"

lemma ledger_simps [simp]: "ledger [] = 0" "ledger (x # h) = moved x + ledger h" "ledger (h @ h') = ledger h + ledger h'"
  by (simp_all add: ledger_def)

definition balance_ok :: "int \<Rightarrow> bool" where
  "balance_ok b \<longleftrightarrow> 0 \<le> b \<and> b < 2147483648"

lemma call_account_cases:
  assumes "balance_ok b"
  shows "case call_account c b of
      Inr (a, b') \<Rightarrow> balance_ok b' \<and> honest b (c, a) \<and> b' = b + moved (c, a)
    | Inl e \<Rightarrow> e = Signed_overflow \<and> (\<exists>n. c = Deposit n \<and> 0 < n \<and> 2147483648 \<le> b + n)"
  using assms by (cases c) (auto simp: withdraw_def deposit_def check_def int32_res_def int32_def balance_ok_def)

lemma run_calls_history:
  assumes "balance_ok b" and "run_calls cs b = Inr (as, b')"
  shows "length as = length cs \<and> balance_ok b' \<and> b' = b + ledger (zip cs as) \<and>
    (\<forall>i < length cs. honest (b + ledger (take i (zip cs as))) (cs ! i, as ! i))"
  using assms
proof (induction cs arbitrary: b as)
  case (Cons c cs)
  from Cons.prems(2) obtain a b1 as1 where r: "call_account c b = Inr (a, b1)" "run_calls cs b1 = Inr (as1, b')" "as = a # as1"
    by (auto simp: bind_res_Inr_iff)
  from call_account_cases [OF Cons.prems(1), of c] r(1) have
    c: "balance_ok b1" "honest b (c, a)" "b1 = b + moved (c, a)" by auto
  from Cons.IH [OF c(1) r(2)] have ih: "length as1 = length cs" "balance_ok b'" "b' = b1 + ledger (zip cs as1)"
    "\<And>i. i < length cs \<Longrightarrow> honest (b1 + ledger (take i (zip cs as1))) (cs ! i, as1 ! i)" by auto
  have "honest (b + ledger (take i (zip (c # cs) as))) ((c # cs) ! i, as ! i)" if "i < length (c # cs)" for i
    using that c ih(4) [of "i - 1"] by (cases i) (simp_all add: r(3) add.assoc)
  then show ?case using ih c(3) by (simp add: r(3))
qed simp

lemma run_calls_append:
  "run_calls (cs @ cs') b = bind_res (run_calls cs b) (\<lambda>(as, b1). bind_res (run_calls cs' b1) (\<lambda>(as', b2). Inr (as @ as', b2)))"
  by (induction cs arbitrary: b) (simp_all add: bind_res_def split: sum.splits prod.splits)

lemma run_calls_fault:
  assumes "balance_ok b" and "run_calls cs b = Inl e"
  shows "\<exists>pre n post as b'. cs = pre @ Deposit n # post \<and> run_calls pre b = Inr (as, b') \<and> 0 < n \<and> 2147483648 \<le> b' + n \<and> e = Signed_overflow"
  using assms
proof (induction cs arbitrary: b)
  case (Cons c cs)
  show ?case
  proof (cases "call_account c b")
    case (Inl e')
    with call_account_cases [OF Cons.prems(1), of c] Cons.prems(2) obtain n where
      "c = Deposit n" "0 < n" "2147483648 \<le> b + n" "e = Signed_overflow" by auto
    then show ?thesis by (intro exI [of _ "[]"]) simp
  next
    case (Inr ab)
    obtain a b1 where ab: "ab = (a, b1)" by (cases ab)
    from call_account_cases [OF Cons.prems(1), of c] have "balance_ok b1" by (auto simp: Inr ab)
    moreover have "run_calls cs b1 = Inl e" using Cons.prems(2) by (auto simp: Inr ab bind_res_def split: sum.splits prod.splits)
    ultimately obtain pre n post as b' where p: "cs = pre @ Deposit n # post" "run_calls pre b1 = Inr (as, b')" "0 < n"
      "2147483648 \<le> b' + n" "e = Signed_overflow" using Cons.IH [of b1] by blast
    then have "c # cs = (c # pre) @ Deposit n # post" "run_calls (c # pre) b = Inr (a # as, b')" by (simp_all add: Inr ab)
    then show ?thesis using p(3-5) by blast
  qed
qed simp

text \<open>C25: An account keeps its ledger. For every sequence of calls to a new account: every answer is the one that
  the ledger of the calls answered before it demands (the balance after the call, or the failure of a call that
  is not positive or asks for more than there is, which moves nothing); the balance is the sum of the ledger and
  never negative. The only way in which the calls can go wrong is a deposit that takes the balance out of the
  range of an \<open>int\<close>, before which all calls were answered.\<close>

theorem account_keeps_ledger:
  "case run_calls cs account_new of
     Inr (as, b) \<Rightarrow> length as = length cs \<and> honest_history (zip cs as) \<and> b = ledger (zip cs as) \<and> 0 \<le> b \<and> b < 2147483648
   | Inl e \<Rightarrow> e = Signed_overflow \<and> (\<exists>pre n post as b. cs = pre @ Deposit n # post \<and> run_calls pre account_new = Inr (as, b) \<and>
       0 < n \<and> 2147483648 \<le> b + n)"
proof (cases "run_calls cs account_new")
  case (Inl e)
  from run_calls_fault [OF _ Inl] show ?thesis unfolding Inl by (auto simp: account_new_def balance_ok_def)
next
  case (Inr r)
  obtain as b where r: "r = (as, b)" by (cases r)
  have "balance_ok account_new" by (simp add: account_new_def balance_ok_def)
  from run_calls_history [OF this Inr [unfolded r]] have h: "length as = length cs" "balance_ok b" "b = ledger (zip cs as)"
    "\<forall>i < length cs. honest (ledger (take i (zip cs as))) (cs ! i, as ! i)" by (auto simp: account_new_def)
  then show ?thesis unfolding Inr r by (simp add: honest_history_def balance_ok_def)
qed

text \<open>The sample program prints what its comments say: the second call fails, the last one succeeds.\<close>

lemma simulate_answers:
  "run_calls simulate_calls account_new = Inr ([Ready 5, Failed (Balance_not_enough 8 5), Ready 5, Ready 2], 2)"
  by (simp add: simulate_calls_def account_new_def deposit_def withdraw_def check_def int32_res_def int32_def)

end
