(* ===== verification/Item_Samples.thy ===== *)
theory Item_Samples
  imports Actor_Scheduling Actor_Factory Bank_Account "HOL-Library.List_Lexorder" "HOL-Library.Char_ord"
begin

text \<open>
  The item samples (\<open>demos/actor_samples\<close>): items that can be bought, and actor groups that schedule their children
  by the metadata of the items. The theorems put the comparators of the groups on top of the task queue of
  Actor\_Scheduling and of the metadata of Actor\_Factory: the comparators never fail on the children the samples
  create, they are strict weak orders there, and a group hands out its tasks by priority.
\<close>

section \<open>The stores\<close>

record food_info =
  food_name :: string
  production_date :: string

record medicine_info =
  medicine_name :: string
  urgency_level :: u32

definition food_store :: "u32 \<rightharpoonup> food_info" where
  "food_store =
     [0 \<mapsto> \<lparr>food_name = ''Apple'', production_date = ''2021.04.03''\<rparr>,
      1 \<mapsto> \<lparr>food_name = ''Cake'', production_date = ''2021.07.23''\<rparr>,
      2 \<mapsto> \<lparr>food_name = ''Ham'', production_date = ''2019.09.17''\<rparr>,
      3 \<mapsto> \<lparr>food_name = ''Beer'', production_date = ''2020.12.11''\<rparr>,
      4 \<mapsto> \<lparr>food_name = ''Steak'', production_date = ''2021.10.18''\<rparr>,
      5 \<mapsto> \<lparr>food_name = ''Juice'', production_date = ''2021.06.05''\<rparr>]"

definition medicine_store :: "u32 \<rightharpoonup> medicine_info" where
  "medicine_store =
     [0 \<mapsto> \<lparr>medicine_name = ''Amoxicillin'', urgency_level = 2\<rparr>,
      1 \<mapsto> \<lparr>medicine_name = ''Vitamin C'', urgency_level = 1\<rparr>,
      2 \<mapsto> \<lparr>medicine_name = ''Heart Reliever'', urgency_level = 5\<rparr>,
      3 \<mapsto> \<lparr>medicine_name = ''Band Aid'', urgency_level = 3\<rparr>,
      4 \<mapsto> \<lparr>medicine_name = ''Disinfectant'', urgency_level = 2\<rparr>,
      5 \<mapsto> \<lparr>medicine_name = ''Antihistamine'', urgency_level = 4\<rparr>]"

text \<open>\<open>find\<close> is \<open>unordered_map::at\<close>.\<close>

definition store_find :: "(u32 \<rightharpoonup> 'i) \<Rightarrow> u32 \<Rightarrow> 'i res" where
  "store_find store i = (case store i of None \<Rightarrow> Inl (Thrown ''out_of_range'') | Some x \<Rightarrow> Inr x)"

section \<open>The items\<close>

datatype meta_type = Food_info_type | Medicine_info_type | String_type

datatype meta_value = Food_meta food_info | Medicine_meta medicine_info | String_meta string

type_synonym metas = "(meta_type, meta_value) meta_map"

record item =
  item_id :: u32
  stock :: int
  item_meta :: metas

definition generic_item :: "path \<Rightarrow> item res" where
  "generic_item p = bind_res (actor_id p) (\<lambda>i. Inr \<lparr>item_id = i, stock = 10, item_meta = Map.empty\<rparr>)"

text \<open>A failed purchase carries the request and the stock.\<close>

datatype purchase = Bought int | Stock_not_enough int int

definition buy :: "int \<Rightarrow> item \<Rightarrow> (purchase \<times> item) res" where
  "buy num it =
     (if num > stock it then Inr (Stock_not_enough num (stock it), it)
      else bind_res (int32_res (stock it - num)) (\<lambda>s. Inr (Bought s, it\<lparr>stock := s\<rparr>)))"

definition food_item :: "path \<Rightarrow> item res" where
  "food_item p =
     bind_res (generic_item p) (\<lambda>it.
     bind_res (store_find food_store (item_id it)) (\<lambda>info.
       Inr (it\<lparr>item_meta := add_meta Food_info_type ''food'' (Food_meta info) (item_meta it)\<rparr>)))"

definition medicine_item :: "path \<Rightarrow> item res" where
  "medicine_item p =
     bind_res (generic_item p) (\<lambda>it.
     bind_res (store_find medicine_store (item_id it)) (\<lambda>info.
       Inr (it\<lparr>item_meta := add_meta Medicine_info_type ''medicine'' (Medicine_meta info) (item_meta it)\<rparr>)))"

text \<open>\<open>get_meta_ptr\<close> followed by an access through the pointer.\<close>

definition food_of :: "metas \<Rightarrow> food_info res" where
  "food_of m = bind_res (get_meta_ptr Food_info_type ''food'' m)
     (\<lambda>v. case v of Some (Food_meta info) \<Rightarrow> Inr info | _ \<Rightarrow> Inl Null_deref)"

definition medicine_of :: "metas \<Rightarrow> medicine_info res" where
  "medicine_of m = bind_res (get_meta_ptr Medicine_info_type ''medicine'' m)
     (\<lambda>v. case v of Some (Medicine_meta info) \<Rightarrow> Inr info | _ \<Rightarrow> Inl Null_deref)"

text \<open>\<open>print_info\<close>: what is printed, after the shard.\<close>

definition food_print_info :: "u32 \<Rightarrow> item \<Rightarrow> (u32 \<times> u32 \<times> string \<times> string \<times> int) res" where
  "food_print_info shard it = bind_res (food_of (item_meta it)) (\<lambda>info.
     Inr (shard, item_id it, food_name info, production_date info, stock it))"

definition medicine_print_info :: "u32 \<Rightarrow> item \<Rightarrow> (u32 \<times> u32 \<times> string \<times> u32 \<times> int) res" where
  "medicine_print_info shard it = bind_res (medicine_of (item_meta it)) (\<lambda>info.
     Inr (shard, item_id it, medicine_name info, urgency_level info, stock it))"

section \<open>The groups\<close>

definition food_group_meta :: metas where
  "food_group_meta = add_meta String_type ''group_name'' (String_meta ''food_group'') Map.empty"

definition medicine_group_meta :: metas where
  "medicine_group_meta = add_meta String_type ''group_name'' (String_meta ''medicine_group'') Map.empty"

definition food_compare :: "metas \<Rightarrow> metas \<Rightarrow> bool res" where
  "food_compare a b =
     bind_res (food_of a) (\<lambda>x. bind_res (food_of b) (\<lambda>y. Inr (production_date x > production_date y)))"

definition medicine_compare :: "metas \<Rightarrow> metas \<Rightarrow> bool res" where
  "medicine_compare a b =
     bind_res (medicine_of a) (\<lambda>x. bind_res (medicine_of b) (\<lambda>y. Inr (urgency_level x < urgency_level y)))"

definition group_name_of :: "metas \<Rightarrow> string res" where
  "group_name_of m = bind_res (get_meta String_type ''group_name'' m)
     (\<lambda>v. case v of String_meta s \<Rightarrow> Inr s | _ \<Rightarrow> Inl Bad_cast)"

text \<open>\<open>&&\<close> reads the name of \<open>b\<close> only when the first test holds.\<close>

definition item_compare :: "metas \<Rightarrow> metas \<Rightarrow> bool res" where
  "item_compare a b =
     bind_res (group_name_of a) (\<lambda>x.
       if x \<noteq> ''medicine_group'' then bind_res (group_name_of b) (\<lambda>y. Inr (y = ''medicine_group'')) else Inr False)"

text \<open>The queue of a \<open>schedulable_actor_group\<close> after its children have activated themselves in some order.
  A comparator that throws does not return true.\<close>

definition group_comparator :: "(metas \<Rightarrow> metas \<Rightarrow> bool res) \<Rightarrow> ('a \<Rightarrow> metas) \<Rightarrow> 'a \<Rightarrow> 'a \<Rightarrow> bool" where
  "group_comparator compare meta a b \<longleftrightarrow> compare (meta a) (meta b) = Inr True"

definition schedulable_queue :: "('a \<Rightarrow> 'a \<Rightarrow> bool) \<Rightarrow> 'a list \<Rightarrow> 'a task_queue" where
  "schedulable_queue cmp ts = fold push_task ts (set_comparator cmp task_queue_new)"

fun pop_tasks :: "'a make_heap \<Rightarrow> 'a pop_heap \<Rightarrow> nat \<Rightarrow> 'a task_queue \<Rightarrow> 'a list res" where
  "pop_tasks mk pp 0 q = Inr []"
| "pop_tasks mk pp (Suc n) q = bind_res (pop_task mk pp q) (\<lambda>(t, q'). bind_res (pop_tasks mk pp n q') (\<lambda>ts. Inr (t # ts)))"

text \<open>The children of the groups in the samples: a path and what the constructor put into the metadata.\<close>

definition food_child :: "path \<times> food_info \<Rightarrow> metas" where
  "food_child c = add_meta Food_info_type ''food'' (Food_meta (snd c)) Map.empty"

definition medicine_child :: "path \<times> medicine_info \<Rightarrow> metas" where
  "medicine_child c = add_meta Medicine_info_type ''medicine'' (Medicine_meta (snd c)) Map.empty"

definition group_child :: "path \<times> bool \<Rightarrow> metas" where
  "group_child c = (if snd c then medicine_group_meta else food_group_meta)"

section \<open>Scheduling by priority\<close>

lemma item_metas:
  "food_item p = Inr it \<Longrightarrow> \<exists>info. item_meta it = food_child (p, info) \<and> food_store (item_id it) = Some info \<and> stock it = 10"
  "medicine_item p = Inr it' \<Longrightarrow> \<exists>info. item_meta it' = medicine_child (p, info) \<and> medicine_store (item_id it') = Some info \<and> stock it' = 10"
  by (auto simp: food_item_def medicine_item_def generic_item_def store_find_def food_child_def medicine_child_def
      bind_res_Inr_iff split: option.splits)

lemma compare_children [simp]:
  "food_compare (food_child a) (food_child b) = Inr (production_date (snd b) < production_date (snd a))"
  "medicine_compare (medicine_child c) (medicine_child d) = Inr (urgency_level (snd c) < urgency_level (snd d))"
  "item_compare (group_child x) (group_child y) = Inr (\<not> snd x \<and> snd y)"
  by (simp_all add: food_compare_def food_of_def food_child_def medicine_compare_def medicine_of_def medicine_child_def
      item_compare_def group_name_of_def group_child_def food_group_meta_def medicine_group_meta_def get_meta_ptr_def get_meta_def
      add_meta_def)

lemma swo_key: "strict_weak_order (\<lambda>a b. f a < (f b :: 'k :: linorder))" "strict_weak_order (\<lambda>a b. f b < (f a :: 'k :: linorder))"
  by (auto simp: strict_weak_order_def)

lemma schedulable_queue_inv:
  assumes "strict_weak_order cmp"
  shows "tq_inv (schedulable_queue cmp ts) \<and> urgent_q (schedulable_queue cmp ts) = [] \<and>
    comparator (schedulable_queue cmp ts) = Some cmp \<and> normal_q (schedulable_queue cmp ts) = ts"
proof (induction ts rule: rev_induct)
  case Nil
  then show ?case using assms
    by (simp add: schedulable_queue_def set_comparator_def task_queue_new_def tq_inv_def is_heap_def)
next
  case (snoc t ts)
  then show ?case using assms by (auto simp: schedulable_queue_def push_task_def tq_inv_def)
qed

lemma pop_tasks_sorted:
  assumes h: "std_heap mk pp"
  shows "tq_inv q \<Longrightarrow> urgent_q q = [] \<Longrightarrow> comparator q = Some cmp \<Longrightarrow>
    \<exists>ts. pop_tasks mk pp (length (normal_q q)) q = Inr ts \<and> mset ts = mset (normal_q q) \<and> sorted_wrt (\<lambda>a b. \<not> cmp a b) ts"
proof (induction "length (normal_q q)" arbitrary: q)
  case 0
  then show ?case by simp
next
  case (Suc n)
  then have "normal_q q \<noteq> []" by auto
  from std_heap.pop_normal [OF h Suc.prems this] obtain t q' where
    t: "pop_task mk pp q = Inr (t, q')" "tq_inv q'" "urgent_q q' = []" "comparator q' = Some cmp"
      "mset (normal_q q) = add_mset t (mset (normal_q q'))" "\<forall>t' \<in> set (normal_q q). \<not> cmp t t'" by blast
  from t(5) have l: "length (normal_q q) = Suc (length (normal_q q'))" by (metis size_mset size_add_mset)
  then obtain ts where ts: "pop_tasks mk pp (length (normal_q q')) q' = Inr ts" "mset ts = mset (normal_q q')"
    "sorted_wrt (\<lambda>a b. \<not> cmp a b) ts" using Suc.hyps(1) [OF _ t(2-4)] Suc.hyps(2) by auto
  have "set ts \<subseteq> set (normal_q q)" using t(5) ts(2) by (metis mset_subset_eq_add_right add_mset_add_single set_mset_mono set_mset_mset union_commute)
  then show ?case using t ts l by auto
qed

lemma group_pops_sorted:
  assumes "std_heap mk pp" and "strict_weak_order cmp"
  shows "\<exists>ts. pop_tasks mk pp (length cs) (schedulable_queue cmp cs) = Inr ts \<and> mset ts = mset cs \<and> sorted_wrt (\<lambda>a b. \<not> cmp a b) ts"
  using pop_tasks_sorted [OF assms(1), of "schedulable_queue cmp cs" cmp] schedulable_queue_inv [OF assms(2), of cs] by simp

lemma sorted_dropWhile: "sorted_wrt (\<lambda>a b. P a \<or> \<not> P b) ts \<Longrightarrow> \<not> list_ex P (dropWhile P ts)"
proof (induction ts)
  case (Cons t ts)
  then have "sorted_wrt (\<lambda>a b. P a \<or> \<not> P b) ts" "\<forall>u \<in> set ts. P t \<or> \<not> P u" by simp_all
  then show ?case using Cons.IH by (cases "P t") (simp_all add: list_ex_iff)
qed simp

lemma child_orders:
  "strict_weak_order (group_comparator food_compare food_child)"
  "strict_weak_order (group_comparator medicine_compare medicine_child)"
  "strict_weak_order (group_comparator item_compare group_child)"
  unfolding group_comparator_def compare_children
  using swo_key(2) [of "production_date \<circ> snd"] swo_key(1) [of "urgency_level \<circ> snd"]
  by (simp_all add: strict_weak_order_def)

text \<open>C24: The groups of the item samples run their children by priority. With heap algorithms as the standard
  promises them, and whatever the order in which the children became active: a food group hands out its items
  by production date, the oldest first, a medicine group by urgency, the most urgent first, and an item group
  its medicine groups before the others; each of them every child once.\<close>

theorem samples_scheduled_by_priority:
  assumes "std_heap mkf ppf" and "std_heap mkm ppm" and "std_heap mkg ppg"
  shows "(\<exists>ts. pop_tasks mkf ppf (length fs) (schedulable_queue (group_comparator food_compare food_child) fs) = Inr ts \<and>
      mset ts = mset fs \<and> sorted (map (production_date \<circ> snd) ts)) \<and>
    (\<exists>ts. pop_tasks mkm ppm (length ms) (schedulable_queue (group_comparator medicine_compare medicine_child) ms) = Inr ts \<and>
      mset ts = mset ms \<and> sorted (rev (map (urgency_level \<circ> snd) ts))) \<and>
    (\<exists>xs ys. pop_tasks mkg ppg (length gs) (schedulable_queue (group_comparator item_compare group_child) gs) = Inr (xs @ ys) \<and>
      mset (xs @ ys) = mset gs \<and> list_all snd xs \<and> \<not> list_ex snd ys)"
proof (intro conjI)
  from group_pops_sorted [OF assms(1) child_orders(1), of fs] show "\<exists>ts. pop_tasks mkf ppf (length fs)
      (schedulable_queue (group_comparator food_compare food_child) fs) = Inr ts \<and> mset ts = mset fs \<and> sorted (map (production_date \<circ> snd) ts)"
    by (simp add: group_comparator_def sorted_wrt_map not_less)
  from group_pops_sorted [OF assms(2) child_orders(2), of ms] show "\<exists>ts. pop_tasks mkm ppm (length ms)
      (schedulable_queue (group_comparator medicine_compare medicine_child) ms) = Inr ts \<and> mset ts = mset ms \<and>
      sorted (rev (map (urgency_level \<circ> snd) ts))"
    by (simp add: group_comparator_def sorted_wrt_map sorted_wrt_rev rev_map [symmetric] not_less)
  from group_pops_sorted [OF assms(3) child_orders(3), of gs] obtain ts where
    ts: "pop_tasks mkg ppg (length gs) (schedulable_queue (group_comparator item_compare group_child) gs) = Inr ts" "mset ts = mset gs"
      "sorted_wrt (\<lambda>a b. snd a \<or> \<not> snd b) ts" by (auto simp: group_comparator_def)
  have "\<not> list_ex snd (dropWhile snd ts)" by (rule sorted_dropWhile [OF ts(3)])
  moreover have "list_all snd (takeWhile snd ts)" by (auto simp: list_all_iff dest: set_takeWhileD)
  ultimately show "\<exists>xs ys. pop_tasks mkg ppg (length gs) (schedulable_queue (group_comparator item_compare group_child) gs) = Inr (xs @ ys) \<and>
      mset (xs @ ys) = mset gs \<and> list_all snd xs \<and> \<not> list_ex snd ys"
    using ts(1,2) by (intro exI [of _ "takeWhile snd ts"] exI [of _ "dropWhile snd ts"]) simp
qed

text \<open>The children of the scheduling sample, in the order in which it calls them. The id of a child in its
  group holds its type, a number that the code generator assigns, and its actor id.\<close>

definition item_path :: "nat \<Rightarrow> nat \<Rightarrow> path" where
  "item_path ty i = [word_of_nat (65536 * i + ty)]"

definition sample_foods :: "nat \<Rightarrow> (path \<times> food_info) list" where
  "sample_foods ty = map (\<lambda>i. (item_path ty i, the (food_store (word_of_nat i)))) [0..<6]"

definition sample_medicines :: "nat \<Rightarrow> (path \<times> medicine_info) list" where
  "sample_medicines ty = map (\<lambda>i. (item_path ty i, the (medicine_store (word_of_nat i)))) [0..<6]"

definition sample_groups :: "nat \<Rightarrow> nat \<Rightarrow> (path \<times> bool) list" where
  "sample_groups food_ty medicine_ty = [(item_path food_ty 1, False), (item_path medicine_ty 2, True)]"

lemma upt_six: "[0..<6] = [0, 1, 2, 3, 4, 5 :: nat]"
  by (simp add: upt_conv_Cons)

text \<open>These are the items that the constructors build.\<close>

lemma item_path_id:
  assumes "ty < 65536" and "i < 4294967296"
  shows "actor_id (item_path ty i) = Inr (word_of_nat i)"
proof -
  let ?v = "65536 * i + ty"
  have "?v < 2 ^ LENGTH(64)" using assms by simp
  then have u: "unat (word_of_nat ?v :: u64) = ?v" by (simp only: unat_of_nat take_bit_nat_eq_self mod_less)
  have d: "?v div 256 div 256 = i" using assms(1) by (simp flip: div_mult2_eq)
  have "actor_address (hd (item_path ty i)) = nat_to_le (Suc (Suc 4)) ?v"
    unfolding actor_address_def item_path_def list.sel u by (simp add: addr_consts)
  also have "\<dots> = word_of_nat ?v # word_of_nat (?v div 256) # nat_to_le 4 (?v div 256 div 256)"
    by (simp only: nat_to_le.simps)
  finally show ?thesis unfolding d
    using assms(2) by (simp add: actor_id_def load_unaligned_int_def mem_load_def int_of_bytes_def addr_consts le_to_nat_nat_to_le)
qed

lemma sample_items_built:
  assumes "ty < 65536" and "i < 6"
  shows "\<exists>it. food_item (item_path ty i) = Inr it \<and> item_id it = word_of_nat i \<and> item_meta it = food_child (sample_foods ty ! i)"
    and "\<exists>it. medicine_item (item_path ty i) = Inr it \<and> item_id it = word_of_nat i \<and> item_meta it = medicine_child (sample_medicines ty ! i)"
proof -
  have "actor_id (item_path ty i) = Inr (word_of_nat i)" using assms by (intro item_path_id) simp_all
  moreover have "i \<in> set [0..<6]" using assms(2) by simp
  then have "i = 0 \<or> i = 1 \<or> i = 2 \<or> i = 3 \<or> i = 4 \<or> i = 5" unfolding upt_six by simp
  then obtain f m where "food_store (word_of_nat i) = Some f" "medicine_store (word_of_nat i) = Some m"
    by (auto simp: food_store_def medicine_store_def)
  ultimately show "\<exists>it. food_item (item_path ty i) = Inr it \<and> item_id it = word_of_nat i \<and> item_meta it = food_child (sample_foods ty ! i)"
    and "\<exists>it. medicine_item (item_path ty i) = Inr it \<and> item_id it = word_of_nat i \<and> item_meta it = medicine_child (sample_medicines ty ! i)"
    using assms(2) by (simp_all add: food_item_def medicine_item_def generic_item_def store_find_def sample_foods_def sample_medicines_def
      food_child_def medicine_child_def)
qed

lemma sample_keys:
  "map (production_date \<circ> snd) (sample_foods ty) = [''2021.04.03'', ''2021.07.23'', ''2019.09.17'', ''2020.12.11'', ''2021.10.18'', ''2021.06.05'']"
  "map (urgency_level \<circ> snd) (sample_medicines ty) = [2, 1, 5, 3, 2, 4]"
  by (simp_all add: upt_six sample_foods_def food_store_def sample_medicines_def medicine_store_def)

theorem samples_scheduled_by_priority_witness:
  "(\<exists>ts. pop_tasks sort_heap_by pop_sorted 6 (schedulable_queue (group_comparator food_compare food_child) (sample_foods 7)) = Inr ts \<and>
      map (production_date \<circ> snd) ts = [''2019.09.17'', ''2020.12.11'', ''2021.04.03'', ''2021.06.05'', ''2021.07.23'', ''2021.10.18'']) \<and>
    (\<exists>ts. pop_tasks sort_heap_by pop_sorted 6 (schedulable_queue (group_comparator medicine_compare medicine_child) (sample_medicines 8)) = Inr ts \<and>
      map (urgency_level \<circ> snd) ts = [5, 4, 3, 2, 2, 1]) \<and>
    pop_tasks sort_heap_by pop_sorted 2 (schedulable_queue (group_comparator item_compare group_child) (sample_groups 5 6)) =
      Inr [(item_path 6 2, True), (item_path 5 1, False)]"
proof -
  note t = samples_scheduled_by_priority [OF sort_heap.std_heap_axioms sort_heap.std_heap_axioms sort_heap.std_heap_axioms,
      of "sample_foods 7" "sample_medicines 8" "sample_groups 5 6"]
  have len: "length (sample_foods 7) = 6" "length (sample_medicines 8) = 6" "length (sample_groups 5 6) = 2"
    by (simp_all add: sample_foods_def sample_medicines_def sample_groups_def)
  from t obtain fs where fs: "pop_tasks sort_heap_by pop_sorted 6 (schedulable_queue (group_comparator food_compare food_child) (sample_foods 7)) = Inr fs"
    "mset fs = mset (sample_foods 7)" "sorted (map (production_date \<circ> snd) fs)" unfolding len by blast
  have "map (production_date \<circ> snd) fs = sort (map (production_date \<circ> snd) (sample_foods 7))"
    by (rule properties_for_sort [symmetric, OF _ fs(3)]) (simp only: mset_map fs(2))
  also have "\<dots> = [''2019.09.17'', ''2020.12.11'', ''2021.04.03'', ''2021.06.05'', ''2021.07.23'', ''2021.10.18'']"
    unfolding sample_keys by code_simp
  finally have 1: "map (production_date \<circ> snd) fs = [''2019.09.17'', ''2020.12.11'', ''2021.04.03'', ''2021.06.05'', ''2021.07.23'', ''2021.10.18'']" .
  from t obtain ms where ms: "pop_tasks sort_heap_by pop_sorted 6 (schedulable_queue (group_comparator medicine_compare medicine_child) (sample_medicines 8)) = Inr ms"
    "mset ms = mset (sample_medicines 8)" "sorted (rev (map (urgency_level \<circ> snd) ms))" unfolding len by blast
  have "rev (map (urgency_level \<circ> snd) ms) = sort (map (urgency_level \<circ> snd) (sample_medicines 8))"
    by (rule properties_for_sort [symmetric, OF _ ms(3)]) (simp only: mset_map mset_rev ms(2))
  also have "\<dots> = [1, 2, 2, 3, 4, 5]" unfolding sample_keys by code_simp
  finally have "map (urgency_level \<circ> snd) ms = rev [1, 2, 2, 3, 4, 5]" by (simp only: rev_swap rev_rev_ident)
  then have 2: "map (urgency_level \<circ> snd) ms = [5, 4, 3, 2, 2, 1]" by simp
  have 3: "pop_tasks sort_heap_by pop_sorted 2 (schedulable_queue (group_comparator item_compare group_child) (sample_groups 5 6)) =
      Inr [(item_path 6 2, True), (item_path 5 1, False)]"
    by (simp add: sample_groups_def numeral_2_eq_2 schedulable_queue_def pop_task_def push_task_def set_comparator_def task_queue_new_def
        sort_heap_by_def pop_sorted_def group_comparator_def)
  show ?thesis
    apply (intro conjI)
      apply (rule exI [of _ fs], rule conjI, rule fs(1), rule 1)
     apply (rule exI [of _ ms], rule conjI, rule ms(1), rule 2)
    apply (rule 3)
    done
qed

text \<open>Purchases: a number that is not negative is taken from the stock or refused; a negative one is always accepted,
  and raises the stock.\<close>

lemma buy_keeps_stock:
  assumes "0 \<le> n" and "0 \<le> stock it" and "int32 (stock it)"
  shows "\<exists>r it'. buy n it = Inr (r, it') \<and> 0 \<le> stock it' \<and> stock it' \<le> stock it \<and>
    r = (if stock it < n then Stock_not_enough n (stock it) else Bought (stock it - n)) \<and> stock it' = (if stock it < n then stock it else stock it - n)"
  using assms by (auto simp: buy_def int32_res_def int32_def)

lemma buy_negative:
  assumes "0 < n" and "int32 (stock it + n)" and "0 \<le> stock it"
  shows "\<exists>it'. buy (- n) it = Inr (Bought (stock it + n), it') \<and> stock it' = stock it + n"
  using assms by (simp add: buy_def int32_res_def)

text \<open>The simple sample: item \<open>i\<close> is created by the first call to it, which buys \<open>i + 6\<close> of the ten in stock.\<close>

definition simple_purchase :: "nat \<Rightarrow> nat \<Rightarrow> purchase res" where
  "simple_purchase ty i = bind_res (food_item (item_path ty i)) (\<lambda>it. bind_res (buy (int i + 6) it) (\<lambda>(r, it'). Inr r))"

lemma simple_purchases:
  assumes "ty < 65536" and "i < 6"
  shows "simple_purchase ty i = Inr (if i < 5 then Bought (4 - int i) else Stock_not_enough 11 10)"
proof -
  obtain it where it: "food_item (item_path ty i) = Inr it" using sample_items_built(1) [OF assms] by blast
  have "stock it = 10" using item_metas(1) [OF it] by blast
  then show ?thesis using assms(2) by (auto simp: simple_purchase_def it buy_def int32_res_def int32_def)
qed

end
