(* ===== verification/Spec2Isabelle.thy ===== *)
theory Spec2Isabelle
  imports Batch_Sharing Message_Typing Actor_Factory Cluster_Start Connection_Shutdown Sleep_Protocol Gpu_Pool System_Lifecycle
    Machine_Stop Item_Samples
begin

text \<open>
  A verification of hiactor, a framework for distributed actors on the reactors of seastar.

  \<^bold>\<open>The program.\<close> A machine runs one reactor thread (a shard) per core; a cluster is a list of machines,
  and its shards are numbered globally. Actors live in a tree of actor groups below the root group of a
  shard and are named by addresses that spell out the path. A call to an actor becomes a message: if the
  address names the own shard it goes into the mailbox of the actor, if it names another shard of the
  machine it goes through the local channel, and otherwise through the network channel to the shard that
  holds a connection to the machine. Requests carry an identifier of the promise manager, and the answer
  comes back as a message to the requesting shard. Blocking work is handed to threads outside the reactors.

  \<^bold>\<open>How the code is modelled.\<close> Structures are records, enumerations datatypes, fixed-width integers words,
  raw memory lists of cells, heaps explicit stores. A function that can fail has the result type \<open>res\<close>: a
  value, or a fault of the prelude (assertion, out of bounds, null, uninitialised storage, wrong type,
  division by zero, signed overflow, exception). Code that may run for ever is a \<open>partial_function\<close> whose value \<open>None\<close> means
  that it does not return. Concurrent code is a set of steps, one per access to shared memory, and the
  theorems quantify over all interleavings. Seastar, boost, CUDA and the operating system are not part of the
  repository: what is used of them is a parameter with its documented laws (a locale or a named hypothesis),
  or, for futures, promises, semaphores and event descriptors, state with explicit resolution steps.

  \<^bold>\<open>Theories and sources\<close> (paths below \<open>include/hiactor\<close> and \<open>src\<close>).
  \<^item> \<open>Hiactor_Prelude\<close>: words, faults, sequencing, memory blocks.
  \<^item> \<open>Unaligned_Int\<close> (\<open>util/unaligned_int.hh\<close>): byte access to integers; locale of codecs.
  \<^item> \<open>Serializable_Queue\<close> (\<open>net/serializable_queue.hh\<close>): the queue of buffers over its node heap; refines a FIFO
    queue; where moving and peeking break it.
  \<^item> \<open>Actor_Address\<close> (\<open>core/actor_message.hh\<close>, \<open>core/reference_base.hh\<close>): addresses as bytes, the scope builder
    and references; refines paths of scopes; addresses are unique.
  \<^item> \<open>Promise_Manager\<close> (\<open>core/promise_manager.hh\<close>): refines a pool of outstanding requests.
  \<^item> \<open>Data_Types\<close>, \<open>Actor_Message\<close> (\<open>util/data_type.hh\<close>, \<open>core/actor_message.hh\<close>, \<open>net/connection.cc\<close>): payloads, the
    wire format, sender and receiver loops; messages survive the network.
  \<^item> \<open>Column_Batch\<close> (\<open>core/column_batch.hh\<close>, \<open>core/cb_table.hh\<close>): byte buffers of rows; round trips and limits.
    \<open>Batch_Sharing\<close> puts the buffers on a heap and models \<open>share\<close>: batches on the same memory refine cursors
    into one array, and rows that were there before stay readable.
  \<^item> \<open>Actor_Scheduling\<close>, \<open>Actor_Core\<close>, \<open>Actor_Run\<close> (\<open>core/actor_scheduling.hh\<close>, \<open>core/actor_core.*\<close>,
    \<open>core/actor-template.*\<close>, \<open>core/root_actor_group.*\<close>): the objects of a shard in an explicit store, scheduling,
    mailboxes, turns of actors and groups, creation, stopping and cancelling. \<open>Actor_Invariant\<close> states the
    invariant of a shard, \<open>Actor_Safety\<close> and \<open>Turn_Safety\<close> show that every operation keeps it, \<open>Actor_System\<close>
    draws the conclusions for all reachable states. \<open>Stop_Protocol\<close> follows the part of the root that decides about
    the exit through every operation: a shard reports its end exactly once, when it has no actors left.
  \<^item> \<open>Actor_Timer\<close> (\<open>core/actor_timer.*\<close>, \<open>set_timer\<close> and \<open>need_yield\<close> of \<open>core/actor_core.cc\<close>): the time quota of a turn
    and the places of the turns that read it; how much work is started after the quota has ended.
  \<^item> \<open>Actor_Client\<close> (\<open>core/actor_client.hh\<close>, \<open>cancel_scope_request\<close>): requests and the continuations that wait for
    the response; composed with the promise table and the root, every request gets its own response.
  \<^item> \<open>Message_Typing\<close>: types of payloads; a message keeps its type from creation over the network to
    unpacking, so that no cast of the code reads an object of another type.
  \<^item> \<open>Actor_Factory\<close> (\<open>core/actor_factory.*\<close>, \<open>core/actor_core.*\<close>): the directory of constructors that
    stands behind the parameter \<open>factory\<close>, and the identity, scope and metadata of an actor.
  \<^item> \<open>Message_Queue\<close>, \<open>Channel_Matrix\<close>, \<open>Local_Channel\<close> (\<open>core/local_channel.*\<close>): the queue of a pair of shards, the
    matrix of queues, the local channel; exactly-once FIFO delivery. \<open>Service_Group\<close> models the service
    groups of the same files.
  \<^item> \<open>Sleep_Protocol\<close> (\<open>core/actor_pollfn.hh\<close>, \<open>maybe_wakeup\<close>): no wake-up is lost, with store buffers.
  \<^item> \<open>Network_Config\<close> (\<open>core/actor-app.cc\<close>, \<open>net/network_config.hh\<close>, \<open>util/machine_info.hh\<close>, \<open>core/shard-config.hh\<close>,
    \<open>net/lba_policy.hh\<close>): node list, validation, connection plan, shard numbering.
  \<^item> \<open>Dynamic_Queue\<close> (\<open>core/dynamic-queue.hh\<close>), \<open>Network_Channel\<close> (\<open>net/network_channel.*\<close>, \<open>net/connection.hh\<close>):
    connection buffers, network queues, the routing table in its memory block, connection tables.
  \<^item> \<open>Connection_Setup\<close> (\<open>net/entry.hh\<close>, \<open>net/connection.*\<close>, \<open>net/network_io.*\<close>): entries, listening on all shards, the
    greeting of a connection, the connection manager and its end. \<open>Network_Start\<close> composes the plan, the connections,
    the greetings, the connection tables and the routing table: a cluster that starts is connected, and what
    happens when a connection fails. \<open>Cluster_Start\<close> lets the machines of a cluster start together: \<open>start_and_connect\<close>
    with the two global barriers of the coordinators, under every interleaving; no machine connects before all
    listen, and the start does not get stuck. \<open>Connection_Shutdown\<close> has the sender and receiver loops of all
    managers while they stop: the stops complete together, and a stop waits for its peers.
  \<^item> \<open>Coordinator\<close> (\<open>core/coordinator.*\<close>, \<open>core/coordinator_worker.*\<close>) and \<open>Thread_Pool\<close>
    (\<open>core/thread_resource_pool.*\<close>, \<open>core/alien_thread_pool.*\<close>): threads outside the reactors. \<open>Gpu_Pool\<close> (\<open>core/gpu_resource_pool.*\<close>):
    the streams of the devices and their promises, with the handles of the CUDA runtime as arguments.
  \<^item> \<open>Machine_Stop\<close> (\<open>wait_others_and_exit\<close>, \<open>core/coordinator.cc\<close>): the shards of a machine and the barrier at which they
    report their end, under every interleaving; the machine exits exactly when all shards have ended.
  \<^item> \<open>System_Lifecycle\<close> (\<open>core/actor-app.cc\<close>, \<open>core/root_actor_group.cc\<close>, \<open>core/local_channel.cc\<close>): configuration, pollers,
    the end of the actor system, the destructors of the queues, \<open>actor_app::run\<close> and the default options.
  \<^item> \<open>Bank_Account\<close> and \<open>Item_Samples\<close> (\<open>demos/bank_account\<close>, \<open>demos/actor_samples\<close>): the actors of the samples as clients of the
    library. An account keeps its ledger under any sequence of calls; the comparators of the item groups, on the
    metadata of their children, make the task queue of a group hand out its tasks by priority.

  \<^bold>\<open>Bounds and fuel.\<close> No loop is cut off by fuel. The number 8 in \<open>engine_run\<close> bounds the depth of nested groups,
  which is the number of layers an address has room for. Hypotheses on sizes (fewer than 2^32 shards, a routing table that
  fits into 32-bit arithmetic) are stated where the code computes with 32 bits. User code (\<open>do_work\<close>, continuations,
  jobs) is a parameter and returns.

  \<^bold>\<open>Not modelled.\<close> The sockets themselves (a connection is a token, and what accept, connect and read give is an
  argument), the clock behind their timeouts (a timeout is one of the outcomes) and signals: seastar I/O. The contents of metrics
  and of log lines. The CUDA wrappers, which only forward to the CUDA runtime. The Python code generator and the code it
  generates (references, \<open>do_work\<close>), which is a parameter where the library calls it; the demos of the thread and GPU pools,
  whose only logic is one call to a modelled pool; tests and build files; the patch of seastar.
\<close>

end
